(* ===== verification/Prelude.thy ===== *)
theory Prelude
  imports Main "HOL-Library.Word"
begin

text \<open>
  The shared vocabulary of the development: the machine types of the C++ sources, the limits
  of \<open>std::numeric_limits\<close> the code compares against, the arithmetic of
  \<open>std::size_t\<close> on power-of-two tables (written \<open>& (capacity - 1)\<close> in the code), and the
  generic list lemmas that the component theories use.

  A \<open>std::size_t\<close> or an array index is a \<^typ>\<open>nat\<close>; where the code relies on its
  wrap-around, \<open>size_sub\<close> writes it out. Keys, sequence numbers, quantities and counters are
  words, so their arithmetic wraps as in the code.
\<close>

unbundle bit_operations_syntax

type_synonym u8 = "8 word"
type_synonym u16 = "16 word"
type_synonym u32 = "32 word"
type_synonym u64 = "64 word"
type_synonym bytes = "8 word list"

named_theorems masks "Reading a bit mask over a power of two as a remainder."
named_theorems wire "Unfolding of the big-endian readers and writers."

text \<open>\<open>std::size_t\<close> subtraction wraps modulo \<open>2 ^ 64\<close>.\<close>

definition size_sub :: "nat \<Rightarrow> nat \<Rightarrow> nat" where
  "size_sub a b = (a + 2 ^ 64 - b) mod 2 ^ 64"

abbreviation UINT64_MAX :: u64 where "UINT64_MAX \<equiv> - 1"
abbreviation UINT32_MAX :: nat where "UINT32_MAX \<equiv> 4294967295"

text \<open>Cyclic successor and cyclic distance of slots of a table with \<open>c\<close> slots.\<close>

definition cyc_next :: "nat \<Rightarrow> nat \<Rightarrow> nat" where
  "cyc_next c s = (if s + 1 = c then 0 else s + 1)"

definition cyc_dist :: "nat \<Rightarrow> nat \<Rightarrow> nat \<Rightarrow> nat" where
  "cyc_dist c h s = (if h \<le> s then s - h else c + s - h)"

lemma and_mask_mod [masks]: "(x::nat) AND (2 ^ n - 1) = x mod 2 ^ n"
  by (metis mask_eq_exp_minus_1 take_bit_eq_mask take_bit_eq_mod)

lemma and_mask_mod_Suc [masks]: "(x::nat) AND (2 ^ n - Suc 0) = x mod 2 ^ n"
  using and_mask_mod [of x n] by simp

lemma and_mask_less: "(x::nat) AND (2 ^ n - 1) < 2 ^ n"
  by (simp add: masks)

lemma and_mask_next: "s < 2 ^ n \<Longrightarrow> (s + 1) AND (2 ^ n - 1) = cyc_next (2 ^ n) s"
  by (auto simp: masks cyc_next_def)

lemma size_sub_mask:
  assumes "a < 2 ^ n" "b < 2 ^ n" "n \<le> 64"
  shows "size_sub a b AND (2 ^ n - 1) = cyc_dist (2 ^ n) b a"
proof -
  have dvd: "(2::nat) ^ n dvd 2 ^ 64" using assms(3) by (rule le_imp_power_dvd)
  have "size_sub a b AND (2 ^ n - 1) = (a + 2 ^ 64 - b) mod 2 ^ n"
    using dvd by (simp add: size_sub_def masks mod_mod_cancel del: power_numeral)
  also have "\<dots> = cyc_dist (2 ^ n) b a"
  proof (cases "b \<le> a")
    case True
    then have "a + 2 ^ 64 - b = (a - b) + 2 ^ 64" by simp
    moreover have "a - b < 2 ^ n" using assms(1) by simp
    ultimately show ?thesis using True dvd
      by (metis cyc_dist_def dvd_imp_mod_0 mod_add_right_eq mod_less add.right_neutral)
  next
    case False
    obtain q where q: "(2::nat) ^ 64 = 2 ^ n * q" using dvd by (rule dvdE)
    then have "q \<noteq> 0" by (cases q) auto
    then have "a + 2 ^ 64 - b = (2 ^ n + a - b) + 2 ^ n * (q - 1)"
      using q False assms(2) by (cases q) (auto simp: algebra_simps)
    moreover have "2 ^ n + a - b < 2 ^ n" using False assms(2) by simp
    ultimately show ?thesis using False
      by (metis cyc_dist_def mod_less mod_mult_self2)
  qed
  finally show ?thesis .
qed

lemma cyc_next_less [simp]: "s < c \<Longrightarrow> cyc_next c s < c"
  by (auto simp: cyc_next_def)

lemma cyc_dist_less: "h < c \<Longrightarrow> s < c \<Longrightarrow> cyc_dist c h s < c"
  by (auto simp: cyc_dist_def)

lemma cyc_dist_0 [simp]: "s < c \<Longrightarrow> h < c \<Longrightarrow> cyc_dist c h s = 0 \<longleftrightarrow> h = s"
  by (auto simp: cyc_dist_def)

lemma cyc_dist_self [simp]: "cyc_dist c h h = 0"
  by (simp add: cyc_dist_def)

lemma cyc_dist_next:
  "h < c \<Longrightarrow> s < c \<Longrightarrow> cyc_next c s \<noteq> h \<Longrightarrow> cyc_dist c h (cyc_next c s) = cyc_dist c h s + 1"
  by (auto simp: cyc_dist_def cyc_next_def split: if_splits)

lemma cyc_dist_from_next:
  "h < c \<Longrightarrow> s < c \<Longrightarrow> h \<noteq> s \<Longrightarrow> cyc_dist c h s = cyc_dist c (cyc_next c h) s + 1"
  by (auto simp: cyc_dist_def cyc_next_def split: if_splits)

lemma unat_inc: "(x::'a::len word) \<noteq> - 1 \<Longrightarrow> unat (x + 1) = unat x + 1"
  by (metis add.commute add_eq_0_iff2 unatSuc Suc_eq_plus1)

lemma less_max_word: "(x::u64) < y \<Longrightarrow> x \<noteq> UINT64_MAX"
  using word_order.extremum_strict by blast

lemma unat_u16_less: "unat (c :: u16) < 65536"
  using unsigned_less [of c, where 'a = nat] by simp

lemma unat_u64_less: "unat (c :: u64) < 18446744073709551616"
  using unsigned_less [of c, where 'a = nat] by simp

lemma unat_ucast_u16: "unat (ucast (c :: u16) :: u64) = unat c"
  using unat_u16_less [of c] by (simp add: unsigned_ucast_eq take_bit_nat_eq_self)

text \<open>An update that keeps a field of every element.\<close>

lemma list_update_field: "g (f (ns ! x)) = g (ns ! x) \<Longrightarrow> g (ns[x := f (ns ! x)] ! j) = g (ns ! j)"
  by (cases "x < length ns"; cases "x = j") (auto simp: list_update_beyond)

text \<open>Inside a window shorter than the capacity, slots and counts correspond.\<close>

lemma mod_window: "a \<le> b \<Longrightarrow> b - a < c \<Longrightarrow> b mod c = a mod c \<longleftrightarrow> b = (a :: nat)"
  by (metis mod_eq_dvd_iff_nat dvd_imp_le le_zero_eq linorder_not_less not_gr_zero diff_is_0_eq antisym)

end
