(* ===== verification/LinearProbing.thy ===== *)
theory LinearProbing
  imports Prelude "HOL-Library.While_Combinator"
begin

text \<open>
  Open addressing with linear probing and back-shift deletion, as both hash tables of the
  repository implement it (\<open>qtrader::FixedHashTable\<close> and \<open>wthft::FixedOrderIndex\<close>). Key
  zero marks an empty slot. The locale \<open>probing\<close> states what the two tables share (a table of
  \<open>c\<close> slots, a home slot for each key) and proves once that probing finds exactly the stored
  keys, that filling the first free slot keeps the probing invariant, and that the back-shift
  loop of an erase terminates and removes exactly one entry.
\<close>

section \<open>Reference definitions\<close>

definition probe_inv :: "nat \<Rightarrow> (u64 \<Rightarrow> nat) \<Rightarrow> (nat \<Rightarrow> u64) \<Rightarrow> bool" where
  "probe_inv c home kf \<longleftrightarrow>
     (\<forall>s<c. kf s \<noteq> 0 \<longrightarrow>
        (\<forall>x<c. cyc_dist c (home (kf s)) x < cyc_dist c (home (kf s)) s \<longrightarrow> kf x \<noteq> 0)) \<and>
     (\<forall>s<c. \<forall>x<c. kf s \<noteq> 0 \<longrightarrow> kf s = kf x \<longrightarrow> s = x)"

text \<open>The first slot from \<open>s\<close> on, within \<open>n\<close> probes, that is empty or holds \<open>k\<close>.\<close>

fun probe_slot :: "nat \<Rightarrow> (nat \<Rightarrow> u64) \<Rightarrow> u64 \<Rightarrow> nat \<Rightarrow> nat \<Rightarrow> nat option" where
  "probe_slot c kf k 0 s = None"
| "probe_slot c kf k (Suc n) s =
     (if kf s = 0 \<or> kf s = k then Some s else probe_slot c kf k n (cyc_next c s))"

definition live :: "('e \<Rightarrow> u64) \<Rightarrow> 'e list \<Rightarrow> 'e set" where
  "live key es = {e \<in> set es. key e \<noteq> 0}"

text \<open>One iteration of the back-shift loop, on the slots, the hole and the scan position.\<close>

definition shift_step ::
  "nat \<Rightarrow> (u64 \<Rightarrow> nat) \<Rightarrow> ('e \<Rightarrow> u64) \<Rightarrow> 'e list \<times> nat \<times> nat \<Rightarrow> 'e list \<times> nat \<times> nat" where
  "shift_step c home key = (\<lambda>(es, hole, scan).
     let h = home (key (es ! scan)) in
     if cyc_dist c h hole < cyc_dist c h scan then (es[hole := es ! scan], scan, cyc_next c scan)
     else (es, hole, cyc_next c scan))"

section \<open>Distances along a probe path\<close>

lemma probe_inv_path:
  "probe_inv c home kf \<Longrightarrow> s < c \<Longrightarrow> kf s \<noteq> 0 \<Longrightarrow> x < c \<Longrightarrow>
   cyc_dist c (home (kf s)) x < cyc_dist c (home (kf s)) s \<Longrightarrow> kf x \<noteq> 0"
  unfolding probe_inv_def by blast

lemma probe_inv_unique:
  "probe_inv c home kf \<Longrightarrow> s < c \<Longrightarrow> x < c \<Longrightarrow> kf s \<noteq> 0 \<Longrightarrow> kf s = kf x \<Longrightarrow> s = x"
  unfolding probe_inv_def by blast

lemma probe_invI:
  assumes "\<And>s x. s < c \<Longrightarrow> kf s \<noteq> 0 \<Longrightarrow> x < c \<Longrightarrow>
      cyc_dist c (home (kf s)) x < cyc_dist c (home (kf s)) s \<Longrightarrow> kf x \<noteq> 0"
    and "\<And>s x. s < c \<Longrightarrow> x < c \<Longrightarrow> kf s \<noteq> 0 \<Longrightarrow> kf s = kf x \<Longrightarrow> s = x"
  shows "probe_inv c home kf"
  using assms unfolding probe_inv_def by blast

lemma cyc_dist_split:
  assumes "h < c" "x < c" "s < c" "cyc_dist c h x \<le> cyc_dist c h s"
  shows "cyc_dist c h s = cyc_dist c h x + cyc_dist c x s"
  using assms by (auto simp: cyc_dist_def split: if_splits)

lemma cyc_dist_next_le:
  assumes "h < c" "x < c" "s < c" "x \<noteq> s" "cyc_dist c h x \<le> cyc_dist c h s"
  shows "cyc_dist c h (cyc_next c x) \<le> cyc_dist c h s"
  using assms by (auto simp: cyc_dist_def cyc_next_def split: if_splits)

lemma cyc_dist_inj: "h < c \<Longrightarrow> x < c \<Longrightarrow> s < c \<Longrightarrow> cyc_dist c h x = cyc_dist c h s \<Longrightarrow> x = s"
  by (auto simp: cyc_dist_def split: if_splits)

lemma cyc_dist_between:
  assumes "h < c" "x < c" "y < c" "s < c" "cyc_dist c h x < cyc_dist c h s" "cyc_dist c x y < cyc_dist c x s"
  shows "cyc_dist c h y < cyc_dist c h s"
  using assms by (auto simp: cyc_dist_def split: if_splits)

lemma finite_live [simp]: "finite (live key es)"
  by (simp add: live_def)

lemma live_update:
  assumes "i < length es" "key (es ! i) = 0" "key e \<noteq> 0"
  shows "live key (es[i := e]) = insert e (live key es)"
proof -
  have "set (es[i := e]) \<subseteq> insert e (set es)" by (rule set_update_subset_insert)
  moreover have "x \<in> set (es[i := e])" if "x \<in> set es" "key x \<noteq> 0" for x
    using that assms by (metis in_set_conv_nth length_list_update nth_list_update_neq)
  moreover have "e \<in> set (es[i := e])" using assms(1) by (rule set_update_memI)
  ultimately show ?thesis using assms(3) unfolding live_def by blast
qed

locale probing =
  fixes c :: nat and home :: "u64 \<Rightarrow> nat" and key :: "'e \<Rightarrow> u64" and nil :: 'e
  assumes two_slots: "2 \<le> c"
    and home_less: "home k < c"
    and key_nil: "key nil = 0"
begin

lemma probe_slot_hit:
  assumes inv: "probe_inv c home kf" and s: "s < c" "kf s = k" "k \<noteq> 0"
    and x: "x < c" "cyc_dist c (home k) x \<le> cyc_dist c (home k) s" and n: "cyc_dist c x s < n"
  shows "probe_slot c kf k n x = Some s"
  using x n
proof (induction n arbitrary: x)
  case (Suc n)
  show ?case
  proof (cases "x = s")
    case True
    then show ?thesis using s by simp
  next
    case False
    have "cyc_dist c (home k) x \<noteq> cyc_dist c (home k) s"
      using False cyc_dist_inj home_less Suc.prems(1) s(1) by blast
    then have "kf x \<noteq> 0" and "kf x \<noteq> k"
      using probe_inv_path [OF inv s(1) _ Suc.prems(1)] probe_inv_unique [OF inv s(1) Suc.prems(1)]
        s(2,3) Suc.prems(2) False by auto
    moreover have "probe_slot c kf k n (cyc_next c x) = Some s"
    proof (rule Suc.IH)
      show "cyc_next c x < c" using Suc.prems(1) by simp
      show "cyc_dist c (home k) (cyc_next c x) \<le> cyc_dist c (home k) s"
        using cyc_dist_next_le [OF home_less Suc.prems(1) s(1) False Suc.prems(2)] .
      show "cyc_dist c (cyc_next c x) s < n"
        using Suc.prems(3) cyc_dist_from_next [OF Suc.prems(1) s(1) False] by simp
    qed
    ultimately show ?thesis by simp
  qed
qed simp

lemma probe_slot_present:
  assumes "probe_inv c home kf" "s < c" "kf s = k" "k \<noteq> 0"
  shows "probe_slot c kf k c (home k) = Some s"
  using assms home_less
  by (intro probe_slot_hit) (auto simp: cyc_dist_less)

lemma probe_slot_free:
  assumes e: "e < c" "kf e = 0" and absent: "\<forall>s<c. kf s \<noteq> k"
    and x: "x < c" "cyc_dist c (home k) x \<le> cyc_dist c (home k) e" and n: "cyc_dist c x e < n"
    and pre: "\<forall>y<c. cyc_dist c (home k) y < cyc_dist c (home k) x \<longrightarrow> kf y \<noteq> 0"
  shows "\<exists>z<c. probe_slot c kf k n x = Some z \<and> kf z = 0 \<and>
    (\<forall>y<c. cyc_dist c (home k) y < cyc_dist c (home k) z \<longrightarrow> kf y \<noteq> 0)"
  using x n pre
proof (induction n arbitrary: x)
  case (Suc n)
  show ?case
  proof (cases "kf x = 0")
    case True
    then show ?thesis using Suc.prems by auto
  next
    case False
    then have xe: "x \<noteq> e" using e by auto
    have nx: "cyc_dist c (home k) (cyc_next c x) \<le> cyc_dist c (home k) e"
      using cyc_dist_next_le [OF home_less Suc.prems(1) e(1) xe Suc.prems(2)] .
    have "\<exists>z<c. probe_slot c kf k n (cyc_next c x) = Some z \<and> kf z = 0 \<and>
      (\<forall>y<c. cyc_dist c (home k) y < cyc_dist c (home k) z \<longrightarrow> kf y \<noteq> 0)"
    proof (rule Suc.IH)
      show "cyc_next c x < c" using Suc.prems(1) by simp
      show "cyc_dist c (cyc_next c x) e < n"
        using Suc.prems(3) cyc_dist_from_next [OF Suc.prems(1) e(1) xe] by simp
      show "\<forall>y<c. cyc_dist c (home k) y < cyc_dist c (home k) (cyc_next c x) \<longrightarrow> kf y \<noteq> 0"
      proof (intro allI impI)
        fix y assume y: "y < c" "cyc_dist c (home k) y < cyc_dist c (home k) (cyc_next c x)"
        have "cyc_next c x \<noteq> home k" using y home_less [of k] by (auto simp: cyc_dist_def)
        then have "cyc_dist c (home k) y \<le> cyc_dist c (home k) x"
          using y(2) cyc_dist_next [OF home_less Suc.prems(1)] by simp
        then show "kf y \<noteq> 0"
          using Suc.prems(4) False y(1) cyc_dist_inj [OF home_less y(1) Suc.prems(1)]
          by (metis le_neq_implies_less)
      qed
    qed (rule nx)
    then show ?thesis using False absent Suc.prems(1) by simp
  qed
qed simp

lemma probe_slot_absent:
  assumes "e < c" "kf e = 0" "\<forall>s<c. kf s \<noteq> k"
  shows "\<exists>z<c. probe_slot c kf k c (home k) = Some z \<and> kf z = 0 \<and>
    (\<forall>y<c. cyc_dist c (home k) y < cyc_dist c (home k) z \<longrightarrow> kf y \<noteq> 0)"
  using assms home_less
  by (intro probe_slot_free [of e]) (auto simp: cyc_dist_less)

lemma probe_slot_missing: "\<forall>s<c. kf s \<noteq> k \<Longrightarrow> x < c \<Longrightarrow> probe_slot c kf k n x = Some z \<Longrightarrow> kf z = 0"
proof (induction n arbitrary: x)
  case (Suc n)
  then show ?case using Suc.IH [of "cyc_next c x"] by (auto split: if_splits)
qed simp

lemma probe_inv_insert:
  assumes inv: "probe_inv c home kf" and k: "k \<noteq> 0" "\<forall>s<c. kf s \<noteq> k"
    and z: "z < c" "\<forall>y<c. cyc_dist c (home k) y < cyc_dist c (home k) z \<longrightarrow> kf y \<noteq> 0"
  shows "probe_inv c home (kf(z := k))"
proof (rule probe_invI)
  fix s x
  assume "s < c" "(kf(z := k)) s \<noteq> 0" "x < c"
    "cyc_dist c (home ((kf(z := k)) s)) x < cyc_dist c (home ((kf(z := k)) s)) s"
  then show "(kf(z := k)) x \<noteq> 0"
    using z k(1) probe_inv_path [OF inv, of s x] by (cases "s = z"; cases "x = z") auto
next
  fix s x
  assume "s < c" "x < c" "(kf(z := k)) s \<noteq> 0" "(kf(z := k)) s = (kf(z := k)) x"
  then show "s = x"
    using k probe_inv_unique [OF inv, of s x] by (cases "s = z"; cases "x = z") auto
qed

text \<open>
  The invariant of the back-shift loop: with the slot \<open>hole\<close> taken as empty, no probe path but
  those through \<open>hole\<close> is broken, and every entry whose path goes through \<open>hole\<close> still lies
  at or after \<open>scan\<close>. The slot \<open>e\<close> is some empty slot that the scan has not passed.
\<close>

definition shift_ok :: "(nat \<Rightarrow> u64) \<Rightarrow> nat \<Rightarrow> nat \<Rightarrow> nat \<Rightarrow> bool" where
  "shift_ok kf hole scan e \<longleftrightarrow>
     hole < c \<and> scan < c \<and> e < c \<and> kf e = 0 \<and> e \<noteq> hole \<and> hole \<noteq> scan \<and>
     cyc_dist c hole scan \<le> cyc_dist c hole e \<and>
     (\<forall>s<c. s \<noteq> hole \<longrightarrow> kf s \<noteq> 0 \<longrightarrow> (\<forall>x<c. x \<noteq> hole \<longrightarrow>
        cyc_dist c (home (kf s)) x < cyc_dist c (home (kf s)) s \<longrightarrow> kf x \<noteq> 0)) \<and>
     (\<forall>s<c. s \<noteq> hole \<longrightarrow> kf s \<noteq> 0 \<longrightarrow>
        cyc_dist c (home (kf s)) hole < cyc_dist c (home (kf s)) s \<longrightarrow>
        cyc_dist c hole scan \<le> cyc_dist c hole s) \<and>
     (\<forall>s<c. \<forall>x<c. s \<noteq> hole \<longrightarrow> x \<noteq> hole \<longrightarrow> kf s \<noteq> 0 \<longrightarrow> kf s = kf x \<longrightarrow> s = x)"

lemma shift_okD:
  assumes "shift_ok kf hole scan e"
  shows "hole < c" "scan < c" "e < c" "kf e = 0" "e \<noteq> hole" "hole \<noteq> scan"
    and "cyc_dist c hole scan \<le> cyc_dist c hole e"
    and "\<And>s x. \<lbrakk>s < c; s \<noteq> hole; kf s \<noteq> 0; x < c; x \<noteq> hole;
      cyc_dist c (home (kf s)) x < cyc_dist c (home (kf s)) s\<rbrakk> \<Longrightarrow> kf x \<noteq> 0"
    and "\<And>s. \<lbrakk>s < c; s \<noteq> hole; kf s \<noteq> 0; cyc_dist c (home (kf s)) hole < cyc_dist c (home (kf s)) s\<rbrakk>
      \<Longrightarrow> cyc_dist c hole scan \<le> cyc_dist c hole s"
    and "\<And>s x. \<lbrakk>s < c; x < c; s \<noteq> hole; x \<noteq> hole; kf s \<noteq> 0; kf s = kf x\<rbrakk> \<Longrightarrow> s = x"
  using assms unfolding shift_ok_def by blast+

lemma shift_okI:
  assumes "hole < c" "scan < c" "e < c" "kf e = 0" "e \<noteq> hole" "hole \<noteq> scan"
    and "cyc_dist c hole scan \<le> cyc_dist c hole e"
    and "\<And>s x. \<lbrakk>s < c; s \<noteq> hole; kf s \<noteq> 0; x < c; x \<noteq> hole;
      cyc_dist c (home (kf s)) x < cyc_dist c (home (kf s)) s\<rbrakk> \<Longrightarrow> kf x \<noteq> 0"
    and "\<And>s. \<lbrakk>s < c; s \<noteq> hole; kf s \<noteq> 0; cyc_dist c (home (kf s)) hole < cyc_dist c (home (kf s)) s\<rbrakk>
      \<Longrightarrow> cyc_dist c hole scan \<le> cyc_dist c hole s"
    and "\<And>s x. \<lbrakk>s < c; x < c; s \<noteq> hole; x \<noteq> hole; kf s \<noteq> 0; kf s = kf x\<rbrakk> \<Longrightarrow> s = x"
  shows "shift_ok kf hole scan e"
  using assms unfolding shift_ok_def by blast

lemma next_neq: "s < c \<Longrightarrow> cyc_next c s \<noteq> s" "s < c \<Longrightarrow> s \<noteq> cyc_next c s"
  using two_slots by (auto simp: cyc_next_def)

lemma dist_next_1: "s < c \<Longrightarrow> cyc_dist c s (cyc_next c s) = 1"
  using cyc_dist_next [of s c s] next_neq(1) [of s] by simp

lemma dist_pos: "s < c \<Longrightarrow> x < c \<Longrightarrow> s \<noteq> x \<Longrightarrow> 1 \<le> cyc_dist c s x"
  by (metis One_nat_def Suc_leI cyc_dist_0 gr_zeroI)

lemma shift_start:
  assumes "probe_inv c home kf" "hole < c" "kf hole \<noteq> 0" "e < c" "kf e = 0"
  shows "shift_ok kf hole (cyc_next c hole) e"
proof (rule shift_okI)
  show "kf x \<noteq> 0" if "s < c" "s \<noteq> hole" "kf s \<noteq> 0" "x < c" "x \<noteq> hole"
    "cyc_dist c (home (kf s)) x < cyc_dist c (home (kf s)) s" for s x
    using that probe_inv_path [OF assms(1)] by blast
  show "s = x" if "s < c" "x < c" "s \<noteq> hole" "x \<noteq> hole" "kf s \<noteq> 0" "kf s = kf x" for s x
    using that probe_inv_unique [OF assms(1)] by blast
qed (use assms dist_next_1 [of hole] next_neq [of hole] dist_pos in auto)

lemma shift_move:
  assumes ok: "shift_ok kf hole scan e" and occ: "kf scan \<noteq> 0"
    and mv: "cyc_dist c (home (kf scan)) hole < cyc_dist c (home (kf scan)) scan"
  shows "shift_ok (kf(hole := kf scan)) scan (cyc_next c scan) e"
proof -
  note D = shift_okD [OF ok]
  let ?g = "kf(hole := kf scan)"
  have es: "e \<noteq> scan" using D(4) occ by auto
  show ?thesis
  proof (rule shift_okI)
    show "?g x \<noteq> 0" if "s < c" "s \<noteq> scan" "?g s \<noteq> 0" "x < c" "x \<noteq> scan"
      "cyc_dist c (home (?g s)) x < cyc_dist c (home (?g s)) s" for s x
    proof (cases "x = hole")
      case False
      show ?thesis
      proof (cases "s = hole")
        case True
        then have "cyc_dist c (home (kf scan)) x < cyc_dist c (home (kf scan)) scan"
          using that(6) mv by simp
        then show ?thesis using D(8) [OF D(2) D(6) [symmetric] occ that(4) False] False by simp
      next
        case False
        then show ?thesis using D(8) [OF that(1) False _ that(4) \<open>x \<noteq> hole\<close>] that(3,6) \<open>x \<noteq> hole\<close> by simp
      qed
    qed (use occ in simp)
    show "s = x" if "s < c" "x < c" "s \<noteq> scan" "x \<noteq> scan" "?g s \<noteq> 0" "?g s = ?g x" for s x
    proof (rule ccontr)
      assume "s \<noteq> x"
      then consider "s = hole" "x \<noteq> hole" "kf scan = kf x" | "s \<noteq> hole" "x = hole" "kf scan = kf s"
        | "s \<noteq> hole" "x \<noteq> hole" "kf s \<noteq> 0" "kf s = kf x"
        using \<open>?g s = ?g x\<close> \<open>?g s \<noteq> 0\<close> by (auto split: if_splits)
      then show False
        using D(10) [OF D(2) that(2)] D(10) [OF D(2) that(1)] D(10) [OF that(1,2)] D(6) occ that(3,4)
          \<open>s \<noteq> x\<close> by cases auto
    qed
  qed (use D(1-7) es dist_next_1 [of scan] next_neq [of scan] dist_pos in auto)
qed

lemma shift_skip:
  assumes ok: "shift_ok kf hole scan e" and occ: "kf scan \<noteq> 0"
    and mv: "\<not> cyc_dist c (home (kf scan)) hole < cyc_dist c (home (kf scan)) scan"
  shows "shift_ok kf hole (cyc_next c scan) e"
proof -
  note D = shift_okD [OF ok]
  have es: "e \<noteq> scan" using D(4) occ by auto
  have lt: "cyc_dist c hole scan < cyc_dist c hole e"
    using D(7) cyc_dist_inj [OF D(1,2,3)] es by (metis le_neq_implies_less)
  have nh: "cyc_next c scan \<noteq> hole"
    using lt cyc_dist_less [OF D(1,3)] D(1,2) by (auto simp: cyc_dist_def cyc_next_def split: if_splits)
  have step: "cyc_dist c hole (cyc_next c scan) = cyc_dist c hole scan + 1"
    using cyc_dist_next [OF D(1,2) nh] .
  show ?thesis
  proof (rule shift_okI)
    show "cyc_dist c hole (cyc_next c scan) \<le> cyc_dist c hole s"
      if "s < c" "s \<noteq> hole" "kf s \<noteq> 0" "cyc_dist c (home (kf s)) hole < cyc_dist c (home (kf s)) s" for s
    proof -
      have "s \<noteq> scan" using that(4) mv by auto
      then have "cyc_dist c hole scan \<noteq> cyc_dist c hole s"
        using cyc_dist_inj [OF D(1,2) that(1)] by auto
      then show ?thesis using D(9) [OF that] step by simp
    qed
    show "kf x \<noteq> 0" if "s < c" "s \<noteq> hole" "kf s \<noteq> 0" "x < c" "x \<noteq> hole"
      "cyc_dist c (home (kf s)) x < cyc_dist c (home (kf s)) s" for s x
      using D(8) that by blast
    show "s = x" if "s < c" "x < c" "s \<noteq> hole" "x \<noteq> hole" "kf s \<noteq> 0" "kf s = kf x" for s x
      using D(10) that by blast
  qed (use D(1-7) nh step lt in auto)
qed

lemma shift_finish:
  assumes ok: "shift_ok kf hole scan e" and free: "kf scan = 0"
  shows "probe_inv c home (kf(hole := 0))"
proof -
  note D = shift_okD [OF ok]
  have off: "\<not> cyc_dist c (home (kf s)) hole < cyc_dist c (home (kf s)) s"
    if s: "s < c" "s \<noteq> hole" "kf s \<noteq> 0" for s
  proof
    let ?h = "home (kf s)"
    assume thr: "cyc_dist c ?h hole < cyc_dist c ?h s"
    have "cyc_dist c hole scan \<le> cyc_dist c hole s" using D(9) [OF s thr] .
    moreover have "cyc_dist c hole scan \<noteq> cyc_dist c hole s"
      using cyc_dist_inj [OF D(1,2) s(1)] free s(3) by auto
    ultimately have "cyc_dist c ?h scan < cyc_dist c ?h s"
      using cyc_dist_between [OF home_less D(1,2) s(1) thr] by simp
    then show False using D(8) [OF s D(2) D(6) [symmetric]] free by simp
  qed
  show ?thesis
  proof (rule probe_invI)
    fix s x
    assume "s < c" "(kf(hole := 0)) s \<noteq> 0" "x < c"
      "cyc_dist c (home ((kf(hole := 0)) s)) x < cyc_dist c (home ((kf(hole := 0)) s)) s"
    then show "(kf(hole := 0)) x \<noteq> 0"
      using off [of s] D(8) [of s x] by (cases "s = hole"; cases "x = hole") auto
  next
    fix s x
    assume "s < c" "x < c" "(kf(hole := 0)) s \<noteq> 0" "(kf(hole := 0)) s = (kf(hole := 0)) x"
    then show "s = x" using D(10) [of s x] by (cases "s = hole"; cases "x = hole") auto
  qed
qed

definition stored :: "'e list \<Rightarrow> nat \<Rightarrow> 'e set" where
  "stored es hole = {es ! s | s. s < c \<and> s \<noteq> hole \<and> key (es ! s) \<noteq> 0}"

definition shift_inv :: "'e set \<Rightarrow> nat \<Rightarrow> 'e list \<times> nat \<times> nat \<Rightarrow> bool" where
  "shift_inv S e = (\<lambda>(es, hole, scan).
     length es = c \<and> shift_ok (\<lambda>s. key (es ! s)) hole scan e \<and> stored es hole = S)"

lemma stored_move:
  assumes "length es = c" "hole < c" "scan < c" "hole \<noteq> scan" "key (es ! scan) \<noteq> 0"
  shows "stored (es[hole := es ! scan]) scan = stored es hole"
  unfolding stored_def using assms by (auto simp: nth_list_update split: if_splits) (metis assms(4))

lemma key_update:
  "length es = c \<Longrightarrow> hole < c \<Longrightarrow> (\<lambda>s. key (es[hole := v] ! s)) = (\<lambda>s. key (es ! s))(hole := key v)"
  by (auto simp: nth_list_update)

lemma shift_inv_step:
  assumes "shift_inv S e st" and "st = (es, hole, scan)" and "key (es ! scan) \<noteq> 0"
  shows "shift_inv S e (shift_step c home key st)"
    and "cyc_dist c (snd (snd (shift_step c home key st))) e < cyc_dist c scan e"
proof -
  have len: "length es = c" and ok: "shift_ok (\<lambda>s. key (es ! s)) hole scan e"
    and S: "stored es hole = S"
    using assms(1,2) by (auto simp: shift_inv_def)
  note D = shift_okD [OF ok]
  show "shift_inv S e (shift_step c home key st)"
  proof (cases "cyc_dist c (home (key (es ! scan))) hole < cyc_dist c (home (key (es ! scan))) scan")
    case True
    have "shift_ok (\<lambda>s. key (es[hole := es ! scan] ! s)) scan (cyc_next c scan) e"
      using shift_move [OF ok assms(3) True] key_update [OF len D(1)] by simp
    then show ?thesis
      using True assms(2,3) len S stored_move [OF len D(1,2,6)]
      by (simp add: shift_step_def shift_inv_def Let_def)
  next
    case False
    then show ?thesis
      using shift_skip [OF ok assms(3) False] assms(2) len S
      by (simp add: shift_step_def shift_inv_def Let_def)
  qed
  have "scan \<noteq> e" using D(4) assms(3) by auto
  then show "cyc_dist c (snd (snd (shift_step c home key st))) e < cyc_dist c scan e"
    using cyc_dist_from_next [OF D(2,3)] assms(2) by (auto simp: shift_step_def Let_def)
qed

lemma stored_final:
  assumes "length es = c" "hole < c"
  shows "live key (es[hole := nil]) = stored es hole"
proof -
  have "live key (es[hole := nil]) = {es[hole := nil] ! s | s. s < c \<and> key (es[hole := nil] ! s) \<noteq> 0}"
    using assms(1) by (auto simp: live_def in_set_conv_nth)
  also have "\<dots> = stored es hole"
    using assms key_nil by (auto simp: stored_def nth_list_update split: if_splits)
  finally show ?thesis .
qed

lemma stored_initial:
  assumes "probe_inv c home (\<lambda>s. key (es ! s))" "length es = c" "hole < c" "key (es ! hole) \<noteq> 0"
  shows "stored es hole = live key es - {es ! hole}"
  using assms probe_inv_unique [OF assms(1) _ assms(3)]
  by (auto simp: stored_def live_def in_set_conv_nth)

text \<open>The back-shift loop terminates and leaves a table without the entry at the first hole.\<close>

lemma shift_loop:
  assumes body: "\<And>es hole scan. length es = c \<Longrightarrow> hole < c \<Longrightarrow> scan < c \<Longrightarrow>
      B (es, hole, scan) = shift_step c home key (es, hole, scan)"
    and guard: "\<And>es hole scan. G (es, hole, scan) \<longleftrightarrow> key (es ! scan) \<noteq> 0"
    and inv: "probe_inv c home (\<lambda>s. key (es ! s))" "length es = c"
    and hole: "hole < c" "key (es ! hole) \<noteq> 0" and e: "e < c" "key (es ! e) = 0"
  shows "\<exists>es' hole' scan'. while_option G B (es, hole, cyc_next c hole) = Some (es', hole', scan') \<and>
    length es' = c \<and> hole' < c \<and> probe_inv c home (\<lambda>s. key (es'[hole' := nil] ! s)) \<and>
    live key (es'[hole' := nil]) = live key es - {es ! hole}"
proof -
  let ?P = "shift_inv (live key es - {es ! hole}) e"
  have step: "?P (B st) \<and> cyc_dist c (snd (snd (B st))) e < cyc_dist c (snd (snd st)) e"
    if P: "?P st" and g: "G st" for st
  proof -
    obtain es1 hole1 scan1 where st: "st = (es1, hole1, scan1)" by (cases st)
    have ok: "shift_ok (\<lambda>s. key (es1 ! s)) hole1 scan1 e" and len: "length es1 = c"
      using P st by (auto simp: shift_inv_def)
    have "B st = shift_step c home key st"
      using body [OF len shift_okD(1,2) [OF ok]] st by simp
    then show ?thesis using shift_inv_step [OF P st] g guard st by auto
  qed
  have init: "?P (es, hole, cyc_next c hole)"
    using shift_start [OF inv(1) hole e] inv(2) stored_initial [OF inv hole] by (simp add: shift_inv_def)
  obtain st where st: "while_option G B (es, hole, cyc_next c hole) = Some st"
    using measure_while_option_Some [of ?P G B "\<lambda>st. cyc_dist c (snd (snd st)) e", OF step init] by auto
  obtain es' hole' scan' where st3: "st = (es', hole', scan')" by (cases st)
  have "?P st" using while_option_rule [of ?P G B, OF _ st init] step by blast
  then have len: "length es' = c" and ok: "shift_ok (\<lambda>s. key (es' ! s)) hole' scan' e"
    and S: "stored es' hole' = live key es - {es ! hole}"
    using st3 by (auto simp: shift_inv_def)
  have free: "key (es' ! scan') = 0" using while_option_stop [OF st] guard st3 by simp
  have h': "hole' < c" by (rule shift_okD(1) [OF ok])
  have "probe_inv c home (\<lambda>s. key (es'[hole' := nil] ! s))"
    using shift_finish [OF ok free] key_update [OF len h'] key_nil by simp
  then show ?thesis using st st3 len h' S stored_final [OF len h'] by auto
qed

text \<open>A table with fewer live entries than slots has an empty slot.\<close>

lemma empty_slot:
  assumes inv: "probe_inv c home (\<lambda>s. key (es ! s))" and len: "length es = c"
    and few: "card (live key es) < c"
  shows "\<exists>e<c. key (es ! e) = 0"
proof (rule ccontr)
  assume "\<not> ?thesis"
  then have full: "\<forall>s<c. key (es ! s) \<noteq> 0" by blast
  have "inj_on (\<lambda>s. es ! s) {..<c}"
    using full probe_inv_unique [OF inv] by (intro inj_onI) auto
  then have "card ((\<lambda>s. es ! s) ` {..<c}) = c" by (simp add: card_image)
  moreover have "(\<lambda>s. es ! s) ` {..<c} \<subseteq> live key es"
    using full len by (auto simp: live_def)
  ultimately show False
    using few card_mono [of "live key es" "(\<lambda>s. es ! s) ` {..<c}"] by (simp add: live_def)
qed

lemma live_slot:
  assumes "length es = c"
  shows "e \<in> live key es \<longleftrightarrow> (\<exists>s<c. es ! s = e \<and> key e \<noteq> 0)"
  using assms by (auto simp: live_def in_set_conv_nth)

lemma live_replace:
  assumes inv: "probe_inv c home (\<lambda>s. key (es ! s))" and len: "length es = c"
    and s: "s < c" "key (es ! s) \<noteq> 0" and n: "key n \<noteq> 0"
  shows "live key (es[s := n]) = insert n (live key es - {es ! s})"
proof (intro equalityI subsetI)
  fix x assume "x \<in> live key (es[s := n])"
  then obtain i where i: "i < c" "es[s := n] ! i = x" "key x \<noteq> 0"
    using live_slot [of "es[s := n]" x] len by auto
  show "x \<in> insert n (live key es - {es ! s})"
  proof (cases "i = s")
    case True
    then show ?thesis using i s(1) len by auto
  next
    case False
    then have "es ! i = x" using i(2) by simp
    moreover have "x \<noteq> es ! s" using probe_inv_unique [OF inv s(1) i(1) s(2)] False \<open>es ! i = x\<close> by auto
    ultimately show ?thesis using live_slot [OF len, of x] i by auto
  qed
next
  fix x assume x: "x \<in> insert n (live key es - {es ! s})"
  have "\<exists>i<c. es[s := n] ! i = x \<and> key x \<noteq> 0"
  proof (cases "x = n")
    case True
    then show ?thesis using s(1) n len by (intro exI [of _ s]) auto
  next
    case False
    then obtain i where "i < c" "es ! i = x" "key x \<noteq> 0" "x \<noteq> es ! s"
      using x live_slot [OF len, of x] by auto
    then show ?thesis by (intro exI [of _ i]) (cases "i = s"; simp)
  qed
  then show "x \<in> live key (es[s := n])" using live_slot [of "es[s := n]" x] len by auto
qed

end

end
