(* ===== verification/FixedHashTable.thy ===== *)
theory FixedHashTable
  imports LinearProbing
begin

text \<open>
  \<open>qtrader::FixedHashTable\<close> (\<open>include/qtrader/FixedHashTable.hpp\<close>): the bounded
  open-addressing table that holds the adapter's orders and matches and the pipeline's match
  records. The record below has the class's members with the prefix \<open>fh_\<close>; \<open>fh_init\<close> is \<open>Value{}\<close> of the
  template argument. \<open>find\<close> returns a pointer into the table, so a client's assignment through
  it is the separate operation \<open>fht_store\<close>.

  The theory proves that every operation keeps the well-formedness \<open>fht_wf\<close>, that the
  back-shift loop of \<open>erase\<close> always ends, and that the table refines a finite map with a
  capacity; the laws form the locale \<open>bounded_table\<close>.
\<close>

section \<open>The table\<close>

datatype FixedHashInsertResult = Inserted | Duplicate | Full | InvalidKey

datatype table_error = bad_array_new_length

record 'v fh_entry =
  fh_key :: u64
  fh_value :: 'v

record 'v FixedHashTable =
  fh_maximum :: nat
  fh_capacity :: nat
  fh_entries :: "'v fh_entry list"
  fh_size :: nat
  fh_init :: 'v

definition SIZE_MAX :: nat where
  "SIZE_MAX = 2 ^ 64 - 1"

definition rounded_capacity :: "nat \<Rightarrow> table_error + nat" where
  "rounded_capacity maximum_entries =
     (if maximum_entries = 0 \<or> maximum_entries > SIZE_MAX div 2 then Inl bad_array_new_length
      else
        (case while (\<lambda>(capacity, thrown). \<not> thrown \<and> capacity < maximum_entries * 2)
                (\<lambda>(capacity, thrown).
                   if capacity > SIZE_MAX div 2 then (capacity, True) else (capacity * 2, False))
                (8, False) of
           (capacity, thrown) \<Rightarrow> if thrown then Inl bad_array_new_length else Inr capacity))"

definition FixedHashTable_new :: "'v \<Rightarrow> nat \<Rightarrow> table_error + 'v FixedHashTable" where
  "FixedHashTable_new value_init maximum_entries =
     (case rounded_capacity maximum_entries of
        Inl e \<Rightarrow> Inl e
      | Inr capacity \<Rightarrow> Inr \<lparr>fh_maximum = maximum_entries, fh_capacity = capacity,
          fh_entries = replicate capacity \<lparr>fh_key = 0, fh_value = value_init\<rparr>,
          fh_size = 0, fh_init = value_init\<rparr>)"

definition fht_hash :: "u64 \<Rightarrow> u64" where
  "fht_hash value0 =
     (let value1 = value0 XOR drop_bit 33 value0;
          value2 = value1 * 0xff51afd7ed558ccd
      in value2 XOR drop_bit 33 value2)"

definition fht_bucket :: "'v FixedHashTable \<Rightarrow> u64 \<Rightarrow> nat" where
  "fht_bucket t key = unat (fht_hash key) AND (fh_capacity t - 1)"

fun fht_find_loop :: "'v FixedHashTable \<Rightarrow> u64 \<Rightarrow> nat \<Rightarrow> nat \<Rightarrow> nat" where
  "fht_find_loop t key 0 slot = fh_capacity t"
| "fht_find_loop t key (Suc probes) slot =
     (if fh_key (fh_entries t ! slot) = 0 then fh_capacity t
      else if fh_key (fh_entries t ! slot) = key then slot
      else fht_find_loop t key probes ((slot + 1) AND (fh_capacity t - 1)))"

definition fht_find_slot :: "'v FixedHashTable \<Rightarrow> u64 \<Rightarrow> nat" where
  "fht_find_slot t key =
     (if key = 0 then fh_capacity t else fht_find_loop t key (fh_capacity t) (fht_bucket t key))"

definition fht_find :: "'v FixedHashTable \<Rightarrow> u64 \<Rightarrow> 'v option" where
  "fht_find t key =
     (let slot = fht_find_slot t key in
      if slot = fh_capacity t then None else Some (fh_value (fh_entries t ! slot)))"

text \<open>An assignment through the pointer that \<open>find(key)\<close> returned.\<close>

definition fht_store :: "'v FixedHashTable \<Rightarrow> u64 \<Rightarrow> 'v \<Rightarrow> 'v FixedHashTable" where
  "fht_store t key v =
     (let slot = fht_find_slot t key in
      if slot = fh_capacity t then t
      else t\<lparr>fh_entries := (fh_entries t)[slot := (fh_entries t ! slot)\<lparr>fh_value := v\<rparr>]\<rparr>)"

fun fht_insert_loop ::
  "'v FixedHashTable \<Rightarrow> u64 \<Rightarrow> 'v \<Rightarrow> nat \<Rightarrow> nat \<Rightarrow> 'v FixedHashTable \<times> FixedHashInsertResult" where
  "fht_insert_loop t key v 0 slot = (t, Full)"
| "fht_insert_loop t key v (Suc probes) slot =
     (if fh_key (fh_entries t ! slot) = key then (t, Duplicate)
      else if fh_key (fh_entries t ! slot) = 0 then
        (t\<lparr>fh_entries := (fh_entries t)[slot := \<lparr>fh_key = key, fh_value = v\<rparr>], fh_size := fh_size t + 1\<rparr>,
         Inserted)
      else fht_insert_loop t key v probes ((slot + 1) AND (fh_capacity t - 1)))"

definition fht_insert ::
  "'v FixedHashTable \<Rightarrow> u64 \<Rightarrow> 'v \<Rightarrow> 'v FixedHashTable \<times> FixedHashInsertResult" where
  "fht_insert t key v =
     (if key = 0 then (t, InvalidKey)
      else if fh_size t = fh_maximum t then
        (t, if fht_find t key = None then Full else Duplicate)
      else fht_insert_loop t key v (fh_capacity t) (fht_bucket t key))"

definition fht_shift_guard :: "'v fh_entry list \<times> nat \<times> nat \<Rightarrow> bool" where
  "fht_shift_guard = (\<lambda>(entries, hole, scan). fh_key (entries ! scan) \<noteq> 0)"

definition fht_shift_body ::
  "'v FixedHashTable \<Rightarrow> 'v fh_entry list \<times> nat \<times> nat \<Rightarrow> 'v fh_entry list \<times> nat \<times> nat" where
  "fht_shift_body t = (\<lambda>(entries, hole, scan).
     let mask = fh_capacity t - 1;
         home = fht_bucket t (fh_key (entries ! scan));
         scan_distance = size_sub scan home AND mask;
         hole_distance = size_sub hole home AND mask
     in if hole_distance < scan_distance
        then (entries[hole := entries ! scan], scan, (scan + 1) AND mask)
        else (entries, hole, (scan + 1) AND mask))"

definition fht_backshift_from :: "'v FixedHashTable \<Rightarrow> nat \<Rightarrow> 'v FixedHashTable" where
  "fht_backshift_from t hole0 =
     (case while fht_shift_guard (fht_shift_body t)
             (fh_entries t, hole0, (hole0 + 1) AND (fh_capacity t - 1)) of
        (entries, hole, scan) \<Rightarrow>
          t\<lparr>fh_entries := entries[hole := \<lparr>fh_key = 0, fh_value = fh_init t\<rparr>]\<rparr>)"

definition fht_erase :: "'v FixedHashTable \<Rightarrow> u64 \<Rightarrow> 'v FixedHashTable \<times> bool" where
  "fht_erase t key =
     (let slot = fht_find_slot t key in
      if slot = fh_capacity t then (t, False)
      else let t' = fht_backshift_from t slot in (t'\<lparr>fh_size := fh_size t' - 1\<rparr>, True))"

definition fht_size :: "'v FixedHashTable \<Rightarrow> nat" where
  "fht_size t = fh_size t"

definition fht_maximum_entries :: "'v FixedHashTable \<Rightarrow> nat" where
  "fht_maximum_entries t = fh_maximum t"

definition fht_allocated_bytes :: "nat \<Rightarrow> 'v FixedHashTable \<Rightarrow> nat" where
  "fht_allocated_bytes sizeof_entry t = fh_capacity t * sizeof_entry"

section \<open>The abstract map and the invariant\<close>

definition fht_map :: "'v FixedHashTable \<Rightarrow> u64 \<Rightarrow> 'v option" where
  "fht_map t k = (if k = 0 then None
     else map_option fh_value (List.find (\<lambda>e. fh_key e = k) (fh_entries t)))"

definition fht_home :: "nat \<Rightarrow> u64 \<Rightarrow> nat" where
  "fht_home m k = unat (fht_hash k) AND (2 ^ (m + 3) - 1)"

definition fht_shape :: "nat \<Rightarrow> 'v FixedHashTable \<Rightarrow> bool" where
  "fht_shape m t \<longleftrightarrow> m + 3 \<le> 64 \<and> fh_capacity t = 2 ^ (m + 3) \<and> length (fh_entries t) = 2 ^ (m + 3) \<and>
     probe_inv (2 ^ (m + 3)) (fht_home m) (\<lambda>s. fh_key (fh_entries t ! s)) \<and>
     fh_size t = card (live fh_key (fh_entries t)) \<and> fh_size t \<le> fh_maximum t \<and>
     2 * fh_maximum t \<le> fh_capacity t \<and> fh_maximum t \<noteq> 0"

definition fht_wf :: "'v FixedHashTable \<Rightarrow> bool" where
  "fht_wf t \<longleftrightarrow> (\<exists>m. fht_shape m t)"

section \<open>Probing\<close>

interpretation fhp: probing "2 ^ (m + 3)" "fht_home m" fh_key "\<lparr>fh_key = 0, fh_value = v\<rparr>" for m v
proof
  show "2 \<le> (2::nat) ^ (m + 3)" using one_le_power [of "2::nat" m] by (simp add: power_add)
  show "fht_home m k < 2 ^ (m + 3)" for k unfolding fht_home_def by (rule and_mask_less)
qed simp

lemma fht_bucket_home: "fht_shape m t \<Longrightarrow> fht_bucket t k = fht_home m k"
  by (simp add: fht_bucket_def fht_home_def fht_shape_def)

lemma fht_next: "fht_shape m t \<Longrightarrow> s < 2 ^ (m + 3) \<Longrightarrow> (s + 1) AND (fh_capacity t - 1) = cyc_next (2 ^ (m + 3)) s"
  using and_mask_next [of s "m + 3"] by (simp add: fht_shape_def)

lemma fht_find_loop_probe:
  assumes "fht_shape m t" "k \<noteq> 0" "s < 2 ^ (m + 3)"
  shows "fht_find_loop t k n s =
    (case probe_slot (2 ^ (m + 3)) (\<lambda>s. fh_key (fh_entries t ! s)) k n s of
       None \<Rightarrow> fh_capacity t
     | Some x \<Rightarrow> if fh_key (fh_entries t ! x) = k then x else fh_capacity t)"
  using assms(3)
proof (induction n arbitrary: s)
  case (Suc n)
  have "fht_find_loop t k n ((s + 1) AND (fh_capacity t - 1)) =
     fht_find_loop t k n (cyc_next (2 ^ (m + 3)) s)"
    using fht_next [OF assms(1) Suc.prems] by simp
  then show ?case using Suc.IH [of "cyc_next (2 ^ (m + 3)) s"] Suc.prems assms(2) by auto
qed simp

lemma fht_insert_loop_probe:
  assumes "fht_shape m t" "k \<noteq> 0" "s < 2 ^ (m + 3)"
  shows "fht_insert_loop t k v n s =
    (case probe_slot (2 ^ (m + 3)) (\<lambda>s. fh_key (fh_entries t ! s)) k n s of
       None \<Rightarrow> (t, Full)
     | Some x \<Rightarrow> if fh_key (fh_entries t ! x) = k then (t, Duplicate)
         else (t\<lparr>fh_entries := (fh_entries t)[x := \<lparr>fh_key = k, fh_value = v\<rparr>],
                 fh_size := fh_size t + 1\<rparr>, Inserted))"
  using assms(3)
proof (induction n arbitrary: s)
  case (Suc n)
  have "fht_insert_loop t k v n ((s + 1) AND (fh_capacity t - 1)) =
     fht_insert_loop t k v n (cyc_next (2 ^ (m + 3)) s)"
    using fht_next [OF assms(1) Suc.prems] by simp
  then show ?case using Suc.IH [of "cyc_next (2 ^ (m + 3)) s"] Suc.prems assms(2) by auto
qed simp

section \<open>Lookup\<close>

lemma fht_map_slot:
  assumes "fht_shape m t" "s < 2 ^ (m + 3)" "fh_key (fh_entries t ! s) = k" "k \<noteq> 0"
  shows "fht_map t k = Some (fh_value (fh_entries t ! s))"
proof -
  have len: "length (fh_entries t) = 2 ^ (m + 3)" using assms(1) by (simp add: fht_shape_def)
  have inv: "probe_inv (2 ^ (m + 3)) (fht_home m) (\<lambda>s. fh_key (fh_entries t ! s))"
    using assms(1) by (simp add: fht_shape_def)
  have "fh_entries t ! s \<in> set (fh_entries t)" using assms(2) len by simp
  then obtain x where x: "List.find (\<lambda>e. fh_key e = k) (fh_entries t) = Some x"
    using assms(3) by (cases "List.find (\<lambda>e. fh_key e = k) (fh_entries t)") (auto simp: find_None_iff)
  then obtain i where "i < 2 ^ (m + 3)" "fh_entries t ! i = x" "fh_key x = k"
    by (auto simp: find_Some_iff len)
  then have "i = s" using probe_inv_unique [OF inv] assms(2,3,4) by auto
  then show ?thesis using x \<open>fh_entries t ! i = x\<close> assms(4) by (simp add: fht_map_def)
qed

lemma fht_map_absent:
  assumes "fht_shape m t" "\<forall>s<2 ^ (m + 3). fh_key (fh_entries t ! s) \<noteq> k"
  shows "fht_map t k = None"
  using assms by (auto simp: fht_map_def fht_shape_def find_None_iff in_set_conv_nth)

lemma fht_find_slot_cases:
  assumes "fht_shape m t" "k \<noteq> 0"
  obtains (hit) s where "s < 2 ^ (m + 3)" "fh_key (fh_entries t ! s) = k" "fht_find_slot t k = s"
      "fht_map t k = Some (fh_value (fh_entries t ! s))"
  | (miss) "\<forall>s<2 ^ (m + 3). fh_key (fh_entries t ! s) \<noteq> k" "fht_find_slot t k = fh_capacity t"
      "fht_map t k = None"
proof (cases "\<exists>s<2 ^ (m + 3). fh_key (fh_entries t ! s) = k")
  case True
  then obtain s where s: "s < 2 ^ (m + 3)" "fh_key (fh_entries t ! s) = k" by blast
  have inv: "probe_inv (2 ^ (m + 3)) (fht_home m) (\<lambda>s. fh_key (fh_entries t ! s))"
    and cap: "fh_capacity t = 2 ^ (m + 3)"
    using assms(1) by (simp_all add: fht_shape_def)
  have "fht_find_slot t k = s"
    using fhp.probe_slot_present [OF inv s assms(2)] fht_find_loop_probe [OF assms fhp.home_less]
      assms(2) s(2) by (simp add: fht_find_slot_def fht_bucket_home [OF assms(1)] cap)
  then show ?thesis using hit [OF s] fht_map_slot [OF assms(1) s assms(2)] by blast
next
  case False
  then have absent: "\<forall>s<2 ^ (m + 3). fh_key (fh_entries t ! s) \<noteq> k" by blast
  have "fht_find_slot t k = fh_capacity t"
    using fhp.probe_slot_missing [OF absent fhp.home_less] assms(2)
      fht_find_loop_probe [OF assms fhp.home_less]
    by (auto simp: fht_find_slot_def fht_bucket_home [OF assms(1)] split: option.splits)
  then show ?thesis using miss absent fht_map_absent [OF assms(1) absent] by blast
qed

lemma fht_find_map: "fht_wf t \<Longrightarrow> fht_find t k = fht_map t k"
proof -
  assume "fht_wf t"
  then obtain m where m: "fht_shape m t" by (auto simp: fht_wf_def)
  then have cap: "fh_capacity t = 2 ^ (m + 3)" by (simp add: fht_shape_def)
  show ?thesis
  proof (cases "k = 0")
    case True
    then show ?thesis by (simp add: fht_find_def fht_find_slot_def fht_map_def)
  next
    case False
    show ?thesis using m False
      by (cases rule: fht_find_slot_cases) (auto simp: fht_find_def cap Let_def)
  qed
qed

lemma fht_map_live:
  assumes "fht_shape m t"
  shows "fht_map t k = Some v \<longleftrightarrow> \<lparr>fh_key = k, fh_value = v\<rparr> \<in> live fh_key (fh_entries t)"
proof (cases "k = 0")
  case True
  then show ?thesis by (simp add: fht_map_def live_def)
next
  case False
  have len: "length (fh_entries t) = 2 ^ (m + 3)" using assms by (simp add: fht_shape_def)
  show ?thesis using assms False
  proof (cases rule: fht_find_slot_cases)
    case (hit s)
    show ?thesis
    proof
      assume "fht_map t k = Some v"
      then have "fh_entries t ! s = \<lparr>fh_key = k, fh_value = v\<rparr>"
        using hit by (cases "fh_entries t ! s") auto
      then show "\<lparr>fh_key = k, fh_value = v\<rparr> \<in> live fh_key (fh_entries t)"
        using fhp.live_slot [OF len, of "\<lparr>fh_key = k, fh_value = v\<rparr>"] hit(1) False by auto
    next
      assume "\<lparr>fh_key = k, fh_value = v\<rparr> \<in> live fh_key (fh_entries t)"
      then obtain i where "i < 2 ^ (m + 3)" "fh_entries t ! i = \<lparr>fh_key = k, fh_value = v\<rparr>"
        using fhp.live_slot [OF len] by blast
      then show "fht_map t k = Some v" using fht_map_slot [OF assms _ _ False] by force
    qed
  next
    case miss
    then show ?thesis using fhp.live_slot [OF len] by fastforce
  qed
qed

lemma fht_map_eqI:
  assumes "\<And>k v. f k = Some v \<longleftrightarrow> g k = Some v"
  shows "f = g"
  using assms by (intro ext) (metis option.exhaust)

lemma fht_size_dom:
  assumes "fht_wf t"
  shows "fh_size t = card (dom (fht_map t))" "finite (dom (fht_map t))"
proof -
  from assms obtain m where m: "fht_shape m t" by (auto simp: fht_wf_def)
  have *: "dom (fht_map t) = fh_key ` live fh_key (fh_entries t)"
  proof
    show "dom (fht_map t) \<subseteq> fh_key ` live fh_key (fh_entries t)"
      by (auto simp: dom_def fht_map_live [OF m]) (metis fh_entry.select_convs(1) image_eqI)
    have "fh_key e \<in> dom (fht_map t)" if "e \<in> live fh_key (fh_entries t)" for e
      using that fht_map_live [OF m, of "fh_key e" "fh_value e"] by (cases e) (auto simp: dom_def)
    then show "fh_key ` live fh_key (fh_entries t) \<subseteq> dom (fht_map t)" by blast
  qed
  have "inj_on fh_key (live fh_key (fh_entries t))"
  proof (rule inj_onI)
    fix x y assume "x \<in> live fh_key (fh_entries t)" "y \<in> live fh_key (fh_entries t)" "fh_key x = fh_key y"
    then show "x = y"
      using fht_map_live [OF m, of "fh_key x" "fh_value x"] fht_map_live [OF m, of "fh_key y" "fh_value y"]
      by (cases x; cases y) auto
  qed
  then show "fh_size t = card (dom (fht_map t))"
    using m * by (simp add: card_image fht_shape_def)
  show "finite (dom (fht_map t))" unfolding * by (simp add: live_def)
qed

section \<open>Insertion\<close>

lemma fht_shape_empty_slot:
  assumes "fht_shape m t" shows "\<exists>e<2 ^ (m + 3). fh_key (fh_entries t ! e) = 0"
proof (rule fhp.empty_slot)
  show "card (live fh_key (fh_entries t)) < 2 ^ (m + 3)"
    using assms by (auto simp: fht_shape_def)
qed (use assms in \<open>auto simp: fht_shape_def\<close>)

lemma fht_insert_fresh:
  assumes wf: "fht_wf t" and k: "k \<noteq> 0" "fht_map t k = None" and room: "fh_size t \<noteq> fh_maximum t"
  shows "\<exists>t'. fht_insert t k v = (t', Inserted) \<and> fht_wf t' \<and> fht_map t' = (fht_map t)(k \<mapsto> v) \<and>
    fh_maximum t' = fh_maximum t \<and> fh_init t' = fh_init t"
proof -
  from wf obtain m where m: "fht_shape m t" by (auto simp: fht_wf_def)
  let ?c = "2 ^ (m + 3) :: nat" and ?kf = "\<lambda>s. fh_key (fh_entries t ! s)"
  have absent: "\<forall>s<?c. ?kf s \<noteq> k" using fht_map_slot [OF m _ _ k(1)] k(2) by force
  have inv: "probe_inv ?c (fht_home m) ?kf" and len: "length (fh_entries t) = ?c"
    and cap: "fh_capacity t = ?c" using m by (simp_all add: fht_shape_def)
  obtain e where e: "e < ?c" "?kf e = 0" using fht_shape_empty_slot [OF m] by blast
  obtain z where z: "z < ?c" "probe_slot ?c ?kf k ?c (fht_home m k) = Some z" "?kf z = 0"
    "\<forall>y<?c. cyc_dist ?c (fht_home m k) y < cyc_dist ?c (fht_home m k) z \<longrightarrow> ?kf y \<noteq> 0"
    using fhp.probe_slot_absent [OF e absent] by blast
  let ?n = "\<lparr>fh_key = k, fh_value = v\<rparr>"
  let ?t = "t\<lparr>fh_entries := (fh_entries t)[z := ?n], fh_size := fh_size t + 1\<rparr>"
  have res: "fht_insert t k v = (?t, Inserted)"
    using k room z fht_insert_loop_probe [OF m k(1) fhp.home_less, of v ?c]
    by (simp add: fht_insert_def fht_bucket_home [OF m] cap)
  have live: "live fh_key (fh_entries ?t) = insert ?n (live fh_key (fh_entries t))"
    using live_update [of z "fh_entries t" fh_key ?n] z len k(1) by simp
  have "?n \<notin> live fh_key (fh_entries t)" using fht_map_live [OF m, of k v] k(2) by simp
  then have card: "card (live fh_key (fh_entries ?t)) = fh_size t + 1"
    using live m by (simp add: fht_shape_def live_def)
  have "probe_inv ?c (fht_home m) (\<lambda>s. fh_key (fh_entries ?t ! s))"
    using fhp.probe_inv_insert [OF inv k(1) absent z(1,4)] fhp.key_update [OF len z(1), of ?n] by simp
  then have m': "fht_shape m ?t"
    using m card room by (auto simp: fht_shape_def)
  have "fht_map ?t = (fht_map t)(k \<mapsto> v)"
  proof (rule fht_map_eqI)
    fix k' v'
    show "fht_map ?t k' = Some v' \<longleftrightarrow> ((fht_map t)(k \<mapsto> v)) k' = Some v'"
      unfolding fht_map_live [OF m'] live using fht_map_live [OF m, of k' v'] k(2) by auto
  qed
  then show ?thesis using res m' by (auto simp: fht_wf_def)
qed

lemma fht_insert_reject:
  assumes "fht_wf t"
  shows "k = 0 \<Longrightarrow> fht_insert t k v = (t, InvalidKey)"
    and "fht_map t k \<noteq> None \<Longrightarrow> fht_insert t k v = (t, Duplicate)"
    and "k \<noteq> 0 \<Longrightarrow> fht_map t k = None \<Longrightarrow> fh_size t = fh_maximum t \<Longrightarrow> fht_insert t k v = (t, Full)"
proof -
  from assms obtain m where m: "fht_shape m t" by (auto simp: fht_wf_def)
  show "k = 0 \<Longrightarrow> fht_insert t k v = (t, InvalidKey)" by (simp add: fht_insert_def)
  show "fht_insert t k v = (t, Duplicate)" if some: "fht_map t k \<noteq> None"
  proof -
    have k: "k \<noteq> 0" using some by (auto simp: fht_map_def)
    show ?thesis using m k
    proof (cases rule: fht_find_slot_cases)
      case (hit s)
      have inv: "probe_inv (2 ^ (m + 3)) (fht_home m) (\<lambda>s. fh_key (fh_entries t ! s))"
        and cap: "fh_capacity t = 2 ^ (m + 3)" using m by (simp_all add: fht_shape_def)
      show ?thesis
        using hit k some fhp.probe_slot_present [OF inv hit(1,2) k]
          fht_insert_loop_probe [OF m k fhp.home_less] fht_find_map [OF assms]
        by (simp add: fht_insert_def fht_bucket_home [OF m] cap)
    qed (use some in simp)
  qed
  show "k \<noteq> 0 \<Longrightarrow> fht_map t k = None \<Longrightarrow> fh_size t = fh_maximum t \<Longrightarrow> fht_insert t k v = (t, Full)"
    using fht_find_map [OF assms] by (simp add: fht_insert_def)
qed

section \<open>Assignment through a found pointer\<close>

lemma fht_store_map:
  assumes wf: "fht_wf t" and some: "fht_map t k \<noteq> None"
  shows "fht_wf (fht_store t k v)" "fht_map (fht_store t k v) = (fht_map t)(k \<mapsto> v)"
    "fh_size (fht_store t k v) = fh_size t" "fh_maximum (fht_store t k v) = fh_maximum t"
    "fh_init (fht_store t k v) = fh_init t"
proof -
  from wf obtain m where m: "fht_shape m t" by (auto simp: fht_wf_def)
  have k: "k \<noteq> 0" using some by (auto simp: fht_map_def)
  from m k obtain s where s: "s < 2 ^ (m + 3)" "fh_key (fh_entries t ! s) = k" "fht_find_slot t k = s"
    "fht_map t k = Some (fh_value (fh_entries t ! s))"
    using some by (cases rule: fht_find_slot_cases) auto
  have inv: "probe_inv (2 ^ (m + 3)) (fht_home m) (\<lambda>s. fh_key (fh_entries t ! s))"
    and len: "length (fh_entries t) = 2 ^ (m + 3)" and cap: "fh_capacity t = 2 ^ (m + 3)"
    using m by (simp_all add: fht_shape_def)
  let ?n = "(fh_entries t ! s)\<lparr>fh_value := v\<rparr>"
  let ?t = "t\<lparr>fh_entries := (fh_entries t)[s := ?n]\<rparr>"
  have st: "fht_store t k v = ?t" using s cap by (simp add: fht_store_def)
  have keys: "(\<lambda>x. fh_key (fh_entries ?t ! x)) = (\<lambda>x. fh_key (fh_entries t ! x))"
    using fhp.key_update [OF len s(1), of ?n] by auto
  have old: "fh_entries t ! s \<in> live fh_key (fh_entries t)"
    using fhp.live_slot [OF len, of "fh_entries t ! s"] s(1,2) k by auto
  have live: "live fh_key (fh_entries ?t) = insert ?n (live fh_key (fh_entries t) - {fh_entries t ! s})"
    using fhp.live_replace [OF inv len s(1), of ?n] s(2) k by simp
  have "?n \<notin> live fh_key (fh_entries t) - {fh_entries t ! s}"
    using fht_map_live [OF m, of k v] s(2,4) by (cases "fh_entries t ! s") auto
  then have "card (live fh_key (fh_entries ?t)) = card (live fh_key (fh_entries t))"
    using live card_Suc_Diff1 [OF finite_live old] by simp
  then have m': "fht_shape m ?t" using m keys by (simp add: fht_shape_def)
  show "fht_wf (fht_store t k v)" using m' st by (auto simp: fht_wf_def)
  show "fht_map (fht_store t k v) = (fht_map t)(k \<mapsto> v)"
  proof (rule fht_map_eqI)
    fix k' v'
    show "fht_map (fht_store t k v) k' = Some v' \<longleftrightarrow> ((fht_map t)(k \<mapsto> v)) k' = Some v'"
      unfolding st fht_map_live [OF m'] live using fht_map_live [OF m, of k' v'] s(2,4)
      by (cases "fh_entries t ! s") auto
  qed
qed (simp_all add: fht_store_def Let_def)

section \<open>Erasure\<close>

lemma fht_shift_body_step:
  assumes m: "fht_shape m t" and "hole < 2 ^ (m + 3)" "scan < 2 ^ (m + 3)"
  shows "fht_shift_body t (es, hole, scan) =
    shift_step (2 ^ (m + 3)) (fht_home m) fh_key (es, hole, scan)"
proof -
  have cap: "fh_capacity t = 2 ^ (m + 3)" and le: "m + 3 \<le> 64" using m by (simp_all add: fht_shape_def)
  let ?h = "fht_home m (fh_key (es ! scan))"
  have "size_sub scan ?h AND (2 ^ (m + 3) - 1) = cyc_dist (2 ^ (m + 3)) ?h scan"
    and "size_sub hole ?h AND (2 ^ (m + 3) - 1) = cyc_dist (2 ^ (m + 3)) ?h hole"
    using size_sub_mask [OF assms(3) fhp.home_less le] size_sub_mask [OF assms(2) fhp.home_less le] .
  then show ?thesis
    using and_mask_next [OF assms(3)]
    by (simp add: fht_shift_body_def shift_step_def Let_def fht_bucket_home [OF m] cap)
qed

lemma fht_shift_loop:
  assumes m: "fht_shape m t" and s: "s < 2 ^ (m + 3)" "fh_key (fh_entries t ! s) \<noteq> 0"
  shows "\<exists>es' hole' scan'. while_option fht_shift_guard (fht_shift_body t)
      (fh_entries t, s, (s + 1) AND (fh_capacity t - 1)) = Some (es', hole', scan') \<and>
    length es' = 2 ^ (m + 3) \<and> hole' < 2 ^ (m + 3) \<and>
    probe_inv (2 ^ (m + 3)) (fht_home m)
      (\<lambda>x. fh_key (es'[hole' := \<lparr>fh_key = 0, fh_value = fh_init t\<rparr>] ! x)) \<and>
    live fh_key (es'[hole' := \<lparr>fh_key = 0, fh_value = fh_init t\<rparr>]) =
      live fh_key (fh_entries t) - {fh_entries t ! s}"
proof -
  obtain e where e: "e < 2 ^ (m + 3)" "fh_key (fh_entries t ! e) = 0"
    using fht_shape_empty_slot [OF m] by blast
  have inv: "probe_inv (2 ^ (m + 3)) (fht_home m) (\<lambda>s. fh_key (fh_entries t ! s))"
    and len: "length (fh_entries t) = 2 ^ (m + 3)" using m by (simp_all add: fht_shape_def)
  show ?thesis
    unfolding fht_next [OF m s(1)]
    by (rule fhp.shift_loop [OF _ _ inv len s e])
      (simp_all add: fht_shift_body_step [OF m] fht_shift_guard_def)
qed

lemma fht_erase_present:
  assumes wf: "fht_wf t" and some: "fht_map t k \<noteq> None"
  shows "\<exists>t'. fht_erase t k = (t', True) \<and> fht_wf t' \<and> fht_map t' = (fht_map t)(k := None) \<and>
    fh_maximum t' = fh_maximum t \<and> fh_init t' = fh_init t"
proof -
  from wf obtain m where m: "fht_shape m t" by (auto simp: fht_wf_def)
  have k: "k \<noteq> 0" using some by (auto simp: fht_map_def)
  from m k obtain s where s: "s < 2 ^ (m + 3)" "fh_key (fh_entries t ! s) = k" "fht_find_slot t k = s"
    "fht_map t k = Some (fh_value (fh_entries t ! s))"
    using some by (cases rule: fht_find_slot_cases) auto
  have cap: "fh_capacity t = 2 ^ (m + 3)" and len: "length (fh_entries t) = 2 ^ (m + 3)"
    using m by (simp_all add: fht_shape_def)
  let ?nil = "\<lparr>fh_key = 0, fh_value = fh_init t\<rparr>"
  obtain es' hole' scan' where w: "while_option fht_shift_guard (fht_shift_body t)
      (fh_entries t, s, (s + 1) AND (fh_capacity t - 1)) = Some (es', hole', scan')"
    and len': "length es' = 2 ^ (m + 3)"
    and inv': "probe_inv (2 ^ (m + 3)) (fht_home m) (\<lambda>x. fh_key (es'[hole' := ?nil] ! x))"
    and live': "live fh_key (es'[hole' := ?nil]) = live fh_key (fh_entries t) - {fh_entries t ! s}"
    using fht_shift_loop [OF m s(1)] s(2) k by auto
  let ?t = "t\<lparr>fh_entries := es'[hole' := ?nil], fh_size := fh_size t - 1\<rparr>"
  have res: "fht_erase t k = (?t, True)"
    using s cap w by (simp add: fht_erase_def fht_backshift_from_def while_def Let_def)
  have old: "fh_entries t ! s \<in> live fh_key (fh_entries t)"
    using fhp.live_slot [OF len, of "fh_entries t ! s"] s(1,2) k by auto
  have "card (live fh_key (fh_entries ?t)) = fh_size t - 1"
    using m live' old by (simp add: fht_shape_def)
  then have m': "fht_shape m ?t"
    using m inv' len' by (auto simp: fht_shape_def)
  have le: "live fh_key (fh_entries ?t) = live fh_key (fh_entries t) - {fh_entries t ! s}"
    using live' by simp
  have "fht_map ?t = (fht_map t)(k := None)"
  proof (rule fht_map_eqI)
    fix k' v'
    show "fht_map ?t k' = Some v' \<longleftrightarrow> ((fht_map t)(k := None)) k' = Some v'"
      unfolding fht_map_live [OF m'] le using fht_map_live [OF m, of k' v'] s(2,4)
      by (cases "fh_entries t ! s") auto
  qed
  then show ?thesis using res m' by (auto simp: fht_wf_def)
qed

lemma fht_erase_absent:
  assumes "fht_wf t" "fht_map t k = None"
  shows "fht_erase t k = (t, False)"
proof -
  from assms obtain m where m: "fht_shape m t" by (auto simp: fht_wf_def)
  show ?thesis
  proof (cases "k = 0")
    case True
    then show ?thesis by (simp add: fht_erase_def fht_find_slot_def)
  next
    case False
    show ?thesis using m False assms(2) by (cases rule: fht_find_slot_cases) (auto simp: fht_erase_def)
  qed
qed

section \<open>Construction\<close>

lemma rounded_loop:
  assumes "0 < n" "n \<le> SIZE_MAX div 2"
  shows "\<exists>m. m + 3 \<le> 63 \<and>
    while (\<lambda>(capacity, thrown). \<not> thrown \<and> capacity < n * 2)
      (\<lambda>(capacity, thrown). if capacity > SIZE_MAX div 2 then (capacity, True) else (capacity * 2, False))
      (8, False) = (2 ^ (m + 3), n * 2 > 2 ^ (m + 3)) \<and> (n * 2 > 2 ^ (m + 3) \<longrightarrow> m + 3 = 63)"
proof -
  have half: "SIZE_MAX div 2 < 2 ^ (m + 3) \<longleftrightarrow> m = 60" if "m + 3 \<le> 63" for m
    using that power_strict_increasing_iff [of "2::nat" "m + 3" 63] by (auto simp: SIZE_MAX_def)
  let ?P = "\<lambda>(capacity::nat, thrown). \<exists>m. m + 3 \<le> 63 \<and> capacity = 2 ^ (m + 3) \<and>
    (thrown \<longrightarrow> m = 60 \<and> capacity < n * 2)"
  show ?thesis
  proof (rule while_rule [where P = ?P and
      r = "measure (\<lambda>(capacity, thrown). if thrown then 0 else Suc (n * 2 - capacity))"])
    show "?P (8, False)" by (auto intro!: exI [of _ 0])
    show "?P (case st of (capacity, thrown) \<Rightarrow>
        if SIZE_MAX div 2 < capacity then (capacity, True) else (capacity * 2, False))"
      if P: "?P st" and g: "case st of (capacity, thrown) \<Rightarrow> \<not> thrown \<and> capacity < n * 2" for st
    proof -
      obtain capacity thrown m where st: "st = (capacity, thrown)" "m + 3 \<le> 63" "capacity = 2 ^ (m + 3)"
        "\<not> thrown" "capacity < n * 2" using P g by (cases st) auto
      show ?thesis
      proof (cases "m = 60")
        case True
        then show ?thesis using st half [OF st(2)] by auto
      next
        case False
        then have "m + 1 + 3 \<le> 63" "capacity * 2 = 2 ^ (m + 1 + 3)" using st(2,3) by (auto simp: power_add)
        then show ?thesis using st half [OF st(2)] False by (auto intro!: exI [of _ "m + 1"])
      qed
    qed
    show "\<exists>m. m + 3 \<le> 63 \<and> st = (2 ^ (m + 3), n * 2 > 2 ^ (m + 3)) \<and> (n * 2 > 2 ^ (m + 3) \<longrightarrow> m + 3 = 63)"
      if "?P st" "\<not> (case st of (capacity, thrown) \<Rightarrow> \<not> thrown \<and> capacity < n * 2)" for st
      using that by (cases st) auto
  qed (auto split: if_splits intro!: diff_less_mono2)
qed

lemma rounded_capacity_cases:
  assumes "rounded_capacity n = Inr capacity"
  shows "\<exists>m. m + 3 \<le> 63 \<and> capacity = 2 ^ (m + 3) \<and> 2 * n \<le> capacity \<and> n \<noteq> 0"
proof -
  have n: "0 < n" "n \<le> SIZE_MAX div 2"
    using assms by (auto simp: rounded_capacity_def split: if_splits)
  show ?thesis using rounded_loop [OF n] assms n
    by (auto simp: rounded_capacity_def split: if_splits)
qed

lemma FixedHashTable_new_wf:
  assumes "FixedHashTable_new i n = Inr t"
  shows "fht_wf t" "fht_map t = (\<lambda>_. None)" "fh_size t = 0" "fh_maximum t = n" "fh_init t = i"
proof -
  obtain capacity where c: "rounded_capacity n = Inr capacity"
    and t: "t = \<lparr>fh_maximum = n, fh_capacity = capacity,
      fh_entries = replicate capacity \<lparr>fh_key = 0, fh_value = i\<rparr>, fh_size = 0, fh_init = i\<rparr>"
    using assms by (auto simp: FixedHashTable_new_def split: sum.splits)
  obtain m where m: "m + 3 \<le> 63" "capacity = 2 ^ (m + 3)" "2 * n \<le> capacity" "n \<noteq> 0"
    using rounded_capacity_cases [OF c] by blast
  have "fht_shape m t"
    using m by (auto simp: fht_shape_def t live_def intro!: probe_invI)
  then show "fht_wf t" by (auto simp: fht_wf_def)
  show "fht_map t = (\<lambda>_. None)" by (auto simp: fht_map_def t find_None_iff)
qed (use assms in \<open>auto simp: FixedHashTable_new_def split: sum.splits\<close>)

section \<open>The interface the clients rely on\<close>

text \<open>
  A bounded table with reserved key zero: what \<open>find\<close>, \<open>insert\<close>, \<open>erase\<close> and the assignment
  through a found pointer do to the abstract map. The adapter and the pipeline rely on these
  laws only.
\<close>

locale bounded_table =
  fixes tinsert :: "'t \<Rightarrow> u64 \<Rightarrow> 'v \<Rightarrow> 't \<times> FixedHashInsertResult"
    and tfind :: "'t \<Rightarrow> u64 \<Rightarrow> 'v option"
    and terase :: "'t \<Rightarrow> u64 \<Rightarrow> 't \<times> bool"
    and tstore :: "'t \<Rightarrow> u64 \<Rightarrow> 'v \<Rightarrow> 't"
    and tsize :: "'t \<Rightarrow> nat"
    and tmax :: "'t \<Rightarrow> nat"
    and twf :: "'t \<Rightarrow> bool"
    and tmap :: "'t \<Rightarrow> u64 \<Rightarrow> 'v option"
  assumes find_map: "twf t \<Longrightarrow> tfind t k = tmap t k"
    and zero_absent: "tmap t 0 = None"
    and size_card: "twf t \<Longrightarrow> tsize t = card (dom (tmap t))"
    and dom_finite: "twf t \<Longrightarrow> finite (dom (tmap t))"
    and size_bound: "twf t \<Longrightarrow> tsize t \<le> tmax t"
    and insert_invalid: "twf t \<Longrightarrow> tinsert t 0 v = (t, InvalidKey)"
    and insert_duplicate: "twf t \<Longrightarrow> tmap t k \<noteq> None \<Longrightarrow> tinsert t k v = (t, Duplicate)"
    and insert_full: "twf t \<Longrightarrow> k \<noteq> 0 \<Longrightarrow> tmap t k = None \<Longrightarrow> tsize t = tmax t \<Longrightarrow> tinsert t k v = (t, Full)"
    and insert_fresh: "twf t \<Longrightarrow> k \<noteq> 0 \<Longrightarrow> tmap t k = None \<Longrightarrow> tsize t \<noteq> tmax t \<Longrightarrow>
      \<exists>t'. tinsert t k v = (t', Inserted) \<and> twf t' \<and> tmap t' = (tmap t)(k \<mapsto> v) \<and> tmax t' = tmax t"
    and erase_present: "twf t \<Longrightarrow> tmap t k \<noteq> None \<Longrightarrow>
      \<exists>t'. terase t k = (t', True) \<and> twf t' \<and> tmap t' = (tmap t)(k := None) \<and> tmax t' = tmax t"
    and erase_absent: "twf t \<Longrightarrow> tmap t k = None \<Longrightarrow> terase t k = (t, False)"
    and store_wf: "twf t \<Longrightarrow> tmap t k \<noteq> None \<Longrightarrow> twf (tstore t k v)"
    and store_map: "twf t \<Longrightarrow> tmap t k \<noteq> None \<Longrightarrow> tmap (tstore t k v) = (tmap t)(k \<mapsto> v)"
    and store_max: "tmax (tstore t k v) = tmax t"
begin

lemma insert_cases:
  assumes "twf t"
  obtains (invalid) "k = 0" "tinsert t k v = (t, InvalidKey)"
  | (duplicate) w where "k \<noteq> 0" "tmap t k = Some w" "tinsert t k v = (t, Duplicate)"
  | (full) "k \<noteq> 0" "tmap t k = None" "tsize t = tmax t" "tinsert t k v = (t, Full)"
  | (inserted) t' where "k \<noteq> 0" "tmap t k = None" "tsize t < tmax t" "tinsert t k v = (t', Inserted)"
      "twf t'" "tmap t' = (tmap t)(k \<mapsto> v)" "tmax t' = tmax t"
  using insert_invalid [OF assms, of v] insert_duplicate [OF assms, of k v] insert_full [OF assms, of k v]
    insert_fresh [OF assms, of k v] size_bound [OF assms]
  by (cases "k = 0"; cases "tmap t k"; cases "tsize t = tmax t") force+

lemma insert_wf:
  assumes "twf t" shows "twf (fst (tinsert t k v))"
  by (rule insert_cases [OF assms, of k v]) (auto simp: assms)

lemma erase_wf: "twf t \<Longrightarrow> twf (fst (terase t k))"
  using erase_present [of t k] erase_absent [of t k] by (cases "tmap t k") auto

lemma erase_map: "twf t \<Longrightarrow> tmap (fst (terase t k)) = (tmap t)(k := None)"
  using erase_present [of t k] erase_absent [of t k] by (cases "tmap t k") (auto simp: fun_upd_idem)

lemma erase_max: "twf t \<Longrightarrow> tmax (fst (terase t k)) = tmax t"
  using erase_present [of t k] erase_absent [of t k] by (cases "tmap t k") auto

lemma insert_max: "twf t \<Longrightarrow> tmax (fst (tinsert t k v)) = tmax t"
  by (erule insert_cases [where k = k and v = v]) auto

lemma erase_size: "twf t \<Longrightarrow> tmap t k \<noteq> None \<Longrightarrow> tsize (fst (terase t k)) = tsize t - 1"
  using erase_wf [of t k] erase_map [of t k] by (auto simp: size_card card_Diff_singleton domI)

lemma erase_then_insert:
  assumes "twf t" "tmap t old \<noteq> None" "k \<noteq> 0" "tmap t k = None"
  shows "\<exists>t'. tinsert (fst (terase t old)) k v = (t', Inserted) \<and> twf t' \<and>
    tmap t' = (tmap t)(old := None, k \<mapsto> v)"
proof -
  let ?t = "fst (terase t old)"
  have wf: "twf ?t" and map: "tmap ?t = (tmap t)(old := None)" and max: "tmax ?t = tmax t"
    using assms(1) by (simp_all add: erase_wf erase_map erase_max)
  have "card (dom (tmap t)) \<noteq> 0" using dom_finite [OF assms(1)] assms(2) by auto
  then have "tsize ?t < tmax ?t"
    using erase_size [OF assms(1,2)] size_bound [OF assms(1)] size_card [OF assms(1)] max by linarith
  then show ?thesis using insert_fresh [OF wf assms(3), of v] map assms(4) by (cases "k = old") auto
qed

end

interpretation fh: bounded_table fht_insert fht_find fht_erase fht_store fh_size fh_maximum fht_wf fht_map
proof
  fix t :: "'a FixedHashTable" and k v
  show "fht_wf t \<Longrightarrow> fht_find t k = fht_map t k" by (rule fht_find_map)
  show "fht_map t 0 = None" by (simp add: fht_map_def)
  show "fht_wf t \<Longrightarrow> fh_size t = card (dom (fht_map t))" "fht_wf t \<Longrightarrow> finite (dom (fht_map t))"
    by (simp_all add: fht_size_dom)
  show "fht_wf t \<Longrightarrow> fh_size t \<le> fh_maximum t" by (auto simp: fht_wf_def fht_shape_def)
  show "fht_wf t \<Longrightarrow> fht_insert t 0 v = (t, InvalidKey)"
    "fht_wf t \<Longrightarrow> fht_map t k \<noteq> None \<Longrightarrow> fht_insert t k v = (t, Duplicate)"
    "fht_wf t \<Longrightarrow> k \<noteq> 0 \<Longrightarrow> fht_map t k = None \<Longrightarrow> fh_size t = fh_maximum t \<Longrightarrow> fht_insert t k v = (t, Full)"
    by (simp_all add: fht_insert_reject)
  show "fht_wf t \<Longrightarrow> k \<noteq> 0 \<Longrightarrow> fht_map t k = None \<Longrightarrow> fh_size t \<noteq> fh_maximum t \<Longrightarrow>
    \<exists>t'. fht_insert t k v = (t', Inserted) \<and> fht_wf t' \<and> fht_map t' = (fht_map t)(k \<mapsto> v) \<and>
      fh_maximum t' = fh_maximum t"
    using fht_insert_fresh [of t k v] by blast
  show "fht_wf t \<Longrightarrow> fht_map t k \<noteq> None \<Longrightarrow>
    \<exists>t'. fht_erase t k = (t', True) \<and> fht_wf t' \<and> fht_map t' = (fht_map t)(k := None) \<and>
      fh_maximum t' = fh_maximum t"
    using fht_erase_present [of t k] by blast
  show "fht_wf t \<Longrightarrow> fht_map t k = None \<Longrightarrow> fht_erase t k = (t, False)" by (rule fht_erase_absent)
  show "fht_wf t \<Longrightarrow> fht_map t k \<noteq> None \<Longrightarrow> fht_wf (fht_store t k v)"
    "fht_wf t \<Longrightarrow> fht_map t k \<noteq> None \<Longrightarrow> fht_map (fht_store t k v) = (fht_map t)(k \<mapsto> v)"
    by (simp_all add: fht_store_map)
  show "fh_maximum (fht_store t k v) = fh_maximum t" by (simp add: fht_store_def Let_def)
qed

section \<open>Histories\<close>

text \<open>
  The abstract specification: a finite map with a capacity, and the answers it gives to a
  history of calls.
\<close>

datatype 'v table_call = Call_insert u64 'v | Call_find u64 | Call_erase u64

datatype 'v table_answer = Ans_insert FixedHashInsertResult | Ans_find "'v option" | Ans_erase bool

fun fht_call :: "'v FixedHashTable \<Rightarrow> 'v table_call \<Rightarrow> 'v FixedHashTable \<times> 'v table_answer" where
  "fht_call t (Call_insert k v) = (case fht_insert t k v of (t', r) \<Rightarrow> (t', Ans_insert r))"
| "fht_call t (Call_find k) = (t, Ans_find (fht_find t k))"
| "fht_call t (Call_erase k) = (case fht_erase t k of (t', b) \<Rightarrow> (t', Ans_erase b))"

fun spec_call :: "nat \<Rightarrow> (u64 \<rightharpoonup> 'v) \<Rightarrow> 'v table_call \<Rightarrow> (u64 \<rightharpoonup> 'v) \<times> 'v table_answer" where
  "spec_call mx m (Call_insert k v) =
     (if k = 0 then (m, Ans_insert InvalidKey)
      else if m k \<noteq> None then (m, Ans_insert Duplicate)
      else if card (dom m) = mx then (m, Ans_insert Full)
      else (m(k \<mapsto> v), Ans_insert Inserted))"
| "spec_call mx m (Call_find k) = (m, Ans_find (m k))"
| "spec_call mx m (Call_erase k) = (m(k := None), Ans_erase (m k \<noteq> None))"

fun answers :: "('s \<Rightarrow> 'c \<Rightarrow> 's \<times> 'a) \<Rightarrow> 's \<Rightarrow> 'c list \<Rightarrow> 'a list" where
  "answers step s [] = []"
| "answers step s (x # xs) = (case step s x of (s', a) \<Rightarrow> a # answers step s' xs)"

lemma fht_call_refines:
  assumes "fht_wf t"
  shows "\<exists>t' a. fht_call t x = (t', a) \<and> fht_wf t' \<and> fh_maximum t' = fh_maximum t \<and>
    spec_call (fh_maximum t) (fht_map t) x = (fht_map t', a)"
proof (cases x)
  case (Call_insert k v)
  show ?thesis
    unfolding Call_insert by (rule fh.insert_cases [OF assms, of k v]) (auto simp: assms fh.size_card)
next
  case (Call_find k)
  then show ?thesis using assms by (simp add: fh.find_map)
next
  case (Call_erase k)
  obtain t' b where e: "fht_erase t k = (t', b)" by fastforce
  then have "b = (fht_map t k \<noteq> None)"
    using fh.erase_present [OF assms, of k] fh.erase_absent [OF assms, of k] by (cases "fht_map t k") auto
  then show ?thesis
    using Call_erase e fh.erase_wf [OF assms, of k] fh.erase_map [OF assms, of k] fh.erase_max [OF assms, of k]
    by auto
qed

lemma fht_answers_refine:
  "fht_wf t \<Longrightarrow> answers fht_call t xs = answers (spec_call (fh_maximum t)) (fht_map t) xs"
proof (induction xs arbitrary: t)
  case (Cons x xs)
  then show ?case using fht_call_refines [OF Cons.prems, of x] by fastforce
qed simp

lemma fht_new_4:
  "FixedHashTable_new (0::nat) 4 = Inr \<lparr>fh_maximum = 4, fh_capacity = 8,
     fh_entries = replicate 8 \<lparr>fh_key = 0, fh_value = 0\<rparr>, fh_size = 0, fh_init = 0\<rparr>"
  by (simp add: FixedHashTable_new_def rounded_capacity_def SIZE_MAX_def while_unfold)

section \<open>Properties\<close>

text \<open>
  C10. A table built by the constructor answers every history of \<open>insert\<close>, \<open>find\<close> and
  \<open>erase\<close> calls exactly as a finite map of at most \<open>maximum_entries\<close> keys without key zero:
  no key is lost by the probing or by the back-shift deletion, and no stale key is found.
\<close>

theorem fht_history_refines:
  assumes "FixedHashTable_new i n = Inr t"
  shows "answers fht_call t xs = answers (spec_call n) Map.empty xs"
  using fht_answers_refine [OF FixedHashTable_new_wf(1) [OF assms]] FixedHashTable_new_wf [OF assms] by simp

theorem fht_history_refines_witness:
  "\<exists>t. FixedHashTable_new (0::nat) 4 = Inr t \<and>
     answers fht_call t [Call_insert 5 7, Call_find 5, Call_erase 5, Call_find 5] =
       [Ans_insert Inserted, Ans_find (Some 7), Ans_erase True, Ans_find None]"
  using fht_history_refines [OF fht_new_4, of "[Call_insert 5 7, Call_find 5, Call_erase 5, Call_find 5]"]
  by (simp add: fht_new_4)

text \<open>
  Inserting into a well-formed table keeps it well formed and has exactly the four outcomes
  of the code, chosen by the key, its presence and the number of stored keys; only \<open>Inserted\<close>
  changes the contents, and then by exactly the new binding.
\<close>

theorem fht_insert_spec:
  assumes "fht_wf t" "fht_insert t k v = (t', r)"
  shows "fht_wf t' \<and>
    r = (if k = 0 then InvalidKey else if fht_map t k \<noteq> None then Duplicate
         else if card (dom (fht_map t)) = fh_maximum t then Full else Inserted) \<and>
    fht_map t' = (if r = Inserted then (fht_map t)(k \<mapsto> v) else fht_map t)"
proof (rule fh.insert_cases [OF assms(1), of k v])
qed (use assms fh.size_card [OF assms(1)] in auto)

theorem fht_insert_spec_witness:
  "\<exists>t t'. fht_insert t 9 (2::nat) = (t', Inserted) \<and> fht_map t' = [9 \<mapsto> 2] \<and> fht_wf t'"
proof -
  obtain t where t: "FixedHashTable_new (0::nat) 4 = Inr t" using fht_new_4 by blast
  obtain t' r where i: "fht_insert t 9 2 = (t', r)" by fastforce
  have "r = Inserted \<and> fht_map t' = [9 \<mapsto> 2] \<and> fht_wf t'"
    using fht_insert_spec [OF FixedHashTable_new_wf(1) [OF t] i] FixedHashTable_new_wf [OF t] by simp
  then show ?thesis using i by blast
qed

text \<open>
  C32. The back-shift loop of \<open>erase\<close> ends from every slot that \<open>find_slot\<close> can return on a
  well-formed table: the \<open>while\<close> loop, which has no bound of its own, always meets an empty slot.
\<close>

theorem fht_backshift_terminates:
  assumes "fht_wf t" "fht_find_slot t k \<noteq> fh_capacity t"
  shows "\<exists>st. while_option fht_shift_guard (fht_shift_body t)
    (fh_entries t, fht_find_slot t k, (fht_find_slot t k + 1) AND (fh_capacity t - 1)) = Some st"
proof -
  from assms(1) obtain m where m: "fht_shape m t" by (auto simp: fht_wf_def)
  have k: "k \<noteq> 0" using assms(2) by (auto simp: fht_find_slot_def)
  from m k obtain s where "s < 2 ^ (m + 3)" "fh_key (fh_entries t ! s) = k" "fht_find_slot t k = s"
    using assms(2) by (cases rule: fht_find_slot_cases) auto
  then show ?thesis using fht_shift_loop [OF m, of s] k by auto
qed

theorem fht_backshift_terminates_witness:
  "\<exists>(t::nat FixedHashTable) st. fht_wf t \<and> fht_find_slot t 9 \<noteq> fh_capacity t \<and>
     while_option fht_shift_guard (fht_shift_body t)
       (fh_entries t, fht_find_slot t 9, (fht_find_slot t 9 + 1) AND (fh_capacity t - 1)) = Some st"
proof -
  obtain t where t: "FixedHashTable_new (0::nat) 4 = Inr t" using fht_new_4 by blast
  obtain t' where t': "fht_wf t'" "fht_map t' 9 = Some (2::nat)"
    using fh.insert_fresh [OF FixedHashTable_new_wf(1) [OF t], of 9 2] FixedHashTable_new_wf [OF t] by auto
  then have "fht_find_slot t' 9 \<noteq> fh_capacity t'"
    using fh.find_map [OF t'(1), of 9] by (auto simp: fht_find_def)
  then show ?thesis using fht_backshift_terminates [OF t'(1)] t'(1) by blast
qed

end
