(* ===== verification/ItchWire.thy ===== *)
theory ItchWire
  imports Prelude
begin

text \<open>
  The wire layer: the big-endian readers and the message tables of
  \<open>include/qtrader/NasdaqItch50.hpp\<close>, and the big-endian writers \<open>encode_u16\<close> and
  \<open>encode_u64\<close> of \<open>include/qtrader/MoldUdp64.hpp\<close>. A pointer \<open>p + k\<close> into a buffer is the
  buffer with the offset \<open>k\<close>.
\<close>

section \<open>Readers and writers\<close>

definition read_u16 :: "bytes \<Rightarrow> nat \<Rightarrow> u16" where
  "read_u16 p k = push_bit 8 (ucast (p ! k)) OR ucast (p ! (k + 1))"

definition read_u32 :: "bytes \<Rightarrow> nat \<Rightarrow> u32" where
  "read_u32 p k =
     push_bit 24 (ucast (p ! k)) OR push_bit 16 (ucast (p ! (k + 1))) OR
     push_bit 8 (ucast (p ! (k + 2))) OR ucast (p ! (k + 3))"

definition read_u48 :: "bytes \<Rightarrow> nat \<Rightarrow> u64" where
  "read_u48 p k =
     push_bit 40 (ucast (p ! k)) OR push_bit 32 (ucast (p ! (k + 1))) OR
     push_bit 24 (ucast (p ! (k + 2))) OR push_bit 16 (ucast (p ! (k + 3))) OR
     push_bit 8 (ucast (p ! (k + 4))) OR ucast (p ! (k + 5))"

definition read_u64 :: "bytes \<Rightarrow> nat \<Rightarrow> u64" where
  "read_u64 p k =
     push_bit 56 (ucast (p ! k)) OR push_bit 48 (ucast (p ! (k + 1))) OR
     push_bit 40 (ucast (p ! (k + 2))) OR push_bit 32 (ucast (p ! (k + 3))) OR
     push_bit 24 (ucast (p ! (k + 4))) OR push_bit 16 (ucast (p ! (k + 5))) OR
     push_bit 8 (ucast (p ! (k + 6))) OR ucast (p ! (k + 7))"

text \<open>The bytes the encoders write at \<open>output\<close>.\<close>

definition encode_u16 :: "u16 \<Rightarrow> bytes" where
  "encode_u16 value = [ucast (drop_bit 8 value), ucast value]"

definition encode_u64 :: "u64 \<Rightarrow> bytes" where
  "encode_u64 value = map (\<lambda>i. ucast (drop_bit (56 - i * 8) value)) [0..<8]"

section \<open>Message table\<close>

abbreviation ascii :: "char \<Rightarrow> u8" where "ascii c \<equiv> of_char c"

definition expected_message_size :: "u8 \<Rightarrow> nat" where
  "expected_message_size type =
     (if type = ascii CHR ''S'' then 12 else if type = ascii CHR ''R'' then 39
      else if type = ascii CHR ''H'' then 25 else if type = ascii CHR ''Y'' then 20
      else if type = ascii CHR ''L'' then 26 else if type = ascii CHR ''V'' then 35
      else if type = ascii CHR ''W'' then 12 else if type = ascii CHR ''K'' then 28
      else if type = ascii CHR ''J'' then 35 else if type = ascii CHR ''h'' then 21
      else if type = ascii CHR ''A'' then 36 else if type = ascii CHR ''F'' then 40
      else if type = ascii CHR ''E'' then 31 else if type = ascii CHR ''C'' then 36
      else if type = ascii CHR ''X'' then 23 else if type = ascii CHR ''D'' then 19
      else if type = ascii CHR ''U'' then 35 else if type = ascii CHR ''P'' then 44
      else if type = ascii CHR ''Q'' then 40 else if type = ascii CHR ''B'' then 19
      else if type = ascii CHR ''I'' then 50 else if type = ascii CHR ''N'' then 20
      else 0)"

definition message_name :: "u8 \<Rightarrow> string" where
  "message_name type =
     (if type = ascii CHR ''S'' then ''System Event''
      else if type = ascii CHR ''R'' then ''Stock Directory''
      else if type = ascii CHR ''H'' then ''Stock Trading Action''
      else if type = ascii CHR ''Y'' then ''Reg SHO Restriction''
      else if type = ascii CHR ''L'' then ''Market Participant Position''
      else if type = ascii CHR ''V'' then ''MWCB Decline Level''
      else if type = ascii CHR ''W'' then ''MWCB Status''
      else if type = ascii CHR ''K'' then ''IPO Quoting Period Update''
      else if type = ascii CHR ''J'' then ''LULD Auction Collar''
      else if type = ascii CHR ''h'' then ''Operational Halt''
      else if type = ascii CHR ''A'' then ''Add Order''
      else if type = ascii CHR ''F'' then ''Add Order with MPID''
      else if type = ascii CHR ''E'' then ''Order Executed''
      else if type = ascii CHR ''C'' then ''Order Executed with Price''
      else if type = ascii CHR ''X'' then ''Order Cancel''
      else if type = ascii CHR ''D'' then ''Order Delete''
      else if type = ascii CHR ''U'' then ''Order Replace''
      else if type = ascii CHR ''P'' then ''Trade''
      else if type = ascii CHR ''Q'' then ''Cross Trade''
      else if type = ascii CHR ''B'' then ''Broken Trade''
      else if type = ascii CHR ''I'' then ''NOII''
      else if type = ascii CHR ''N'' then ''Retail Price Improvement''
      else ''Unknown'')"

section \<open>Lemmas\<close>

lemma length_encode [simp]: "length (encode_u16 v) = 2" "length (encode_u64 w) = 8"
  by (simp_all add: encode_u16_def encode_u64_def)

lemma encode_u64_list:
  "encode_u64 v = [ucast (drop_bit 56 v), ucast (drop_bit 48 v), ucast (drop_bit 40 v), ucast (drop_bit 32 v),
     ucast (drop_bit 24 v), ucast (drop_bit 16 v), ucast (drop_bit 8 v), ucast v]"
  by (simp add: encode_u64_def upt_rec numeral_eq_Suc)

lemma read_u16_encode: "read_u16 (encode_u16 v) 0 = v"
  by (rule bit_word_eqI)
    (auto simp: read_u16_def encode_u16_def bit_simps)

lemma byte_lane: "push_bit k (ucast (ucast (drop_bit k v) :: u8)) = (v :: u64) AND push_bit k (mask 8)"
  by (rule bit_word_eqI) (auto simp: bit_simps)

lemma byte_lane_0: "ucast (ucast v :: u8) = (v :: u64) AND mask 8"
  using byte_lane [of 0 v] by simp

lemma read_u64_encode: "read_u64 (encode_u64 v) 0 = v"
proof -
  have "read_u64 (encode_u64 v) 0 =
    v AND (push_bit 56 (mask 8) OR push_bit 48 (mask 8) OR push_bit 40 (mask 8) OR push_bit 32 (mask 8) OR
      push_bit 24 (mask 8) OR push_bit 16 (mask 8) OR push_bit 8 (mask 8) OR mask 8)"
    by (simp add: read_u64_def encode_u64_list byte_lane byte_lane_0 [of v] bit.conj_disj_distrib)
  also have "push_bit 56 (mask 8) OR push_bit 48 (mask 8) OR push_bit 40 (mask 8) OR push_bit 32 (mask 8) OR
      push_bit 24 (mask 8) OR push_bit 16 (mask 8) OR push_bit 8 (mask 8) OR mask 8 = (- 1 :: u64)"
    by (simp add: push_bit_eq_mult mask_eq_exp_minus_1)
  finally show ?thesis by simp
qed

text \<open>A reader sees only its own bytes: it commutes with prefixes and truncation.\<close>

lemma read_append:
  "read_u16 (xs @ ys) (length xs + k) = read_u16 ys k"
  "read_u64 (xs @ ys) (length xs + k) = read_u64 ys k"
  by (simp_all add: read_u16_def read_u64_def nth_append)

lemma read_prefix:
  "k + 2 \<le> length xs \<Longrightarrow> read_u16 (xs @ ys) k = read_u16 xs k"
  "k + 4 \<le> length xs \<Longrightarrow> read_u32 (xs @ ys) k = read_u32 xs k"
  "k + 6 \<le> length xs \<Longrightarrow> read_u48 (xs @ ys) k = read_u48 xs k"
  "k + 8 \<le> length xs \<Longrightarrow> read_u64 (xs @ ys) k = read_u64 xs k"
  by (simp_all add: read_u16_def read_u32_def read_u48_def read_u64_def nth_append)

lemma read_take:
  "k + 2 \<le> n \<Longrightarrow> read_u16 (take n xs) k = read_u16 xs k"
  "k + 4 \<le> n \<Longrightarrow> read_u32 (take n xs) k = read_u32 xs k"
  "k + 6 \<le> n \<Longrightarrow> read_u48 (take n xs) k = read_u48 xs k"
  "k + 8 \<le> n \<Longrightarrow> read_u64 (take n xs) k = read_u64 xs k"
  by (simp_all add: read_u16_def read_u32_def read_u48_def read_u64_def)

lemma bit_u8_high: "8 \<le> n \<Longrightarrow> \<not> bit (b :: u8) n"
  by (auto dest: bit_imp_le_length)

text \<open>Cutting one byte out of a word assembled from bytes.\<close>

lemma lane_or [wire]:
  "ucast (drop_bit k (a OR b :: 'a::len word)) = (ucast (drop_bit k a) OR ucast (drop_bit k b) :: u8)"
  "ucast (a OR b :: 'a::len word) = (ucast a OR ucast b :: u8)"
  by (intro bit_word_eqI; auto simp: bit_simps)+

lemma lane_same [wire]:
  "k \<le> 56 \<Longrightarrow> ucast (drop_bit k (push_bit k (ucast b) :: u64)) = (b :: u8)"
  "k \<le> 8 \<Longrightarrow> ucast (drop_bit k (push_bit k (ucast b) :: u16)) = (b :: u8)"
  "ucast (ucast b :: u64) = b" "ucast (ucast b :: u16) = b"
  by (intro bit_word_eqI; auto simp: bit_simps bit_u8_high)+

lemma lane_other [wire]:
  "k + 8 \<le> j \<or> j + 8 \<le> k \<Longrightarrow> ucast (drop_bit k (push_bit j (ucast (b :: u8)) :: 'a::len word)) = (0 :: u8)"
  "8 \<le> k \<Longrightarrow> ucast (drop_bit k (ucast (b :: u8) :: 'a::len word)) = (0 :: u8)"
  "8 \<le> k \<Longrightarrow> ucast (push_bit k (ucast (b :: u8)) :: 'a::len word) = (0 :: u8)"
  by (intro bit_word_eqI; auto simp: bit_simps bit_u8_high)+

lemma encode_read_u16: "encode_u16 (read_u16 p k) = [p ! k, p ! (k + 1)]"
  by (simp add: encode_u16_def read_u16_def wire)

lemma encode_read_u64:
  "encode_u64 (read_u64 p k) =
     [p ! k, p ! (k + 1), p ! (k + 2), p ! (k + 3), p ! (k + 4), p ! (k + 5), p ! (k + 6), p ! (k + 7)]"
  unfolding encode_u64_list read_u64_def by (simp add: wire)

end
