(* ===== verification/MoldUdp64.thy ===== *)
theory MoldUdp64
  imports ItchWire
begin

text \<open>
  \<open>include/qtrader/MoldUdp64.hpp\<close>: the MoldUDP64 downstream header, the two-pass packet parser,
  the per-channel sequence tracker and the request packet. A packet is a pointer with a size: a
  null pointer is \<^const>\<open>None\<close>, and the size is separate from the buffer, which may be longer.
  The parser's callback receives stable views and cannot touch the parser, so the parser returns
  the list of calls it makes.

  The theorems: the parser accepts exactly the encodings of a header with its messages and
  hands out exactly these messages under consecutive sequence numbers; it calls nothing on a
  malformed packet and reads nothing beyond the size; the tracker moves its expected sequence
  number only forward and classifies every header by its position.
\<close>

section \<open>Header and parser\<close>

definition kSessionBytes :: nat where "kSessionBytes = 10"
definition kHeaderBytes :: nat where "kHeaderBytes = 20"
definition kEndOfSession :: u16 where "kEndOfSession = 0xffff"

datatype PacketKind = data_packet | heartbeat_packet | end_of_session_packet

record DownstreamHeader =
  hd_session :: bytes
  first_sequence :: u64
  message_count :: u16

definition packet_kind :: "DownstreamHeader \<Rightarrow> PacketKind" where
  "packet_kind h =
     (if message_count h = 0 then heartbeat_packet
      else if message_count h = kEndOfSession then end_of_session_packet
      else data_packet)"

datatype ParseError = parse_none | header_truncated | message_length_truncated | message_truncated
  | special_packet_has_payload | trailing_bytes | parse_sequence_overflow

record ParseResult =
  header :: DownstreamHeader
  error :: ParseError
  bytes_consumed :: nat
  messages_visited :: u16

definition default_header :: DownstreamHeader where
  "default_header = \<lparr>hd_session = replicate kSessionBytes 0, first_sequence = 0, message_count = 0\<rparr>"

definition decode_header :: "bytes option \<Rightarrow> nat \<Rightarrow> DownstreamHeader option" where
  "decode_header packet sz =
     (case packet of
        None \<Rightarrow> None
      | Some p \<Rightarrow> if sz < kHeaderBytes then None
          else Some \<lparr>hd_session = take kSessionBytes p, first_sequence = read_u64 p 10,
                 message_count = read_u16 p 18\<rparr>)"

text \<open>Pass one: the error it finds, if any, and the offset where it stops.\<close>

fun validate_blocks :: "bytes \<Rightarrow> nat \<Rightarrow> nat \<Rightarrow> nat \<Rightarrow> ParseError \<times> nat" where
  "validate_blocks p sz 0 offset = (parse_none, offset)"
| "validate_blocks p sz (Suc n) offset =
     (if sz - offset < 2 then (message_length_truncated, offset)
      else
        let message_size = unat (read_u16 p offset); offset = offset + 2 in
        if sz - offset < message_size then (message_truncated, offset)
        else validate_blocks p sz n (offset + message_size))"

text \<open>Pass two: the calls of the callback, and the final offset.\<close>

fun visit_blocks :: "bytes \<Rightarrow> nat \<Rightarrow> u64 \<Rightarrow> nat \<Rightarrow> (u64 \<times> bytes) list \<times> nat" where
  "visit_blocks p 0 sequence offset = ([], offset)"
| "visit_blocks p (Suc n) sequence offset =
     (let message_size = unat (read_u16 p offset); offset = offset + 2;
          (calls, final) = visit_blocks p n (sequence + 1) (offset + message_size)
      in ((sequence, take message_size (drop offset p)) # calls, final))"

definition parse_downstream_packet ::
  "bytes option \<Rightarrow> nat \<Rightarrow> ParseResult \<times> (u64 \<times> bytes) list" where
  "parse_downstream_packet packet sz =
     (case decode_header packet sz of
        None \<Rightarrow> (\<lparr>header = default_header, error = header_truncated, bytes_consumed = 0,
                  messages_visited = 0\<rparr>, [])
      | Some h \<Rightarrow>
          let p = the packet; count = message_count h;
              result = \<lparr>header = h, error = parse_none, bytes_consumed = kHeaderBytes,
                messages_visited = 0\<rparr> in
          if count = 0 \<or> count = kEndOfSession then
            (if sz \<noteq> kHeaderBytes then (result\<lparr>error := special_packet_has_payload\<rparr>, [])
             else (result, []))
          else if first_sequence h > UINT64_MAX - (ucast count - 1) then
            (result\<lparr>error := parse_sequence_overflow\<rparr>, [])
          else
            (case validate_blocks p sz (unat count) kHeaderBytes of
               (e, offset) \<Rightarrow>
                 if e \<noteq> parse_none then (result\<lparr>error := e, bytes_consumed := offset\<rparr>, [])
                 else if offset \<noteq> sz then
                   (result\<lparr>error := trailing_bytes, bytes_consumed := offset\<rparr>, [])
                 else
                   (case visit_blocks p (unat count) (first_sequence h) kHeaderBytes of
                      (calls, final) \<Rightarrow>
                        (result\<lparr>bytes_consumed := final, messages_visited := of_nat (length calls)\<rparr>,
                         calls))))"

abbreviation parse_ok :: "bytes option \<Rightarrow> nat \<Rightarrow> bool" where
  "parse_ok packet sz \<equiv> error (fst (parse_downstream_packet packet sz)) = parse_none"

section \<open>Sequence tracker\<close>

datatype SequenceState = seq_in_order | seq_overlap | seq_duplicate | seq_gap | seq_session_mismatch
  | seq_overflow

record SequenceDecision =
  state :: SequenceState
  skip_messages :: u16
  expected_sequence :: u64
  gap_messages :: u64

definition may_process :: "SequenceDecision \<Rightarrow> bool" where
  "may_process d \<longleftrightarrow> state d = seq_in_order \<or> state d = seq_overlap"

record SequenceTracker =
  tr_session :: bytes
  next_sequence :: u64
  initialized :: bool

definition SequenceTracker_init :: SequenceTracker where
  "SequenceTracker_init =
     \<lparr>tr_session = replicate kSessionBytes 0, next_sequence = 0, initialized = False\<rparr>"

definition decision :: "SequenceState \<Rightarrow> u16 \<Rightarrow> u64 \<Rightarrow> u64 \<Rightarrow> SequenceDecision" where
  "decision s skip expected gap =
     \<lparr>state = s, skip_messages = skip, expected_sequence = expected, gap_messages = gap\<rparr>"

definition inspect :: "SequenceTracker \<Rightarrow> DownstreamHeader \<Rightarrow> SequenceTracker \<times> SequenceDecision" where
  "inspect t h =
     (if initialized t \<and> tr_session t \<noteq> hd_session h then
        (t, decision seq_session_mismatch 0 (next_sequence t) 0)
      else
        let t = (if initialized t then t
                 else \<lparr>tr_session = hd_session h, next_sequence = first_sequence h, initialized = True\<rparr>);
            carries_data = (packet_kind h = data_packet);
            count = (if carries_data then ucast (message_count h) else 0 :: u64) in
        if count \<noteq> 0 \<and> first_sequence h > UINT64_MAX - count then
          (t, decision seq_overflow 0 (next_sequence t) 0)
        else
          let packet_end = first_sequence h + count in
          if first_sequence h > next_sequence t then
            (t, decision seq_gap 0 (next_sequence t) (first_sequence h - next_sequence t))
          else if \<not> carries_data then
            (if first_sequence h = next_sequence t then (t, decision seq_in_order 0 (next_sequence t) 0)
             else (t, decision seq_duplicate 0 (next_sequence t) 0))
          else if packet_end \<le> next_sequence t then
            (t, decision seq_duplicate (message_count h) (next_sequence t) 0)
          else if first_sequence h < next_sequence t then
            (t, decision seq_overlap (ucast (next_sequence t - first_sequence h)) (next_sequence t) 0)
          else (t, decision seq_in_order 0 (next_sequence t) 0))"

definition commit :: "SequenceTracker \<Rightarrow> DownstreamHeader \<Rightarrow> SequenceDecision \<Rightarrow> SequenceTracker" where
  "commit t h d =
     (if \<not> may_process d \<or> packet_kind h \<noteq> data_packet then t
      else t\<lparr>next_sequence := first_sequence h + ucast (message_count h)\<rparr>)"

definition make_request_packet :: "bytes \<Rightarrow> u64 \<Rightarrow> u16 \<Rightarrow> bytes" where
  "make_request_packet session first requested_message_count =
     session @ encode_u64 first @ encode_u16 requested_message_count"

section \<open>Reference encoding\<close>

definition encode_block :: "bytes \<Rightarrow> bytes" where
  "encode_block m = encode_u16 (of_nat (length m)) @ m"

definition encode_packet :: "bytes \<Rightarrow> u64 \<Rightarrow> bytes list \<Rightarrow> bytes" where
  "encode_packet session first ms =
     make_request_packet session first (of_nat (length ms)) @ concat (map encode_block ms)"

definition number_messages :: "u64 \<Rightarrow> bytes list \<Rightarrow> (u64 \<times> bytes) list" where
  "number_messages first ms = map (\<lambda>i. (first + of_nat i, ms ! i)) [0..<length ms]"

text \<open>The number of messages a packet carries.\<close>

definition header_count :: "DownstreamHeader \<Rightarrow> nat" where
  "header_count h = (if packet_kind h = data_packet then unat (message_count h) else 0)"

section \<open>Framing lemmas\<close>

lemma number_messages_simps [simp]:
  "number_messages first [] = []"
  "number_messages first (m # ms) = (first, m) # number_messages (first + 1) ms"
proof -
  show "number_messages first [] = []" by (simp add: number_messages_def)
  have "[0..<length (m # ms)] = 0 # map Suc [0..<length ms]" by (simp add: upt_conv_Cons map_Suc_upt del: upt_Suc)
  then show "number_messages first (m # ms) = (first, m) # number_messages (first + 1) ms"
    by (simp add: number_messages_def algebra_simps)
qed

lemma length_number_messages [simp]: "length (number_messages first ms) = length ms"
  by (simp add: number_messages_def)

lemma map_snd_number_messages [simp]: "map snd (number_messages first ms) = ms"
  by (induction ms arbitrary: first) auto

lemma length_encode_block [simp]: "length (encode_block m) = length m + 2"
  by (simp add: encode_block_def)

lemma unat_of_length: "length m < 65536 \<Longrightarrow> unat (of_nat (length m) :: u16) = length m"
  by (simp add: unsigned_of_nat take_bit_nat_eq_self)

lemma read_u16_block:
  assumes "length m < 65536" "drop k p = encode_block m @ rest"
  shows "unat (read_u16 p k) = length m"
proof -
  have k: "k \<le> length p" using assms(2) by (metis drop_all append_is_Nil_conv encode_block_def nat_le_linear
      length_0_conv length_encode(1) zero_neq_numeral)
  then have "p = take k p @ encode_u16 (of_nat (length m)) @ m @ rest"
    using assms(2) by (metis append_take_drop_id append.assoc encode_block_def)
  then have "read_u16 p k = read_u16 (encode_u16 (of_nat (length m)) @ m @ rest) 0"
    using read_append(1) [of "take k p" "encode_u16 (of_nat (length m)) @ m @ rest" 0] k by simp
  also have "\<dots> = of_nat (length m)"
    by (simp add: read_prefix read_u16_encode)
  finally show ?thesis using unat_of_length [OF assms(1)] by simp
qed

text \<open>Both passes walk an encoded sequence of blocks exactly.\<close>

lemma walk_encoded:
  assumes "\<forall>m\<in>set ms. length m < 65536" "drop k p = concat (map encode_block ms) @ rest"
    "k + length (concat (map encode_block ms)) \<le> sz"
  shows "validate_blocks p sz (length ms) k = (parse_none, k + length (concat (map encode_block ms)))"
    and "visit_blocks p (length ms) first k =
      (number_messages first ms, k + length (concat (map encode_block ms)))"
  using assms
proof (induction ms arbitrary: k first)
  case (Cons m ms)
  { case 1
    have len: "unat (read_u16 p k) = length m"
      using read_u16_block [of m k p "concat (map encode_block ms) @ rest"] 1 by simp
    have "drop (k + (length m + 2)) p = concat (map encode_block ms) @ rest"
      using arg_cong [OF 1(2), of "drop (length (encode_block m))"] by (simp add: ac_simps)
    then show ?case using Cons.IH(1) [of "k + 2 + length m"] 1 len by (auto simp: Let_def ac_simps)
  next
    case 2
    have len: "unat (read_u16 p k) = length m"
      using read_u16_block [of m k p "concat (map encode_block ms) @ rest"] 2 by simp
    have "drop (k + (length m + 2)) p = concat (map encode_block ms) @ rest"
      using arg_cong [OF 2(2), of "drop (length (encode_block m))"] by (simp add: ac_simps)
    moreover have "take (length m) (drop (k + 2) p) = m"
      using arg_cong [OF 2(2), of "drop 2"] by (simp add: encode_block_def add.commute)
    ultimately show ?case
      using Cons.IH(2) [of "k + 2 + length m" "first + 1"] 2 len by (simp add: Let_def ac_simps)
  }
qed simp_all

text \<open>Conversely, what pass one accepts is such an encoding.\<close>

lemma validate_encoded:
  assumes "validate_blocks p sz n k = (parse_none, e)" "k \<le> sz" "sz \<le> length p"
  shows "k \<le> e \<and> e \<le> sz \<and> (\<exists>ms. length ms = n \<and> (\<forall>m\<in>set ms. length m < 65536) \<and>
    take (e - k) (drop k p) = concat (map encode_block ms))"
  using assms
proof (induction n arbitrary: k)
  case (Suc n)
  let ?l = "unat (read_u16 p k)"
  have fits: "k + 2 \<le> sz" "k + 2 + ?l \<le> sz"
    and rec: "validate_blocks p sz n (k + 2 + ?l) = (parse_none, e)"
    using Suc.prems by (auto simp: Let_def split: if_splits)
  obtain ms where ms: "length ms = n" "\<forall>m\<in>set ms. length m < 65536" "k + 2 + ?l \<le> e" "e \<le> sz"
    "take (e - (k + 2 + ?l)) (drop (k + 2 + ?l) p) = concat (map encode_block ms)"
    using Suc.IH [OF rec fits(2) Suc.prems(3)] by blast
  define m where "m = take ?l (drop (k + 2) p)"
  have lm: "length m = ?l" using fits Suc.prems(3) by (simp add: m_def)
  have small: "?l < 65536" by (rule unat_u16_less)
  have "encode_u16 (of_nat (length m)) = [p ! k, p ! (k + 1)]"
    unfolding lm by (simp add: encode_read_u16)
  also have "\<dots> = take 2 (drop k p)"
    using fits(1) Suc.prems(3) by (simp add: numeral_2_eq_2 take_Suc_conv_app_nth)
  finally have enc: "encode_u16 (of_nat (length m)) = take 2 (drop k p)" .
  have "encode_block m = take (2 + ?l) (drop k p)"
    unfolding encode_block_def enc take_add drop_drop by (simp add: m_def add.commute)
  moreover have "take (e - k) (drop k p) = take (2 + ?l) (drop k p) @ take (e - (k + 2 + ?l)) (drop (k + 2 + ?l) p)"
  proof -
    have "e - k = (2 + ?l) + (e - (k + 2 + ?l))" using ms(3) by simp
    then show ?thesis by (simp only: take_add drop_drop ac_simps)
  qed
  ultimately have "take (e - k) (drop k p) = concat (map encode_block (m # ms))"
    using ms(5) by simp
  then show ?case using ms(1-4) lm small by (intro conjI exI [of _ "m # ms"]) auto
qed simp

section \<open>The parser\<close>

lemma header_of_encoding:
  assumes "length session = 10"
  shows "decode_header (Some (make_request_packet session first n @ rest)) sz =
    (if sz < 20 then None else Some \<lparr>hd_session = session, first_sequence = first, message_count = n\<rparr>)"
proof -
  let ?p = "make_request_packet session first n @ rest"
  have "read_u64 ?p 10 = first"
    using read_append(2) [of session "encode_u64 first @ encode_u16 n @ rest" 0] assms
    by (simp add: make_request_packet_def read_prefix read_u64_encode)
  moreover have "read_u16 ?p 18 = n"
    using read_append(1) [of "session @ encode_u64 first" "encode_u16 n @ rest" 0] assms
    by (simp add: make_request_packet_def read_prefix read_u16_encode)
  moreover have "take 10 ?p = session" using assms by (simp add: make_request_packet_def)
  ultimately show ?thesis by (simp add: decode_header_def kHeaderBytes_def kSessionBytes_def)
qed

lemma length_make_request_packet [simp]:
  "length session = 10 \<Longrightarrow> length (make_request_packet session first n) = 20"
  by (simp add: make_request_packet_def)

lemma encoding_of_header:
  assumes "decode_header (Some p) sz = Some h" "sz \<le> length p"
  shows "take 20 p = make_request_packet (hd_session h) (first_sequence h) (message_count h)"
    and "length (hd_session h) = 10" "20 \<le> sz"
proof -
  have h: "20 \<le> sz" "h = \<lparr>hd_session = take 10 p, first_sequence = read_u64 p 10, message_count = read_u16 p 18\<rparr>"
    using assms(1) by (auto simp: decode_header_def kHeaderBytes_def kSessionBytes_def split: if_splits)
  then show "20 \<le> sz" "length (hd_session h) = 10" using assms(2) by auto
  have "take 20 p = take 10 p @ take 8 (drop 10 p) @ take 2 (drop 18 p)"
    using take_add [of 10 10 p] take_add [of 8 2 "drop 10 p"] by simp
  moreover have "encode_u64 (read_u64 p 10) = take 8 (drop 10 p)"
    using h(1) assms(2) by (simp add: encode_read_u64 numeral_eq_Suc take_Suc_conv_app_nth)
  moreover have "encode_u16 (read_u16 p 18) = take 2 (drop 18 p)"
    using h(1) assms(2) by (simp add: encode_read_u16 numeral_eq_Suc take_Suc_conv_app_nth)
  ultimately show "take 20 p = make_request_packet (hd_session h) (first_sequence h) (message_count h)"
    by (simp add: make_request_packet_def h(2))
qed

lemma data_count:
  assumes "0 < n" "n < 65535"
  shows "unat (of_nat n :: u16) = n" "(of_nat n :: u16) \<noteq> 0" "(of_nat n :: u16) \<noteq> kEndOfSession"
proof -
  show u: "unat (of_nat n :: u16) = n"
    using assms by (simp add: unsigned_of_nat take_bit_nat_eq_self)
  show "(of_nat n :: u16) \<noteq> 0" "(of_nat n :: u16) \<noteq> kEndOfSession"
    using u assms by (auto simp: kEndOfSession_def)
qed

lemma last_sequence_fits:
  assumes "count \<noteq> 0"
  shows "first > UINT64_MAX - (ucast (count :: u16) - 1) \<longleftrightarrow> unat first + unat count > 2 ^ 64"
proof -
  have u: "unat (ucast count :: u64) = unat count" by (rule unat_ucast_u16)
  then have c: "(ucast count :: u64) \<noteq> 0" "unat (ucast count :: u64) = unat count"
    using assms by (auto simp: unsigned_eq_0_iff)
  then have "unat (ucast count - 1 :: u64) = unat count - 1"
    using unat_minus_one [of "ucast count :: u64"] by simp
  moreover have "unat (UINT64_MAX - (ucast count - 1)) = 2 ^ 64 - 1 - unat (ucast count - 1 :: u64)"
    by (subst unat_sub) (simp_all add: unsigned_minus_1_eq_mask mask_eq_exp_minus_1)
  ultimately have "unat (UINT64_MAX - (ucast count - 1)) = 2 ^ 64 - 1 - (unat count - 1)" by simp
  moreover have "0 < unat count" "unat count < 65536"
    using assms unat_u16_less [of count] by (auto simp: unat_gt_0)
  ultimately show ?thesis by (simp add: word_less_nat_alt) linarith
qed

lemma parse_data:
  assumes "decode_header (Some p) sz = Some h" "packet_kind h = data_packet"
  shows "parse_downstream_packet (Some p) sz =
    (let result = \<lparr>header = h, error = parse_none, bytes_consumed = 20, messages_visited = 0\<rparr>;
         count = message_count h in
     if unat (first_sequence h) + unat count > 2 ^ 64
     then (result\<lparr>error := parse_sequence_overflow\<rparr>, [])
     else (case validate_blocks p sz (unat count) 20 of (e, offset) \<Rightarrow>
       if e \<noteq> parse_none then (result\<lparr>error := e, bytes_consumed := offset\<rparr>, [])
       else if offset \<noteq> sz then (result\<lparr>error := trailing_bytes, bytes_consumed := offset\<rparr>, [])
       else (case visit_blocks p (unat count) (first_sequence h) 20 of (calls, final) \<Rightarrow>
         (result\<lparr>bytes_consumed := final, messages_visited := of_nat (length calls)\<rparr>, calls))))"
proof -
  have "message_count h \<noteq> 0" "message_count h \<noteq> kEndOfSession"
    using assms(2) by (auto simp: packet_kind_def split: if_splits)
  then show ?thesis
    unfolding parse_downstream_packet_def kHeaderBytes_def assms(1) Let_def option.case option.sel
    by (simp only: last_sequence_fits if_False de_Morgan_disj simp_thms)
qed

lemma parse_decoded: "parse_ok packet sz \<Longrightarrow>
  decode_header packet sz = Some (header (fst (parse_downstream_packet packet sz)))"
  by (auto simp: parse_downstream_packet_def Let_def split: option.splits if_splits prod.splits)

lemma length_visit_blocks [simp]: "length (fst (visit_blocks p n s k)) = n"
  by (induction n arbitrary: s k) (simp_all add: Let_def case_prod_unfold)

text \<open>A packet without data never reaches the callback.\<close>

lemma parse_special:
  assumes "parse_downstream_packet packet sz = (r, calls)" "packet_kind (header r) \<noteq> data_packet"
  shows "calls = []"
  using assms
  by (auto simp: parse_downstream_packet_def packet_kind_def Let_def split: option.splits if_splits prod.splits)

lemma calls_length:
  assumes "parse_downstream_packet packet sz = (r, calls)" "error r = parse_none"
  shows "length calls = header_count (header r)"
proof -
  define h where "h = header r"
  have dec: "decode_header packet sz = Some h" using assms parse_decoded [of packet sz] by (simp add: h_def)
  show ?thesis
  proof (cases "packet_kind h = data_packet")
    case True
    obtain p where p: "packet = Some p" using dec by (cases packet) (auto simp: decode_header_def)
    have "calls = fst (visit_blocks p (unat (message_count h)) (first_sequence h) 20)"
      using parse_data [OF dec[unfolded p] True] assms by (auto simp: p Let_def split: if_splits prod.splits)
    then show ?thesis using True by (simp add: header_count_def h_def)
  next
    case False
    then show ?thesis using parse_special [OF assms(1)] by (simp add: header_count_def h_def)
  qed
qed

lemma parse_encoding:
  assumes "length session = 10" "0 < length ms" "length ms < 65535" "\<forall>m\<in>set ms. length m < 65536"
    "unat first + length ms \<le> 2 ^ 64"
  shows "parse_downstream_packet (Some (encode_packet session first ms))
      (length (encode_packet session first ms)) =
    (\<lparr>header = \<lparr>hd_session = session, first_sequence = first, message_count = of_nat (length ms)\<rparr>,
      error = parse_none, bytes_consumed = length (encode_packet session first ms),
      messages_visited = of_nat (length ms)\<rparr>, number_messages first ms)"
proof -
  let ?p = "encode_packet session first ms" and ?n = "of_nat (length ms) :: u16"
  let ?h = "\<lparr>hd_session = session, first_sequence = first, message_count = ?n\<rparr>"
  have len: "length ?p = 20 + length (concat (map encode_block ms))"
    using assms(1) by (simp add: encode_packet_def)
  have dec: "decode_header (Some ?p) (length ?p) = Some ?h"
    using header_of_encoding [OF assms(1), of first ?n "concat (map encode_block ms)"] len
    by (simp add: encode_packet_def)
  have kind: "packet_kind ?h = data_packet"
    using data_count [OF assms(2,3)] by (simp add: packet_kind_def)
  have walk: "drop 20 ?p = concat (map encode_block ms) @ []" "20 + length (concat (map encode_block ms)) \<le> length ?p"
    using assms(1) len by (simp_all add: encode_packet_def)
  show ?thesis
    using parse_data [OF dec kind] walk_encoded [OF assms(4) walk] data_count(1) [OF assms(2,3)] assms(5) len
    by (simp add: Let_def)
qed

section \<open>Properties\<close>

text \<open>
  C23. Round trip: a data packet that encodes a session, a first sequence number and a list of
  messages parses without error, is consumed completely, and hands each message to the
  callback once, in order, numbered consecutively from the first sequence number.
\<close>

theorem parse_encoded_packet:
  assumes "length session = 10" "0 < length ms" "length ms < 65535" "\<forall>m\<in>set ms. length m < 65536"
    "unat first + length ms \<le> 2 ^ 64"
  shows "parse_downstream_packet (Some (encode_packet session first ms))
      (length (encode_packet session first ms)) =
    (\<lparr>header = \<lparr>hd_session = session, first_sequence = first, message_count = of_nat (length ms)\<rparr>,
      error = parse_none, bytes_consumed = length (encode_packet session first ms),
      messages_visited = of_nat (length ms)\<rparr>, number_messages first ms)"
  by (rule parse_encoding [OF assms])

theorem parse_encoded_packet_witness:
  "snd (parse_downstream_packet (Some (encode_packet (replicate 10 65) 7 [[1, 2], [3]]))
     (length (encode_packet (replicate 10 65) 7 [[1, 2], [3]]))) = [(7, [1, 2]), (8, [3])]"
  using parse_encoded_packet [of "replicate 10 65" "[[1, 2], [3]]" 7] by simp

text \<open>
  C24. Soundness: whenever the parser accepts a data packet of size \<open>sz\<close>, these \<open>sz\<close> bytes are
  exactly the encoding of the decoded session, first sequence number and the messages it handed
  out, and the messages' sequence numbers do not wrap around. So no malformed packet is accepted
  and no byte of an accepted one is skipped.
\<close>

theorem parse_sound:
  assumes "parse_downstream_packet (Some p) sz = (r, calls)" "error r = parse_none"
    "packet_kind (header r) = data_packet" "sz \<le> length p"
  shows "\<exists>ms. take sz p = encode_packet (hd_session (header r)) (first_sequence (header r)) ms \<and>
    calls = number_messages (first_sequence (header r)) ms \<and> length ms = unat (message_count (header r)) \<and>
    (\<forall>m\<in>set ms. length m < 65536) \<and> unat (first_sequence (header r)) + length ms \<le> 2 ^ 64"
proof -
  define h where "h = header r"
  have dec: "decode_header (Some p) sz = Some h"
    using parse_decoded [of "Some p" sz] assms(1,2) by (simp add: h_def)
  have kind: "packet_kind h = data_packet" using assms(3) by (simp add: h_def)
  note hd = encoding_of_header [OF dec assms(4)]
  have fits: "unat (first_sequence h) + unat (message_count h) \<le> 2 ^ 64"
    and v: "validate_blocks p sz (unat (message_count h)) 20 = (parse_none, sz)"
    and calls: "calls = fst (visit_blocks p (unat (message_count h)) (first_sequence h) 20)"
    using parse_data [OF dec kind] assms(1,2) by (auto simp: Let_def split: if_splits prod.splits)
  obtain ms where ms: "length ms = unat (message_count h)" "\<forall>m\<in>set ms. length m < 65536"
    "take (sz - 20) (drop 20 p) = concat (map encode_block ms)"
    using validate_encoded [OF v hd(3) assms(4)] by blast
  have len: "20 + length (concat (map encode_block ms)) = sz"
    using arg_cong [OF ms(3), of length] assms(4) hd(3) by simp
  have split: "take sz p = take 20 p @ take (sz - 20) (drop 20 p)"
    using take_add [of 20 "sz - 20" p] hd(3) by simp
  have "drop 20 p = concat (map encode_block ms) @ drop sz p"
    using append_take_drop_id [of "sz - 20" "drop 20 p"] ms(3) hd(3) by simp
  then have "calls = number_messages (first_sequence h) ms"
    using walk_encoded(2) [OF ms(2) _ eq_refl [OF len]] calls ms(1) by simp
  moreover have "take sz p = encode_packet (hd_session h) (first_sequence h) ms"
    using split ms(1,3) hd(1) by (simp add: encode_packet_def)
  ultimately show ?thesis using ms(1,2) fits by (auto simp: h_def)
qed

theorem parse_sound_witness:
  "\<exists>r calls ms. parse_downstream_packet (Some (encode_packet (replicate 10 65) 7 [[1, 2, 3]])) 25 = (r, calls) \<and>
     error r = parse_none \<and> calls = number_messages 7 ms \<and>
     take 25 (encode_packet (replicate 10 65) 7 [[1, 2, 3]]) = encode_packet (replicate 10 65) 7 ms"
proof -
  let ?p = "encode_packet (replicate 10 65) 7 [[1, 2, 3]]"
  have len: "length ?p = 25" by (simp add: encode_packet_def)
  let ?h = "\<lparr>hd_session = replicate 10 65, first_sequence = 7, message_count = 1\<rparr>"
  let ?r = "\<lparr>header = ?h, error = parse_none, bytes_consumed = 25, messages_visited = 1\<rparr>"
  have "decode_header (Some ?p) 25 = Some ?h"
    using header_of_encoding [of "replicate 10 65" 7 1 "encode_block [1, 2, 3]"] by (simp add: encode_packet_def)
  moreover have "packet_kind ?h = data_packet" by (simp add: packet_kind_def kEndOfSession_def)
  moreover have "drop 20 ?p = concat (map encode_block [[1, 2, 3]]) @ []" by (simp add: encode_packet_def)
  ultimately have parsed: "parse_downstream_packet (Some ?p) 25 = (?r, [(7, [1, 2, 3])])"
    using parse_data [of ?p 25 ?h] walk_encoded(1) [of "[[1, 2, 3]]" 20 ?p "[]" 25]
      walk_encoded(2) [of "[[1, 2, 3]]" 20 ?p "[]" 25 7] by simp
  show ?thesis
    using parse_sound [OF parsed] parsed len by (auto simp: packet_kind_def kEndOfSession_def)
qed

lemma validate_blocks_take:
  "k \<le> sz \<Longrightarrow> validate_blocks (take sz p) sz n k = validate_blocks p sz n k"
proof (induction n arbitrary: k)
  case (Suc n)
  have "read_u16 (take sz p) k = read_u16 p k" if "\<not> sz - k < 2"
    using that by (intro read_take) linarith
  then show ?case using Suc.IH [of "k + 2 + unat (read_u16 p k)"] Suc.prems by (auto simp: Let_def)
qed simp

lemma validate_visit_take:
  assumes "validate_blocks p sz n k = (parse_none, e)" "k \<le> sz"
  shows "visit_blocks (take sz p) n first k = visit_blocks p n first k"
  using assms
proof (induction n arbitrary: k first)
  case (Suc n)
  let ?l = "unat (read_u16 p k)"
  have fits: "k + 2 \<le> sz" "k + 2 + ?l \<le> sz" and rec: "validate_blocks p sz n (k + 2 + ?l) = (parse_none, e)"
    using Suc.prems by (auto simp: Let_def split: if_splits)
  have "read_u16 (take sz p) k = read_u16 p k" using fits(1) by (rule read_take)
  moreover have "take ?l (drop (k + 2) (take sz p)) = take ?l (drop (k + 2) p)"
    using fits by (simp add: drop_take min_def)
  ultimately show ?case using Suc.IH [OF rec fits(2)] by (simp add: Let_def)
qed simp

lemma parse_take:
  "parse_downstream_packet (Some (take sz p)) sz = parse_downstream_packet (Some p) sz"
proof -
  have dec: "decode_header (Some (take sz p)) sz = decode_header (Some p) sz"
    by (auto simp: decode_header_def kHeaderBytes_def kSessionBytes_def read_take min_def)
  show ?thesis
  proof (cases "decode_header (Some p) sz")
    case (Some h)
    show ?thesis
    proof (cases "packet_kind h = data_packet")
      case True
      have "20 \<le> sz" using Some by (auto simp: decode_header_def kHeaderBytes_def split: if_splits)
      then show ?thesis
        using parse_data [OF Some True] parse_data [of "take sz p" sz h, OF _ True] Some dec
          validate_blocks_take [of 20 sz p] validate_visit_take [of p sz "unat (message_count h)" 20]
        by (auto simp: Let_def split: prod.split)
    next
      case False
      then show ?thesis using Some dec
        by (auto simp: parse_downstream_packet_def packet_kind_def Let_def split: if_splits)
    qed
  qed (simp add: parse_downstream_packet_def dec)
qed

lemma parse_silent: "\<not> parse_ok packet sz \<Longrightarrow> snd (parse_downstream_packet packet sz) = []"
  by (auto simp: parse_downstream_packet_def Let_def split: option.splits if_splits prod.splits)

text \<open>
  C25. The parser is memory safe and silent on errors: it gives the same result on the first
  \<open>sz\<close> bytes of the buffer as on the whole buffer, so it reads nothing beyond \<open>sz\<close>, and it
  calls the callback for no message of a packet it rejects.
\<close>

theorem parse_within_bounds:
  "parse_downstream_packet (Some (take sz p)) sz = parse_downstream_packet (Some p) sz \<and>
    (\<not> parse_ok (Some p) sz \<longrightarrow> snd (parse_downstream_packet (Some p) sz) = [])"
  using parse_take parse_silent by blast

theorem parse_within_bounds_witness:
  "parse_downstream_packet (Some (take 3 (replicate 5 0))) 3 = parse_downstream_packet (Some (replicate 5 0)) 3 \<and>
   snd (parse_downstream_packet (Some (replicate 5 0)) 3) = []"
  using parse_within_bounds [of 3 "replicate 5 0"]
  by (auto simp: parse_downstream_packet_def decode_header_def kHeaderBytes_def)

section \<open>The tracker\<close>

lemma last_message_fits:
  "(first :: u64) > UINT64_MAX - ucast (count :: u16) \<longleftrightarrow> 2 ^ 64 \<le> unat first + unat count"
proof -
  have "unat (UINT64_MAX - ucast count :: u64) = 2 ^ 64 - 1 - unat count"
    by (subst unat_sub) (simp_all add: unsigned_minus_1_eq_mask mask_eq_exp_minus_1 unat_ucast_u16)
  then show ?thesis
    using unat_u16_less [of count] by (simp add: word_less_nat_alt) linarith
qed

lemma unat_packet_end:
  "unat first + unat count < 2 ^ 64 \<Longrightarrow> unat (first + ucast (count :: u16) :: u64) = unat first + unat count"
  using unat_add_lem [of first "ucast count :: u64"] by (simp add: unat_ucast_u16)

lemma inspect_session: "inspect t h = (t', d) \<Longrightarrow> initialized t'"
  by (auto simp: inspect_def Let_def split: if_splits)

lemma inspect_same: "initialized t \<Longrightarrow> inspect t h = (t', d) \<Longrightarrow> t' = t"
  by (auto simp: inspect_def Let_def split: if_splits)

lemma inspect_again:
  assumes "inspect t h = (t', d)"
  shows "inspect t' h = (t', d)"
  using assms by (auto simp: inspect_def Let_def split: if_splits)

lemma header_count_data: "packet_kind h = data_packet \<longleftrightarrow> 0 < header_count h"
  by (auto simp: header_count_def packet_kind_def unat_gt_0)

text \<open>The decision on a header of the tracker's session, over the natural numbers.\<close>

lemma inspect_decision:
  assumes "inspect t h = (t', d)" "tr_session t' = hd_session h"
  shows "d = (let e = unat (next_sequence t'); f = unat (first_sequence h); n = header_count h in
    if 2 ^ 64 \<le> f + n then decision seq_overflow 0 (next_sequence t') 0
    else if e < f then decision seq_gap 0 (next_sequence t') (first_sequence h - next_sequence t')
    else if n = 0 then decision (if f = e then seq_in_order else seq_duplicate) 0 (next_sequence t') 0
    else if f + n \<le> e then decision seq_duplicate (message_count h) (next_sequence t') 0
    else if f < e then decision seq_overlap (of_nat (e - f)) (next_sequence t') 0
    else decision seq_in_order 0 (next_sequence t') 0)"
proof -
  let ?e = "next_sequence t'" and ?f = "first_sequence h"
  have d: "d = snd (inspect t' h)" using inspect_again [OF assms(1)] by simp
  have init: "initialized t'" using inspect_session [OF assms(1)] .
  have skip: "?f < ?e \<Longrightarrow> ucast (?e - ?f) = (of_nat (unat ?e - unat ?f) :: u16)"
    by (metis unat_sub order_less_imp_le of_nat_unat)
  show ?thesis
  proof (cases "packet_kind h = data_packet")
    case True
    then have n: "header_count h = unat (message_count h)" "message_count h \<noteq> 0"
      by (auto simp: header_count_def packet_kind_def)
    then have "(ucast (message_count h) :: u64) \<noteq> 0"
      by (metis unat_ucast_u16 unsigned_eq_0_iff)
    then show ?thesis
      using unat_packet_end [of ?f "message_count h"] True init assms(2) n skip last_message_fits [of "message_count h" ?f]
      by (auto simp: d inspect_def Let_def unsigned_eq_0_iff word_less_nat_alt word_le_nat_alt not_le not_less)
  next
    case False
    then show ?thesis using init assms(2) unsigned_less [of ?f, where 'a = nat]
      by (auto simp: d inspect_def Let_def header_count_def word_less_nat_alt not_le unsigned_word_eqI word_unat_eq_iff)
  qed
qed

lemma inspect_mismatch:
  "inspect t h = (t', d) \<Longrightarrow> tr_session t' \<noteq> hd_session h \<Longrightarrow> state d = seq_session_mismatch"
  by (auto simp: inspect_def decision_def Let_def split: if_splits)

lemma unat_skip:
  "e < f + header_count h \<Longrightarrow> unat (of_nat (e - f) :: u16) = e - f"
  using unat_u16_less [of "message_count h"]
  by (simp add: header_count_def unsigned_of_nat take_bit_nat_eq_self split: if_splits)

lemma unat_commit:
  assumes "may_process d" "unat (first_sequence h) + header_count h < 2 ^ 64"
  shows "unat (next_sequence (commit t h d)) =
    (if 0 < header_count h then unat (first_sequence h) + header_count h else unat (next_sequence t))"
proof (cases "packet_kind h = data_packet")
  case True
  then have "0 < header_count h" by (rule header_count_data [THEN iffD1])
  moreover have "header_count h = unat (message_count h)" using True by (simp add: header_count_def)
  ultimately show ?thesis
    using unat_packet_end [of "first_sequence h" "message_count h"] True assms by (simp add: commit_def)
qed (simp add: commit_def header_count_def)

lemma commit_stays: "\<not> may_process d \<Longrightarrow> commit t h d = t"
  by (simp add: commit_def)

text \<open>A header of the session may be processed exactly when it contains the expected position.\<close>

lemma inspect_may_process:
  assumes "inspect t h = (t', d)" "tr_session t' = hd_session h"
  shows "may_process d \<longleftrightarrow> unat (first_sequence h) + header_count h < 2 ^ 64 \<and>
    unat (first_sequence h) \<le> unat (next_sequence t') \<and>
    (if header_count h = 0 then unat (next_sequence t') = unat (first_sequence h)
     else unat (next_sequence t') < unat (first_sequence h) + header_count h)"
  using inspect_decision [OF assms]
  by (auto simp: Let_def decision_def may_process_def)

lemma inspect_position:
  assumes "inspect t h = (t', d)" "tr_session t' = hd_session h" "may_process d" "0 < header_count h"
  shows "unat (first_sequence h) \<le> unat (next_sequence t')"
    "unat (next_sequence t') < unat (first_sequence h) + header_count h"
    "unat (first_sequence h) + header_count h < 2 ^ 64"
    "unat (skip_messages d) = unat (next_sequence t') - unat (first_sequence h)"
    "unat (next_sequence (commit t' h d)) = unat (first_sequence h) + header_count h"
proof -
  show pos: "unat (first_sequence h) \<le> unat (next_sequence t')"
    "unat (next_sequence t') < unat (first_sequence h) + header_count h"
    "unat (first_sequence h) + header_count h < 2 ^ 64"
    using inspect_may_process [OF assms(1,2)] assms(3,4) by auto
  have "d = (if unat (first_sequence h) < unat (next_sequence t')
      then decision seq_overlap (of_nat (unat (next_sequence t') - unat (first_sequence h))) (next_sequence t') 0
      else decision seq_in_order 0 (next_sequence t') 0)"
    using inspect_decision [OF assms(1,2)] pos by (simp add: Let_def)
  then show "unat (skip_messages d) = unat (next_sequence t') - unat (first_sequence h)"
    using unat_skip [OF pos(2)] by (auto simp: decision_def)
  show "unat (next_sequence (commit t' h d)) = unat (first_sequence h) + header_count h"
    using unat_commit [OF assms(3) pos(3)] assms(4) by simp
qed

lemma inspect_gap:
  assumes "inspect t h = (t', d)" "tr_session t' = hd_session h"
  shows "state d = seq_gap \<longleftrightarrow> unat (next_sequence t') < unat (first_sequence h) \<and>
      unat (first_sequence h) + header_count h < 2 ^ 64"
    and "state d = seq_gap \<Longrightarrow> gap_messages d = first_sequence h - next_sequence t'"
  using inspect_decision [OF assms] by (auto simp: Let_def decision_def split: if_splits)

text \<open>
  One step of the tracker: inspecting a header and committing the decision either leaves the
  expected sequence number where it is, or the packet is a data packet that contains the expected
  message, its end is representable, the number of messages to skip is exactly the number of
  those already consumed, and the expected number moves to the packet's end. A gap is reported
  exactly for a packet of this session that starts beyond the expected number, with its distance.
\<close>

lemma tracker_step:
  assumes "inspect t h = (t', d)"
  shows "let e = unat (next_sequence t'); f = unat (first_sequence h); n = header_count h;
             e' = unat (next_sequence (commit t' h d)) in
    (e' = e \<or> f \<le> e \<and> e < f + n \<and> f + n < 2 ^ 64 \<and> e' = f + n \<and> unat (skip_messages d) = e - f) \<and>
    (may_process d \<longrightarrow> f \<le> e \<and> e \<le> f + n \<and> e' = f + n) \<and>
    (state d = seq_gap \<longleftrightarrow> tr_session t' = hd_session h \<and> e < f \<and> f + n < 2 ^ 64) \<and>
    (state d = seq_gap \<longrightarrow> unat (gap_messages d) = f - e)"
proof (cases "tr_session t' = hd_session h")
  case True
  have "unat (next_sequence t') < unat (first_sequence h) \<Longrightarrow>
      unat (first_sequence h - next_sequence t') = unat (first_sequence h) - unat (next_sequence t')"
    by (simp add: unat_sub word_le_nat_alt)
  then have gap: "state d = seq_gap \<longrightarrow> unat (gap_messages d) = unat (first_sequence h) - unat (next_sequence t')"
    using inspect_gap [OF assms True] by simp
  show ?thesis
  proof (cases "may_process d \<and> 0 < header_count h")
    case process: True
    then show ?thesis
      using inspect_position [OF assms True] inspect_gap(1) [OF assms True] by (simp add: Let_def)
  next
    case False
    have "unat (next_sequence (commit t' h d)) = unat (next_sequence t')"
    proof (cases "may_process d")
      case may: True
      then have "unat (first_sequence h) + header_count h < 2 ^ 64"
        using inspect_may_process [OF assms True] by simp
      then show ?thesis using unat_commit [OF may] False may by simp
    qed (simp add: commit_stays)
    moreover have "may_process d \<longrightarrow> unat (next_sequence t') = unat (first_sequence h) \<and> header_count h = 0"
    proof
      assume may: "may_process d"
      then have "header_count h = 0" using False by simp
      then show "unat (next_sequence t') = unat (first_sequence h) \<and> header_count h = 0"
        using iffD1 [OF inspect_may_process [OF assms True] may] by simp
    qed
    ultimately show ?thesis
      unfolding Let_def using inspect_gap(1) [OF assms True] gap True by simp
  qed
next
  case False
  then show ?thesis using inspect_mismatch [OF assms] by (simp add: commit_def may_process_def Let_def)
qed

end
