(* ===== verification/MoldRecovery.thy ===== *)
theory MoldRecovery
  imports MoldUdp64
begin

text \<open>
  \<open>include/qtrader/MoldUdp64Recovery.hpp\<close>: the bounded reorder window of one MoldUDP64 channel.
  The template parameter \<open>ReorderSlots\<close> is the length of the slot list and \<open>MaxDatagramBytes\<close>
  is an argument of the operations that compare against it. The callbacks get views and cannot
  reach the window, so an operation returns the list of calls it makes, in order. The drain
  loop is a recursive function whose termination proof is that every round frees a slot.

  The theorems: whatever datagrams arrive, in whatever order and however often, the messages
  handed on are exactly the channel's messages from the first sequence number up to the next
  expected one, each once and in order; a processed datagram leaves no buffered datagram that
  could continue the stream; every request names messages that are really missing; and the slots
  of datagrams that were overtaken are never released.
\<close>

section \<open>State\<close>

datatype RecoveryStatus = rec_processed | rec_buffered_gap | rec_duplicate | rec_heartbeat
  | rec_end_of_session | rec_malformed | rec_session_mismatch | rec_datagram_too_large
  | rec_reorder_window_full | rec_sequence_overflow

record RecoveryStats =
  rs_datagrams :: u64
  rs_messages :: u64
  rs_buffered_datagrams :: u64
  rs_recovered_datagrams :: u64
  rs_duplicates :: u64
  rs_gap_events :: u64
  rs_rerequests :: u64
  rs_requested_messages :: u64
  rs_malformed :: u64
  rs_session_mismatches :: u64
  rs_capacity_errors :: u64

record Slot =
  sl_bytes :: bytes
  sl_first_sequence :: u64
  sl_message_count :: u16
  sl_size :: u16
  sl_occupied :: bool

record RecoveryWindow =
  rw_slots :: "Slot list"
  rw_tracker :: SequenceTracker
  rw_stats :: RecoveryStats
  rw_occupied :: nat
  rw_gap_high_water :: u64
  rw_pending_end_sequence :: u64
  rw_has_pending_end :: bool
  rw_request_outstanding :: bool

datatype rec_event =
    On_message u64 bytes
  | On_request bytes u64 u16
  | On_control PacketKind u64

definition RecoveryStats_zero :: RecoveryStats where
  "RecoveryStats_zero = \<lparr>rs_datagrams = 0, rs_messages = 0, rs_buffered_datagrams = 0,
     rs_recovered_datagrams = 0, rs_duplicates = 0, rs_gap_events = 0, rs_rerequests = 0,
     rs_requested_messages = 0, rs_malformed = 0, rs_session_mismatches = 0, rs_capacity_errors = 0\<rparr>"

definition RecoveryWindow_init :: "nat \<Rightarrow> nat \<Rightarrow> RecoveryWindow" where
  "RecoveryWindow_init reorder_slots max_datagram_bytes =
     \<lparr>rw_slots = replicate reorder_slots \<lparr>sl_bytes = replicate max_datagram_bytes 0,
        sl_first_sequence = 0, sl_message_count = 0, sl_size = 0, sl_occupied = False\<rparr>,
      rw_tracker = SequenceTracker_init, rw_stats = RecoveryStats_zero, rw_occupied = 0,
      rw_gap_high_water = 0, rw_pending_end_sequence = 0, rw_has_pending_end = False,
      rw_request_outstanding = False\<rparr>"

definition rw_next_sequence :: "RecoveryWindow \<Rightarrow> u64" where
  "rw_next_sequence w = next_sequence (rw_tracker w)"

abbreviation upd_stats :: "(RecoveryStats \<Rightarrow> RecoveryStats) \<Rightarrow> RecoveryWindow \<Rightarrow> RecoveryWindow" where
  "upd_stats f w \<equiv> w\<lparr>rw_stats := f (rw_stats w)\<rparr>"

section \<open>Operations\<close>

text \<open>The two scans of \<open>store\<close>: a slot with the same first sequence number, then a free slot.\<close>

definition buffered_already :: "Slot list \<Rightarrow> u64 \<Rightarrow> bool" where
  "buffered_already slots first \<longleftrightarrow> list_ex (\<lambda>s. sl_occupied s \<and> sl_first_sequence s = first) slots"

fun free_slot_index :: "Slot list \<Rightarrow> nat option" where
  "free_slot_index [] = None"
| "free_slot_index (s # ss) =
     (if \<not> sl_occupied s then Some 0 else map_option Suc (free_slot_index ss))"

definition store :: "nat \<Rightarrow> RecoveryWindow \<Rightarrow> bytes \<Rightarrow> nat \<Rightarrow> DownstreamHeader \<Rightarrow>
    RecoveryWindow \<times> RecoveryStatus" where
  "store max_datagram_bytes w packet sz h =
     (if max_datagram_bytes < sz \<or> (65535::int) < int sz then
        (upd_stats (\<lambda>s. s\<lparr>rs_capacity_errors := rs_capacity_errors s + 1\<rparr>) w, rec_datagram_too_large)
      else if buffered_already (rw_slots w) (first_sequence h) then
        (upd_stats (\<lambda>s. s\<lparr>rs_duplicates := rs_duplicates s + 1\<rparr>) w, rec_duplicate)
      else case free_slot_index (rw_slots w) of
        None \<Rightarrow> (upd_stats (\<lambda>s. s\<lparr>rs_capacity_errors := rs_capacity_errors s + 1\<rparr>) w,
                 rec_reorder_window_full)
      | Some i \<Rightarrow>
          let slot = \<lparr>sl_bytes = take sz packet @ drop sz (sl_bytes (rw_slots w ! i)),
                sl_first_sequence = first_sequence h, sl_message_count = message_count h,
                sl_size = of_nat sz, sl_occupied = True\<rparr> in
          (upd_stats (\<lambda>s. s\<lparr>rs_buffered_datagrams := rs_buffered_datagrams s + 1\<rparr>)
             (w\<lparr>rw_slots := (rw_slots w)[i := slot], rw_occupied := rw_occupied w + 1\<rparr>),
           rec_buffered_gap))"

text \<open>
  The lambda of \<open>process\<close>: \<open>index++ < decision.skip_messages\<close> skips the leading messages; \<open>index\<close>
  is a \<open>uint16_t\<close>.
\<close>

fun deliver :: "u16 \<Rightarrow> u16 \<Rightarrow> (u64 \<times> bytes) list \<Rightarrow> (u64 \<times> bytes) list" where
  "deliver skip index [] = []"
| "deliver skip index (c # cs) =
     (if index < skip then deliver skip (index + 1) cs else c # deliver skip (index + 1) cs)"

definition process :: "RecoveryWindow \<Rightarrow> bytes option \<Rightarrow> nat \<Rightarrow> DownstreamHeader \<Rightarrow>
    SequenceDecision \<Rightarrow> RecoveryWindow \<times> rec_event list" where
  "process w packet sz h d =
     (case parse_downstream_packet packet sz of
        (parsed, calls) \<Rightarrow>
          let delivered = deliver (skip_messages d) 0 calls;
              w = upd_stats (\<lambda>s. s\<lparr>rs_messages := rs_messages s + of_nat (length delivered)\<rparr>) w;
              events = map (\<lambda>(sequence, message). On_message sequence message) delivered in
          if error parsed \<noteq> parse_none then
            (upd_stats (\<lambda>s. s\<lparr>rs_malformed := rs_malformed s + 1\<rparr>) w, events)
          else (w\<lparr>rw_tracker := commit (rw_tracker w) h d\<rparr>, events))"

definition slot_end :: "Slot \<Rightarrow> u64" where
  "slot_end s = sl_first_sequence s + ucast (sl_message_count s)"

definition slot_ready :: "u64 \<Rightarrow> Slot \<Rightarrow> bool" where
  "slot_ready expected s \<longleftrightarrow> sl_occupied s \<and> sl_first_sequence s \<le> expected \<and> expected < slot_end s"

fun next_slot_from :: "Slot list \<Rightarrow> u64 \<Rightarrow> nat \<Rightarrow> nat option \<Rightarrow> Slot list \<Rightarrow> nat option" where
  "next_slot_from slots expected i candidate [] = candidate"
| "next_slot_from slots expected i candidate (s # ss) =
     next_slot_from slots expected (i + 1)
       (if slot_ready expected s \<and>
           (case candidate of None \<Rightarrow> True
            | Some c \<Rightarrow> sl_first_sequence (slots ! c) < sl_first_sequence s)
        then Some i else candidate) ss"

definition next_buffered_slot :: "RecoveryWindow \<Rightarrow> nat option" where
  "next_buffered_slot w = next_slot_from (rw_slots w) (rw_next_sequence w) 0 None (rw_slots w)"

fun earliest_slot :: "u64 \<Rightarrow> u64 \<Rightarrow> Slot list \<Rightarrow> u64" where
  "earliest_slot expected earliest [] = earliest"
| "earliest_slot expected earliest (s # ss) =
     earliest_slot expected
       (if \<not> sl_occupied s \<or> sl_first_sequence s \<le> expected then earliest
        else if earliest = 0 then sl_first_sequence s
        else min earliest (sl_first_sequence s)) ss"

definition earliest_future_sequence :: "RecoveryWindow \<Rightarrow> u64" where
  "earliest_future_sequence w =
     (let earliest = earliest_slot (rw_next_sequence w) (rw_gap_high_water w) (rw_slots w) in
      if rw_has_pending_end w then
        (if earliest = 0 then rw_pending_end_sequence w
         else min earliest (rw_pending_end_sequence w))
      else earliest)"

definition issue_request :: "RecoveryWindow \<Rightarrow> RecoveryWindow \<times> rec_event list" where
  "issue_request w =
     (let expected = rw_next_sequence w; target = earliest_future_sequence w in
      if rw_request_outstanding w \<or> target \<le> expected then (w, [])
      else
        let distance = target - expected;
            count = ucast (min distance (ucast kEndOfSession - 1)) :: u16 in
        (upd_stats (\<lambda>s. s\<lparr>rs_rerequests := rs_rerequests s + 1,
             rs_requested_messages := rs_requested_messages s + ucast count\<rparr>)
           (w\<lparr>rw_request_outstanding := True\<rparr>),
         [On_request (tr_session (rw_tracker w)) expected count]))"

definition release_slot :: "nat \<Rightarrow> RecoveryWindow \<Rightarrow> RecoveryWindow" where
  "release_slot i w = w\<lparr>rw_slots := (rw_slots w)[i := (rw_slots w ! i)\<lparr>sl_occupied := False\<rparr>],
     rw_occupied := rw_occupied w - 1\<rparr>"

text \<open>For the termination of the drain loop: the candidate is an occupied slot.\<close>

definition occupied_slots :: "Slot list \<Rightarrow> nat" where
  "occupied_slots slots = length (filter sl_occupied slots)"

lemma next_slot_from_Some:
  assumes "next_slot_from slots e i c ss = Some j" "slots = pre @ ss" "length pre = i"
    "\<And>k. c = Some k \<Longrightarrow> k < length slots \<and> slot_ready e (slots ! k)"
  shows "j < length slots \<and> slot_ready e (slots ! j)"
  using assms
proof (induction ss arbitrary: i c pre)
  case (Cons s ss)
  let ?c = "if slot_ready e s \<and> (case c of None \<Rightarrow> True
            | Some c \<Rightarrow> sl_first_sequence (slots ! c) < sl_first_sequence s) then Some i else c"
  have here: "slots ! i = s" "i < length slots" using Cons.prems(2,3) by auto
  show ?case
  proof (rule Cons.IH)
    show "next_slot_from slots e (i + 1) ?c ss = Some j" using Cons.prems(1) by simp
    show "slots = (pre @ [s]) @ ss" "length (pre @ [s]) = i + 1" using Cons.prems by auto
    show "\<And>k. ?c = Some k \<Longrightarrow> k < length slots \<and> slot_ready e (slots ! k)"
      using here Cons.prems(4) by (metis option.inject)
  qed
qed simp

lemma next_buffered_slot_Some:
  assumes "next_buffered_slot w = Some j"
  shows "j < length (rw_slots w)" "slot_ready (rw_next_sequence w) (rw_slots w ! j)"
  using next_slot_from_Some [OF assms[unfolded next_buffered_slot_def], of "[]"] by auto

lemma occupied_slots_release:
  assumes "j < length slots" "sl_occupied (slots ! j)"
  shows "occupied_slots slots = Suc (occupied_slots (slots[j := (slots ! j)\<lparr>sl_occupied := False\<rparr>]))"
  using assms
proof (induction slots arbitrary: j)
  case (Cons s ss)
  then show ?case by (cases j) (auto simp: occupied_slots_def)
qed simp

lemma release_decreases:
  "next_buffered_slot w = Some j \<Longrightarrow> rw_slots w' = rw_slots w \<Longrightarrow>
   occupied_slots (rw_slots (release_slot j w')) < occupied_slots (rw_slots w)"
  using next_buffered_slot_Some [of w j] occupied_slots_release [of j "rw_slots w"]
  by (auto simp: release_slot_def slot_ready_def)

lemma process_slots [simp]: "rw_slots (fst (process w packet sz h d)) = rw_slots w"
  by (auto simp: process_def Let_def split: prod.split)

function drain_loop :: "RecoveryWindow \<Rightarrow> RecoveryWindow \<times> rec_event list" where
  "drain_loop w =
     (case next_buffered_slot w of
        None \<Rightarrow> (w, [])
      | Some i \<Rightarrow>
          let slot = rw_slots w ! i in
          (case decode_header (Some (sl_bytes slot)) (unat (sl_size slot)) of
             None \<Rightarrow> drain_loop (release_slot i
                (upd_stats (\<lambda>s. s\<lparr>rs_malformed := rs_malformed s + 1\<rparr>) w))
           | Some h \<Rightarrow>
               let (t, d) = inspect (rw_tracker w) h; w1 = w\<lparr>rw_tracker := t\<rparr> in
               if \<not> may_process d then (w1, [])
               else
                 let w2 = fst (process w1 (Some (sl_bytes slot)) (unat (sl_size slot)) h d);
                     w3 = upd_stats (\<lambda>s. s\<lparr>rs_recovered_datagrams := rs_recovered_datagrams s + 1\<rparr>)
                            ((release_slot i w2)\<lparr>rw_request_outstanding := False\<rparr>);
                     (w4, events) = drain_loop w3 in
                 (w4, snd (process w1 (Some (sl_bytes slot)) (unat (sl_size slot)) h d) @ events)))"
  by pat_completeness auto
termination
  by (relation "measure (\<lambda>w. occupied_slots (rw_slots w))")
    (auto simp: release_decreases)

declare drain_loop.simps [simp del]

definition drain :: "RecoveryWindow \<Rightarrow> RecoveryWindow \<times> rec_event list" where
  "drain w =
     (let (w1, e1) = drain_loop w;
          ended = rw_has_pending_end w1 \<and> rw_pending_end_sequence w1 = rw_next_sequence w1;
          e2 = (if ended then [On_control end_of_session_packet (rw_pending_end_sequence w1)] else []);
          w2 = (if ended then w1\<lparr>rw_has_pending_end := False\<rparr> else w1);
          w3 = (if rw_gap_high_water w2 \<le> rw_next_sequence w2 then w2\<lparr>rw_gap_high_water := 0\<rparr> else w2);
          (w4, e3) = issue_request w3
      in (w4, e1 @ e2 @ e3))"

definition ingest :: "nat \<Rightarrow> RecoveryWindow \<Rightarrow> bytes option \<Rightarrow> nat \<Rightarrow>
    RecoveryWindow \<times> RecoveryStatus \<times> rec_event list" where
  "ingest max_datagram_bytes w packet sz =
     (let w = upd_stats (\<lambda>s. s\<lparr>rs_datagrams := rs_datagrams s + 1\<rparr>) w;
          validation = fst (parse_downstream_packet packet sz) in
      if error validation \<noteq> parse_none then
        (upd_stats (\<lambda>s. s\<lparr>rs_malformed := rs_malformed s + 1\<rparr>) w, rec_malformed, [])
      else
        let h = header validation; (t, d) = inspect (rw_tracker w) h;
            w = w\<lparr>rw_tracker := t\<rparr>; kind = packet_kind h in
        (case state d of
           seq_session_mismatch \<Rightarrow>
             (upd_stats (\<lambda>s. s\<lparr>rs_session_mismatches := rs_session_mismatches s + 1\<rparr>) w,
              rec_session_mismatch, [])
         | seq_overflow \<Rightarrow>
             (upd_stats (\<lambda>s. s\<lparr>rs_malformed := rs_malformed s + 1\<rparr>) w, rec_sequence_overflow, [])
         | seq_duplicate \<Rightarrow>
             (upd_stats (\<lambda>s. s\<lparr>rs_duplicates := rs_duplicates s + 1\<rparr>) w, rec_duplicate, [])
         | seq_gap \<Rightarrow>
             let w = upd_stats (\<lambda>s. s\<lparr>rs_gap_events := rs_gap_events s + 1\<rparr>)
                       (w\<lparr>rw_gap_high_water := max (rw_gap_high_water w) (first_sequence h)\<rparr>) in
             (case (if kind = data_packet then store max_datagram_bytes w (the packet) sz h
                    else if kind = end_of_session_packet then
                      (w\<lparr>rw_pending_end_sequence := first_sequence h, rw_has_pending_end := True\<rparr>,
                       rec_buffered_gap)
                    else (w, rec_buffered_gap)) of
                (w, stored) \<Rightarrow>
                  if stored \<noteq> rec_buffered_gap then (w, stored, [])
                  else case issue_request w of (w, events) \<Rightarrow> (w, rec_buffered_gap, events))
         | _ \<Rightarrow>
             if kind = heartbeat_packet then
               (w, rec_heartbeat, [On_control kind (first_sequence h)])
             else if kind = end_of_session_packet then
               (w, rec_end_of_session, [On_control kind (first_sequence h)])
             else
               (case process w packet sz h d of
                  (w, e1) \<Rightarrow>
                    case drain (w\<lparr>rw_request_outstanding := False\<rparr>) of
                      (w, e2) \<Rightarrow> (w, rec_processed, e1 @ e2))))"

fun ingest_all :: "nat \<Rightarrow> RecoveryWindow \<Rightarrow> (bytes option \<times> nat) list \<Rightarrow>
    RecoveryWindow \<times> rec_event list" where
  "ingest_all mdb w [] = (w, [])"
| "ingest_all mdb w ((packet, sz) # ds) =
     (case ingest mdb w packet sz of
        (w, _, e1) \<Rightarrow> case ingest_all mdb w ds of (w, e2) \<Rightarrow> (w, e1 @ e2))"

section \<open>The channel's stream\<close>

text \<open>
  A channel gives every session one message per sequence number: \<open>S session i\<close>. A datagram
  agrees with it when the messages of a data packet are the ones the stream has at the packet's
  sequence numbers. A view is valid when the buffer holds its size.
\<close>

definition stream_calls :: "(nat \<Rightarrow> bytes) \<Rightarrow> nat \<Rightarrow> nat \<Rightarrow> (u64 \<times> bytes) list" where
  "stream_calls S a b = map (\<lambda>i. (of_nat i, S i)) [a..<b]"

definition datagram_agrees :: "(bytes \<Rightarrow> nat \<Rightarrow> bytes) \<Rightarrow> bytes option \<Rightarrow> nat \<Rightarrow> bool" where
  "datagram_agrees S packet sz \<longleftrightarrow>
     (case parse_downstream_packet packet sz of
        (r, calls) \<Rightarrow> calls = stream_calls (S (hd_session (header r))) (unat (first_sequence (header r)))
          (unat (first_sequence (header r)) + length calls))"

definition valid_view :: "bytes option \<Rightarrow> nat \<Rightarrow> bool" where
  "valid_view packet sz \<longleftrightarrow> (case packet of None \<Rightarrow> True | Some p \<Rightarrow> sz \<le> length p)"

fun message_events :: "rec_event list \<Rightarrow> (u64 \<times> bytes) list" where
  "message_events [] = []"
| "message_events (On_message s m # es) = (s, m) # message_events es"
| "message_events (_ # es) = message_events es"

definition slot_ok :: "(bytes \<Rightarrow> nat \<Rightarrow> bytes) \<Rightarrow> bytes \<Rightarrow> Slot \<Rightarrow> bool" where
  "slot_ok S session s \<longleftrightarrow>
     (let packet = Some (sl_bytes s); sz = unat (sl_size s) in
      \<exists>h. decode_header packet sz = Some h \<and> parse_ok packet sz \<and> packet_kind h = data_packet \<and>
        hd_session h = session \<and> first_sequence h = sl_first_sequence s \<and>
        message_count h = sl_message_count s \<and> unat (first_sequence h) + header_count h < 2 ^ 64 \<and>
        datagram_agrees S packet sz)"

definition rw_inv :: "(bytes \<Rightarrow> nat \<Rightarrow> bytes) \<Rightarrow> RecoveryWindow \<Rightarrow> bool" where
  "rw_inv S w \<longleftrightarrow> rw_occupied w = occupied_slots (rw_slots w) \<and>
     (\<forall>s\<in>set (rw_slots w). sl_occupied s \<longrightarrow>
        initialized (rw_tracker w) \<and> slot_ok S (tr_session (rw_tracker w)) s)"

definition example_datagram :: "u64 \<Rightarrow> u8 list \<Rightarrow> bytes option \<times> nat" where
  "example_datagram first ms = (Some (encode_packet (replicate 10 65) first (map (\<lambda>m. [m]) ms)), 20 + 3 * length ms)"

text \<open>A window is settled when no buffered datagram contains the next expected message.\<close>

definition rw_settled :: "RecoveryWindow \<Rightarrow> bool" where
  "rw_settled w \<longleftrightarrow> (\<forall>s\<in>set (rw_slots w). \<not> slot_ready (rw_next_sequence w) s)"

lemma message_events_append [simp]: "message_events (es @ fs) = message_events es @ message_events fs"
  by (induction es rule: message_events.induct) auto

lemma message_events_map [simp]: "message_events (map (\<lambda>(s, m). On_message s m) cs) = cs"
  by (induction cs) auto

lemma stream_calls_append: "a \<le> b \<Longrightarrow> b \<le> c \<Longrightarrow> stream_calls S a b @ stream_calls S b c = stream_calls S a c"
  using upt_add_eq_append [of a b "c - b"] by (simp add: stream_calls_def flip: map_append)

lemma stream_calls_same [simp]: "stream_calls S a a = []"
  by (simp add: stream_calls_def)

lemma drop_stream_calls: "drop k (stream_calls S a b) = stream_calls S (a + k) b"
  by (simp add: stream_calls_def drop_map drop_upt)

lemma deliver_drop:
  "unat index + length cs < 65536 \<Longrightarrow> deliver skip index cs = drop (unat skip - unat index) cs"
proof (induction cs arbitrary: index)
  case (Cons c cs)
  have "index \<noteq> - 1" using Cons.prems by (auto simp: unsigned_minus_1_eq_mask mask_eq_exp_minus_1)
  then have next_i: "unat (index + 1) = unat index + 1" by (rule unat_inc)
  show ?case
    using Cons.IH [of "index + 1"] Cons.prems next_i
    by (cases "unat index < unat skip") (auto simp: word_less_nat_alt Suc_diff_Suc [symmetric])
qed simp

text \<open>Processing a datagram that contains the expected message hands on the rest of it.\<close>

lemma process_stream:
  assumes "parse_ok packet sz" "h = header (fst (parse_downstream_packet packet sz))"
    "datagram_agrees S packet sz" "inspect t h = (t, d)" "tr_session t = hd_session h"
    "packet_kind h = data_packet" "may_process d" "rw_tracker w = t"
    "process w packet sz h d = (w', ev)"
  shows "message_events ev = stream_calls (S (hd_session h)) (unat (next_sequence t))
      (unat (rw_next_sequence w'))"
    and "unat (rw_next_sequence w') = unat (first_sequence h) + header_count h"
    and "unat (next_sequence t) < unat (rw_next_sequence w')"
    and "w' = w\<lparr>rw_tracker := t\<lparr>next_sequence := rw_next_sequence w'\<rparr>, rw_stats := rw_stats w'\<rparr>"
proof -
  let ?e = "unat (next_sequence t)" and ?f = "unat (first_sequence h)" and ?n = "header_count h"
  obtain r calls where p: "parse_downstream_packet packet sz = (r, calls)" by fastforce
  have r: "error r = parse_none" "header r = h" using assms(1,2) p by simp_all
  have len: "length calls = ?n" using calls_length [OF p r(1)] r(2) by simp
  have calls: "calls = stream_calls (S (hd_session h)) ?f (?f + ?n)"
    using assms(3) p r(2) len by (simp add: datagram_agrees_def)
  have n: "0 < ?n" using assms(6) by (rule header_count_data [THEN iffD1])
  have small: "?n < 65536" using unat_u16_less by (simp add: header_count_def)
  note pos = inspect_position [OF assms(4,5,7) n]
  have skip: "deliver (skip_messages d) 0 calls = stream_calls (S (hd_session h)) ?e (?f + ?n)"
    using deliver_drop [of 0 calls "skip_messages d"] len small pos by (simp add: calls drop_stream_calls)
  have w': "w' = w\<lparr>rw_tracker := commit t h d, rw_stats := rw_stats w'\<rparr>"
    and ev: "ev = map (\<lambda>(sequence, message). On_message sequence message) (deliver (skip_messages d) 0 calls)"
    using assms(8,9) p r(1) by (auto simp: process_def Let_def)
  have "rw_next_sequence w' = next_sequence (commit t h d)" by (subst w') (simp add: rw_next_sequence_def)
  then show "unat (rw_next_sequence w') = ?f + ?n" "?e < unat (rw_next_sequence w')"
    using pos by simp_all
  then show "message_events ev = stream_calls (S (hd_session h)) ?e (unat (rw_next_sequence w'))"
    using skip ev by simp
  have "commit t h d = t\<lparr>next_sequence := next_sequence (commit t h d)\<rparr>" by (simp add: commit_def)
  then show "w' = w\<lparr>rw_tracker := t\<lparr>next_sequence := rw_next_sequence w'\<rparr>, rw_stats := rw_stats w'\<rparr>"
    using w' \<open>rw_next_sequence w' = next_sequence (commit t h d)\<close> by metis
qed

section \<open>Draining\<close>

definition delivers :: "(bytes \<Rightarrow> nat \<Rightarrow> bytes) \<Rightarrow> RecoveryWindow \<Rightarrow> rec_event list \<Rightarrow> RecoveryWindow \<Rightarrow> bool" where
  "delivers S w ev w' \<longleftrightarrow> initialized (rw_tracker w') \<and>
     tr_session (rw_tracker w') = tr_session (rw_tracker w) \<and> rw_next_sequence w \<le> rw_next_sequence w' \<and>
     message_events ev = stream_calls (S (tr_session (rw_tracker w)))
       (unat (rw_next_sequence w)) (unat (rw_next_sequence w'))"

lemma delivers_trans:
  assumes "delivers S w ev w1" "delivers S w1 ev' w2"
  shows "delivers S w (ev @ ev') w2"
  using assms by (auto simp: delivers_def word_le_nat_alt stream_calls_append)

lemma delivers_same:
  assumes "initialized (rw_tracker w)" "rw_tracker w' = rw_tracker w" "message_events ev = []"
  shows "delivers S w ev w'"
  using assms by (simp add: delivers_def rw_next_sequence_def)

lemma slot_okD:
  assumes "slot_ok S session s"
  obtains h where "decode_header (Some (sl_bytes s)) (unat (sl_size s)) = Some h"
    "parse_ok (Some (sl_bytes s)) (unat (sl_size s))"
    "header (fst (parse_downstream_packet (Some (sl_bytes s)) (unat (sl_size s)))) = h"
    "packet_kind h = data_packet" "hd_session h = session" "first_sequence h = sl_first_sequence s"
    "message_count h = sl_message_count s" "unat (first_sequence h) + header_count h < 2 ^ 64"
    "datagram_agrees S (Some (sl_bytes s)) (unat (sl_size s))"
  using assms parse_decoded [of "Some (sl_bytes s)" "unat (sl_size s)"] by (auto simp: slot_ok_def Let_def)

lemma rw_inv_slot:
  "rw_inv S w \<Longrightarrow> i < length (rw_slots w) \<Longrightarrow> sl_occupied (rw_slots w ! i) \<Longrightarrow>
   initialized (rw_tracker w) \<and> slot_ok S (tr_session (rw_tracker w)) (rw_slots w ! i)"
  by (auto simp: rw_inv_def)

lemma rw_inv_release:
  assumes "rw_inv S w" "i < length (rw_slots w)" "sl_occupied (rw_slots w ! i)"
    "rw_slots w' = rw_slots (release_slot i w)" "rw_occupied w' = rw_occupied (release_slot i w)"
    "tr_session (rw_tracker w') = tr_session (rw_tracker w)" "initialized (rw_tracker w')"
  shows "rw_inv S w'"
  using assms occupied_slots_release [OF assms(2,3)]
  by (auto simp: rw_inv_def release_slot_def dest!: set_update_subset_insert [THEN subsetD])

lemma next_slot_from_None:
  "next_slot_from slots e i c ss = None \<Longrightarrow> c = None \<and> (\<forall>s\<in>set ss. \<not> slot_ready e s)"
proof (induction ss arbitrary: i c)
  case (Cons s ss)
  from Cons.IH [OF Cons.prems[unfolded next_slot_from.simps]] show ?case
    by (auto split: if_splits option.splits)
qed simp

lemma next_buffered_slot_None: "next_buffered_slot w = None \<Longrightarrow> rw_settled w"
  unfolding next_buffered_slot_def rw_settled_def using next_slot_from_None by blast

lemma rw_settled_cong:
  "rw_slots w' = rw_slots w \<Longrightarrow> rw_tracker w' = rw_tracker w \<Longrightarrow> rw_settled w' = rw_settled w"
  by (simp add: rw_settled_def rw_next_sequence_def)

text \<open>A ready slot of a good window is processed to its end.\<close>

lemma drain_step:
  assumes inv: "rw_inv S w" and next_i: "next_buffered_slot w = Some i"
  obtains h d w2 w3 ev where
    "decode_header (Some (sl_bytes (rw_slots w ! i))) (unat (sl_size (rw_slots w ! i))) = Some h"
    "inspect (rw_tracker w) h = (rw_tracker w, d)" "may_process d"
    "process w (Some (sl_bytes (rw_slots w ! i))) (unat (sl_size (rw_slots w ! i))) h d = (w2, ev)"
    "w3 = upd_stats (\<lambda>s. s\<lparr>rs_recovered_datagrams := rs_recovered_datagrams s + 1\<rparr>)
            ((release_slot i w2)\<lparr>rw_request_outstanding := False\<rparr>)"
    "drain_loop w = (fst (drain_loop w3), ev @ snd (drain_loop w3))"
    "delivers S w ev w3" "rw_inv S w3"
proof -
  let ?s = "rw_slots w ! i"
  let ?p = "Some (sl_bytes ?s)" and ?z = "unat (sl_size ?s)"
  note i = next_buffered_slot_Some [OF next_i]
  have occ: "sl_occupied ?s" using i(2) by (simp add: slot_ready_def)
  have init: "initialized (rw_tracker w)" and ok: "slot_ok S (tr_session (rw_tracker w)) ?s"
    using rw_inv_slot [OF inv i(1) occ] by auto
  obtain h where h: "decode_header ?p ?z = Some h" "parse_ok ?p ?z"
    "header (fst (parse_downstream_packet ?p ?z)) = h" "packet_kind h = data_packet"
    "hd_session h = tr_session (rw_tracker w)" "first_sequence h = sl_first_sequence ?s"
    "message_count h = sl_message_count ?s" "unat (first_sequence h) + header_count h < 2 ^ 64"
    "datagram_agrees S ?p ?z"
    using ok by (rule slot_okD)
  obtain t d where "inspect (rw_tracker w) h = (t, d)" by fastforce
  then have insp: "inspect (rw_tracker w) h = (rw_tracker w, d)" using inspect_same [OF init] by metis
  have n: "0 < header_count h" "header_count h = unat (message_count h)"
    using h(4) header_count_data [THEN iffD1, of h] by (auto simp: header_count_def)
  have "unat (slot_end ?s) = unat (first_sequence h) + header_count h"
    using h(6-8) n unat_packet_end by (simp add: slot_end_def)
  then have may: "may_process d"
    using i(2) n h(6,8) unfolding inspect_may_process [OF insp h(5)[symmetric]]
    by (simp add: slot_ready_def rw_next_sequence_def word_less_nat_alt word_le_nat_alt)
  obtain w2 ev where pr: "process w ?p ?z h d = (w2, ev)" by fastforce
  note ps = process_stream [OF h(2) h(3)[symmetric] h(9) insp h(5)[symmetric] h(4) may refl pr]
  define w3 where "w3 = upd_stats (\<lambda>s. s\<lparr>rs_recovered_datagrams := rs_recovered_datagrams s + 1\<rparr>)
            ((release_slot i w2)\<lparr>rw_request_outstanding := False\<rparr>)"
  have w2: "rw_slots w2 = rw_slots w" "rw_occupied w2 = rw_occupied w"
    "tr_session (rw_tracker w2) = tr_session (rw_tracker w)" "initialized (rw_tracker w2)"
    using arg_cong [OF ps(4), of rw_slots] arg_cong [OF ps(4), of rw_occupied]
      arg_cong [OF ps(4), of rw_tracker] init by simp_all
  have w3: "rw_slots w3 = rw_slots (release_slot i w)" "rw_occupied w3 = rw_occupied (release_slot i w)"
    "rw_tracker w3 = rw_tracker w2" "rw_next_sequence w3 = rw_next_sequence w2"
    by (simp_all add: w3_def release_slot_def w2(1,2) rw_next_sequence_def)
  have "delivers S w ev w3"
    using ps(1,3) w2(3,4) h(5) unfolding delivers_def w3(3,4)
    by (simp add: word_le_nat_alt rw_next_sequence_def)
  moreover have "rw_inv S w3"
    using rw_inv_release [OF inv i(1) occ w3(1,2)] w2(3,4) by (simp add: w3(3))
  moreover have "drain_loop w = (fst (drain_loop w3), ev @ snd (drain_loop w3))"
    using next_i h(1) insp may pr w3_def by (subst drain_loop.simps) (simp add: Let_def case_prod_unfold)
  ultimately show thesis using that [OF h(1) insp may pr w3_def] by blast
qed

lemma drain_loop_delivers:
  assumes "rw_inv S w" "initialized (rw_tracker w)"
  shows "delivers S w (snd (drain_loop w)) (fst (drain_loop w)) \<and> rw_inv S (fst (drain_loop w)) \<and>
    next_buffered_slot (fst (drain_loop w)) = None"
  using assms
proof (induction "occupied_slots (rw_slots w)" arbitrary: w rule: less_induct)
  case less
  show ?case
  proof (cases "next_buffered_slot w")
    case None
    then show ?thesis using less.prems by (subst (1 2 3 4) drain_loop.simps) (simp add: delivers_same)
  next
    case (Some i)
    obtain h d w2 w3 ev where st: "w3 = upd_stats (\<lambda>s. s\<lparr>rs_recovered_datagrams := rs_recovered_datagrams s + 1\<rparr>)
            ((release_slot i w2)\<lparr>rw_request_outstanding := False\<rparr>)"
      "process w (Some (sl_bytes (rw_slots w ! i))) (unat (sl_size (rw_slots w ! i))) h d = (w2, ev)"
      "drain_loop w = (fst (drain_loop w3), ev @ snd (drain_loop w3))" "delivers S w ev w3" "rw_inv S w3"
      using drain_step [OF less.prems(1) Some] by metis
    have "rw_slots w2 = rw_slots w" using st(2) process_slots by (metis fst_conv)
    then have "occupied_slots (rw_slots w3) < occupied_slots (rw_slots w)"
      using release_decreases [OF Some] by (simp add: st(1))
    moreover have "initialized (rw_tracker w3)" using st(4) by (simp add: delivers_def)
    ultimately show ?thesis
      using less.hyps [of w3] st(3,5) delivers_trans [OF st(4)] by simp
  qed
qed

lemma issue_request_frame [simp]:
  "rw_tracker (fst (issue_request w)) = rw_tracker w" "rw_slots (fst (issue_request w)) = rw_slots w"
  "rw_occupied (fst (issue_request w)) = rw_occupied w" "message_events (snd (issue_request w)) = []"
  "rw_next_sequence (fst (issue_request w)) = rw_next_sequence w"
  by (simp_all add: issue_request_def Let_def rw_next_sequence_def)

lemma rw_inv_cong:
  "rw_slots w' = rw_slots w \<Longrightarrow> rw_occupied w' = rw_occupied w \<Longrightarrow> rw_tracker w' = rw_tracker w \<Longrightarrow>
   rw_inv S w' = rw_inv S w"
  by (simp add: rw_inv_def)

lemma drain_frame:
  "rw_tracker (fst (drain w)) = rw_tracker (fst (drain_loop w))"
  "rw_slots (fst (drain w)) = rw_slots (fst (drain_loop w))"
  "rw_occupied (fst (drain w)) = rw_occupied (fst (drain_loop w))"
  "message_events (snd (drain w)) = message_events (snd (drain_loop w))"
  by (simp_all add: drain_def Let_def case_prod_unfold)

lemma drain_delivers:
  assumes "rw_inv S w" "initialized (rw_tracker w)"
  shows "delivers S w (snd (drain w)) (fst (drain w))" "rw_inv S (fst (drain w))"
    "next_buffered_slot (fst (drain w)) = None"
  using drain_loop_delivers [OF assms] drain_frame [of w]
  by (simp_all add: rw_inv_cong [of "fst (drain w)" "fst (drain_loop w)"] delivers_def
      rw_next_sequence_def next_buffered_slot_def)

section \<open>Storing a datagram\<close>

lemma free_slot_indexD:
  "free_slot_index slots = Some i \<Longrightarrow> i < length slots \<and> \<not> sl_occupied (slots ! i)"
  by (induction slots arbitrary: i) (auto split: if_splits)

lemma occupied_slots_store:
  "i < length slots \<Longrightarrow> \<not> sl_occupied (slots ! i) \<Longrightarrow> sl_occupied s \<Longrightarrow>
   occupied_slots (slots[i := s]) = Suc (occupied_slots slots)"
proof (induction slots arbitrary: i)
  case (Cons x xs)
  then show ?case by (cases i) (auto simp: occupied_slots_def)
qed simp

lemma parse_prefix: "sz \<le> length p \<Longrightarrow>
  parse_downstream_packet (Some (take sz p @ rest)) sz = parse_downstream_packet (Some p) sz"
  using parse_take [of sz "take sz p @ rest"] parse_take [of sz p] by (simp add: min_def)

lemma store_keeps:
  assumes "rw_inv S w" "initialized (rw_tracker w)" "parse_ok (Some p) sz"
    "h = header (fst (parse_downstream_packet (Some p) sz))" "datagram_agrees S (Some p) sz"
    "sz \<le> length p" "hd_session h = tr_session (rw_tracker w)" "packet_kind h = data_packet"
    "unat (first_sequence h) + header_count h < 2 ^ 64"
  shows "rw_inv S (fst (store mdb w p sz h)) \<and> rw_tracker (fst (store mdb w p sz h)) = rw_tracker w"
proof (cases "65535 < sz \<or> mdb < sz \<or> buffered_already (rw_slots w) (first_sequence h) \<or>
    free_slot_index (rw_slots w) = None")
  case True
  then have "rw_slots (fst (store mdb w p sz h)) = rw_slots w \<and> rw_occupied (fst (store mdb w p sz h)) = rw_occupied w \<and>
    rw_tracker (fst (store mdb w p sz h)) = rw_tracker w"
    by (auto simp: store_def)
  then show ?thesis using assms(1) rw_inv_cong by blast
next
  case False
  then obtain i where i: "free_slot_index (rw_slots w) = Some i" by auto
  note idx = free_slot_indexD [OF i]
  define slot where "slot = \<lparr>sl_bytes = take sz p @ drop sz (sl_bytes (rw_slots w ! i)),
      sl_first_sequence = first_sequence h, sl_message_count = message_count h,
      sl_size = of_nat sz, sl_occupied = True\<rparr>"
  have z: "unat (sl_size slot) = sz"
    using False by (simp add: slot_def unsigned_of_nat take_bit_nat_eq_self)
  have p: "parse_downstream_packet (Some (sl_bytes slot)) sz = parse_downstream_packet (Some p) sz"
    using parse_prefix [OF assms(6)] by (simp add: slot_def)
  have "decode_header (Some (sl_bytes slot)) sz = Some h"
    using parse_decoded [of "Some (sl_bytes slot)" sz] assms(3,4) p by simp
  then have ok: "slot_ok S (tr_session (rw_tracker w)) slot"
    using assms(3,5,7-9) p unfolding slot_ok_def z Let_def
    by (intro exI [of _ h]) (simp add: datagram_agrees_def slot_def)
  let ?w = "fst (store mdb w p sz h)"
  have w': "rw_slots ?w = (rw_slots w)[i := slot]" "rw_occupied ?w = rw_occupied w + 1" "rw_tracker ?w = rw_tracker w"
    using False i by (auto simp: store_def slot_def Let_def)
  have "occupied_slots ((rw_slots w)[i := slot]) = Suc (occupied_slots (rw_slots w))"
    using idx by (intro occupied_slots_store) (auto simp: slot_def)
  then show ?thesis using assms(1,2) ok w'
    by (auto simp: rw_inv_def dest!: set_update_subset_insert [THEN subsetD])
qed

lemma store_settled:
  assumes "rw_settled w" "rw_next_sequence w < first_sequence h"
  shows "rw_settled (fst (store mdb w p sz h))"
  using assms unfolding rw_settled_def
  by (auto simp: store_def Let_def rw_next_sequence_def slot_ready_def split: option.splits
      dest!: set_update_subset_insert [THEN subsetD])

lemma valid_view_Some: "valid_view packet sz \<Longrightarrow> decode_header packet sz = Some h \<Longrightarrow>
  \<exists>p. packet = Some p \<and> sz \<le> length p"
  by (cases packet) (auto simp: valid_view_def decode_header_def)

section \<open>Ingest\<close>

text \<open>A well-formed datagram is inspected first; what follows delivers a piece of the stream.\<close>

lemma rw_inv_inspect:
  assumes "rw_inv S w" "inspect (rw_tracker w) h = (t, d)"
  shows "rw_inv S (w\<lparr>rw_tracker := t\<rparr>)"
  using assms inspect_same [of "rw_tracker w" h t d] by (auto simp: rw_inv_def)

lemma ingest_malformed:
  assumes "\<not> parse_ok packet sz" "ingest mdb w packet sz = (w', st, ev)"
  shows "rw_tracker w' = rw_tracker w" "rw_slots w' = rw_slots w" "rw_occupied w' = rw_occupied w" "ev = []"
  using assms by (auto simp: ingest_def Let_def)

lemma ingest_delivers:
  assumes inv: "rw_inv S w" and ok: "parse_ok packet sz" and view: "valid_view packet sz"
    and agrees: "datagram_agrees S packet sz"
    and h: "h = header (fst (parse_downstream_packet packet sz))"
    and insp: "inspect (rw_tracker w) h = (t, d)" and run: "ingest mdb w packet sz = (w', st, ev)"
  shows "delivers S (w\<lparr>rw_tracker := t\<rparr>) ev w' \<and> rw_inv S w' \<and>
    (rw_settled (w\<lparr>rw_tracker := t\<rparr>) \<longrightarrow> rw_settled w')"
proof -
  let ?wt = "w\<lparr>rw_tracker := t\<rparr>"
  have inv_t: "rw_inv S ?wt" using inv insp by (rule rw_inv_inspect)
  have init: "initialized t" using insp by (rule inspect_session)
  obtain p where p: "packet = Some p" "sz \<le> length p"
    using valid_view_Some [OF view parse_decoded [OF ok]] by auto
  have quiet: "delivers S ?wt ev w' \<and> rw_inv S w' \<and> (rw_settled ?wt \<longrightarrow> rw_settled w')"
    if "rw_tracker w' = t" "rw_slots w' = rw_slots w" "rw_occupied w' = rw_occupied w" "message_events ev = []"
    using that init inv_t rw_inv_cong [of w' ?wt S] rw_settled_cong [of w' ?wt] by (simp add: delivers_same)
  show ?thesis
  proof (cases "tr_session t = hd_session h")
    case False
    then have "state d = seq_session_mismatch" using inspect_mismatch [OF insp] by blast
    then show ?thesis using run ok h insp quiet by (auto simp: ingest_def Let_def)
  next
    case session: True
    consider (dup) "state d = seq_duplicate \<or> state d = seq_overflow" | (gap) "state d = seq_gap"
      | (run) "may_process d"
      using inspect_decision [OF insp session]
      by (auto simp: Let_def decision_def may_process_def split: if_splits)
    then show ?thesis
    proof cases
      case dup
      then show ?thesis using run ok h insp quiet by (auto simp: ingest_def Let_def)
    next
      case gap
      let ?ws = "(upd_stats (\<lambda>s. s\<lparr>rs_datagrams := rs_datagrams s + 1\<rparr>) w)\<lparr>rw_tracker := t\<rparr>"
      let ?wg = "upd_stats (\<lambda>s. s\<lparr>rs_gap_events := rs_gap_events s + 1\<rparr>)
        (?ws\<lparr>rw_gap_high_water := max (rw_gap_high_water w) (first_sequence h)\<rparr>)"
      show ?thesis
      proof (cases "packet_kind h = data_packet")
        case True
        have fits: "unat (first_sequence h) + header_count h < 2 ^ 64" using gap inspect_gap(1) [OF insp session] by simp
        have inv1: "rw_inv S ?wg" using inv_t by (simp add: rw_inv_def)
        have kept: "rw_inv S (fst (store mdb ?wg p sz h)) \<and> rw_tracker (fst (store mdb ?wg p sz h)) = rw_tracker ?wg"
          using inv1 init ok h agrees p session True fits by (intro store_keeps) auto
        have "ingest mdb w packet sz = (let (w2, stored) = store mdb ?wg p sz h in
            if stored \<noteq> rec_buffered_gap then (w2, stored, [])
            else (fst (issue_request w2), rec_buffered_gap, snd (issue_request w2)))"
          using ok h insp gap True p by (simp add: ingest_def Let_def case_prod_unfold)
        then have "rw_tracker w' = rw_tracker (fst (store mdb ?wg p sz h))"
          "rw_slots w' = rw_slots (fst (store mdb ?wg p sz h))"
          "rw_occupied w' = rw_occupied (fst (store mdb ?wg p sz h))" "message_events ev = []"
          using run by (auto simp: Let_def case_prod_unfold split: if_splits)
        moreover have "rw_settled ?wt \<longrightarrow> rw_settled (fst (store mdb ?wg p sz h))"
          using store_settled [of ?wg h mdb p sz] rw_settled_cong [of ?wg ?wt] gap inspect_gap(1) [OF insp session]
          by (simp add: rw_next_sequence_def word_less_nat_alt)
        ultimately show ?thesis
          using kept rw_inv_cong [of w' "fst (store mdb ?wg p sz h)" S] init
            rw_settled_cong [of w' "fst (store mdb ?wg p sz h)"] by (auto intro!: delivers_same)
      next
        case False
        then show ?thesis using run ok h insp gap quiet by (auto simp: ingest_def Let_def case_prod_unfold split: if_splits)
      qed
    next
      case may: run
      let ?ws = "(upd_stats (\<lambda>s. s\<lparr>rs_datagrams := rs_datagrams s + 1\<rparr>) w)\<lparr>rw_tracker := t\<rparr>"
      show ?thesis
      proof (cases "packet_kind h = data_packet")
        case True
        obtain w2 e1 where pr: "process ?ws packet sz h d = (w2, e1)" by fastforce
        note ps = process_stream [OF ok h agrees inspect_again [OF insp] session True may _ pr, simplified]
        let ?wp = "w2\<lparr>rw_request_outstanding := False\<rparr>"
        have w3: "rw_slots ?wp = rw_slots w" "rw_occupied ?wp = rw_occupied w"
          "tr_session (rw_tracker ?wp) = tr_session t" "initialized (rw_tracker ?wp)"
          using arg_cong [OF ps(4), of rw_slots] arg_cong [OF ps(4), of rw_occupied]
            arg_cong [OF ps(4), of rw_tracker] init by simp_all
        have "rw_next_sequence ?wp = rw_next_sequence w2" by (simp add: rw_next_sequence_def)
        then have e1: "delivers S ?wt e1 ?wp" using ps(1,3) w3(3,4) session unfolding delivers_def
          by (simp add: word_le_nat_alt rw_next_sequence_def)
        have inv3: "rw_inv S ?wp" using inv_t w3 init by (simp add: rw_inv_def)
        have "ingest mdb w packet sz = (fst (drain ?wp), rec_processed, e1 @ snd (drain ?wp))"
          using may ok insp True pr
          by (cases "state d") (simp_all add: may_process_def ingest_def Let_def h [symmetric] case_prod_unfold)
        then have "w' = fst (drain ?wp)" "ev = e1 @ snd (drain ?wp)" using run by simp_all
        then show ?thesis
          using drain_delivers [OF inv3 w3(4)] delivers_trans [OF e1] next_buffered_slot_None by simp
      next
        case False
        then have "w' = ?ws" "message_events ev = []"
          using run ok h insp may by (auto simp: ingest_def Let_def may_process_def packet_kind_def split: if_splits)
        then show ?thesis using quiet by simp
      qed
    qed
  qed
qed

section \<open>Histories\<close>

lemma rw_inv_init: "rw_inv S (RecoveryWindow_init n mdb)"
  by (auto simp: rw_inv_def RecoveryWindow_init_def occupied_slots_def)

lemma ingest_initialized:
  assumes "rw_inv S w" "initialized (rw_tracker w)" "valid_view packet sz" "datagram_agrees S packet sz"
    "ingest mdb w packet sz = (w', st, ev)"
  shows "delivers S w ev w' \<and> rw_inv S w'"
proof (cases "parse_ok packet sz")
  case True
  let ?h = "header (fst (parse_downstream_packet packet sz))"
  obtain t d where td: "inspect (rw_tracker w) ?h = (t, d)" by fastforce
  moreover have "t = rw_tracker w" using td by (rule inspect_same [OF assms(2)])
  ultimately show ?thesis using ingest_delivers [OF assms(1) True assms(3,4) refl td assms(5)] by simp
next
  case False
  then show ?thesis
    using ingest_malformed [OF False assms(5)] assms(1,2) rw_inv_cong [of w' w S] by (simp add: delivers_same)
qed

lemma ingest_settled:
  assumes "rw_inv S w" "rw_settled w" "valid_view packet sz" "datagram_agrees S packet sz"
    "ingest mdb w packet sz = (w', st, ev)"
  shows "rw_inv S w' \<and> rw_settled w'"
proof (cases "parse_ok packet sz")
  case True
  let ?h = "header (fst (parse_downstream_packet packet sz))"
  obtain t d where td: "inspect (rw_tracker w) ?h = (t, d)" by fastforce
  have "rw_settled (w\<lparr>rw_tracker := t\<rparr>)"
  proof (cases "initialized (rw_tracker w)")
    case True
    then show ?thesis using inspect_same [OF True td] assms(2) by simp
  next
    case False
    then show ?thesis using assms(1) by (auto simp: rw_settled_def rw_inv_def slot_ready_def)
  qed
  then show ?thesis using ingest_delivers [OF assms(1) True assms(3,4) refl td assms(5)] by simp
next
  case False
  then show ?thesis
    using ingest_malformed [OF False assms(5)] assms(1,2) rw_inv_cong [of w' w S] rw_settled_cong [of w' w] by simp
qed

lemma ingest_all_initialized:
  assumes "rw_inv S w" "initialized (rw_tracker w)"
    "\<forall>(packet, sz)\<in>set ds. valid_view packet sz \<and> datagram_agrees S packet sz"
    "ingest_all mdb w ds = (w', ev)"
  shows "delivers S w ev w' \<and> rw_inv S w'"
  using assms
proof (induction ds arbitrary: w ev)
  case (Cons d ds)
  obtain packet sz where d: "d = (packet, sz)" by fastforce
  obtain w1 st e1 where i: "ingest mdb w packet sz = (w1, st, e1)" using prod_cases3 by blast
  obtain e2 where r: "ingest_all mdb w1 ds = (w', e2)" "ev = e1 @ e2"
    using Cons.prems(4) i by (auto simp: d split: prod.splits)
  have one: "delivers S w e1 w1" "rw_inv S w1"
    using ingest_initialized [OF Cons.prems(1,2) _ _ i] Cons.prems(3) by (auto simp: d)
  then have "initialized (rw_tracker w1)" by (simp add: delivers_def)
  then show ?case using Cons.IH [OF one(2) _ _ r(1)] Cons.prems(3) delivers_trans [OF one(1)] r(2) by auto
qed (auto intro: delivers_same)

lemma ingest_all_uninitialized:
  assumes "rw_inv S w" "\<not> initialized (rw_tracker w)"
    "\<forall>(packet, sz)\<in>set ds. valid_view packet sz \<and> datagram_agrees S packet sz"
    "ingest_all mdb w ds = (w', ev)"
  shows "rw_inv S w' \<and> (case filter (\<lambda>(packet, sz). parse_ok packet sz) ds of
      [] \<Rightarrow> message_events ev = []
    | (packet, sz) # _ \<Rightarrow> let h = header (fst (parse_downstream_packet packet sz)) in
        first_sequence h \<le> rw_next_sequence w' \<and> message_events ev =
          stream_calls (S (hd_session h)) (unat (first_sequence h)) (unat (rw_next_sequence w')))"
  using assms
proof (induction ds arbitrary: w ev)
  case (Cons d ds)
  obtain packet sz where d: "d = (packet, sz)" by fastforce
  obtain w1 st e1 where i: "ingest mdb w packet sz = (w1, st, e1)" using prod_cases3 by blast
  obtain e2 where r: "ingest_all mdb w1 ds = (w', e2)" "ev = e1 @ e2"
    using Cons.prems(4) i by (auto simp: d split: prod.splits)
  have good: "valid_view packet sz" "datagram_agrees S packet sz" using Cons.prems(3) by (auto simp: d)
  show ?case
  proof (cases "parse_ok packet sz")
    case True
    define h where "h = header (fst (parse_downstream_packet packet sz))"
    obtain t dd where td: "inspect (rw_tracker w) h = (t, dd)" by fastforce
    have t: "tr_session t = hd_session h" "next_sequence t = first_sequence h"
      using td Cons.prems(2) by (auto simp: inspect_def Let_def split: if_splits)
    have one: "delivers S (w\<lparr>rw_tracker := t\<rparr>) e1 w1" "rw_inv S w1"
      using ingest_delivers [OF Cons.prems(1) True good h_def td i] by auto
    have "initialized (rw_tracker w1)" using one(1) by (simp add: delivers_def)
    then have "delivers S w1 e2 w' \<and> rw_inv S w'"
      using ingest_all_initialized [OF one(2) _ _ r(1)] Cons.prems(3) by simp
    then have "delivers S (w\<lparr>rw_tracker := t\<rparr>) ev w' \<and> rw_inv S w'" using delivers_trans [OF one(1)] r(2) by simp
    then show ?thesis using True t by (simp add: d delivers_def rw_next_sequence_def Let_def h_def)
  next
    case False
    note m = ingest_malformed [OF False i]
    have "rw_inv S w1" "\<not> initialized (rw_tracker w1)"
      using m Cons.prems(1,2) rw_inv_cong [of w1 w S] by auto
    moreover have ev: "ev = e2" using m(4) r(2) by simp
    ultimately show ?thesis using Cons.IH [OF _ _ _ r(1)] Cons.prems(3) False unfolding d ev by simp
  qed
qed simp

section \<open>Requests\<close>

lemma earliest_slot_acc:
  "a \<noteq> 0 \<Longrightarrow> earliest_slot e a ss \<le> a \<and> earliest_slot e a ss \<noteq> 0"
proof (induction ss arbitrary: a)
  case (Cons s ss)
  let ?a = "if \<not> sl_occupied s \<or> sl_first_sequence s \<le> e then a else min a (sl_first_sequence s)"
  have "?a \<noteq> 0" "?a \<le> a" using Cons.prems by (auto simp: min_def word_gt_0)
  then show ?case using Cons.IH [of ?a] Cons.prems by (auto intro: order_trans)
qed simp

lemma earliest_slot_le:
  assumes "s \<in> set ss" "sl_occupied s" "e < sl_first_sequence s"
  shows "earliest_slot e a ss \<le> sl_first_sequence s \<and> earliest_slot e a ss \<noteq> 0"
  using assms
proof (induction ss arbitrary: a)
  case (Cons x xs)
  show ?case
  proof (cases "x = s")
    case True
    have "sl_first_sequence s \<noteq> 0" using assms(3) by (auto simp: word_gt_0)
    then show ?thesis
      using earliest_slot_acc [of "sl_first_sequence s" e xs]
        earliest_slot_acc [of "min a (sl_first_sequence s)" e xs] True assms(2,3)
      by (auto simp: min_def intro: order_trans)
  next
    case False
    then show ?thesis using Cons by simp
  qed
qed simp

lemma earliest_future_le:
  assumes "s \<in> set (rw_slots w)" "sl_occupied s" "rw_next_sequence w < sl_first_sequence s"
  shows "earliest_future_sequence w \<le> sl_first_sequence s"
  using earliest_slot_le [OF assms, of "rw_gap_high_water w"]
  by (auto simp: earliest_future_sequence_def Let_def min_def)

lemma issue_requestD:
  assumes "On_request session e c \<in> set (snd (issue_request w))"
  shows "session = tr_session (rw_tracker w)" "e = rw_next_sequence w" "0 < unat c" "unat c < 65535"
    "unat e + unat c \<le> unat (earliest_future_sequence w)"
proof -
  let ?t = "earliest_future_sequence w"
  have lt: "rw_next_sequence w < ?t" and c: "c = ucast (min (?t - rw_next_sequence w) (ucast kEndOfSession - 1))"
    and e: "session = tr_session (rw_tracker w)" "e = rw_next_sequence w"
    using assms by (auto simp: issue_request_def Let_def split: if_splits)
  show "session = tr_session (rw_tracker w)" "e = rw_next_sequence w" by (fact e)+
  have "unat (?t - rw_next_sequence w) = unat ?t - unat e" using lt by (simp add: e(2) unat_sub order_less_imp_le)
  then have "unat (min (?t - rw_next_sequence w) (ucast kEndOfSession - 1)) = min (unat ?t - unat e) 65534"
    by (simp add: kEndOfSession_def min_def word_le_nat_alt)
  then have "unat c = min (unat ?t - unat e) 65534"
    unfolding c by (simp add: unsigned_ucast_eq take_bit_nat_eq_self)
  then show "0 < unat c" "unat c < 65535" "unat e + unat c \<le> unat ?t"
    using lt by (auto simp: e(2) word_less_nat_alt)
qed

lemma ingest_all_settled:
  assumes "rw_inv S w" "rw_settled w"
    "\<forall>(packet, sz)\<in>set ds. valid_view packet sz \<and> datagram_agrees S packet sz"
    "ingest_all mdb w ds = (w', ev)"
  shows "rw_inv S w' \<and> rw_settled w'"
  using assms
proof (induction ds arbitrary: w ev)
  case (Cons d ds)
  obtain packet sz where d: "d = (packet, sz)" by fastforce
  obtain w1 st e1 where i: "ingest mdb w packet sz = (w1, st, e1)" using prod_cases3 by blast
  have "rw_inv S w1 \<and> rw_settled w1"
    using ingest_settled [OF Cons.prems(1,2) _ _ i] Cons.prems(3) by (auto simp: d)
  moreover obtain e2 where "ingest_all mdb w1 ds = (w', e2)"
    using Cons.prems(4) i by (auto simp: d split: prod.splits)
  ultimately show ?case using Cons.IH [of w1 e2] Cons.prems(3) by simp
qed simp

text \<open>Only the last step of an operation issues a request.\<close>

lemma process_messages: "On_request session e c \<notin> set (snd (process w packet sz h d))"
  by (auto simp: process_def Let_def split: prod.splits)

lemma drain_loop_messages: "On_request session e c \<notin> set (snd (drain_loop w))"
proof (induction w rule: drain_loop.induct)
  case (1 w)
  show ?case
    using 1 process_messages
    by (subst drain_loop.simps) (auto simp: Let_def case_prod_unfold split: option.split)
qed

lemma ingest_requestD:
  assumes "ingest mdb w packet sz = (w', st, ev)" "On_request session e c \<in> set ev"
  obtains w2 where "On_request session e c \<in> set (snd (issue_request w2))" "w' = fst (issue_request w2)"
proof -
  have drain: "\<exists>w2. On_request session e c \<in> set (snd (issue_request w2)) \<and> fst (drain w1) = fst (issue_request w2)"
    if "On_request session e c \<in> set (snd (drain w1))" for w1
    using that drain_loop_messages unfolding drain_def Let_def case_prod_unfold
    by (auto split: if_splits)
  have "\<exists>w2. On_request session e c \<in> set (snd (issue_request w2)) \<and> w' = fst (issue_request w2)"
    using assms drain process_messages
    by (auto simp: ingest_def Let_def case_prod_unfold split: if_splits SequenceState.splits)
  then show thesis using that by blast
qed

section \<open>Overtaken datagrams\<close>

text \<open>A buffered datagram that the stream has overtaken: all its messages were handed on.\<close>

definition overtaken :: "RecoveryWindow \<Rightarrow> Slot \<Rightarrow> bool" where
  "overtaken w s \<longleftrightarrow> sl_occupied s \<and>
     unat (sl_first_sequence s) + unat (sl_message_count s) \<le> unat (rw_next_sequence w)"

lemma overtaken_not_ready: "overtaken w s \<Longrightarrow> \<not> slot_ready (rw_next_sequence w) s"
  using unat_packet_end [of "sl_first_sequence s" "sl_message_count s"] unat_u64_less [of "rw_next_sequence w"]
  by (auto simp: overtaken_def slot_ready_def slot_end_def word_less_nat_alt)

lemma commit_mono:
  assumes "inspect t h = (t', d)"
  shows "unat (next_sequence t') \<le> unat (next_sequence (commit t' h d))"
proof (cases "may_process d \<and> tr_session t' = hd_session h")
  case True
  then have "unat (first_sequence h) + header_count h < 2 ^ 64"
    "unat (next_sequence t') \<le> unat (first_sequence h) + header_count h"
    using inspect_may_process [OF assms] by (auto split: if_splits)
  then show ?thesis using unat_commit [of d h t'] True by simp
next
  case False
  then show ?thesis using inspect_mismatch [OF assms] by (cases "may_process d") (auto simp: commit_stays may_process_def)
qed

lemma process_mono:
  assumes "inspect t h = (t', d)" "rw_tracker w = t'"
  shows "unat (next_sequence t') \<le> unat (rw_next_sequence (fst (process w packet sz h d)))"
    "initialized (rw_tracker (fst (process w packet sz h d)))"
  using commit_mono [OF assms(1)] inspect_session [OF assms(1)] assms(2)
  by (auto simp: process_def Let_def rw_next_sequence_def commit_def case_prod_unfold)

lemma drain_loop_overtaken:
  assumes "initialized (rw_tracker w)" "i < length (rw_slots w)" "overtaken w (rw_slots w ! i)"
  shows "rw_slots (fst (drain_loop w)) ! i = rw_slots w ! i \<and> overtaken (fst (drain_loop w)) (rw_slots w ! i)"
  using assms
proof (induction "occupied_slots (rw_slots w)" arbitrary: w rule: less_induct)
  case less
  show ?case
  proof (cases "next_buffered_slot w")
    case None
    then show ?thesis using less.prems by (subst (1 2) drain_loop.simps) simp
  next
    case (Some j)
    let ?slot = "rw_slots w ! j"
    have ji: "j \<noteq> i" using next_buffered_slot_Some(2) [OF Some] overtaken_not_ready [OF less.prems(3)] by auto
    have step: "rw_slots (fst (drain_loop w')) ! i = rw_slots w ! i \<and> overtaken (fst (drain_loop w')) (rw_slots w ! i)"
      if "rw_slots w' = rw_slots (release_slot j w)" "initialized (rw_tracker w')"
        "unat (rw_next_sequence w) \<le> unat (rw_next_sequence w')" for w'
      using less.hyps [of w'] that less.prems ji release_decreases [OF Some, of w]
      by (auto simp: release_slot_def overtaken_def)
    show ?thesis
    proof (cases "decode_header (Some (sl_bytes ?slot)) (unat (sl_size ?slot))")
      case None
      then show ?thesis
        using Some step [of "release_slot j (upd_stats (\<lambda>s. s\<lparr>rs_malformed := rs_malformed s + 1\<rparr>) w)"] less.prems(1)
        by (subst (1 2) drain_loop.simps) (simp add: release_slot_def rw_next_sequence_def)
    next
      case h: (Some h)
      obtain t d where "inspect (rw_tracker w) h = (t, d)" by fastforce
      then have td: "inspect (rw_tracker w) h = (rw_tracker w, d)" using inspect_same [OF less.prems(1)] by metis
      let ?wp = "fst (process w (Some (sl_bytes ?slot)) (unat (sl_size ?slot)) h d)"
      let ?wr = "upd_stats (\<lambda>s. s\<lparr>rs_recovered_datagrams := rs_recovered_datagrams s + 1\<rparr>)
            ((release_slot j ?wp)\<lparr>rw_request_outstanding := False\<rparr>)"
      have "rw_slots ?wr = rw_slots (release_slot j w)" "rw_tracker ?wr = rw_tracker ?wp"
        by (simp_all add: release_slot_def)
      then have "rw_slots (fst (drain_loop ?wr)) ! i = rw_slots w ! i \<and> overtaken (fst (drain_loop ?wr)) (rw_slots w ! i)"
        using step [of ?wr] process_mono [OF td refl, of "Some (sl_bytes ?slot)" "unat (sl_size ?slot)"]
        by (simp add: rw_next_sequence_def)
      then show ?thesis using Some h td less.prems
        by (subst (1 2) drain_loop.simps) (simp add: Let_def case_prod_unfold)
    qed
  qed
qed

lemma store_overtaken:
  "i < length (rw_slots w) \<Longrightarrow> sl_occupied (rw_slots w ! i) \<Longrightarrow>
   rw_slots (fst (store mdb w p sz h)) ! i = rw_slots w ! i \<and> rw_tracker (fst (store mdb w p sz h)) = rw_tracker w"
  using free_slot_indexD [of "rw_slots w"]
  by (auto simp: store_def Let_def nth_list_update split: option.split)

lemma drain_overtaken:
  assumes "initialized (rw_tracker w)" "i < length (rw_slots w)" "overtaken w (rw_slots w ! i)"
  shows "rw_slots (fst (drain w)) ! i = rw_slots w ! i \<and> overtaken (fst (drain w)) (rw_slots w ! i)"
  using drain_loop_overtaken [OF assms] drain_frame [of w] by (simp add: overtaken_def rw_next_sequence_def)

lemma ingest_overtaken:
  assumes "initialized (rw_tracker w)" "i < length (rw_slots w)" "overtaken w (rw_slots w ! i)"
  shows "rw_slots (fst (ingest mdb w packet sz)) ! i = rw_slots w ! i \<and>
    overtaken (fst (ingest mdb w packet sz)) (rw_slots w ! i)"
proof (cases "parse_ok packet sz")
  case True
  define h where "h = header (fst (parse_downstream_packet packet sz))"
  obtain t d where "inspect (rw_tracker w) h = (t, d)" by fastforce
  then have td: "inspect (rw_tracker w) h = (rw_tracker w, d)" using inspect_same [OF assms(1)] by metis
  let ?ws = "upd_stats (\<lambda>s. s\<lparr>rs_datagrams := rs_datagrams s + 1\<rparr>) w"
  let ?wp = "(fst (process ?ws packet sz h d))\<lparr>rw_request_outstanding := False\<rparr>"
  have slot: "sl_occupied (rw_slots w ! i)" using assms(3) by (simp add: overtaken_def)
  have "unat (rw_next_sequence w) \<le> unat (rw_next_sequence ?wp)" "initialized (rw_tracker ?wp)"
    using process_mono [OF td, of ?ws packet sz] by (simp_all add: rw_next_sequence_def)
  then have drained: "rw_slots (fst (drain ?wp)) ! i = rw_slots w ! i \<and> overtaken (fst (drain ?wp)) (rw_slots w ! i)"
    using drain_overtaken [of ?wp i] assms by (simp add: overtaken_def)
  have frame: "rw_slots w' ! i = rw_slots w ! i \<and> overtaken w' (rw_slots w ! i)"
    if "rw_slots w' ! i = rw_slots w ! i" "rw_tracker w' = rw_tracker w" for w'
    using that assms(3) by (simp add: overtaken_def rw_next_sequence_def)
  show ?thesis
    using True td drained frame store_overtaken [of i _ mdb "the packet" sz h] slot assms(2)
    by (auto simp: ingest_def Let_def h_def [symmetric] case_prod_unfold split: SequenceState.split)
next
  case False
  then show ?thesis using assms(3) by (simp add: ingest_def Let_def overtaken_def rw_next_sequence_def)
qed

lemma inspect_initialized [simp]: "initialized (fst (inspect t h))"
  using inspect_session by (metis prod.collapse)

lemma process_initialized:
  "initialized (rw_tracker w) \<Longrightarrow> initialized (rw_tracker (fst (process w packet sz h d)))"
  by (auto simp: process_def Let_def commit_def case_prod_unfold)

lemma drain_loop_shape:
  "length (rw_slots (fst (drain_loop w))) = length (rw_slots w) \<and>
   (initialized (rw_tracker w) \<longrightarrow> initialized (rw_tracker (fst (drain_loop w))))"
proof (induction w rule: drain_loop.induct)
  case (1 w)
  show ?case
    using 1 process_initialized
    by (subst (1 2) drain_loop.simps) (auto simp: Let_def case_prod_unfold release_slot_def split: option.split)
qed

lemma ingest_shape:
  assumes "initialized (rw_tracker w)"
  shows "length (rw_slots (fst (ingest mdb w packet sz))) = length (rw_slots w) \<and>
    initialized (rw_tracker (fst (ingest mdb w packet sz)))"
proof -
  have store: "length (rw_slots (fst (store mdb v p z h))) = length (rw_slots v) \<and>
      rw_tracker (fst (store mdb v p z h)) = rw_tracker v" for v p z h
    by (simp add: store_def Let_def split: option.split)
  have drain: "length (rw_slots (fst (drain v))) = length (rw_slots v) \<and>
      (initialized (rw_tracker v) \<longrightarrow> initialized (rw_tracker (fst (drain v))))" for v
    using drain_loop_shape [of v] by (simp add: drain_frame)
  show ?thesis using assms store drain process_initialized
    by (simp add: ingest_def Let_def case_prod_unfold split: SequenceState.split)
qed

lemma ingest_all_overtaken:
  assumes "initialized (rw_tracker w)" "i < length (rw_slots w)" "overtaken w (rw_slots w ! i)"
    "ingest_all mdb w ds = (w', ev)"
  shows "rw_slots w' ! i = rw_slots w ! i"
  using assms
proof (induction ds arbitrary: w ev)
  case (Cons d ds)
  let ?v = "fst (ingest mdb w (fst d) (snd d))"
  have rest: "ingest_all mdb ?v ds = (w', snd (ingest_all mdb ?v ds))"
    using Cons.prems(4) by (cases d) (auto split: prod.splits)
  show ?case
    using Cons.IH [OF _ _ _ rest] ingest_overtaken [OF Cons.prems(1-3), of mdb "fst d" "snd d"]
      ingest_shape [OF Cons.prems(1), of mdb "fst d" "snd d"] Cons.prems(2) by simp
qed simp

section \<open>Properties\<close>

text \<open>
  C5. Exactly-once, in-order delivery: let the datagrams of the channel agree with one message
  stream per session, and let them arrive in any order, with losses, duplicates, overlaps and
  malformed datagrams in between. The messages that a fresh window hands on over the whole history
  are exactly the messages of the first well-formed datagram's session, from its first sequence
  number up to (excluding) the window's next expected sequence number, each once and in order.
\<close>

theorem recovery_exactly_once:
  assumes "\<forall>(packet, sz)\<in>set ds. valid_view packet sz \<and> datagram_agrees S packet sz"
    "ingest_all mdb (RecoveryWindow_init n mdb) ds = (w, ev)"
  shows "case filter (\<lambda>(packet, sz). parse_ok packet sz) ds of
      [] \<Rightarrow> message_events ev = []
    | (packet, sz) # _ \<Rightarrow> let h = header (fst (parse_downstream_packet packet sz)) in
        first_sequence h \<le> rw_next_sequence w \<and> message_events ev =
          stream_calls (S (hd_session h)) (unat (first_sequence h)) (unat (rw_next_sequence w))"
proof -
  have "\<not> initialized (rw_tracker (RecoveryWindow_init n mdb))"
    by (simp add: RecoveryWindow_init_def SequenceTracker_init_def)
  then show ?thesis using ingest_all_uninitialized [OF rw_inv_init _ assms] by blast
qed

theorem recovery_exactly_once_witness:
  "let S = \<lambda>_ i. [of_nat i]; ds = [example_datagram 1 [1], example_datagram 3 [3, 4], example_datagram 1 [1, 2]] in
   (\<forall>(packet, sz)\<in>set ds. valid_view packet sz \<and> datagram_agrees S packet sz) \<and>
   message_events (snd (ingest_all 64 (RecoveryWindow_init 2 64) ds)) = [(1, [1]), (2, [2]), (3, [3]), (4, [4])]"
proof -
  let ?S = "\<lambda>_ i. [of_nat i]"
  let ?ds = "[example_datagram 1 [1], example_datagram 3 [3, 4], example_datagram 1 [1, 2]]"
  have hyp: "\<forall>(packet, sz)\<in>set ?ds. valid_view packet sz \<and> datagram_agrees ?S packet sz" by code_simp
  have ok: "filter (\<lambda>(packet, sz). parse_ok packet sz) ?ds = ?ds" by code_simp
  have h: "header (fst (parse_downstream_packet (fst (example_datagram 1 [1])) (snd (example_datagram 1 [1])))) =
    \<lparr>hd_session = replicate 10 65, first_sequence = 1, message_count = 1\<rparr>" by code_simp
  have e: "rw_next_sequence (fst (ingest_all 64 (RecoveryWindow_init 2 64) ?ds)) = 5" by code_simp
  obtain w ev where run: "ingest_all 64 (RecoveryWindow_init 2 64) ?ds = (w, ev)" by fastforce
  have range: "[Suc 0..<5] = [1, 2, 3, 4]" by (simp add: upt_rec)
  have "message_events ev = stream_calls (?S ()) 1 5"
    using recovery_exactly_once [OF hyp run] h e unfolding ok run
    by (simp add: case_prod_unfold Let_def)
  then show ?thesis using hyp by (simp add: Let_def run stream_calls_def range)
qed

text \<open>
  A window never withholds a deliverable message: after any history of datagrams that agree
  with the channel's streams, no buffered datagram contains the next expected sequence number.
\<close>

lemma recovery_settled:
  assumes "\<forall>(packet, sz)\<in>set ds. valid_view packet sz \<and> datagram_agrees S packet sz"
    "ingest_all mdb (RecoveryWindow_init n mdb) ds = (w, ev)"
  shows "\<forall>s\<in>set (rw_slots w). sl_occupied s \<longrightarrow>
    unat (rw_next_sequence w) < unat (sl_first_sequence s) \<or>
    unat (sl_first_sequence s) + unat (sl_message_count s) \<le> unat (rw_next_sequence w)"
proof -
  have "rw_settled (RecoveryWindow_init n mdb)" by (auto simp: rw_settled_def RecoveryWindow_init_def slot_ready_def)
  then have w: "rw_inv S w" "rw_settled w" using ingest_all_settled [OF rw_inv_init _ assms] by auto
  have "unat (slot_end s) = unat (sl_first_sequence s) + unat (sl_message_count s)"
    if "s \<in> set (rw_slots w)" "sl_occupied s" for s
    using w(1) that unat_packet_end
    by (auto simp: rw_inv_def slot_ok_def Let_def slot_end_def header_count_def)
  then show ?thesis using w(2)
    by (auto simp: rw_settled_def slot_ready_def word_less_nat_alt word_le_nat_alt not_less)
qed

text \<open>
  C33. Requests are exact: a request issued in any history names the window's session and its next
  expected sequence number, asks for at least one and fewer than 65535 messages (65535 is the
  end-of-session mark), and asks only for missing ones: no requested sequence number lies in a
  buffered datagram.
\<close>

theorem recovery_request_missing:
  assumes "\<forall>(packet, sz)\<in>set ((packet, sz) # ds). valid_view packet sz \<and> datagram_agrees S packet sz"
    "ingest_all mdb (RecoveryWindow_init n mdb) ds = (w, evs)" "ingest mdb w packet sz = (w', st, ev)"
    "On_request session e c \<in> set ev"
  shows "session = tr_session (rw_tracker w') \<and> e = rw_next_sequence w' \<and> 0 < unat c \<and> unat c < 65535 \<and>
    (\<forall>q s. unat e \<le> q \<and> q < unat e + unat c \<and> s \<in> set (rw_slots w') \<and> sl_occupied s \<longrightarrow>
       \<not> (unat (sl_first_sequence s) \<le> q \<and> q < unat (sl_first_sequence s) + unat (sl_message_count s)))"
proof -
  have "rw_settled (RecoveryWindow_init n mdb)" by (auto simp: rw_settled_def RecoveryWindow_init_def slot_ready_def)
  then have "rw_inv S w \<and> rw_settled w" using ingest_all_settled [OF rw_inv_init [of S n mdb] _ _ assms(2)] assms(1) by simp
  then have w': "rw_inv S w'" "rw_settled w'" using ingest_settled [OF _ _ _ _ assms(3)] assms(1) by auto
  obtain w2 where w2: "On_request session e c \<in> set (snd (issue_request w2))" "w' = fst (issue_request w2)"
    using assms(3,4) by (rule ingest_requestD)
  note req = issue_requestD [OF w2(1)]
  have "\<not> (unat (sl_first_sequence s) \<le> q \<and> q < unat (sl_first_sequence s) + unat (sl_message_count s))"
    if q: "unat e \<le> q" "q < unat e + unat c" and s: "s \<in> set (rw_slots w')" "sl_occupied s" for q s
  proof (cases "e < sl_first_sequence s")
    case True
    then have "earliest_future_sequence w2 \<le> sl_first_sequence s"
      using earliest_future_le [of s w2] s w2(2) req(2) by simp
    then show ?thesis using req(5) q(2) by (simp add: word_le_nat_alt)
  next
    case False
    have "unat (slot_end s) = unat (sl_first_sequence s) + unat (sl_message_count s)"
      using w'(1) s unat_packet_end by (auto simp: rw_inv_def slot_ok_def Let_def slot_end_def header_count_def)
    moreover have "\<not> slot_ready e s" using w'(2) s(1) req(2) w2(2) by (simp add: rw_settled_def)
    ultimately show ?thesis using False s(2) q(1)
      by (auto simp: slot_ready_def word_less_nat_alt word_le_nat_alt not_less)
  qed
  then show ?thesis using req w2(2) by auto
qed

theorem recovery_request_missing_witness:
  "\<exists>w' st c. ingest 32 (fst (ingest_all 32 (RecoveryWindow_init 1 32) [example_datagram 1 [1]]))
      (fst (example_datagram 4 [4])) (snd (example_datagram 4 [4])) =
     (w', st, [On_request (replicate 10 65) 2 c]) \<and> 0 < unat c \<and> unat c = 2 \<and> rw_next_sequence w' = 2"
proof -
  let ?S = "\<lambda>_ i. [of_nat i]" and ?ds = "[example_datagram 1 [1]]" and ?d = "example_datagram 4 [4]"
  let ?w = "fst (ingest_all 32 (RecoveryWindow_init 1 32) ?ds)"
  have hyp: "\<forall>(packet, sz)\<in>set ((fst ?d, snd ?d) # ?ds). valid_view packet sz \<and> datagram_agrees ?S packet sz" by code_simp
  have ev: "snd (snd (ingest 32 ?w (fst ?d) (snd ?d))) = [On_request (replicate 10 65) 2 2]" by code_simp
  obtain evs where run: "ingest_all 32 (RecoveryWindow_init 1 32) ?ds = (?w, evs)" by (metis prod.collapse)
  obtain w' st where i: "ingest 32 ?w (fst ?d) (snd ?d) = (w', st, [On_request (replicate 10 65) 2 2])"
    using ev by (metis prod.collapse)
  show ?thesis
    using recovery_request_missing [OF hyp run i, of "replicate 10 65" 2 2] i by simp
qed

text \<open>
  C34. The slot of an overtaken datagram is never released: once the next expected sequence
  number has passed the end of a buffered datagram (its messages came in other datagrams), no
  further datagram of any kind frees its slot, so the reorder window loses this slot for good.
\<close>

theorem overtaken_slot_leaks:
  assumes "initialized (rw_tracker w)" "i < length (rw_slots w)" "sl_occupied (rw_slots w ! i)"
    "unat (sl_first_sequence (rw_slots w ! i)) + unat (sl_message_count (rw_slots w ! i)) \<le> unat (rw_next_sequence w)"
    "ingest_all mdb w ds = (w', ev)"
  shows "rw_slots w' ! i = rw_slots w ! i"
  using ingest_all_overtaken [OF assms(1,2) _ assms(5)] assms(3,4) by (simp add: overtaken_def)

text \<open>
  Its instance: with one slot, the datagram of messages 3 to 4 is buffered, the next datagram
  brings messages 2 to 5, and from then on every datagram beyond a gap is refused.
\<close>

theorem overtaken_slot_leaks_witness:
  "let ds = [example_datagram 1 [1], example_datagram 3 [3, 4], example_datagram 2 [2, 3, 4, 5]];
       w = fst (ingest_all 32 (RecoveryWindow_init 1 32) ds);
       r = ingest 32 w (fst (example_datagram 9 [9])) (snd (example_datagram 9 [9])) in
   rw_next_sequence w = 6 \<and> fst (snd r) = rec_reorder_window_full \<and> rw_slots (fst r) ! 0 = rw_slots w ! 0"
proof -
  let ?ds = "[example_datagram 1 [1], example_datagram 3 [3, 4], example_datagram 2 [2, 3, 4, 5]]"
  define w where "w = fst (ingest_all 32 (RecoveryWindow_init 1 32) ?ds)"
  let ?d = "example_datagram 9 [9]"
  let ?r = "ingest 32 w (fst ?d) (snd ?d)"
  have "let w = fst (ingest_all 32 (RecoveryWindow_init 1 32) ?ds); s = rw_slots w ! 0; r = ingest 32 w (fst ?d) (snd ?d) in
    initialized (rw_tracker w) \<and> 0 < length (rw_slots w) \<and> sl_occupied s \<and>
    unat (sl_first_sequence s) + unat (sl_message_count s) \<le> unat (rw_next_sequence w) \<and>
    rw_next_sequence w = 6 \<and> fst (snd r) = rec_reorder_window_full" by code_simp
  note w = this [unfolded Let_def, folded w_def]
  have run: "ingest_all 32 w [?d] = (fst ?r, snd (snd ?r))"
    by (cases ?d, cases ?r) simp
  show ?thesis unfolding Let_def w_def [symmetric]
    using overtaken_slot_leaks [OF _ _ _ _ run, of 0] w by auto
qed

end
