(* ===== verification/OrderIndex.thy ===== *)
theory OrderIndex
  imports LinearProbing
begin

text \<open>
  \<open>FixedOrderIndex\<close> of \<open>components/include/qtrader/DensePriceOrderBook.hpp\<close>: the open-addressing
  index from order ids to node numbers. It has no size field and no capacity check of its own;
  the order book keeps it at most a quarter full. A value is a \<open>uint32_t\<close> node number, modelled
  as a natural number, with \<open>invalid_index()\<close> for "not found".

  The locale \<open>order_index\<close> states what the order book relies on: find, insert and erase act on a
  partial map as long as a slot stays free. The interpretation proves it for the model.
\<close>

section \<open>Model\<close>

abbreviation invalid_index :: nat where "invalid_index \<equiv> UINT32_MAX"

record ix_entry =
  ix_key :: u64
  ix_value :: nat
  ix_reserved :: nat

record FixedOrderIndex =
  ix_capacity :: nat
  ix_entries :: "ix_entry list"

definition ix_nil :: ix_entry where
  "ix_nil = \<lparr>ix_key = 0, ix_value = 0, ix_reserved = 0\<rparr>"

definition ix_rounded_capacity :: "nat \<Rightarrow> nat" where
  "ix_rounded_capacity orders =
     while (\<lambda>result. result < orders * 4 mod 2 ^ 64) (\<lambda>result. result * 2 mod 2 ^ 64) 8"

definition FixedOrderIndex_new :: "nat \<Rightarrow> FixedOrderIndex" where
  "FixedOrderIndex_new orders =
     \<lparr>ix_capacity = ix_rounded_capacity orders,
      ix_entries = replicate (ix_rounded_capacity orders) ix_nil\<rparr>"

definition ix_hash :: "u64 \<Rightarrow> u64" where
  "ix_hash value = value XOR drop_bit 32 value"

definition ix_bucket :: "FixedOrderIndex \<Rightarrow> u64 \<Rightarrow> nat" where
  "ix_bucket ix key = unat (ix_hash key) AND (ix_capacity ix - 1)"

fun ix_insert_loop :: "FixedOrderIndex \<Rightarrow> u64 \<Rightarrow> nat \<Rightarrow> nat \<Rightarrow> nat \<Rightarrow> FixedOrderIndex \<times> bool" where
  "ix_insert_loop ix key v 0 slot = (ix, False)"
| "ix_insert_loop ix key v (Suc probes) slot =
     (if ix_key (ix_entries ix ! slot) = key then (ix, False)
      else if ix_key (ix_entries ix ! slot) = 0 then
        (ix\<lparr>ix_entries := (ix_entries ix)[slot := (ix_entries ix ! slot)\<lparr>ix_key := key, ix_value := v\<rparr>]\<rparr>, True)
      else ix_insert_loop ix key v probes ((slot + 1) AND (ix_capacity ix - 1)))"

definition ix_insert :: "FixedOrderIndex \<Rightarrow> u64 \<Rightarrow> nat \<Rightarrow> FixedOrderIndex \<times> bool" where
  "ix_insert ix key v = ix_insert_loop ix key v (ix_capacity ix) (ix_bucket ix key)"

fun ix_find_loop :: "FixedOrderIndex \<Rightarrow> u64 \<Rightarrow> nat \<Rightarrow> nat \<Rightarrow> nat" where
  "ix_find_loop ix key 0 slot = invalid_index"
| "ix_find_loop ix key (Suc probes) slot =
     (if ix_key (ix_entries ix ! slot) = 0 then invalid_index
      else if ix_key (ix_entries ix ! slot) = key then ix_value (ix_entries ix ! slot)
      else ix_find_loop ix key probes ((slot + 1) AND (ix_capacity ix - 1)))"

definition ix_find :: "FixedOrderIndex \<Rightarrow> u64 \<Rightarrow> nat" where
  "ix_find ix key =
     (if key = 0 \<or> key = UINT64_MAX then invalid_index
      else ix_find_loop ix key (ix_capacity ix) (ix_bucket ix key))"

definition ix_shift_guard :: "ix_entry list \<times> nat \<times> nat \<Rightarrow> bool" where
  "ix_shift_guard = (\<lambda>(entries, hole, scan). ix_key (entries ! scan) \<noteq> 0)"

definition ix_shift_body ::
  "FixedOrderIndex \<Rightarrow> ix_entry list \<times> nat \<times> nat \<Rightarrow> ix_entry list \<times> nat \<times> nat" where
  "ix_shift_body ix = (\<lambda>(entries, hole, scan).
     let mask = ix_capacity ix - 1;
         home = ix_bucket ix (ix_key (entries ! scan));
         scan_distance = size_sub scan home AND mask;
         hole_distance = size_sub hole home AND mask
     in if hole_distance < scan_distance
        then (entries[hole := entries ! scan], scan, (scan + 1) AND mask)
        else (entries, hole, (scan + 1) AND mask))"

definition ix_backshift_from :: "FixedOrderIndex \<Rightarrow> nat \<Rightarrow> FixedOrderIndex" where
  "ix_backshift_from ix hole0 =
     (case while ix_shift_guard (ix_shift_body ix)
             (ix_entries ix, hole0, (hole0 + 1) AND (ix_capacity ix - 1)) of
        (entries, hole, scan) \<Rightarrow> ix\<lparr>ix_entries := entries[hole := ix_nil]\<rparr>)"

fun ix_erase_loop :: "FixedOrderIndex \<Rightarrow> u64 \<Rightarrow> nat \<Rightarrow> nat \<Rightarrow> FixedOrderIndex \<times> bool" where
  "ix_erase_loop ix key 0 slot = (ix, False)"
| "ix_erase_loop ix key (Suc probes) slot =
     (if ix_key (ix_entries ix ! slot) = 0 then (ix, False)
      else if ix_key (ix_entries ix ! slot) = key then (ix_backshift_from ix slot, True)
      else ix_erase_loop ix key probes ((slot + 1) AND (ix_capacity ix - 1)))"

definition ix_erase :: "FixedOrderIndex \<Rightarrow> u64 \<Rightarrow> FixedOrderIndex \<times> bool" where
  "ix_erase ix key = ix_erase_loop ix key (ix_capacity ix) (ix_bucket ix key)"

section \<open>The abstract map and the invariant\<close>

definition ix_map :: "FixedOrderIndex \<Rightarrow> u64 \<Rightarrow> nat option" where
  "ix_map ix k = (if k = 0 then None
     else map_option ix_value (List.find (\<lambda>e. ix_key e = k) (ix_entries ix)))"

definition ix_home :: "nat \<Rightarrow> u64 \<Rightarrow> nat" where
  "ix_home m k = unat (ix_hash k) AND (2 ^ (m + 3) - 1)"

definition ix_shape :: "nat \<Rightarrow> FixedOrderIndex \<Rightarrow> bool" where
  "ix_shape m ix \<longleftrightarrow> m + 3 \<le> 64 \<and> ix_capacity ix = 2 ^ (m + 3) \<and> length (ix_entries ix) = 2 ^ (m + 3) \<and>
     probe_inv (2 ^ (m + 3)) (ix_home m) (\<lambda>s. ix_key (ix_entries ix ! s)) \<and>
     card (live ix_key (ix_entries ix)) < 2 ^ (m + 3)"

definition ix_wf :: "FixedOrderIndex \<Rightarrow> bool" where
  "ix_wf ix \<longleftrightarrow> (\<exists>m. ix_shape m ix)"

abbreviation ix_probe :: "nat \<Rightarrow> FixedOrderIndex \<Rightarrow> u64 \<Rightarrow> nat \<Rightarrow> nat \<Rightarrow> nat option" where
  "ix_probe m ix \<equiv> probe_slot (2 ^ (m + 3)) (\<lambda>s. ix_key (ix_entries ix ! s))"

section \<open>Probing\<close>

interpretation ixp: probing "2 ^ (m + 3)" "ix_home m" ix_key ix_nil for m
proof
  show "2 \<le> (2::nat) ^ (m + 3)" using one_le_power [of "2::nat" m] by (simp add: power_add)
  show "ix_home m k < 2 ^ (m + 3)" for k unfolding ix_home_def by (rule and_mask_less)
qed (simp add: ix_nil_def)

lemma ix_shapeD:
  assumes "ix_shape m ix"
  shows "m + 3 \<le> 64" "ix_capacity ix = 2 ^ (m + 3)" "length (ix_entries ix) = 2 ^ (m + 3)"
    "probe_inv (2 ^ (m + 3)) (ix_home m) (\<lambda>s. ix_key (ix_entries ix ! s))"
    "card (live ix_key (ix_entries ix)) < 2 ^ (m + 3)"
    "ix_bucket ix k = ix_home m k"
    "s < 2 ^ (m + 3) \<Longrightarrow> (s + 1) AND (ix_capacity ix - 1) = cyc_next (2 ^ (m + 3)) s"
  using assms and_mask_next [of s "m + 3"] by (simp_all add: ix_shape_def ix_bucket_def ix_home_def)

lemma ix_loops_probe:
  assumes "ix_shape m ix" "k \<noteq> 0" "s < 2 ^ (m + 3)"
  shows "ix_find_loop ix k n s = (case ix_probe m ix k n s of None \<Rightarrow> invalid_index
       | Some x \<Rightarrow> if ix_key (ix_entries ix ! x) = k then ix_value (ix_entries ix ! x) else invalid_index)"
    and "ix_insert_loop ix k v n s = (case ix_probe m ix k n s of None \<Rightarrow> (ix, False)
       | Some x \<Rightarrow> if ix_key (ix_entries ix ! x) = k then (ix, False)
         else (ix\<lparr>ix_entries := (ix_entries ix)[x := (ix_entries ix ! x)\<lparr>ix_key := k, ix_value := v\<rparr>]\<rparr>, True))"
    and "ix_erase_loop ix k n s = (case ix_probe m ix k n s of None \<Rightarrow> (ix, False)
       | Some x \<Rightarrow> if ix_key (ix_entries ix ! x) = k then (ix_backshift_from ix x, True) else (ix, False))"
  using assms(3)
proof (induction n arbitrary: s)
  case (Suc n)
  have next_s: "(s + 1) AND (ix_capacity ix - 1) = cyc_next (2 ^ (m + 3)) s"
    if "s < 2 ^ (m + 3)" for s using ix_shapeD(7) [OF assms(1) that] .
  { case 1
    then show ?case using Suc.IH(1) [of "cyc_next (2 ^ (m + 3)) s"] next_s [OF 1] assms(2) by auto
  next
    case 2
    then show ?case using Suc.IH(2) [of "cyc_next (2 ^ (m + 3)) s"] next_s [OF 2] assms(2) by auto
  next
    case 3
    then show ?case using Suc.IH(3) [of "cyc_next (2 ^ (m + 3)) s"] next_s [OF 3] assms(2) by auto
  }
qed simp_all

lemma ix_map_slot:
  assumes "ix_shape m ix" "s < 2 ^ (m + 3)" "ix_key (ix_entries ix ! s) = k" "k \<noteq> 0"
  shows "ix_map ix k = Some (ix_value (ix_entries ix ! s))"
proof -
  note shape = ix_shapeD [OF assms(1)]
  have "ix_entries ix ! s \<in> set (ix_entries ix)" using assms(2) shape(3) by simp
  then obtain x where x: "List.find (\<lambda>e. ix_key e = k) (ix_entries ix) = Some x"
    using assms(3) by (cases "List.find (\<lambda>e. ix_key e = k) (ix_entries ix)") (auto simp: find_None_iff)
  then obtain i where "i < 2 ^ (m + 3)" "ix_entries ix ! i = x" "ix_key x = k"
    by (auto simp: find_Some_iff shape(3))
  then have "i = s" using probe_inv_unique [OF shape(4)] assms(2,3,4) by auto
  then show ?thesis using x \<open>ix_entries ix ! i = x\<close> assms(4) by (simp add: ix_map_def)
qed

lemma ix_map_live:
  assumes "ix_shape m ix"
  shows "ix_map ix k = Some v \<longleftrightarrow> (\<exists>e\<in>live ix_key (ix_entries ix). ix_key e = k \<and> ix_value e = v)"
proof (cases "k = 0")
  case True
  then show ?thesis by (auto simp: ix_map_def live_def)
next
  case False
  have len: "length (ix_entries ix) = 2 ^ (m + 3)" by (rule ix_shapeD(3) [OF assms])
  show ?thesis
  proof
    assume "ix_map ix k = Some v"
    then show "\<exists>e\<in>live ix_key (ix_entries ix). ix_key e = k \<and> ix_value e = v"
      using False by (auto simp: ix_map_def live_def find_Some_iff) (metis nth_mem)
  next
    assume "\<exists>e\<in>live ix_key (ix_entries ix). ix_key e = k \<and> ix_value e = v"
    then obtain e where e: "e \<in> live ix_key (ix_entries ix)" "ix_key e = k" "ix_value e = v" by blast
    then obtain s where "s < 2 ^ (m + 3)" "ix_entries ix ! s = e"
      using iffD1 [OF ixp.live_slot [OF len] e(1)] by blast
    then have "s < 2 ^ (m + 3)" "ix_key (ix_entries ix ! s) = k" "ix_value (ix_entries ix ! s) = v"
      using e by simp_all
    then show "ix_map ix k = Some v" using ix_map_slot [OF assms] False by blast
  qed
qed

lemma ix_hit:
  assumes "ix_shape m ix" "ix_map ix k = Some v"
  obtains s where "s < 2 ^ (m + 3)" "ix_key (ix_entries ix ! s) = k" "ix_value (ix_entries ix ! s) = v" "k \<noteq> 0"
    "probe_slot (2 ^ (m + 3)) (\<lambda>s. ix_key (ix_entries ix ! s)) k (2 ^ (m + 3)) (ix_home m k) = Some s"
proof -
  have k: "k \<noteq> 0" using assms(2) by (auto simp: ix_map_def)
  obtain e where e: "e \<in> live ix_key (ix_entries ix)" "ix_key e = k" "ix_value e = v"
    using assms(2) unfolding ix_map_live [OF assms(1)] by blast
  then obtain s where "s < 2 ^ (m + 3)" "ix_entries ix ! s = e"
    using iffD1 [OF ixp.live_slot [OF ix_shapeD(3) [OF assms(1)]] e(1)] by blast
  then have s: "s < 2 ^ (m + 3)" "ix_key (ix_entries ix ! s) = k" "ix_value (ix_entries ix ! s) = v"
    using e by simp_all
  then show thesis using that k ixp.probe_slot_present [OF ix_shapeD(4) [OF assms(1)] s(1,2) k] by blast
qed

lemma ix_miss:
  assumes "ix_shape m ix" "ix_map ix k = None" "k \<noteq> 0" "s < 2 ^ (m + 3)"
  shows "ix_key (ix_entries ix ! s) \<noteq> k"
  using ix_map_slot [OF assms(1,4)] assms(2,3) by force

section \<open>The operations on the map\<close>

lemma ix_find_map:
  assumes "ix_wf ix"
  shows "ix_find ix k = (if k = UINT64_MAX then invalid_index
    else case ix_map ix k of None \<Rightarrow> invalid_index | Some v \<Rightarrow> v)"
proof -
  from assms obtain m where m: "ix_shape m ix" by (auto simp: ix_wf_def)
  note shape = ix_shapeD [OF m]
  show ?thesis
  proof (cases "k = 0 \<or> k = UINT64_MAX")
    case True
    then show ?thesis by (auto simp: ix_find_def ix_map_def)
  next
    case False
    then have find: "ix_find ix k = (case ix_probe m ix k (2 ^ (m + 3)) (ix_home m k) of None \<Rightarrow> invalid_index
       | Some x \<Rightarrow> if ix_key (ix_entries ix ! x) = k then ix_value (ix_entries ix ! x) else invalid_index)"
      using ix_loops_probe(1) [OF m _ ixp.home_less] by (simp add: ix_find_def shape(2,6))
    show ?thesis
    proof (cases "ix_map ix k")
      case None
      then have absent: "\<forall>s<2 ^ (m + 3). ix_key (ix_entries ix ! s) \<noteq> k" using ix_miss [OF m None] False by blast
      have "ix_key (ix_entries ix ! x) = 0" if "ix_probe m ix k (2 ^ (m + 3)) (ix_home m k) = Some x" for x
        using ixp.probe_slot_missing [OF absent ixp.home_less that] .
      then show ?thesis using find None False by (auto split: option.splits)
    next
      case (Some v)
      obtain s where "ix_key (ix_entries ix ! s) = k" "ix_value (ix_entries ix ! s) = v"
        "ix_probe m ix k (2 ^ (m + 3)) (ix_home m k) = Some s" using ix_hit [OF m Some] by metis
      then show ?thesis using find Some False by simp
    qed
  qed
qed

lemma ix_empty_slot: "ix_shape m ix \<Longrightarrow> \<exists>e<2 ^ (m + 3). ix_key (ix_entries ix ! e) = 0"
  using ixp.empty_slot [OF ix_shapeD(4,3,5)] by blast

lemma ix_map_eqI:
  assumes "ix_shape m ix" "\<And>k' v'. g k' = Some v' \<longleftrightarrow>
    (\<exists>e\<in>live ix_key (ix_entries ix). ix_key e = k' \<and> ix_value e = v')"
  shows "ix_map ix = g"
proof
  fix k'
  show "ix_map ix k' = g k'"
    using ix_map_live [OF assms(1), of k'] assms(2) [of k'] by (metis option.exhaust)
qed

lemma ix_live_unique:
  assumes "ix_shape m ix" "e \<in> live ix_key (ix_entries ix)" "f \<in> live ix_key (ix_entries ix)" "ix_key e = ix_key f"
  shows "e = f"
  using assms(2-4) ixp.live_slot [OF ix_shapeD(3) [OF assms(1)]] probe_inv_unique [OF ix_shapeD(4) [OF assms(1)]]
  by metis

lemma ix_dom:
  assumes "ix_shape m ix"
  shows "card (dom (ix_map ix)) = card (live ix_key (ix_entries ix))" "finite (dom (ix_map ix))"
proof -
  have d: "dom (ix_map ix) = ix_key ` live ix_key (ix_entries ix)"
    using ix_map_live [OF assms] by (auto simp: dom_def image_iff)
  have "inj_on ix_key (live ix_key (ix_entries ix))"
    using ix_live_unique [OF assms] by (intro inj_onI) blast
  then show "card (dom (ix_map ix)) = card (live ix_key (ix_entries ix))" by (simp add: d card_image)
  show "finite (dom (ix_map ix))" by (simp add: d)
qed

lemma ix_insert_fresh:
  assumes wf: "ix_wf ix" and k: "k \<noteq> 0" "ix_map ix k = None"
    and room: "card (dom (ix_map ix)) + 1 < ix_capacity ix"
  shows "\<exists>ix'. ix_insert ix k v = (ix', True) \<and> ix_wf ix' \<and> ix_map ix' = (ix_map ix)(k \<mapsto> v) \<and>
    ix_capacity ix' = ix_capacity ix"
proof -
  from wf obtain m where m: "ix_shape m ix" by (auto simp: ix_wf_def)
  note shape = ix_shapeD [OF m]
  let ?c = "2 ^ (m + 3) :: nat" and ?kf = "\<lambda>s. ix_key (ix_entries ix ! s)"
  have absent: "\<forall>s<?c. ?kf s \<noteq> k" using ix_miss [OF m k(2,1)] by blast
  obtain e where e: "e < ?c" "?kf e = 0" using ix_empty_slot [OF m] by blast
  obtain z where z: "z < ?c" "ix_probe m ix k ?c (ix_home m k) = Some z" "?kf z = 0"
    "\<forall>y<?c. cyc_dist ?c (ix_home m k) y < cyc_dist ?c (ix_home m k) z \<longrightarrow> ?kf y \<noteq> 0"
    using ixp.probe_slot_absent [OF e absent] by blast
  let ?n = "(ix_entries ix ! z)\<lparr>ix_key := k, ix_value := v\<rparr>"
  let ?ix = "ix\<lparr>ix_entries := (ix_entries ix)[z := ?n]\<rparr>"
  have res: "ix_insert ix k v = (?ix, True)"
    using k z ix_loops_probe(2) [OF m k(1) ixp.home_less, of v ?c]
    by (simp add: ix_insert_def shape(2,6))
  have live: "live ix_key (ix_entries ?ix) = insert ?n (live ix_key (ix_entries ix))"
    using live_update [of z "ix_entries ix" ix_key ?n] z shape(3) k(1) by simp
  have "card (live ix_key (ix_entries ?ix)) \<le> card (live ix_key (ix_entries ix)) + 1"
    unfolding live using card_insert_le_m1 card_insert_if [OF finite_live] by (metis Suc_eq_plus1 le_SucI order_refl)
  then have card: "card (live ix_key (ix_entries ?ix)) < ?c" using room ix_dom(1) [OF m] shape(2) by simp
  have "probe_inv ?c (ix_home m) (\<lambda>s. ix_key (ix_entries ?ix ! s))"
    using ixp.probe_inv_insert [OF shape(4) k(1) absent z(1,4)] ixp.key_update [OF shape(3) z(1), of ?n] by simp
  then have m': "ix_shape m ?ix" using m card by (simp add: ix_shape_def)
  have "ix_map ?ix = (ix_map ix)(k \<mapsto> v)"
  proof (rule ix_map_eqI [OF m'])
    fix k' v'
    show "((ix_map ix)(k \<mapsto> v)) k' = Some v' \<longleftrightarrow>
      (\<exists>e\<in>live ix_key (ix_entries ?ix). ix_key e = k' \<and> ix_value e = v')"
      unfolding live using ix_map_live [OF m, of k' v'] ix_map_live [OF m, of k] k(2) by auto
  qed
  then show ?thesis using res m' by (auto simp: ix_wf_def)
qed

lemma ix_insert_present:
  assumes "ix_wf ix" "ix_map ix k \<noteq> None"
  shows "ix_insert ix k v = (ix, False)"
proof -
  from assms(1) obtain m where m: "ix_shape m ix" by (auto simp: ix_wf_def)
  from assms(2) obtain w where "ix_map ix k = Some w" by auto
  then obtain s where "ix_key (ix_entries ix ! s) = k" "k \<noteq> 0" "ix_probe m ix k (2 ^ (m + 3)) (ix_home m k) = Some s"
    using ix_hit [OF m] by metis
  then show ?thesis using ix_loops_probe(2) [OF m _ ixp.home_less] ix_shapeD(2,6) [OF m]
    by (simp add: ix_insert_def)
qed

section \<open>Erasure\<close>

lemma ix_shift_body_step:
  assumes m: "ix_shape m ix" and "hole < 2 ^ (m + 3)" "scan < 2 ^ (m + 3)"
  shows "ix_shift_body ix (es, hole, scan) = shift_step (2 ^ (m + 3)) (ix_home m) ix_key (es, hole, scan)"
  using and_mask_next [OF assms(3)] size_sub_mask [OF assms(3) ixp.home_less ix_shapeD(1) [OF m]]
    size_sub_mask [OF assms(2) ixp.home_less ix_shapeD(1) [OF m]]
  by (simp add: ix_shift_body_def shift_step_def Let_def ix_shapeD(2,6) [OF m])

lemma ix_shift_loop:
  assumes m: "ix_shape m ix" and s: "s < 2 ^ (m + 3)" "ix_key (ix_entries ix ! s) \<noteq> 0"
  shows "\<exists>es' hole' scan'. while_option ix_shift_guard (ix_shift_body ix)
      (ix_entries ix, s, (s + 1) AND (ix_capacity ix - 1)) = Some (es', hole', scan') \<and>
    length es' = 2 ^ (m + 3) \<and> hole' < 2 ^ (m + 3) \<and>
    probe_inv (2 ^ (m + 3)) (ix_home m) (\<lambda>x. ix_key (es'[hole' := ix_nil] ! x)) \<and>
    live ix_key (es'[hole' := ix_nil]) = live ix_key (ix_entries ix) - {ix_entries ix ! s}"
proof -
  obtain e where e: "e < 2 ^ (m + 3)" "ix_key (ix_entries ix ! e) = 0" using ix_empty_slot [OF m] by blast
  show ?thesis
    unfolding ix_shapeD(7) [OF m s(1)]
    by (rule ixp.shift_loop [OF _ _ ix_shapeD(4,3) [OF m] s e])
      (simp_all add: ix_shift_body_step [OF m] ix_shift_guard_def)
qed

lemma ix_erase_present:
  assumes wf: "ix_wf ix" and some: "ix_map ix k \<noteq> None"
  shows "\<exists>ix'. ix_erase ix k = (ix', True) \<and> ix_wf ix' \<and> ix_map ix' = (ix_map ix)(k := None) \<and>
    ix_capacity ix' = ix_capacity ix"
proof -
  from wf obtain m where m: "ix_shape m ix" by (auto simp: ix_wf_def)
  note shape = ix_shapeD [OF m]
  from some obtain w where "ix_map ix k = Some w" by auto
  then obtain s where s: "s < 2 ^ (m + 3)" "ix_key (ix_entries ix ! s) = k" "k \<noteq> 0"
    "ix_probe m ix k (2 ^ (m + 3)) (ix_home m k) = Some s" using ix_hit [OF m] by metis
  obtain es' hole' scan' where w: "while_option ix_shift_guard (ix_shift_body ix)
      (ix_entries ix, s, (s + 1) AND (ix_capacity ix - 1)) = Some (es', hole', scan')"
    "length es' = 2 ^ (m + 3)" "probe_inv (2 ^ (m + 3)) (ix_home m) (\<lambda>x. ix_key (es'[hole' := ix_nil] ! x))"
    "live ix_key (es'[hole' := ix_nil]) = live ix_key (ix_entries ix) - {ix_entries ix ! s}"
    using ix_shift_loop [OF m s(1)] s(2,3) by auto
  let ?ix = "ix\<lparr>ix_entries := es'[hole' := ix_nil]\<rparr>"
  have res: "ix_erase ix k = (?ix, True)"
    using s ix_loops_probe(3) [OF m s(3) ixp.home_less, of "2 ^ (m + 3)"] w(1)
    by (simp add: ix_erase_def shape(2,6) ix_backshift_from_def while_def)
  have live: "live ix_key (ix_entries ?ix) = live ix_key (ix_entries ix) - {ix_entries ix ! s}" using w(4) by simp
  have "card (live ix_key (ix_entries ?ix)) \<le> card (live ix_key (ix_entries ix))"
    unfolding live by (intro card_mono) auto
  then have m': "ix_shape m ?ix" using m w(2,3) by (auto simp: ix_shape_def)
  have here: "ix_entries ix ! s \<in> live ix_key (ix_entries ix)"
    using ixp.live_slot [OF shape(3)] s(1-3) by blast
  have only: "f = ix_entries ix ! s" if "f \<in> live ix_key (ix_entries ix)" "ix_key f = k" for f
    using ix_live_unique [OF m that(1) here] that(2) s(2) by simp
  have "ix_map ?ix = (ix_map ix)(k := None)"
  proof (rule ix_map_eqI [OF m'])
    fix k' v'
    show "((ix_map ix)(k := None)) k' = Some v' \<longleftrightarrow>
      (\<exists>e\<in>live ix_key (ix_entries ?ix). ix_key e = k' \<and> ix_value e = v')"
      unfolding live using ix_map_live [OF m, of k' v'] only s(2) by auto
  qed
  then show ?thesis using res m' by (auto simp: ix_wf_def)
qed

section \<open>Construction\<close>

lemma ix_rounded_capacity_power:
  assumes "orders * 4 \<le> 2 ^ 63"
  shows "\<exists>m. m + 3 \<le> 63 \<and> ix_rounded_capacity orders = 2 ^ (m + 3) \<and> orders * 4 \<le> ix_rounded_capacity orders"
proof -
  have small: "orders * 4 mod 2 ^ 64 = orders * 4" using assms by simp
  let ?P = "\<lambda>r::nat. \<exists>m. m + 3 \<le> 63 \<and> r = 2 ^ (m + 3)"
  have grow: "?P (r * 2 mod 2 ^ 64) \<and> r * 2 mod 2 ^ 64 = r * 2" if P: "?P r" and lt: "r < orders * 4" for r
  proof -
    obtain m where m: "m + 3 \<le> 63" "r = 2 ^ (m + 3)" using P by blast
    have "(2::nat) ^ (m + 3) < 2 ^ 63" using lt assms m(2) by linarith
    then have "m + 3 < 63" by (rule power_less_imp_less_exp [rotated]) simp
    moreover have "r * 2 = 2 ^ (m + 1 + 3)" using m(2) by (simp add: power_add)
    moreover have "(2::nat) ^ (m + 1 + 3) < 2 ^ 64"
      using \<open>m + 3 < 63\<close> by (intro power_strict_increasing) auto
    ultimately show ?thesis using m by (intro conjI exI [of _ "m + 1"]) auto
  qed
  have "?P (ix_rounded_capacity orders) \<and> orders * 4 \<le> ix_rounded_capacity orders"
    unfolding ix_rounded_capacity_def small
  proof (rule while_rule [where P = ?P and r = "measure (\<lambda>r. orders * 4 - r)"])
    show "?P 8" by (intro exI [of _ 0]) simp
    show "?P (r * 2 mod 2 ^ 64)" if "?P r" "r < orders * 4" for r using grow [OF that] by blast
    show "(r * 2 mod 2 ^ 64, r) \<in> measure (\<lambda>r. orders * 4 - r)" if "?P r" "r < orders * 4" for r
    proof -
      have "0 < r" using that(1) by auto
      then show ?thesis using grow [OF that] that(2) by simp
    qed
  qed auto
  then show ?thesis by auto
qed

lemma FixedOrderIndex_new_wf:
  assumes "orders * 4 \<le> 2 ^ 63"
  shows "ix_wf (FixedOrderIndex_new orders)" "ix_map (FixedOrderIndex_new orders) = (\<lambda>_. None)"
    "orders * 4 \<le> ix_capacity (FixedOrderIndex_new orders)" "8 \<le> ix_capacity (FixedOrderIndex_new orders)"
proof -
  obtain m where m: "m + 3 \<le> 63" "ix_rounded_capacity orders = 2 ^ (m + 3)" "orders * 4 \<le> ix_rounded_capacity orders"
    using ix_rounded_capacity_power [OF assms] by blast
  have "live ix_key (replicate n ix_nil) = {}" for n by (auto simp: live_def ix_nil_def)
  then have "ix_shape m (FixedOrderIndex_new orders)"
    using m(1,2) by (auto simp: ix_shape_def FixedOrderIndex_new_def ix_nil_def intro!: probe_invI)
  then show "ix_wf (FixedOrderIndex_new orders)" by (auto simp: ix_wf_def)
  show "ix_map (FixedOrderIndex_new orders) = (\<lambda>_. None)"
    by (auto simp: ix_map_def FixedOrderIndex_new_def find_None_iff ix_nil_def)
  show "orders * 4 \<le> ix_capacity (FixedOrderIndex_new orders)" using m(3) by (simp add: FixedOrderIndex_new_def)
  show "8 \<le> ix_capacity (FixedOrderIndex_new orders)" using m(2) by (simp add: FixedOrderIndex_new_def power_add)
qed

section \<open>The interface of the order book\<close>

text \<open>
  What the order book relies on: a map from ids to node numbers with room for one more key than
  it holds. Id zero and the largest id are never stored.
\<close>

locale order_index =
  fixes find :: "'i \<Rightarrow> u64 \<Rightarrow> nat"
    and ins :: "'i \<Rightarrow> u64 \<Rightarrow> nat \<Rightarrow> 'i \<times> bool"
    and del :: "'i \<Rightarrow> u64 \<Rightarrow> 'i \<times> bool"
    and wf :: "'i \<Rightarrow> bool"
    and assoc :: "'i \<Rightarrow> u64 \<Rightarrow> nat option"
    and cap :: "'i \<Rightarrow> nat"
  assumes find_assoc: "wf i \<Longrightarrow> find i k = (if k = UINT64_MAX then invalid_index
      else case assoc i k of None \<Rightarrow> invalid_index | Some v \<Rightarrow> v)"
    and assoc_zero: "assoc i 0 = None"
    and assoc_finite: "wf i \<Longrightarrow> finite (dom (assoc i))"
    and ins_fresh: "wf i \<Longrightarrow> k \<noteq> 0 \<Longrightarrow> assoc i k = None \<Longrightarrow> card (dom (assoc i)) + 1 < cap i \<Longrightarrow>
      \<exists>i'. ins i k v = (i', True) \<and> wf i' \<and> assoc i' = (assoc i)(k \<mapsto> v) \<and> cap i' = cap i"
    and ins_present: "wf i \<Longrightarrow> assoc i k \<noteq> None \<Longrightarrow> ins i k v = (i, False)"
    and del_present: "wf i \<Longrightarrow> assoc i k \<noteq> None \<Longrightarrow>
      \<exists>i'. del i k = (i', True) \<and> wf i' \<and> assoc i' = (assoc i)(k := None) \<and> cap i' = cap i"
begin

text \<open>Moving a value to a new key, as a replacement does: insert first, erase the old key after.\<close>

lemma rekey:
  assumes "wf i" "assoc i old = Some v" "k \<noteq> 0" "assoc i k = None" "card (dom (assoc i)) + 1 < cap i"
  shows "\<exists>i' i''. ins i k v = (i', True) \<and> del i' old = (i'', True) \<and> wf i'' \<and>
    assoc i'' = (assoc i)(old := None, k \<mapsto> v) \<and> cap i'' = cap i"
proof -
  obtain i' where i': "ins i k v = (i', True)" "wf i'" "assoc i' = (assoc i)(k \<mapsto> v)" "cap i' = cap i"
    using ins_fresh [OF assms(1,3,4,5)] by blast
  have "old \<noteq> k" using assms(2,4) by auto
  then have "assoc i' old \<noteq> None" using i'(3) assms(2) by simp
  then obtain i'' where "del i' old = (i'', True)" "wf i''" "assoc i'' = (assoc i')(old := None)" "cap i'' = cap i'"
    using del_present [OF i'(2)] by blast
  then show ?thesis using i' \<open>old \<noteq> k\<close> by (auto simp: fun_upd_twist)
qed

end

interpretation oix: order_index ix_find ix_insert ix_erase ix_wf ix_map ix_capacity
proof
  show "ix_map i 0 = None" for i by (simp add: ix_map_def)
  show "ix_wf i \<Longrightarrow> finite (dom (ix_map i))" for i using ix_dom(2) by (auto simp: ix_wf_def)
qed (simp_all add: ix_find_map ix_insert_fresh ix_insert_present ix_erase_present)

text \<open>
  The order index refines a partial map: on a well-formed index with a free slot to spare,
  find answers with the stored node number or the invalid index, inserting a fresh id adds exactly
  this id, inserting a present one changes nothing, and erasing a present one removes exactly it,
  with the probing invariant kept throughout.
\<close>

lemma order_index_refines_map:
  assumes "ix_wf ix" "k \<noteq> 0" "k \<noteq> UINT64_MAX" "card (dom (ix_map ix)) + 1 < ix_capacity ix"
  shows "ix_find ix k = (case ix_map ix k of None \<Rightarrow> invalid_index | Some v \<Rightarrow> v) \<and>
    (case ix_insert ix k v of (ix', ok) \<Rightarrow> ix_wf ix' \<and> ok = (ix_map ix k = None) \<and>
       ix_map ix' = (if ok then (ix_map ix)(k \<mapsto> v) else ix_map ix)) \<and>
    (ix_map ix k \<noteq> None \<longrightarrow> ix_wf (fst (ix_erase ix k)) \<and> ix_map (fst (ix_erase ix k)) = (ix_map ix)(k := None))"
proof (cases "ix_map ix k")
  case None
  then show ?thesis using oix.ins_fresh [OF assms(1,2) None assms(4), of v] assms(3)
    by (auto simp: ix_find_map [OF assms(1)])
next
  case (Some w)
  then have some: "ix_map ix k \<noteq> None" by simp
  show ?thesis using Some assms(1,3) oix.del_present [OF assms(1) some] oix.ins_present [OF assms(1) some, of v]
    by (auto simp: ix_find_map [OF assms(1)])
qed

end
