(* ===== verification/DenseBook.thy ===== *)
theory DenseBook
  imports OrderIndex
begin

text \<open>
  The model of \<open>components/include/qtrader/DensePriceOrderBook.hpp\<close>, with the order types of
  \<open>PriceTimeOrderBook.hpp\<close>: a preallocated node array with a free list, one doubly linked FIFO per
  price level and side, two occupancy bitmaps, the best level of each side and the order index.
  Node and level numbers are \<open>uint32_t\<close> values as natural numbers with \<open>kInvalid\<close> for "none";
  prices are integers, quantities and ids 64-bit words. An update through a C++ reference is an
  update of the field it refers to. The sink's callbacks cannot reach the book, so an operation
  returns the calls it makes. The two matching loops may only be left through their conditions, so
  they are partial functions: \<^const>\<open>None\<close> is a loop that does not end.
\<close>

section \<open>Types\<close>

datatype Side = Buy | Sell
datatype OrderType = Limit | Market
datatype OrderState = New | PartiallyFilled | Filled | Canceled | Rejected

record OrderRequest =
  rq_id :: u64
  rq_side :: Side
  rq_type :: OrderType
  rq_price :: int
  rq_quantity :: u64

datatype sink_event =
    On_trade u64 u64 int u64
  | On_order u64 OrderState u64

abbreviation kInvalid :: nat where "kInvalid \<equiv> UINT32_MAX"

record Node =
  nd_id :: u64
  nd_price :: int
  nd_remaining :: u64
  nd_previous :: nat
  nd_next :: nat
  nd_free_next :: nat
  nd_level :: nat
  nd_side :: Side
  nd_state :: OrderState

definition Node_default :: Node where
  "Node_default = \<lparr>nd_id = 0, nd_price = 0, nd_remaining = 0, nd_previous = kInvalid, nd_next = kInvalid,
     nd_free_next = kInvalid, nd_level = kInvalid, nd_side = Buy, nd_state = New\<rparr>"

record PriceLevel =
  lv_head :: nat
  lv_tail :: nat
  lv_total :: u64

definition PriceLevel_default :: PriceLevel where
  "PriceLevel_default = \<lparr>lv_head = kInvalid, lv_tail = kInvalid, lv_total = 0\<rparr>"

record DensePriceOrderBook =
  db_nodes :: "Node list"
  db_bids :: "PriceLevel list"
  db_asks :: "PriceLevel list"
  db_bid_bitmap :: "u64 list"
  db_ask_bitmap :: "u64 list"
  db_index :: FixedOrderIndex
  db_order_capacity :: nat
  db_minimum_price :: int
  db_tick_size :: int
  db_level_count :: nat
  db_free :: nat
  db_active :: nat
  db_best_bid :: nat
  db_best_ask :: nat

text \<open>The expression \<open>(level_count + 63) / 64\<close> in \<open>uint32_t\<close> arithmetic.\<close>

definition bitmap_words :: "nat \<Rightarrow> nat" where
  "bitmap_words level_count = (level_count + 63) mod 2 ^ 32 div 64"

definition DensePriceOrderBook_new :: "nat \<Rightarrow> int \<Rightarrow> int \<Rightarrow> nat \<Rightarrow> DensePriceOrderBook" where
  "DensePriceOrderBook_new order_capacity minimum_price tick_size level_count =
     \<lparr>db_nodes = map (\<lambda>i. Node_default\<lparr>nd_free_next := if i + 1 < order_capacity then i + 1 else kInvalid\<rparr>)
        [0..<order_capacity],
      db_bids = replicate level_count PriceLevel_default,
      db_asks = replicate level_count PriceLevel_default,
      db_bid_bitmap = replicate (bitmap_words level_count) 0,
      db_ask_bitmap = replicate (bitmap_words level_count) 0,
      db_index = FixedOrderIndex_new order_capacity,
      db_order_capacity = order_capacity,
      db_minimum_price = minimum_price,
      db_tick_size = tick_size,
      db_level_count = level_count,
      db_free = (if order_capacity = 0 then kInvalid else 0),
      db_active = 0,
      db_best_bid = kInvalid,
      db_best_ask = kInvalid\<rparr>"

section \<open>Field access by side\<close>

text \<open>The conditional expressions \<open>side == Side::Buy ? _bids[l] : _asks[l]\<close> and the like.\<close>

definition level_at :: "DensePriceOrderBook \<Rightarrow> Side \<Rightarrow> nat \<Rightarrow> PriceLevel" where
  "level_at b side l = (if side = Buy then db_bids b ! l else db_asks b ! l)"

definition put_level :: "Side \<Rightarrow> nat \<Rightarrow> PriceLevel \<Rightarrow> DensePriceOrderBook \<Rightarrow> DensePriceOrderBook" where
  "put_level side l v b =
     (if side = Buy then b\<lparr>db_bids := (db_bids b)[l := v]\<rparr> else b\<lparr>db_asks := (db_asks b)[l := v]\<rparr>)"

definition bitmap :: "DensePriceOrderBook \<Rightarrow> Side \<Rightarrow> u64 list" where
  "bitmap b side = (if side = Buy then db_bid_bitmap b else db_ask_bitmap b)"

definition put_bitmap :: "Side \<Rightarrow> u64 list \<Rightarrow> DensePriceOrderBook \<Rightarrow> DensePriceOrderBook" where
  "put_bitmap side bits b =
     (if side = Buy then b\<lparr>db_bid_bitmap := bits\<rparr> else b\<lparr>db_ask_bitmap := bits\<rparr>)"

definition upd_node :: "nat \<Rightarrow> (Node \<Rightarrow> Node) \<Rightarrow> DensePriceOrderBook \<Rightarrow> DensePriceOrderBook" where
  "upd_node i f b = b\<lparr>db_nodes := (db_nodes b)[i := f (db_nodes b ! i)]\<rparr>"

abbreviation node :: "DensePriceOrderBook \<Rightarrow> nat \<Rightarrow> Node" where
  "node b i \<equiv> db_nodes b ! i"

section \<open>Prices, bits and best levels\<close>

definition price_index :: "DensePriceOrderBook \<Rightarrow> int \<Rightarrow> nat option" where
  "price_index b price =
     (if db_tick_size b \<le> 0 \<or> price < db_minimum_price b then None
      else
        let delta = price - db_minimum_price b in
        if db_tick_size b \<noteq> 1 \<and> delta mod db_tick_size b \<noteq> 0 then None
        else
          let index = (if db_tick_size b = 1 then delta else delta div db_tick_size b) in
          if int (db_level_count b) \<le> index then None else Some (nat index))"

definition level_price :: "DensePriceOrderBook \<Rightarrow> nat \<Rightarrow> int" where
  "level_price b level = db_minimum_price b + int level * db_tick_size b"

text \<open>The compiler builtins for the lowest and the highest set bit of a non-zero word.\<close>

definition lowest_bit :: "u64 \<Rightarrow> nat" where
  "lowest_bit bits = hd (filter (bit bits) [0..<64])"

definition highest_bit :: "u64 \<Rightarrow> nat" where
  "highest_bit bits = last (filter (bit bits) [0..<64])"

fun scan_up :: "u64 list \<Rightarrow> nat \<Rightarrow> nat" where
  "scan_up [] word = kInvalid"
| "scan_up (bits # rest) word =
     (if bits \<noteq> 0 then word * 64 + lowest_bit bits else scan_up rest (word + 1))"

fun scan_down :: "u64 list \<Rightarrow> nat \<Rightarrow> nat" where
  "scan_down bm 0 = kInvalid"
| "scan_down bm (Suc word) =
     (if bm ! word \<noteq> 0 then word * 64 + highest_bit (bm ! word) else scan_down bm word)"

definition find_best :: "DensePriceOrderBook \<Rightarrow> u64 list \<Rightarrow> bool \<Rightarrow> nat" where
  "find_best b bm highest =
     (let words = bitmap_words (db_level_count b) in
      if highest then scan_down bm words else scan_up (take words bm) 0)"

definition set_occupied :: "Side \<Rightarrow> nat \<Rightarrow> DensePriceOrderBook \<Rightarrow> DensePriceOrderBook" where
  "set_occupied side level b =
     (let bits = bitmap b side;
          w = drop_bit 6 level;
          b = put_bitmap side (bits[w := (bits ! w) OR push_bit (level AND 63) 1]) b in
      if side = Buy then
        (if db_best_bid b = kInvalid \<or> level > db_best_bid b then b\<lparr>db_best_bid := level\<rparr> else b)
      else (if db_best_ask b = kInvalid \<or> level < db_best_ask b then b\<lparr>db_best_ask := level\<rparr> else b))"

definition clear_occupied :: "Side \<Rightarrow> nat \<Rightarrow> DensePriceOrderBook \<Rightarrow> DensePriceOrderBook" where
  "clear_occupied side level b =
     (let bits = bitmap b side;
          w = drop_bit 6 level;
          b = put_bitmap side (bits[w := (bits ! w) AND NOT (push_bit (level AND 63) 1)]) b;
          b = (if side = Buy \<and> db_best_bid b = level
               then b\<lparr>db_best_bid := find_best b (db_bid_bitmap b) True\<rparr> else b) in
      if side = Sell \<and> db_best_ask b = level
      then b\<lparr>db_best_ask := find_best b (db_ask_bitmap b) False\<rparr> else b)"

section \<open>Nodes and levels\<close>

definition allocate :: "DensePriceOrderBook \<Rightarrow> DensePriceOrderBook \<times> nat" where
  "allocate b =
     (if db_free b = kInvalid then (b, kInvalid)
      else
        let index = db_free b;
            b = b\<lparr>db_free := nd_free_next (node b index)\<rparr>;
            b = upd_node index (\<lambda>_. Node_default) b in
        (b\<lparr>db_active := db_active b + 1\<rparr>, index))"

definition release_without_index :: "nat \<Rightarrow> DensePriceOrderBook \<Rightarrow> DensePriceOrderBook" where
  "release_without_index index b =
     (let b = upd_node index (\<lambda>n. n\<lparr>nd_free_next := db_free b\<rparr>) b in
      b\<lparr>db_free := index, db_active := db_active b - 1\<rparr>)"

definition release :: "nat \<Rightarrow> DensePriceOrderBook \<Rightarrow> DensePriceOrderBook" where
  "release index b =
     release_without_index index (b\<lparr>db_index := fst (ix_erase (db_index b) (nd_id (node b index)))\<rparr>)"

definition append_order :: "nat \<Rightarrow> nat \<Rightarrow> DensePriceOrderBook \<Rightarrow> DensePriceOrderBook" where
  "append_order index level_index b =
     (let side = nd_side (node b index);
          level = level_at b side level_index;
          b = upd_node index (\<lambda>n. n\<lparr>nd_previous := lv_tail level\<rparr>) b;
          (b, level) = (if lv_tail level \<noteq> kInvalid
            then (upd_node (lv_tail level) (\<lambda>n. n\<lparr>nd_next := index\<rparr>) b, level)
            else (b, level\<lparr>lv_head := index\<rparr>));
          level = level\<lparr>lv_tail := index\<rparr>;
          level = level\<lparr>lv_total := lv_total level + nd_remaining (node b index)\<rparr>
      in set_occupied side level_index (put_level side level_index level b))"

definition unlink :: "nat \<Rightarrow> DensePriceOrderBook \<Rightarrow> DensePriceOrderBook" where
  "unlink index b =
     (let order = node b index;
          side = nd_side order; level_index = nd_level order;
          level = level_at b side level_index;
          (b, level) = (if nd_previous order \<noteq> kInvalid
            then (upd_node (nd_previous order) (\<lambda>n. n\<lparr>nd_next := nd_next order\<rparr>) b, level)
            else (b, level\<lparr>lv_head := nd_next order\<rparr>));
          (b, level) = (if nd_next order \<noteq> kInvalid
            then (upd_node (nd_next order) (\<lambda>n. n\<lparr>nd_previous := nd_previous order\<rparr>) b, level)
            else (b, level\<lparr>lv_tail := nd_previous order\<rparr>));
          level = level\<lparr>lv_total := lv_total level - nd_remaining order\<rparr>;
          b = upd_node index (\<lambda>n. n\<lparr>nd_previous := kInvalid, nd_next := kInvalid\<rparr>)
                (put_level side level_index level b)
      in if lv_head level = kInvalid then clear_occupied side level_index b else b)"

definition unlink_filled :: "nat \<Rightarrow> nat \<Rightarrow> DensePriceOrderBook \<Rightarrow> DensePriceOrderBook" where
  "unlink_filled index level_index b =
     (let order = node b index;
          side = nd_side order;
          level = (level_at b side level_index)\<lparr>lv_head := nd_next order\<rparr>;
          (b, level) = (if nd_next order \<noteq> kInvalid
            then (upd_node (nd_next order) (\<lambda>n. n\<lparr>nd_previous := kInvalid\<rparr>) b, level)
            else (b, level\<lparr>lv_tail := kInvalid\<rparr>));
          b = upd_node index (\<lambda>n. n\<lparr>nd_previous := kInvalid, nd_next := kInvalid\<rparr>)
                (put_level side level_index level b)
      in if lv_head level = kInvalid then clear_occupied side level_index b else b)"

section \<open>Feed operations\<close>

definition fill_node :: "u64 \<Rightarrow> Side \<Rightarrow> int \<Rightarrow> u64 \<Rightarrow> nat \<Rightarrow> Node \<Rightarrow> Node" where
  "fill_node oid side price quantity level n =
     n\<lparr>nd_id := oid, nd_side := side, nd_price := price, nd_remaining := quantity, nd_state := New,
       nd_level := level\<rparr>"

definition feed_add :: "DensePriceOrderBook \<Rightarrow> u64 \<Rightarrow> Side \<Rightarrow> int \<Rightarrow> u64 \<Rightarrow> DensePriceOrderBook \<times> bool" where
  "feed_add b oid side price quantity =
     (if oid = 0 \<or> oid = UINT64_MAX \<or> quantity = 0 \<or> ix_find (db_index b) oid \<noteq> kInvalid then (b, False)
      else case price_index b price of
        None \<Rightarrow> (b, False)
      | Some level \<Rightarrow>
          (case allocate b of (b, index) \<Rightarrow>
             if index = kInvalid then (b, False)
             else case ix_insert (db_index b) oid index of (ix, inserted) \<Rightarrow>
               let b = b\<lparr>db_index := ix\<rparr> in
               if \<not> inserted then (release_without_index index b, False)
               else (append_order index level (upd_node index (fill_node oid side price quantity level) b), True)))"

definition feed_reduce :: "DensePriceOrderBook \<Rightarrow> u64 \<Rightarrow> u64 \<Rightarrow> DensePriceOrderBook \<times> bool" where
  "feed_reduce b oid quantity =
     (let index = ix_find (db_index b) oid in
      if index = kInvalid \<or> quantity = 0 \<or> quantity > nd_remaining (node b index) then (b, False)
      else
        let order = node b index; side = nd_side order; l = nd_level order;
            level = level_at b side l;
            b = upd_node index (\<lambda>n. n\<lparr>nd_remaining := nd_remaining n - quantity\<rparr>) b;
            b = put_level side l (level\<lparr>lv_total := lv_total level - quantity\<rparr>) b in
        if nd_remaining (node b index) = 0 then (release index (unlink index b), True) else (b, True))"

definition feed_delete :: "DensePriceOrderBook \<Rightarrow> u64 \<Rightarrow> DensePriceOrderBook \<times> bool" where
  "feed_delete b oid =
     (let index = ix_find (db_index b) oid in
      if index = kInvalid then (b, False) else (release index (unlink index b), True))"

definition feed_replace ::
  "DensePriceOrderBook \<Rightarrow> u64 \<Rightarrow> u64 \<Rightarrow> int \<Rightarrow> u64 \<Rightarrow> DensePriceOrderBook \<times> bool" where
  "feed_replace b old_id new_id price quantity =
     (let index = ix_find (db_index b) old_id in
      if index = kInvalid \<or> new_id = 0 \<or> new_id = UINT64_MAX \<or> quantity = 0 \<or>
         ix_find (db_index b) new_id \<noteq> kInvalid then (b, False)
      else case price_index b price of
        None \<Rightarrow> (b, False)
      | Some level \<Rightarrow>
          (case ix_insert (db_index b) new_id index of (ix, inserted) \<Rightarrow>
             let b = b\<lparr>db_index := ix\<rparr> in
             if \<not> inserted then (b, False)
             else
               let b = unlink index b;
                   b = b\<lparr>db_index := fst (ix_erase (db_index b) old_id)\<rparr>;
                   b = upd_node index (\<lambda>n. n\<lparr>nd_id := new_id, nd_price := price, nd_remaining := quantity,
                         nd_state := New, nd_level := level\<rparr>) b
               in (append_order index level b, True)))"

section \<open>Queries\<close>

definition active_orders :: "DensePriceOrderBook \<Rightarrow> nat" where
  "active_orders b = db_active b"

definition best_bid :: "DensePriceOrderBook \<Rightarrow> int" where
  "best_bid b = (if db_best_bid b = kInvalid then 0 else level_price b (db_best_bid b))"

definition best_ask :: "DensePriceOrderBook \<Rightarrow> int" where
  "best_ask b = (if db_best_ask b = kInvalid then 0 else level_price b (db_best_ask b))"

definition contains :: "DensePriceOrderBook \<Rightarrow> u64 \<Rightarrow> bool" where
  "contains b oid \<longleftrightarrow> ix_find (db_index b) oid \<noteq> kInvalid"

definition remaining :: "DensePriceOrderBook \<Rightarrow> u64 \<Rightarrow> u64" where
  "remaining b oid =
     (let index = ix_find (db_index b) oid in
      if index = kInvalid then 0 else nd_remaining (node b index))"

definition level_quantity :: "DensePriceOrderBook \<Rightarrow> Side \<Rightarrow> int \<Rightarrow> u64" where
  "level_quantity b side price =
     (case price_index b price of None \<Rightarrow> 0 | Some level \<Rightarrow> lv_total (level_at b side level))"

partial_function (option) visit_from :: "Node list \<Rightarrow> nat \<Rightarrow> (u64 \<times> u64) list option" where
  "visit_from nodes i =
     (if i = kInvalid then Some []
      else Option.bind (visit_from nodes (nd_next (nodes ! i)))
             (\<lambda>rest. Some ((nd_id (nodes ! i), nd_remaining (nodes ! i)) # rest)))"

definition visit_level :: "DensePriceOrderBook \<Rightarrow> Side \<Rightarrow> int \<Rightarrow> (u64 \<times> u64) list option" where
  "visit_level b side price =
     (case price_index b price of None \<Rightarrow> Some []
      | Some level \<Rightarrow> visit_from (db_nodes b) (lv_head (level_at b side level)))"

section \<open>Matching\<close>

definition opposite :: "Side \<Rightarrow> Side" where
  "opposite side = (if side = Buy then Sell else Buy)"

text \<open>The body of the inner loop: one trade between the taker and the head of the level.\<close>

definition trade_step :: "nat \<Rightarrow> nat \<Rightarrow> int \<Rightarrow> DensePriceOrderBook \<Rightarrow> DensePriceOrderBook \<times> sink_event list" where
  "trade_step taker_index level_index price b =
     (let taker = node b taker_index;
          side = opposite (nd_side taker);
          level = level_at b side level_index;
          maker_index = lv_head level;
          maker = node b maker_index;
          quantity = (if nd_remaining taker < nd_remaining maker then nd_remaining taker else nd_remaining maker);
          b = upd_node taker_index (\<lambda>n. n\<lparr>nd_remaining := nd_remaining n - quantity\<rparr>) b;
          b = upd_node maker_index (\<lambda>n. n\<lparr>nd_remaining := nd_remaining n - quantity\<rparr>) b;
          b = put_level side level_index (level\<lparr>lv_total := lv_total level - quantity\<rparr>) b;
          trade = On_trade (nd_id maker) (nd_id taker) price quantity in
      if nd_remaining (node b maker_index) = 0 then
        let b = upd_node maker_index (\<lambda>n. n\<lparr>nd_state := Filled\<rparr>) b in
        (release maker_index (unlink_filled maker_index level_index b),
         [trade, On_order (nd_id maker) Filled 0])
      else
        let b = upd_node maker_index (\<lambda>n. n\<lparr>nd_state := PartiallyFilled\<rparr>) b in
        (b, [trade, On_order (nd_id maker) PartiallyFilled (nd_remaining (node b maker_index))]))"

partial_function (option) match_level :: "nat \<Rightarrow> nat \<Rightarrow> int \<Rightarrow> DensePriceOrderBook \<Rightarrow>
    (DensePriceOrderBook \<times> sink_event list) option" where
  "match_level taker_index level_index price b =
     (if nd_remaining (node b taker_index) \<noteq> 0 \<and>
         lv_head (level_at b (opposite (nd_side (node b taker_index))) level_index) \<noteq> kInvalid
      then case trade_step taker_index level_index price b of
             (b, ev) \<Rightarrow> Option.bind (match_level taker_index level_index price b) (\<lambda>(b, ev'). Some (b, ev @ ev'))
      else Some (b, []))"

partial_function (option) match_orders :: "nat \<Rightarrow> OrderType \<Rightarrow> DensePriceOrderBook \<Rightarrow>
    (DensePriceOrderBook \<times> sink_event list) option" where
  "match_orders taker_index type b =
     (let taker = node b taker_index in
      if nd_remaining taker = 0 then Some (b, [])
      else
        let level_index = (if nd_side taker = Buy then db_best_ask b else db_best_bid b) in
        if level_index = kInvalid then Some (b, [])
        else
          let price = level_price b level_index in
          if type = Limit \<and> (if nd_side taker = Buy then nd_price taker < price else nd_price taker > price)
          then Some (b, [])
          else Option.bind (match_level taker_index level_index price b) (\<lambda>(b, ev).
            Option.bind (match_orders taker_index type b) (\<lambda>(b, ev'). Some (b, ev @ ev'))))"

definition upd_state :: "nat \<Rightarrow> OrderState \<Rightarrow> DensePriceOrderBook \<Rightarrow> DensePriceOrderBook" where
  "upd_state index st = upd_node index (\<lambda>n. n\<lparr>nd_state := st\<rparr>)"

text \<open>What \<open>submit\<close> and \<open>modify\<close> do after matching.\<close>

definition settle :: "nat \<Rightarrow> nat \<Rightarrow> OrderType \<Rightarrow> u64 \<Rightarrow> DensePriceOrderBook \<Rightarrow>
    DensePriceOrderBook \<times> sink_event list" where
  "settle index level type quantity b =
     (let order = node b index in
      if nd_remaining order = 0 then
        (release index (upd_state index Filled b), [On_order (nd_id order) Filled 0])
      else if type = Market then
        (release index (upd_state index Canceled b), [On_order (nd_id order) Canceled (nd_remaining order)])
      else
        let st = (if nd_remaining order = quantity then New else PartiallyFilled);
            b = append_order index level (upd_state index st b) in
        (b, [On_order (nd_id order) st (nd_remaining order)]))"

definition submit :: "DensePriceOrderBook \<Rightarrow> OrderRequest \<Rightarrow>
    (DensePriceOrderBook \<times> bool \<times> sink_event list) option" where
  "submit b rq =
     (let rejected = [On_order (rq_id rq) Rejected (rq_quantity rq)] in
      if rq_id rq = 0 \<or> rq_id rq = UINT64_MAX \<or> rq_quantity rq = 0 \<or>
         ix_find (db_index b) (rq_id rq) \<noteq> kInvalid \<or>
         (rq_type rq = Limit \<and> price_index b (rq_price rq) = None)
      then Some (b, False, rejected)
      else
        let level = (if rq_type rq = Limit then the (price_index b (rq_price rq)) else kInvalid) in
        (case allocate b of (b, index) \<Rightarrow>
           if index = kInvalid then Some (b, False, rejected)
           else case ix_insert (db_index b) (rq_id rq) index of (ix, inserted) \<Rightarrow>
             let b = b\<lparr>db_index := ix\<rparr> in
             if \<not> inserted then Some (release_without_index index b, False, rejected)
             else
               let b = upd_node index (fill_node (rq_id rq) (rq_side rq) (rq_price rq) (rq_quantity rq) level) b in
               map_option (\<lambda>(b, ev). case settle index level (rq_type rq) (rq_quantity rq) b of
                   (b, ev') \<Rightarrow> (b, True, ev @ ev'))
                 (match_orders index (rq_type rq) b)))"

definition cancel :: "DensePriceOrderBook \<Rightarrow> u64 \<Rightarrow> DensePriceOrderBook \<times> bool \<times> sink_event list" where
  "cancel b oid =
     (let index = ix_find (db_index b) oid in
      if index = kInvalid then (b, False, [])
      else
        let b = upd_state index Canceled (unlink index b) in
        (release index b, True, [On_order oid Canceled (nd_remaining (node b index))]))"

definition modify :: "DensePriceOrderBook \<Rightarrow> u64 \<Rightarrow> int \<Rightarrow> u64 \<Rightarrow>
    (DensePriceOrderBook \<times> bool \<times> sink_event list) option" where
  "modify b oid price quantity =
     (let index = ix_find (db_index b) oid in
      if index = kInvalid \<or> quantity = 0 then Some (b, False, [])
      else case price_index b price of
        None \<Rightarrow> Some (b, False, [])
      | Some level \<Rightarrow>
          let b = upd_node index (\<lambda>n. n\<lparr>nd_price := price, nd_remaining := quantity, nd_state := New,
                    nd_level := level\<rparr>) (unlink index b) in
          map_option (\<lambda>(b, ev). case settle index level Limit quantity b of (b, ev') \<Rightarrow> (b, True, ev @ ev'))
            (match_orders index Limit b))"

declare visit_from.simps [code] match_level.simps [code] match_orders.simps [code]

end
