(* ===== verification/DenseBookInv.thy ===== *)
theory DenseBookInv
  imports DenseBook
begin

text \<open>
  The representation invariant of the dense order book and its preservation by the private
  operations: the bitmaps and best levels (\<open>bits_ok\<close>), the linked FIFOs (\<open>links_ok\<close>), the node
  allocator (\<open>alloc_ok\<close>) and the order index (\<open>index_ok\<close>). The invariant is stated over ghost
  state: \<open>Q side level\<close> is the FIFO of node numbers of a price level, \<open>F\<close> the free list, and \<open>L\<close>
  the nodes that are allocated and indexed but in no FIFO (an order between unlinking and
  appending).
\<close>

section \<open>Bitmaps\<close>

definition bm_bit :: "u64 list \<Rightarrow> nat \<Rightarrow> bool" where
  "bm_bit bm l \<longleftrightarrow> l div 64 < length bm \<and> bit (bm ! (l div 64)) (l mod 64)"

definition top_level :: "(nat \<Rightarrow> bool) \<Rightarrow> nat \<Rightarrow> bool" where
  "top_level occ x \<longleftrightarrow> (if \<exists>l. occ l then occ x \<and> (\<forall>l. occ l \<longrightarrow> l \<le> x) else x = kInvalid)"

definition low_level :: "(nat \<Rightarrow> bool) \<Rightarrow> nat \<Rightarrow> bool" where
  "low_level occ x \<longleftrightarrow> (if \<exists>l. occ l then occ x \<and> (\<forall>l. occ l \<longrightarrow> x \<le> l) else x = kInvalid)"

lemma top_levelI: "occ x \<Longrightarrow> (\<And>l. occ l \<Longrightarrow> l \<le> x) \<Longrightarrow> top_level occ x"
  by (auto simp: top_level_def)

lemma low_levelI: "occ x \<Longrightarrow> (\<And>l. occ l \<Longrightarrow> x \<le> l) \<Longrightarrow> low_level occ x"
  by (auto simp: low_level_def)

lemma word_bits_nonempty: "(w :: u64) \<noteq> 0 \<Longrightarrow> filter (bit w) [0..<64] \<noteq> []"
proof -
  assume "w \<noteq> 0"
  then obtain j where "bit w j" by (auto simp: bit_eq_iff)
  moreover then have "j < 64" using bit_imp_le_length [of w j] by simp
  ultimately show ?thesis by (auto simp: filter_empty_conv)
qed

lemma lowest_bit:
  assumes "bits \<noteq> 0"
  shows "bit bits (lowest_bit bits)" "lowest_bit bits < 64" "bit bits j \<Longrightarrow> lowest_bit bits \<le> j"
proof -
  let ?f = "filter (bit bits) [0..<64]"
  have ne: "?f \<noteq> []" using assms by (rule word_bits_nonempty)
  then have "hd ?f \<in> set ?f" by (rule hd_in_set)
  then show "bit bits (lowest_bit bits)" "lowest_bit bits < 64" by (auto simp: lowest_bit_def)
  assume j: "bit bits j"
  then have "j \<in> set ?f" using bit_imp_le_length [of bits j] by auto
  moreover have "sorted ?f" by (simp add: sorted_wrt_filter)
  ultimately show "lowest_bit bits \<le> j" using ne unfolding lowest_bit_def by (cases ?f) auto
qed

lemma highest_bit:
  assumes "bits \<noteq> 0"
  shows "bit bits (highest_bit bits)" "highest_bit bits < 64" "bit bits j \<Longrightarrow> j \<le> highest_bit bits"
proof -
  let ?f = "filter (bit bits) [0..<64]"
  have ne: "?f \<noteq> []" using assms by (rule word_bits_nonempty)
  then have "last ?f \<in> set ?f" by (rule last_in_set)
  then show "bit bits (highest_bit bits)" "highest_bit bits < 64" by (auto simp: highest_bit_def)
  assume j: "bit bits j"
  then have "j \<in> set ?f" using bit_imp_le_length [of bits j] by auto
  moreover have "sorted ?f" by (simp add: sorted_wrt_filter)
  moreover obtain bl x where "?f = bl @ [x]" using ne by (cases ?f rule: rev_cases) auto
  ultimately show "j \<le> highest_bit bits" unfolding highest_bit_def by (auto simp: sorted_append)
qed

lemma bm_bit_word:
  "l < 64 \<Longrightarrow> w < length bm \<Longrightarrow> bm_bit bm (w * 64 + l) \<longleftrightarrow> bit (bm ! w) l"
  by (simp add: bm_bit_def)

lemma scan_down_top:
  assumes "n \<le> length bm"
  shows "top_level (\<lambda>l. l < n * 64 \<and> bm_bit bm l) (scan_down bm n)"
  using assms
proof (induction n)
  case (Suc n)
  show ?case
  proof (cases "bm ! n = 0")
    case True
    have "(l < Suc n * 64 \<and> bm_bit bm l) = (l < n * 64 \<and> bm_bit bm l)" for l
    proof (cases "l < n * 64")
      case False
      then have "l < Suc n * 64 \<Longrightarrow> l div 64 = n" by auto
      then show ?thesis using True False by (auto simp: bm_bit_def)
    qed auto
    then show ?thesis using Suc True by simp
  next
    case False
    note h = highest_bit [OF False]
    have here: "bm_bit bm (n * 64 + highest_bit (bm ! n))" using h Suc.prems by (simp add: bm_bit_word)
    have "l \<le> n * 64 + highest_bit (bm ! n)" if "l < Suc n * 64" "bm_bit bm l" for l
    proof (cases "l < n * 64")
      case False
      then have "l div 64 = n" using that by auto
      then have "bit (bm ! n) (l mod 64)" using that by (simp add: bm_bit_def)
      from h(3) [OF this] show ?thesis using \<open>l div 64 = n\<close> div_mult_mod_eq [of l 64] by linarith
    qed simp
    then show ?thesis using here h(2) False by (auto intro!: top_levelI)
  qed
qed (simp add: top_level_def)

lemma scan_up_low:
  "low_level (\<lambda>l. w * 64 \<le> l \<and> l - w * 64 < length bm * 64 \<and> bm_bit bm (l - w * 64)) (scan_up bm w)"
proof (induction bm arbitrary: w)
  case (Cons x bm)
  have shift: "bm_bit (x # bm) (l - w * 64) \<longleftrightarrow> bm_bit bm (l - Suc w * 64)" if "Suc w * 64 \<le> l" for l
  proof -
    have "bm_bit (x # bm) (k + 64) \<longleftrightarrow> bm_bit bm k" for k
    proof -
      have "(k + 64) div 64 = Suc (k div 64)" by simp
      then show ?thesis by (simp add: bm_bit_def)
    qed
    moreover have "l - w * 64 = (l - Suc w * 64) + 64" using that by simp
    ultimately show ?thesis by (simp only:)
  qed
  show ?case
  proof (cases "x = 0")
    case True
    have "(\<lambda>l. w * 64 \<le> l \<and> l - w * 64 < length (x # bm) * 64 \<and> bm_bit (x # bm) (l - w * 64)) =
      (\<lambda>l. Suc w * 64 \<le> l \<and> l - Suc w * 64 < length bm * 64 \<and> bm_bit bm (l - Suc w * 64))"
    proof
      fix l
      show "(w * 64 \<le> l \<and> l - w * 64 < length (x # bm) * 64 \<and> bm_bit (x # bm) (l - w * 64)) =
        (Suc w * 64 \<le> l \<and> l - Suc w * 64 < length bm * 64 \<and> bm_bit bm (l - Suc w * 64))"
      proof (cases "Suc w * 64 \<le> l")
      case False
        have "\<not> bm_bit (x # bm) (l - w * 64)" if "w * 64 \<le> l"
        proof -
          have "l - w * 64 < 64" using False that by simp
          then have "(l - w * 64) div 64 = 0" by simp
          then show ?thesis using True by (simp add: bm_bit_def)
        qed
        then show ?thesis using False by auto
      qed (use shift in auto)
    qed
    then show ?thesis using Cons [of "Suc w"] True by (simp only: scan_up.simps) simp
  next
    case False
    note h = lowest_bit [OF False]
    have here: "bm_bit (x # bm) (lowest_bit x)" using h by (simp add: bm_bit_def)
    have "w * 64 + lowest_bit x \<le> l" if "w * 64 \<le> l" "bm_bit (x # bm) (l - w * 64)" for l
    proof (cases "Suc w * 64 \<le> l")
      case False
      then have "(l - w * 64) div 64 = 0" using that by auto
      then have "bit x (l - w * 64)" using that False by (auto simp: bm_bit_def)
      from h(3) [OF this] show ?thesis using that by simp
    qed (use h(2) in simp)
    then show ?thesis using here h(2) False by (auto intro!: low_levelI)
  qed
qed (simp add: low_level_def)

lemma bm_bit_range: "bm_bit bm l \<Longrightarrow> l < length bm * 64"
  by (auto simp: bm_bit_def div_less_iff_less_mult)

lemma find_best_top:
  assumes "length bm = bitmap_words (db_level_count b)"
  shows "top_level (bm_bit bm) (find_best b bm True)"
  using scan_down_top [of "bitmap_words (db_level_count b)" bm] assms bm_bit_range [of bm]
  by (simp add: find_best_def cong: conj_cong) (metis (mono_tags, lifting) top_level_def)

lemma find_best_low:
  assumes "length bm = bitmap_words (db_level_count b)"
  shows "low_level (bm_bit bm) (find_best b bm False)"
  using scan_up_low [of 0 bm] assms bm_bit_range [of bm]
  by (simp add: find_best_def cong: conj_cong) (metis (mono_tags, lifting) low_level_def)

lemma level_word: "drop_bit 6 (l::nat) = l div 64" "(l::nat) AND 63 = l mod 64"
  using and_mask_mod [of l 6] by (simp_all add: drop_bit_eq_div)

lemma bit_set: "k < 64 \<Longrightarrow> bit ((w::u64) OR 2 ^ k) j \<longleftrightarrow> bit w j \<or> j = k"
  by (auto simp: bit_or_iff bit_exp_iff)

lemma bit_clear: "k < 64 \<Longrightarrow> bit ((w::u64) AND NOT (2 ^ k)) j \<longleftrightarrow> bit w j \<and> j \<noteq> k"
  by (auto simp: bit_and_iff bit_not_iff bit_exp_iff dest: bit_imp_le_length)

lemma level_eq_iff: "(j::nat) = l \<longleftrightarrow> l div 64 = j div 64 \<and> j mod 64 = l mod 64"
  by (metis div_mult_mod_eq)

lemma bm_bit_set:
  assumes "l div 64 < length bm"
  shows "bm_bit (bm[drop_bit 6 l := (bm ! drop_bit 6 l) OR push_bit (l AND 63) 1]) j \<longleftrightarrow> bm_bit bm j \<or> j = l"
  using assms unfolding level_eq_iff [of j l]
  by (auto simp: bm_bit_def level_word nth_list_update bit_set)

lemma bm_bit_clear:
  assumes "l div 64 < length bm"
  shows "bm_bit (bm[drop_bit 6 l := (bm ! drop_bit 6 l) AND NOT (push_bit (l AND 63) 1)]) j \<longleftrightarrow>
    bm_bit bm j \<and> j \<noteq> l"
  using assms unfolding level_eq_iff [of j l]
  by (auto simp: bm_bit_def level_word nth_list_update bit_clear)

section \<open>Doubly linked segments\<close>

text \<open>The nodes of \<open>q\<close> form a segment after \<open>p\<close> and before \<open>n\<close>.\<close>

fun seg :: "Node list \<Rightarrow> nat \<Rightarrow> nat \<Rightarrow> nat list \<Rightarrow> bool" where
  "seg ns p n [] \<longleftrightarrow> True"
| "seg ns p n (x # xs) \<longleftrightarrow> nd_previous (ns ! x) = p \<and> nd_next (ns ! x) = (if xs = [] then n else hd xs) \<and> seg ns x n xs"

lemma seg_cong:
  "(\<And>x. x \<in> set q \<Longrightarrow> nd_previous (ns' ! x) = nd_previous (ns ! x) \<and> nd_next (ns' ! x) = nd_next (ns ! x)) \<Longrightarrow>
   seg ns' p n q = seg ns p n q"
  by (induction q arbitrary: p) auto

lemma seg_frame [simp]: "x \<notin> set q \<Longrightarrow> seg (ns[x := v]) p n q = seg ns p n q"
  by (rule seg_cong) (metis nth_list_update_neq)

lemma seg_append:
  "seg ns p n (xs @ ys) \<longleftrightarrow> seg ns p (if ys = [] then n else hd ys) xs \<and> seg ns (if xs = [] then p else last xs) n ys"
  by (induction xs arbitrary: p) auto

lemma seg_relink_last:
  assumes "seg ns p n q" "distinct q" "q \<noteq> []" "last q < length ns"
  shows "seg (ns[last q := (ns ! last q)\<lparr>nd_next := n'\<rparr>]) p n' q"
proof -
  obtain xs x where q: "q = xs @ [x]" using assms(3) by (cases q rule: rev_cases) auto
  then show ?thesis using assms by (simp add: seg_append)
qed

lemma seg_relink_first:
  assumes "seg ns p n q" "distinct q" "q \<noteq> []" "hd q < length ns"
  shows "seg (ns[hd q := (ns ! hd q)\<lparr>nd_previous := p'\<rparr>]) p' n q"
  using assms by (cases q) auto

lemma seg_unlink:
  assumes "seg ns kInvalid kInvalid (xs @ i # ys)" "distinct (xs @ i # ys)" "\<forall>x\<in>set (xs @ i # ys). x < length ns"
  defines "ns1 \<equiv> if xs = [] then ns else ns[last xs := (ns ! last xs)\<lparr>nd_next := nd_next (ns ! i)\<rparr>]"
  defines "ns2 \<equiv> if ys = [] then ns1 else ns1[hd ys := (ns1 ! hd ys)\<lparr>nd_previous := nd_previous (ns ! i)\<rparr>]"
  shows "nd_previous (ns ! i) = (if xs = [] then kInvalid else last xs)"
    and "nd_next (ns ! i) = (if ys = [] then kInvalid else hd ys)"
    and "seg (ns2[i := v]) kInvalid kInvalid (xs @ ys)"
proof -
  have parts: "seg ns kInvalid i xs" "seg ns i kInvalid ys"
    and prev: "nd_previous (ns ! i) = (if xs = [] then kInvalid else last xs)"
    and next_i: "nd_next (ns ! i) = (if ys = [] then kInvalid else hd ys)"
    using assms(1) by (auto simp: seg_append)
  show "nd_previous (ns ! i) = (if xs = [] then kInvalid else last xs)"
    "nd_next (ns ! i) = (if ys = [] then kInvalid else hd ys)" by (fact prev next_i)+
  have dist: "distinct xs" "distinct ys" "set xs \<inter> set ys = {}" "i \<notin> set xs" "i \<notin> set ys" using assms(2) by auto
  have lens: "length ns1 = length ns" by (simp add: ns1_def)
  have off1: "xs \<noteq> [] \<Longrightarrow> last xs \<notin> set ys" "ys \<noteq> [] \<Longrightarrow> hd ys \<notin> set xs"
    using dist(3) last_in_set hd_in_set by blast+
  have "seg ns1 kInvalid (nd_next (ns ! i)) xs"
    using seg_relink_last [OF parts(1) dist(1)] assms(3) by (cases "xs = []") (auto simp: ns1_def)
  then have s1: "seg ns2 kInvalid (nd_next (ns ! i)) xs" using off1(2) by (simp add: ns2_def)
  have "seg ns1 i kInvalid ys" using parts(2) off1(1) by (simp add: ns1_def)
  then have "seg ns2 (nd_previous (ns ! i)) kInvalid ys"
    using seg_relink_first [of ns1 i kInvalid ys] dist(2) assms(3) lens by (cases "ys = []") (auto simp: ns2_def)
  with s1 have "seg ns2 kInvalid kInvalid (xs @ ys)" by (simp add: seg_append prev next_i)
  then show "seg (ns2[i := v]) kInvalid kInvalid (xs @ ys)" using dist(4,5) by simp
qed

lemma seg_snoc:
  assumes "seg ns kInvalid kInvalid q" "distinct q" "\<forall>x\<in>set q. x < length ns" "i \<notin> set q" "i < length ns"
    "nd_next (ns ! i) = kInvalid"
  defines "ns1 \<equiv> ns[i := (ns ! i)\<lparr>nd_previous := (if q = [] then kInvalid else last q)\<rparr>]"
  shows "seg (if q = [] then ns1 else ns1[last q := (ns1 ! last q)\<lparr>nd_next := i\<rparr>]) kInvalid kInvalid (q @ [i])"
proof (cases "q = []")
  case False
  then have l: "last q \<in> set q" by simp
  then have "last q \<noteq> i" using assms(4) by auto
  moreover have "seg ns1 kInvalid kInvalid q" using assms(1,4) by (simp add: ns1_def)
  then have "seg (ns1[last q := (ns1 ! last q)\<lparr>nd_next := i\<rparr>]) kInvalid i q"
    using False assms(2,3) l by (intro seg_relink_last) (auto simp: ns1_def)
  ultimately show ?thesis using False assms(5,6) by (simp add: seg_append ns1_def)
qed (use assms(5,6) in \<open>simp add: ns1_def\<close>)

section \<open>The invariant\<close>

type_synonym queues = "Side \<Rightarrow> nat \<Rightarrow> nat list"

abbreviation updq :: "queues \<Rightarrow> Side \<Rightarrow> nat \<Rightarrow> nat list \<Rightarrow> queues" where
  "updq Q s l q \<equiv> Q(s := (Q s)(l := q))"

definition queued :: "queues \<Rightarrow> nat set" where
  "queued Q = {i. \<exists>s l. i \<in> set (Q s l)}"

definition shape_ok :: "DensePriceOrderBook \<Rightarrow> bool" where
  "shape_ok b \<longleftrightarrow> length (db_nodes b) = db_order_capacity b \<and> db_order_capacity b < kInvalid \<and>
     length (db_bids b) = db_level_count b \<and> length (db_asks b) = db_level_count b \<and>
     db_level_count b + 63 < 2 ^ 32 \<and> 0 < db_tick_size b \<and>
     (\<forall>s. length (bitmap b s) = bitmap_words (db_level_count b))"

definition level_ok :: "DensePriceOrderBook \<Rightarrow> Side \<Rightarrow> nat \<Rightarrow> nat list \<Rightarrow> bool" where
  "level_ok b s l q \<longleftrightarrow> distinct q \<and>
     (\<forall>i\<in>set q. i < length (db_nodes b) \<and> nd_side (node b i) = s \<and> nd_level (node b i) = l \<and>
        nd_price (node b i) = level_price b l) \<and>
     lv_head (level_at b s l) = (if q = [] then kInvalid else hd q) \<and>
     lv_tail (level_at b s l) = (if q = [] then kInvalid else last q) \<and>
     seg (db_nodes b) kInvalid kInvalid q \<and>
     lv_total (level_at b s l) = sum_list (map (\<lambda>i. nd_remaining (node b i)) q)"

definition links_ok :: "queues \<Rightarrow> DensePriceOrderBook \<Rightarrow> bool" where
  "links_ok Q b \<longleftrightarrow> (\<forall>s l. if l < db_level_count b then level_ok b s l (Q s l) else Q s l = [])"

definition bits_ok :: "queues \<Rightarrow> DensePriceOrderBook \<Rightarrow> bool" where
  "bits_ok Q b \<longleftrightarrow> (\<forall>s l. bm_bit (bitmap b s) l \<longleftrightarrow> Q s l \<noteq> []) \<and>
     top_level (\<lambda>l. Q Buy l \<noteq> []) (db_best_bid b) \<and> low_level (\<lambda>l. Q Sell l \<noteq> []) (db_best_ask b)"

fun free_chain :: "Node list \<Rightarrow> nat \<Rightarrow> nat list \<Rightarrow> bool" where
  "free_chain ns f [] \<longleftrightarrow> f = kInvalid"
| "free_chain ns f (x # xs) \<longleftrightarrow> f = x \<and> free_chain ns (nd_free_next (ns ! x)) xs"

definition alloc_ok :: "nat list \<Rightarrow> nat set \<Rightarrow> DensePriceOrderBook \<Rightarrow> bool" where
  "alloc_ok F V b \<longleftrightarrow> free_chain (db_nodes b) (db_free b) F \<and> distinct F \<and> set F \<inter> V = {} \<and>
     set F \<union> V = {..<db_order_capacity b} \<and> db_active b = card V"

definition index_ok :: "nat set \<Rightarrow> DensePriceOrderBook \<Rightarrow> bool" where
  "index_ok V b \<longleftrightarrow> ix_wf (db_index b) \<and> db_order_capacity b * 4 \<le> ix_capacity (db_index b) \<and>
     8 \<le> ix_capacity (db_index b) \<and>
     (\<forall>k i. ix_map (db_index b) k = Some i \<longleftrightarrow> i \<in> V \<and> nd_id (node b i) = k) \<and>
     (\<forall>i\<in>V. nd_id (node b i) \<noteq> 0 \<and> nd_id (node b i) \<noteq> UINT64_MAX)"

definition db_inv :: "queues \<Rightarrow> nat list \<Rightarrow> nat set \<Rightarrow> DensePriceOrderBook \<Rightarrow> bool" where
  "db_inv Q F L b \<longleftrightarrow> shape_ok b \<and> links_ok Q b \<and> bits_ok Q b \<and> alloc_ok F (queued Q \<union> L) b \<and>
     index_ok (queued Q \<union> L) b \<and> queued Q \<inter> L = {} \<and> (\<forall>i\<in>L. nd_next (node b i) = kInvalid)"

lemma db_invD:
  assumes "db_inv Q F L b"
  shows "shape_ok b" "links_ok Q b" "bits_ok Q b" "alloc_ok F (queued Q \<union> L) b"
    "index_ok (queued Q \<union> L) b" "queued Q \<inter> L = {}" "i \<in> L \<Longrightarrow> nd_next (node b i) = kInvalid"
  using assms by (auto simp: db_inv_def)

section \<open>Field updates\<close>

named_theorems book "What the field updates of the order book change."

lemma put_level_sel [book, simp]:
  "db_nodes (put_level s l v b) = db_nodes b" "db_index (put_level s l v b) = db_index b"
  "db_order_capacity (put_level s l v b) = db_order_capacity b" "db_minimum_price (put_level s l v b) = db_minimum_price b"
  "db_tick_size (put_level s l v b) = db_tick_size b" "db_level_count (put_level s l v b) = db_level_count b"
  "db_free (put_level s l v b) = db_free b" "db_active (put_level s l v b) = db_active b"
  "db_best_bid (put_level s l v b) = db_best_bid b" "db_best_ask (put_level s l v b) = db_best_ask b"
  "bitmap (put_level s l v b) s' = bitmap b s'" "level_price (put_level s l v b) = level_price b"
  "length (db_bids (put_level s l v b)) = length (db_bids b)" "length (db_asks (put_level s l v b)) = length (db_asks b)"
  by (auto simp: put_level_def bitmap_def level_price_def)

lemma upd_node_sel [book, simp]:
  "db_nodes (upd_node i f b) = (db_nodes b)[i := f (node b i)]" "db_index (upd_node i f b) = db_index b"
  "db_order_capacity (upd_node i f b) = db_order_capacity b" "db_minimum_price (upd_node i f b) = db_minimum_price b"
  "db_tick_size (upd_node i f b) = db_tick_size b" "db_level_count (upd_node i f b) = db_level_count b"
  "db_free (upd_node i f b) = db_free b" "db_active (upd_node i f b) = db_active b"
  "db_best_bid (upd_node i f b) = db_best_bid b" "db_best_ask (upd_node i f b) = db_best_ask b"
  "bitmap (upd_node i f b) s' = bitmap b s'" "level_price (upd_node i f b) = level_price b"
  "level_at (upd_node i f b) s l = level_at b s l"
  "db_bids (upd_node i f b) = db_bids b" "db_asks (upd_node i f b) = db_asks b"
  by (auto simp: upd_node_def bitmap_def level_price_def level_at_def)

lemma level_at_put [book]:
  assumes "shape_ok b" "l < db_level_count b"
  shows "level_at (put_level s l v b) s' l' = (if s' = s \<and> l' = l then v else level_at b s' l')"
  using assms by (cases s; cases s') (auto simp: level_at_def put_level_def shape_ok_def)

lemma set_occupied_sel [book, simp]:
  "db_nodes (set_occupied s l b) = db_nodes b" "db_index (set_occupied s l b) = db_index b"
  "db_order_capacity (set_occupied s l b) = db_order_capacity b" "db_minimum_price (set_occupied s l b) = db_minimum_price b"
  "db_tick_size (set_occupied s l b) = db_tick_size b" "db_level_count (set_occupied s l b) = db_level_count b"
  "db_free (set_occupied s l b) = db_free b" "db_active (set_occupied s l b) = db_active b"
  "level_price (set_occupied s l b) = level_price b" "level_at (set_occupied s l b) s' l' = level_at b s' l'"
  "db_bids (set_occupied s l b) = db_bids b" "db_asks (set_occupied s l b) = db_asks b"
  "length (bitmap (set_occupied s l b) s') = length (bitmap b s')"
  by (auto simp: set_occupied_def put_bitmap_def bitmap_def level_price_def level_at_def Let_def)

lemma clear_occupied_sel [book, simp]:
  "db_nodes (clear_occupied s l b) = db_nodes b" "db_index (clear_occupied s l b) = db_index b"
  "db_order_capacity (clear_occupied s l b) = db_order_capacity b" "db_minimum_price (clear_occupied s l b) = db_minimum_price b"
  "db_tick_size (clear_occupied s l b) = db_tick_size b" "db_level_count (clear_occupied s l b) = db_level_count b"
  "db_free (clear_occupied s l b) = db_free b" "db_active (clear_occupied s l b) = db_active b"
  "level_price (clear_occupied s l b) = level_price b" "level_at (clear_occupied s l b) s' l' = level_at b s' l'"
  "db_bids (clear_occupied s l b) = db_bids b" "db_asks (clear_occupied s l b) = db_asks b"
  "length (bitmap (clear_occupied s l b) s') = length (bitmap b s')"
  by (auto simp: clear_occupied_def put_bitmap_def bitmap_def level_price_def level_at_def Let_def)

lemma level_word_less: "shape_ok b \<Longrightarrow> l < db_level_count b \<Longrightarrow> l div 64 < length (bitmap b s)"
  by (auto simp: shape_ok_def bitmap_words_def)

lemma level_less_invalid: "shape_ok b \<Longrightarrow> l < db_level_count b \<Longrightarrow> l < kInvalid"
  by (simp add: shape_ok_def)

section \<open>Bitmaps and best levels\<close>

lemma top_level_add:
  assumes "top_level occ x" "x = kInvalid \<longrightarrow> (\<forall>l. \<not> occ l)"
  shows "top_level (\<lambda>j. occ j \<or> j = l) (if x = kInvalid \<or> l > x then l else x)"
proof (cases "\<exists>j. occ j")
  case True
  then have "occ x" "x \<noteq> kInvalid" "\<And>j. occ j \<Longrightarrow> j \<le> x" using assms by (auto simp: top_level_def)
  then show ?thesis by (intro top_levelI) (auto, metis order.strict_trans1 order_less_imp_le)
next
  case False
  then show ?thesis using assms(1) by (intro top_levelI) (auto simp: top_level_def)
qed

lemma low_level_add:
  assumes "low_level occ x" "x = kInvalid \<longrightarrow> (\<forall>l. \<not> occ l)"
  shows "low_level (\<lambda>j. occ j \<or> j = l) (if x = kInvalid \<or> l < x then l else x)"
proof (cases "\<exists>j. occ j")
  case True
  then have "occ x" "x \<noteq> kInvalid" "\<And>j. occ j \<Longrightarrow> x \<le> j" using assms by (auto simp: low_level_def)
  then show ?thesis by (intro low_levelI) (auto, metis order.strict_trans2 order_less_imp_le)
next
  case False
  then show ?thesis using assms(1) by (intro low_levelI) (auto simp: low_level_def)
qed

lemma top_level_keep: "top_level occ x \<Longrightarrow> l \<noteq> x \<Longrightarrow> occ l \<Longrightarrow> top_level (\<lambda>j. occ j \<and> j \<noteq> l) x"
  by (auto simp: top_level_def split: if_splits)

lemma low_level_keep: "low_level occ x \<Longrightarrow> l \<noteq> x \<Longrightarrow> occ l \<Longrightarrow> low_level (\<lambda>j. occ j \<and> j \<noteq> l) x"
  by (auto simp: low_level_def split: if_splits)

lemma occupied_levels:
  assumes "shape_ok b" "bits_ok Q b" "Q s l \<noteq> []" "links_ok Q b"
  shows "l < db_level_count b" "l \<noteq> kInvalid"
proof -
  show "l < db_level_count b" using assms(3,4) by (auto simp: links_ok_def split: if_splits)
  then show "l \<noteq> kInvalid" using level_less_invalid [OF assms(1)] by auto
qed

lemma best_invalid:
  assumes "shape_ok b" "links_ok Q b" "bits_ok Q b"
  shows "db_best_bid b = kInvalid \<longrightarrow> (\<forall>l. \<not> Q Buy l \<noteq> [])" "db_best_ask b = kInvalid \<longrightarrow> (\<forall>l. \<not> Q Sell l \<noteq> [])"
  using assms occupied_levels [OF assms(1,3) _ assms(2)]
  by (auto simp: bits_ok_def top_level_def low_level_def split: if_splits)

lemma bitmap_set_occupied:
  "bitmap (set_occupied s l b) s' = (if s' = s
     then (bitmap b s)[drop_bit 6 l := (bitmap b s ! drop_bit 6 l) OR push_bit (l AND 63) 1] else bitmap b s')"
  by (cases s; cases s') (simp_all add: set_occupied_def put_bitmap_def bitmap_def Let_def)

lemma bitmap_clear_occupied:
  "bitmap (clear_occupied s l b) s' = (if s' = s
     then (bitmap b s)[drop_bit 6 l := (bitmap b s ! drop_bit 6 l) AND NOT (push_bit (l AND 63) 1)] else bitmap b s')"
  by (cases s; cases s') (simp_all add: clear_occupied_def put_bitmap_def bitmap_def Let_def)

lemma set_occupied_bits:
  assumes "shape_ok b" "links_ok Q b" "bits_ok Q b" "l < db_level_count b" "q \<noteq> []"
    "shape_ok b'" "\<And>s. bitmap b' s = bitmap b s" "db_best_bid b' = db_best_bid b" "db_best_ask b' = db_best_ask b"
  shows "bits_ok (updq Q s l q) (set_occupied s l b')"
proof -
  have bm: "bm_bit (bitmap (set_occupied s l b') s') j \<longleftrightarrow> bm_bit (bitmap b s') j \<or> s' = s \<and> j = l" for s' j
    using bm_bit_set [OF level_word_less [OF assms(1,4), of s]] assms(7)
    unfolding bitmap_set_occupied by auto
  have upd: "(updq Q s l q) s' j \<noteq> [] \<longleftrightarrow> Q s' j \<noteq> [] \<or> s' = s \<and> j = l" for s' j using assms(5) by auto
  have best: "db_best_bid (set_occupied s l b') = (if s = Buy \<and> (db_best_bid b = kInvalid \<or> l > db_best_bid b) then l else db_best_bid b)"
    "db_best_ask (set_occupied s l b') = (if s = Sell \<and> (db_best_ask b = kInvalid \<or> l < db_best_ask b) then l else db_best_ask b)"
    using assms(8,9) by (cases s; simp add: set_occupied_def put_bitmap_def Let_def)+
  have tl: "top_level (\<lambda>l. Q Buy l \<noteq> []) (db_best_bid b)" "low_level (\<lambda>l. Q Sell l \<noteq> []) (db_best_ask b)"
    using assms(3) by (simp_all add: bits_ok_def)
  note add = top_level_add [OF tl(1) best_invalid(1) [OF assms(1-3)], of l] low_level_add [OF tl(2) best_invalid(2) [OF assms(1-3)], of l]
  show ?thesis unfolding bits_ok_def upd bm best
    using assms(3) add tl by (cases s) (simp_all add: bits_ok_def)
qed

lemma clear_occupied_bits:
  assumes "shape_ok b" "links_ok Q b" "bits_ok Q b" "Q s l \<noteq> []"
    "shape_ok b'" "\<And>s. bitmap b' s = bitmap b s" "db_best_bid b' = db_best_bid b" "db_best_ask b' = db_best_ask b"
    "db_level_count b' = db_level_count b"
  shows "bits_ok (updq Q s l []) (clear_occupied s l b')"
proof -
  have l: "l < db_level_count b" using occupied_levels(1) [OF assms(1,3,4,2)] .
  have bm: "bm_bit (bitmap (clear_occupied s l b') s') j \<longleftrightarrow> bm_bit (bitmap b s') j \<and> \<not> (s' = s \<and> j = l)" for s' j
    using bm_bit_clear [OF level_word_less [OF assms(1) l, of s]] assms(6)
    unfolding bitmap_clear_occupied by auto
  have upd: "(updq Q s l []) s' j \<noteq> [] \<longleftrightarrow> Q s' j \<noteq> [] \<and> \<not> (s' = s \<and> j = l)" for s' j by auto
  have bits: "bm_bit (bitmap b s') j \<longleftrightarrow> Q s' j \<noteq> []" for s' j using assms(3) by (simp add: bits_ok_def)
  have bmf: "bm_bit (bitmap (clear_occupied s l b') s') = (\<lambda>j. Q s' j \<noteq> [] \<and> \<not> (s' = s \<and> j = l))" for s'
    by (rule ext) (simp only: bm bits)
  have tl: "top_level (\<lambda>l. Q Buy l \<noteq> []) (db_best_bid b)" "low_level (\<lambda>l. Q Sell l \<noteq> []) (db_best_ask b)"
    using assms(3) by (simp_all add: bits_ok_def)
  have len: "length (bitmap (clear_occupied s l b') s') = bitmap_words (db_level_count b)" for s'
    using assms(5,9) by (simp add: shape_ok_def)
  have "top_level (\<lambda>j. Q Buy j \<noteq> [] \<and> \<not> (Buy = s \<and> j = l)) (db_best_bid (clear_occupied s l b'))"
  proof (cases "s = Buy \<and> db_best_bid b = l")
    case True
    have "db_best_bid (clear_occupied s l b') = find_best b' (bitmap (clear_occupied s l b') Buy) True"
      using True assms(7) by (simp add: clear_occupied_def put_bitmap_def bitmap_def Let_def find_best_def)
    moreover have "top_level (bm_bit (bitmap (clear_occupied s l b') Buy)) (find_best b' (bitmap (clear_occupied s l b') Buy) True)"
      using len assms(9) by (intro find_best_top) simp
    ultimately show ?thesis by (simp only: bmf)
  next
    case False
    then have "db_best_bid (clear_occupied s l b') = db_best_bid b"
      using assms(7) by (simp add: clear_occupied_def put_bitmap_def Let_def)
    then show ?thesis using False tl(1) top_level_keep [OF tl(1)] assms(4) by (cases s) auto
  qed
  moreover have "low_level (\<lambda>j. Q Sell j \<noteq> [] \<and> \<not> (Sell = s \<and> j = l)) (db_best_ask (clear_occupied s l b'))"
  proof (cases "s = Sell \<and> db_best_ask b = l")
    case True
    have "db_best_ask (clear_occupied s l b') = find_best b' (bitmap (clear_occupied s l b') Sell) False"
      using True assms(8) by (simp add: clear_occupied_def put_bitmap_def bitmap_def Let_def find_best_def)
    moreover have "low_level (bm_bit (bitmap (clear_occupied s l b') Sell)) (find_best b' (bitmap (clear_occupied s l b') Sell) False)"
      using len assms(9) by (intro find_best_low) simp
    ultimately show ?thesis by (simp only: bmf)
  next
    case False
    then have "db_best_ask (clear_occupied s l b') = db_best_ask b"
      using assms(8) by (auto simp: clear_occupied_def put_bitmap_def Let_def)
    then show ?thesis using False tl(2) low_level_keep [OF tl(2)] assms(4) by (cases s) auto
  qed
  ultimately show ?thesis unfolding bits_ok_def upd bm bits by blast
qed

section \<open>Appending\<close>

definition nd_core :: "Node \<Rightarrow> u64 \<times> int \<times> u64 \<times> nat \<times> Side" where
  "nd_core n = (nd_id n, nd_price n, nd_remaining n, nd_level n, nd_side n)"

lemma nd_coreD:
  "nd_core m = nd_core n \<Longrightarrow> nd_id m = nd_id n \<and> nd_price m = nd_price n \<and> nd_remaining m = nd_remaining n \<and>
   nd_level m = nd_level n \<and> nd_side m = nd_side n"
  by (simp add: nd_core_def)

lemma nd_core_link [simp]:
  "nd_core (ns[x := (ns ! x)\<lparr>nd_previous := v\<rparr>] ! j) = nd_core (ns ! j)"
  "nd_core (ns[x := (ns ! x)\<lparr>nd_next := v\<rparr>] ! j) = nd_core (ns ! j)"
  "nd_core (ns[x := (ns ! x)\<lparr>nd_previous := v, nd_next := u\<rparr>] ! j) = nd_core (ns ! j)"
  "nd_free_next (ns[x := (ns ! x)\<lparr>nd_previous := v\<rparr>] ! j) = nd_free_next (ns ! j)"
  "nd_free_next (ns[x := (ns ! x)\<lparr>nd_next := v\<rparr>] ! j) = nd_free_next (ns ! j)"
  "nd_free_next (ns[x := (ns ! x)\<lparr>nd_previous := v, nd_next := u\<rparr>] ! j) = nd_free_next (ns ! j)"
  using list_update_field [of nd_core "\<lambda>n. n\<lparr>nd_previous := v\<rparr>" ns x j]
    list_update_field [of nd_core "\<lambda>n. n\<lparr>nd_next := v\<rparr>" ns x j]
    list_update_field [of nd_core "\<lambda>n. n\<lparr>nd_previous := v, nd_next := u\<rparr>" ns x j]
    list_update_field [of nd_free_next "\<lambda>n. n\<lparr>nd_previous := v\<rparr>" ns x j]
    list_update_field [of nd_free_next "\<lambda>n. n\<lparr>nd_next := v\<rparr>" ns x j]
    list_update_field [of nd_free_next "\<lambda>n. n\<lparr>nd_previous := v, nd_next := u\<rparr>" ns x j]
  by (simp_all add: nd_core_def)

lemma level_ok_frame:
  assumes "level_ok b s l q" "level_at b' s l = level_at b s l" "level_price b' = level_price b"
    "length (db_nodes b') = length (db_nodes b)"
    "\<And>i. i \<in> set q \<Longrightarrow> nd_core (node b' i) = nd_core (node b i) \<and> nd_previous (node b' i) = nd_previous (node b i) \<and>
       nd_next (node b' i) = nd_next (node b i)"
  shows "level_ok b' s l q"
proof -
  have "seg (db_nodes b') kInvalid kInvalid q" using assms(1,5) seg_cong [of q "db_nodes b'" "db_nodes b"]
    by (auto simp: level_ok_def)
  moreover have core: "nd_price (node b' i) = nd_price (node b i)" "nd_remaining (node b' i) = nd_remaining (node b i)"
    "nd_level (node b' i) = nd_level (node b i)" "nd_side (node b' i) = nd_side (node b i)" if "i \<in> set q" for i
    using nd_coreD [OF conjunct1 [OF assms(5) [OF that]]] by auto
  then have "\<forall>i\<in>set q. i < length (db_nodes b') \<and> nd_side (node b' i) = s \<and> nd_level (node b' i) = l \<and>
      nd_price (node b' i) = level_price b' l"
    using assms(1,3,4) by (simp add: level_ok_def)
  moreover have "sum_list (map (\<lambda>i. nd_remaining (node b' i)) q) = sum_list (map (\<lambda>i. nd_remaining (node b i)) q)"
    using core(2) by (intro arg_cong [of _ _ sum_list]) simp
  ultimately show ?thesis using assms(1) unfolding level_ok_def assms(2) by metis
qed

lemma links_okD:
  "links_ok Q b \<Longrightarrow> l < db_level_count b \<Longrightarrow> level_ok b s l (Q s l)"
  "links_ok Q b \<Longrightarrow> \<not> l < db_level_count b \<Longrightarrow> Q s l = []"
  by (auto simp: links_ok_def split: if_splits)

lemma queue_member:
  assumes "links_ok Q b" "i \<in> set (Q s l)"
  shows "i < length (db_nodes b)" "nd_side (node b i) = s" "nd_level (node b i) = l" "l < db_level_count b"
    "nd_price (node b i) = level_price b l"
proof -
  show "l < db_level_count b" using assms links_okD(2) by (cases "l < db_level_count b") fastforce+
  then have "level_ok b s l (Q s l)" using assms(1) by (rule links_okD(1) [rotated])
  then show "i < length (db_nodes b)" "nd_side (node b i) = s" "nd_level (node b i) = l"
    "nd_price (node b i) = level_price b l"
    using assms(2) by (auto simp: level_ok_def)
qed

lemma queue_unique:
  assumes "links_ok Q b" "i \<in> set (Q s l)" "i \<in> set (Q s' l')"
  shows "s' = s" "l' = l"
  using queue_member [OF assms(1,2)] queue_member [OF assms(1,3)] by auto

lemma queue_other: "links_ok Q b \<Longrightarrow> j \<in> set (Q s' l') \<Longrightarrow> (s', l') \<noteq> (s, l) \<Longrightarrow> j \<notin> set (Q s l)"
  using queue_unique [of Q b j s l s' l'] by auto

lemma links_ok_update:
  assumes "links_ok Q b" "level_ok b' s l q" "db_level_count b' = db_level_count b" "l < db_level_count b"
    "\<And>s' l'. (s', l') \<noteq> (s, l) \<Longrightarrow> level_at b' s' l' = level_at b s' l'" "level_price b' = level_price b"
    "length (db_nodes b') = length (db_nodes b)"
    "\<And>i s' l'. i \<in> set (Q s' l') \<Longrightarrow> (s', l') \<noteq> (s, l) \<Longrightarrow> node b' i = node b i"
  shows "links_ok (updq Q s l q) b'"
  unfolding links_ok_def
proof (intro allI)
  fix s' l'
  show "if l' < db_level_count b' then level_ok b' s' l' ((updq Q s l q) s' l') else (updq Q s l q) s' l' = []"
  proof (cases "(s', l') = (s, l)")
    case True
    then show ?thesis using assms(2-4) by simp
  next
    case False
    then have same: "(updq Q s l q) s' l' = Q s' l'" by auto
    show ?thesis
    proof (cases "l' < db_level_count b")
      case True
      have "level_ok b' s' l' (Q s' l')"
        using assms(5) [OF False] assms(6-8) False
        by (intro level_ok_frame [OF links_okD(1) [OF assms(1) True]]) auto
      then show ?thesis using same True assms(3) by simp
    next
      case l': False
      then show ?thesis using same links_okD(2) [OF assms(1) l'] assms(3) by simp
    qed
  qed
qed

lemma append_order_sel [book, simp]:
  "db_index (append_order i l b) = db_index b" "db_order_capacity (append_order i l b) = db_order_capacity b"
  "db_minimum_price (append_order i l b) = db_minimum_price b" "db_tick_size (append_order i l b) = db_tick_size b"
  "db_level_count (append_order i l b) = db_level_count b" "db_free (append_order i l b) = db_free b"
  "db_active (append_order i l b) = db_active b" "level_price (append_order i l b) = level_price b"
  "length (db_nodes (append_order i l b)) = length (db_nodes b)"
  "length (db_bids (append_order i l b)) = length (db_bids b)" "length (db_asks (append_order i l b)) = length (db_asks b)"
  "length (bitmap (append_order i l b) s) = length (bitmap b s)"
  by (simp_all add: append_order_def Let_def)

lemma append_order_core [simp]:
  "nd_core (node (append_order i l b) j) = nd_core (node b j)"
  "nd_free_next (node (append_order i l b) j) = nd_free_next (node b j)"
  by (simp_all add: append_order_def Let_def)

lemma append_order_level:
  assumes ok: "level_ok b s l q" "shape_ok b" "l < db_level_count b"
    and i: "i \<notin> set q" "i < length (db_nodes b)" "nd_side (node b i) = s" "nd_level (node b i) = l"
      "nd_price (node b i) = level_price b l" "nd_next (node b i) = kInvalid"
  shows "level_ok (append_order i l b) s l (q @ [i])"
    and "(s', l') \<noteq> (s, l) \<Longrightarrow> level_at (append_order i l b) s' l' = level_at b s' l'"
    and "j \<noteq> i \<Longrightarrow> j \<notin> set q \<Longrightarrow> node (append_order i l b) j = node b j"
proof -
  let ?b = "append_order i l b" and ?ns = "db_nodes b"
  let ?ns1 = "?ns[i := (?ns ! i)\<lparr>nd_previous := (if q = [] then kInvalid else last q)\<rparr>]"
  have small: "x < kInvalid" if "x < length ?ns" for x using that ok(2) by (simp add: shape_ok_def)
  have tail: "lv_tail (level_at b s l) = (if q = [] then kInvalid else last q)"
    and head: "lv_head (level_at b s l) = (if q = [] then kInvalid else hd q)"
    and total: "lv_total (level_at b s l) = sum_list (map (\<lambda>i. nd_remaining (node b i)) q)"
    and mem: "\<forall>x\<in>set q. x < length ?ns \<and> nd_side (node b x) = s \<and> nd_level (node b x) = l \<and> nd_price (node b x) = level_price b l"
    and sg: "seg ?ns kInvalid kInvalid q" "distinct q"
    using ok(1) by (auto simp: level_ok_def)
  have t_ne: "lv_tail (level_at b s l) \<noteq> kInvalid \<longleftrightarrow> q \<noteq> []" 
  proof (cases "q = []")
    case False
    then have "last q < length ?ns" using mem last_in_set by blast
    from small [OF this] show ?thesis using False tail by simp
  qed (simp add: tail)
  have ns: "db_nodes ?b = (if q = [] then ?ns1 else ?ns1[last q := (?ns1 ! last q)\<lparr>nd_next := i\<rparr>])"
    using t_ne tail i(3) by (simp add: append_order_def Let_def)
  have rem: "nd_remaining (?ns[i := (?ns ! i)\<lparr>nd_previous := v\<rparr>] ! i) = nd_remaining (?ns ! i)" for v using i(2) by simp
  have q_last: "q \<noteq> [] \<Longrightarrow> last q \<noteq> i" using i(1) last_in_set by metis
  have lev: "level_at ?b s' l' = (if s' = s \<and> l' = l then
      \<lparr>lv_head = (if q = [] then i else hd q), lv_tail = i, lv_total = lv_total (level_at b s l) + nd_remaining (node b i)\<rparr>
      else level_at b s' l')" for s' l'
  proof -
    have sh: "shape_ok b' \<Longrightarrow> level_at (put_level s l v b') s' l' = (if s' = s \<and> l' = l then v else level_at b' s' l')"
      if "db_level_count b' = db_level_count b" for b' v using level_at_put [of b' l s v s' l'] that ok(3) by simp
    have shapes: "shape_ok (upd_node x f b')" if "shape_ok b'" for x f b' using that by (simp add: shape_ok_def)
    show ?thesis
      using t_ne tail head i(3) q_last i(2)
      by (cases "q = []") (auto simp: append_order_def Let_def sh shapes ok(2) rem nth_list_update)
  qed
  show "(s', l') \<noteq> (s, l) \<Longrightarrow> level_at ?b s' l' = level_at b s' l'" by (auto simp: lev)
  show "node ?b j = node b j" if "j \<noteq> i" "j \<notin> set q"
  proof (cases "q = []")
    case False
    then have "last q \<noteq> j" using that(2) last_in_set by metis
    then show ?thesis using False that by (simp add: ns)
  qed (use that in \<open>simp add: ns\<close>)
  have "seg (db_nodes ?b) kInvalid kInvalid (q @ [i])"
    unfolding ns using mem sg i by (intro seg_snoc) auto
  moreover have core: "nd_core (node ?b x) = nd_core (node b x)" for x by simp
  moreover have "sum_list (map (\<lambda>i. nd_remaining (node ?b i)) (q @ [i])) = lv_total (level_at b s l) + nd_remaining (node b i)"
    using nd_coreD [OF core] by (simp add: total)
  ultimately show "level_ok ?b s l (q @ [i])"
    using mem i sg(2) nd_coreD [OF core] unfolding level_ok_def by (auto simp: lev)
qed

lemma queued_update:
  "queued (updq Q s l q) = {i. \<exists>s' l'. (s', l') \<noteq> (s, l) \<and> i \<in> set (Q s' l')} \<union> set q"
  by (auto simp: queued_def split: if_splits)

lemma not_queued: "i \<notin> queued Q \<Longrightarrow> i \<notin> set (Q s l)"
  by (auto simp: queued_def)

lemma queued_snoc: "queued (updq Q s l (Q s l @ [i])) = insert i (queued Q)"
  by (auto simp: queued_def)

lemma alloc_ok_frame:
  assumes "alloc_ok F V b" "\<And>i. nd_free_next (node b' i) = nd_free_next (node b i)" "db_free b' = db_free b"
    "db_order_capacity b' = db_order_capacity b" "db_active b' = db_active b"
  shows "alloc_ok F V b'"
proof -
  have "free_chain (db_nodes b') f F = free_chain (db_nodes b) f F" for f
    using assms(2) by (induction F arbitrary: f) auto
  then show ?thesis using assms by (simp add: alloc_ok_def)
qed

lemma index_ok_frame:
  assumes "index_ok V b" "\<And>i. nd_id (node b' i) = nd_id (node b i)" "db_index b' = db_index b"
    "db_order_capacity b' = db_order_capacity b"
  shows "index_ok V b'"
  using assms by (simp add: index_ok_def)

lemma append_inv:
  assumes inv: "db_inv Q F L b" and i: "i \<in> L" and s: "nd_side (node b i) = s" and l: "nd_level (node b i) = l"
    "l < db_level_count b" "nd_price (node b i) = level_price b l"
  shows "db_inv (updq Q s l (Q s l @ [i])) F (L - {i}) (append_order i l b)"
proof -
  note I = db_invD [OF inv]
  let ?b = "append_order i l b" and ?Q = "updq Q s l (Q s l @ [i])"
  have notq: "i \<notin> queued Q" using I(6) i by auto
  then have notin: "i \<notin> set (Q s' l')" for s' l' by (auto simp: queued_def)
  have len: "i < length (db_nodes b)" using I(1,4) i by (auto simp: alloc_ok_def shape_ok_def)
  note lvl = append_order_level [OF links_okD(1) [OF I(2) l(2), of s] I(1) l(2) notin len s l(1,3) I(7) [OF i]]
  have Vsame: "queued ?Q \<union> (L - {i}) = queued Q \<union> L" "queued ?Q \<inter> (L - {i}) = {}"
    using i I(6) by (auto simp: queued_snoc)
  have "links_ok ?Q ?b"
  proof (rule links_ok_update [OF I(2) lvl(1)])
    show "node ?b j = node b j" if j: "j \<in> set (Q s' l')" "(s', l') \<noteq> (s, l)" for j s' l'
      using j(1) notin queue_other [OF I(2) j] by (intro lvl(3)) auto
  qed (use lvl(2) l(2) in auto)
  moreover have "shape_ok ?b" using I(1) by (simp add: shape_ok_def)
  moreover have "bits_ok ?Q ?b"
    using I(1) unfolding append_order_def Let_def case_prod_unfold s
    by (intro set_occupied_bits [OF I(1-3) l(2)]) (auto simp: shape_ok_def)
  moreover have "alloc_ok F (queued ?Q \<union> (L - {i})) ?b"
    unfolding Vsame(1) using I(4) by (rule alloc_ok_frame) auto
  moreover have "index_ok (queued ?Q \<union> (L - {i})) ?b"
    unfolding Vsame(1) using I(5) by (rule index_ok_frame) (use nd_coreD [OF append_order_core(1)] in auto)
  moreover have "nd_next (node ?b j) = kInvalid" if "j \<in> L - {i}" for j
  proof -
    have "j \<notin> set (Q s l)" using that I(6) not_queued by blast
    then show ?thesis using that I(7) lvl(3) [of j] by auto
  qed
  ultimately show ?thesis unfolding db_inv_def using Vsame(2) by blast
qed

section \<open>Unlinking\<close>

lemma unlink_sel [book, simp]:
  "db_index (unlink i b) = db_index b" "db_order_capacity (unlink i b) = db_order_capacity b"
  "db_minimum_price (unlink i b) = db_minimum_price b" "db_tick_size (unlink i b) = db_tick_size b"
  "db_level_count (unlink i b) = db_level_count b" "db_free (unlink i b) = db_free b"
  "db_active (unlink i b) = db_active b" "level_price (unlink i b) = level_price b"
  "length (db_nodes (unlink i b)) = length (db_nodes b)"
  "length (db_bids (unlink i b)) = length (db_bids b)" "length (db_asks (unlink i b)) = length (db_asks b)"
  "length (bitmap (unlink i b) s) = length (bitmap b s)"
  by (simp_all add: unlink_def Let_def)

lemma unlink_core [simp]:
  "nd_core (node (unlink i b) j) = nd_core (node b j)"
  "nd_free_next (node (unlink i b) j) = nd_free_next (node b j)"
  by (simp_all add: unlink_def Let_def)

lemma unlink_level:
  assumes ok: "level_ok b s l (xs @ i # ys)" "shape_ok b" "l < db_level_count b"
  shows "level_ok (unlink i b) s l (xs @ ys)"
    and "(s', l') \<noteq> (s, l) \<Longrightarrow> level_at (unlink i b) s' l' = level_at b s' l'"
    and "j \<notin> set (xs @ i # ys) \<Longrightarrow> node (unlink i b) j = node b j"
    and "nd_next (node (unlink i b) i) = kInvalid"
    and "lv_head (level_at (unlink i b) s l) = kInvalid \<longleftrightarrow> xs @ ys = []"
proof -
  let ?b = "unlink i b" and ?ns = "db_nodes b" and ?q = "xs @ i # ys"
  define ns1 where "ns1 = (if xs = [] then ?ns else ?ns[last xs := (?ns ! last xs)\<lparr>nd_next := nd_next (?ns ! i)\<rparr>])"
  define ns2 where "ns2 = (if ys = [] then ns1 else ns1[hd ys := (ns1 ! hd ys)\<lparr>nd_previous := nd_previous (?ns ! i)\<rparr>])"
  have mem: "\<forall>x\<in>set ?q. x < length ?ns \<and> nd_side (node b x) = s \<and> nd_level (node b x) = l \<and> nd_price (node b x) = level_price b l"
    and sg: "seg ?ns kInvalid kInvalid ?q" "distinct ?q"
    and head: "lv_head (level_at b s l) = hd ?q" and tail: "lv_tail (level_at b s l) = last ?q"
    and total: "lv_total (level_at b s l) = sum_list (map (\<lambda>i. nd_remaining (node b i)) ?q)"
    using ok(1) by (auto simp: level_ok_def)
  have lens: "\<forall>x\<in>set ?q. x < length ?ns" using mem by blast
  have "length ?ns < kInvalid" using ok(2) by (simp add: shape_ok_def)
  then have small: "x < kInvalid" if "x \<in> set ?q" for x using that lens less_trans by blast
  note un = seg_unlink [OF sg lens, folded ns1_def, folded ns2_def]
  have ends: "xs \<noteq> [] \<Longrightarrow> last xs \<in> set ?q \<and> last xs \<noteq> i" "ys \<noteq> [] \<Longrightarrow> hd ys \<in> set ?q \<and> hd ys \<noteq> i"
    using sg(2) by auto
  have lt: "xs \<noteq> [] \<Longrightarrow> last xs < kInvalid" "ys \<noteq> [] \<Longrightarrow> hd ys < kInvalid" using ends small by blast+
  have prev: "nd_previous (node b i) \<noteq> kInvalid \<longleftrightarrow> xs \<noteq> []" and nxt: "nd_next (node b i) \<noteq> kInvalid \<longleftrightarrow> ys \<noteq> []"
    using un(1,2) lt by auto
  have ns: "db_nodes ?b = ns2[i := (ns2 ! i)\<lparr>nd_previous := kInvalid, nd_next := kInvalid\<rparr>]"
    using prev nxt un(1,2) by (auto simp: unlink_def Let_def ns1_def ns2_def)
  have lev: "level_at ?b s' l' = (if s' = s \<and> l' = l then
      \<lparr>lv_head = (if xs @ ys = [] then kInvalid else hd (xs @ ys)), lv_tail = (if xs @ ys = [] then kInvalid else last (xs @ ys)),
       lv_total = lv_total (level_at b s l) - nd_remaining (node b i)\<rparr> else level_at b s' l')" for s' l'
  proof -
    have sh: "level_at (put_level s l v b') s' l' = (if s' = s \<and> l' = l then v else level_at b' s' l')"
      if "db_level_count b' = db_level_count b" "shape_ok b'" for b' v s' l'
      using level_at_put [of b' l s v s' l'] that ok(3) by simp
    have shapes: "shape_ok (upd_node x f b')" if "shape_ok b'" for x f b' using that by (simp add: shape_ok_def)
    have s: "nd_side (node b i) = s" "nd_level (node b i) = l" using mem by auto
    have hd: "xs \<noteq> [] \<Longrightarrow> hd xs \<noteq> kInvalid" using small [of "hd xs"] by auto
    show ?thesis
      using un(1,2) ends lt head tail hd
      by (cases "xs = []"; cases "ys = []")
        (auto simp: unlink_def Let_def sh shapes ok(2) s intro!: PriceLevel.equality)
  qed
  show "(s', l') \<noteq> (s, l) \<Longrightarrow> level_at ?b s' l' = level_at b s' l'" by (auto simp: lev)
  show "node ?b j = node b j" if "j \<notin> set ?q"
  proof -
    have "xs \<noteq> [] \<Longrightarrow> last xs \<noteq> j" "ys \<noteq> [] \<Longrightarrow> hd ys \<noteq> j" using that by auto
    then show ?thesis using that by (auto simp: ns ns1_def ns2_def)
  qed
  show "nd_next (node ?b i) = kInvalid" using mem by (simp add: ns ns1_def ns2_def)
  show "lv_head (level_at ?b s l) = kInvalid \<longleftrightarrow> xs @ ys = []"
    using small [of "hd (xs @ ys)"] by (cases "xs = []"; cases "ys = []") (auto simp: lev)
  have "seg (db_nodes ?b) kInvalid kInvalid (xs @ ys)" unfolding ns by (rule un(3))
  moreover have core: "nd_core (node ?b x) = nd_core (node b x)" for x by simp
  moreover have "lv_total (level_at b s l) - nd_remaining (node b i) =
      sum_list (map (\<lambda>i. nd_remaining (node ?b i)) (xs @ ys))"
    using nd_coreD [OF core] by (simp add: total)
  ultimately show "level_ok ?b s l (xs @ ys)"
    using mem sg(2) nd_coreD [OF core] unfolding level_ok_def by (simp add: lev)
qed

lemma unlink_clear:
  assumes "shape_ok b" "nd_side (node b i) = s" "nd_level (node b i) = l" "l < db_level_count b"
  obtains b' where "unlink i b = (if lv_head (level_at (unlink i b) s l) = kInvalid then clear_occupied s l b' else b')"
    "shape_ok b'" "\<forall>s. bitmap b' s = bitmap b s" "db_best_bid b' = db_best_bid b" "db_best_ask b' = db_best_ask b"
    "db_level_count b' = db_level_count b"
proof -
  obtain B v f where B: "unlink i b = (if lv_head v = kInvalid then clear_occupied s l (upd_node i f (put_level s l v B))
      else upd_node i f (put_level s l v B))"
    and sh: "shape_ok B" and frame: "\<forall>s. bitmap B s = bitmap b s" "db_best_bid B = db_best_bid b"
      "db_best_ask B = db_best_ask b" "db_level_count B = db_level_count b"
    by (rule that [OF unlink_def [of i b, unfolded Let_def case_prod_unfold assms(2,3)]])
      (use assms(1) in \<open>auto simp: shape_ok_def\<close>)
  have "level_at (unlink i b) s l = v" unfolding B using level_at_put [OF sh, of l s v s l] assms(4) frame(4) by simp
  then show thesis using that [of "upd_node i f (put_level s l v B)"] B sh frame by (simp add: shape_ok_def)
qed

lemma queued_remove:
  assumes "links_ok Q b" "Q s l = xs @ i # ys"
  shows "queued (updq Q s l (xs @ ys)) = queued Q - {i}" "i \<in> queued Q"
proof -
  have i: "i \<in> set (Q s l)" using assms(2) by simp
  have d: "distinct (xs @ i # ys)"
    using links_okD(1) [OF assms(1) queue_member(4) [OF assms(1) i], of s] assms(2) by (simp add: level_ok_def)
  have "i \<notin> set (Q s' l')" if "(s', l') \<noteq> (s, l)" for s' l'
    using queue_other [OF assms(1) i, of s' l'] that by auto
  moreover have "queued Q = {j. \<exists>s' l'. (s', l') \<noteq> (s, l) \<and> j \<in> set (Q s' l')} \<union> set (xs @ i # ys)"
    unfolding assms(2) [symmetric] by (auto simp: queued_def)
  ultimately show "queued (updq Q s l (xs @ ys)) = queued Q - {i}"
    using d unfolding queued_update by auto
  show "i \<in> queued Q" using i by (auto simp: queued_def)
qed

lemma unlink_inv:
  assumes inv: "db_inv Q F L b" and q: "Q s l = xs @ i # ys"
  shows "db_inv (updq Q s l (xs @ ys)) F (insert i L) (unlink i b)"
proof -
  note I = db_invD [OF inv]
  let ?b = "unlink i b" and ?Q = "updq Q s l (xs @ ys)"
  have i: "i \<in> set (Q s l)" using q by simp
  note mem = queue_member [OF I(2) i]
  have ok: "level_ok b s l (xs @ i # ys)" using links_okD(1) [OF I(2) mem(4), of s] q by simp
  note lvl = unlink_level [OF ok I(1) mem(4)]
  obtain b' where b': "?b = (if lv_head (level_at ?b s l) = kInvalid then clear_occupied s l b' else b')"
    "shape_ok b'" "\<forall>s. bitmap b' s = bitmap b s" "db_best_bid b' = db_best_bid b" "db_best_ask b' = db_best_ask b"
    "db_level_count b' = db_level_count b"
    by (rule unlink_clear [OF I(1) mem(2-4)])
  note rem = queued_remove [where s = s and l = l, OF I(2) q]
  have Vsame: "queued ?Q \<union> insert i L = queued Q \<union> L" "queued ?Q \<inter> insert i L = {}"
    using rem I(6) by auto
  have "links_ok ?Q ?b"
  proof (rule links_ok_update [OF I(2) lvl(1)])
    show "node ?b j = node b j" if j: "j \<in> set (Q s' l')" "(s', l') \<noteq> (s, l)" for j s' l'
      using queue_other [OF I(2) j] q by (intro lvl(3)) simp
  qed (use lvl(2) mem(4) in auto)
  moreover have "shape_ok ?b" using I(1) by (simp add: shape_ok_def)
  moreover have "bits_ok ?Q ?b"
  proof (cases "xs @ ys = []")
    case True
    then have "?b = clear_occupied s l b'" using lvl(5) b'(1) by simp
    then show ?thesis using clear_occupied_bits [OF I(1-3) _ b'(2) spec [OF b'(3)] b'(4-6), of s l] True q by simp
  next
    case False
    then have same: "?b = b'" using b'(1) unfolding lvl(5) if_not_P [OF False] by blast
    have "(updq Q s l (xs @ ys)) s' l' \<noteq> [] \<longleftrightarrow> Q s' l' \<noteq> []" for s' l' using False q by auto
    then show ?thesis using I(3) b'(3-5) unfolding bits_ok_def same by simp
  qed
  moreover have "alloc_ok F (queued ?Q \<union> insert i L) ?b"
    unfolding Vsame(1) using I(4) by (rule alloc_ok_frame) auto
  moreover have "index_ok (queued ?Q \<union> insert i L) ?b"
    unfolding Vsame(1) using I(5) by (rule index_ok_frame) (use nd_coreD [OF unlink_core(1)] in auto)
  moreover have "nd_next (node ?b j) = kInvalid" if "j \<in> insert i L" for j
  proof (cases "j = i")
    case False
    then have "j \<notin> set (Q s l)" using that I(6) not_queued by blast
    then show ?thesis using that False I(7) lvl(3) [of j] q by auto
  qed (simp add: lvl(4))
  ultimately show ?thesis unfolding db_inv_def using Vsame(2) by blast
qed

end
