(* ===== verification/DenseBookOps.thy ===== *)
theory DenseBookOps
  imports DenseBookInv
begin

text \<open>
  The life cycle of a node: a new book satisfies the invariant of \<open>DenseBookInv\<close>, allocation with
  registration in the index turns a free node into a loose one, release turns a loose node back,
  and a change of quantity or of identity keeps the invariant.
\<close>

section \<open>Frames\<close>

lemma book_frame:
  assumes "shape_ok b" "links_ok Q b" "bits_ok Q b" "\<forall>j\<in>queued Q. node b' j = node b j"
    "length (db_nodes b') = length (db_nodes b)" "db_bids b' = db_bids b" "db_asks b' = db_asks b"
    "db_bid_bitmap b' = db_bid_bitmap b" "db_ask_bitmap b' = db_ask_bitmap b"
    "db_order_capacity b' = db_order_capacity b" "db_minimum_price b' = db_minimum_price b"
    "db_tick_size b' = db_tick_size b" "db_level_count b' = db_level_count b"
    "db_best_bid b' = db_best_bid b" "db_best_ask b' = db_best_ask b"
  shows "shape_ok b'" "links_ok Q b'" "bits_ok Q b'"
proof -
  have bm: "bitmap b' s = bitmap b s" and lev: "level_at b' s l = level_at b s l" and lp: "level_price b' = level_price b" for s l
    using assms by (auto simp: bitmap_def level_at_def level_price_def)
  show "shape_ok b'" using assms bm by (simp add: shape_ok_def)
  show "bits_ok Q b'" using assms bm by (simp add: bits_ok_def)
  show "links_ok Q b'" unfolding links_ok_def
  proof (intro allI)
    fix s l
    have "node b' j = node b j" if "j \<in> set (Q s l)" for j using assms(4) that unfolding queued_def by blast
    then have "level_ok b' s l (Q s l)" if l: "l < db_level_count b"
      by (intro level_ok_frame [OF links_okD(1) [OF assms(2) l] lev lp assms(5)]) simp
    then show "if l < db_level_count b' then level_ok b' s l (Q s l) else Q s l = []"
      using links_okD(2) [OF assms(2)] assms(13) by simp
  qed
qed

lemma index_room:
  assumes "index_ok V b" "V \<subseteq> {..<db_order_capacity b}"
  shows "card (dom (ix_map (db_index b))) \<le> card V" "card V \<le> db_order_capacity b"
    "card V + 1 < ix_capacity (db_index b)"
proof -
  have fin: "finite V" using assms(2) finite_subset by blast
  have "dom (ix_map (db_index b)) \<subseteq> (\<lambda>i. nd_id (node b i)) ` V" using assms(1) by (auto simp: index_ok_def)
  then show "card (dom (ix_map (db_index b))) \<le> card V" using card_mono card_image_le fin finite_imageI le_trans by meson
  show "card V \<le> db_order_capacity b" using card_mono [OF _ assms(2)] by simp
  then show "card V + 1 < ix_capacity (db_index b)" using assms(1) by (auto simp: index_ok_def)
qed

lemma index_okD:
  assumes "index_ok V b"
  shows "ix_wf (db_index b)" "ix_map (db_index b) k = Some i \<longleftrightarrow> i \<in> V \<and> nd_id (node b i) = k"
    "i \<in> V \<Longrightarrow> nd_id (node b i) \<noteq> 0" "i \<in> V \<Longrightarrow> nd_id (node b i) \<noteq> UINT64_MAX"
  using assms by (simp_all add: index_ok_def)

lemma node_bounds:
  assumes inv: "db_inv Q F L b" and i: "i \<in> queued Q \<union> L"
  shows "i < length (db_nodes b)" "i < kInvalid" "i \<notin> set F"
proof -
  have "i < db_order_capacity b" "i \<notin> set F" using db_invD(4) [OF inv] i by (auto simp: alloc_ok_def)
  then show "i < length (db_nodes b)" "i < kInvalid" "i \<notin> set F" using db_invD(1) [OF inv] by (simp_all add: shape_ok_def)
qed

lemma index_find:
  assumes inv: "db_inv Q F L b"
  shows "ix_find (db_index b) k = kInvalid \<longleftrightarrow> (\<forall>i\<in>queued Q \<union> L. nd_id (node b i) \<noteq> k)"
    and "ix_find (db_index b) k = i \<Longrightarrow> i \<noteq> kInvalid \<Longrightarrow> i \<in> queued Q \<union> L \<and> nd_id (node b i) = k"
    and "i \<in> queued Q \<union> L \<Longrightarrow> nd_id (node b i) = k \<Longrightarrow> ix_find (db_index b) k = i \<and> i < kInvalid"
    and "ix_find (db_index b) k = kInvalid \<Longrightarrow> k \<noteq> UINT64_MAX \<Longrightarrow> ix_map (db_index b) k = None"
proof -
  note I = db_invD [OF inv] note X = index_okD [OF I(5)]
  have small: "i \<in> queued Q \<union> L \<Longrightarrow> i < kInvalid" for i
    using node_bounds(2) [OF inv] by blast
  have f: "ix_find (db_index b) k = (if k = UINT64_MAX then kInvalid
      else case ix_map (db_index b) k of None \<Rightarrow> kInvalid | Some v \<Rightarrow> v)" for k by (rule ix_find_map [OF X(1)])
  show hit: "ix_find (db_index b) k = i \<and> i < kInvalid" if "i \<in> queued Q \<union> L" "nd_id (node b i) = k" for i k
    using that small [OF that(1)] X(2) [of k i] X(4) [OF that(1)] by (auto simp: f)
  show member: "i \<in> queued Q \<union> L \<and> nd_id (node b i) = k" if "ix_find (db_index b) k = i" "i \<noteq> kInvalid" for i k
    using that X(2) [of k i] unfolding f by (auto split: if_splits option.splits)
  show "ix_find (db_index b) k = kInvalid \<longleftrightarrow> (\<forall>i\<in>queued Q \<union> L. nd_id (node b i) \<noteq> k)"
  proof
    show "\<forall>i\<in>queued Q \<union> L. nd_id (node b i) \<noteq> k" if "ix_find (db_index b) k = kInvalid"
      using hit [of _ k] that less_irrefl by metis
    show "ix_find (db_index b) k = kInvalid" if "\<forall>i\<in>queued Q \<union> L. nd_id (node b i) \<noteq> k"
      using member [OF refl, of k] that by blast
  qed
  show "ix_map (db_index b) k = None" if "ix_find (db_index b) k = kInvalid" "k \<noteq> UINT64_MAX"
  proof (cases "ix_map (db_index b) k")
    case (Some v)
    then have "v \<in> queued Q \<union> L" using X(2) by blast
    from small [OF this] show ?thesis using that Some by (simp add: f)
  qed
qed

section \<open>Allocation and release\<close>

lemma free_chain_cong:
  "(\<And>x. x \<in> set F \<Longrightarrow> nd_free_next (ns' ! x) = nd_free_next (ns ! x)) \<Longrightarrow> free_chain ns' f F = free_chain ns f F"
  by (induction F arbitrary: f) auto

lemma allocate_empty: "db_inv Q [] L b \<Longrightarrow> allocate b = (b, kInvalid)"
  by (auto simp: db_inv_def alloc_ok_def allocate_def)

lemma register_node:
  assumes inv: "db_inv Q (i # F) L b" and k: "k \<noteq> 0" "k \<noteq> UINT64_MAX" "ix_find (db_index b) k = kInvalid"
    and n: "nd_id n = k" "nd_next n = kInvalid"
  shows "\<exists>b1 ix. allocate b = (b1, i) \<and> i \<noteq> kInvalid \<and> ix_insert (db_index b1) k i = (ix, True) \<and>
    node b1 i = Node_default \<and> i < length (db_nodes b1) \<and>
    db_inv Q F (insert i L) (upd_node i (\<lambda>_. n) (b1\<lparr>db_index := ix\<rparr>)) \<and>
    i \<notin> queued Q \<union> L \<and> (\<forall>j. j \<noteq> i \<longrightarrow> node b1 j = node b j) \<and>
    level_price b1 = level_price b \<and> db_level_count b1 = db_level_count b"
proof -
  note I = db_invD [OF inv] note X = index_okD [OF I(5)]
  let ?V = "queued Q \<union> L"
  define b1 where "b1 = fst (allocate b)"
  have i: "i \<notin> ?V" "i < db_order_capacity b" "db_free b = i" "i \<notin> set F" using I(4) by (auto simp: alloc_ok_def)
  then have i': "i < length (db_nodes b)" "i < kInvalid" using I(1) by (simp_all add: shape_ok_def)
  have alloc: "allocate b = (b1, i)" using i i' by (simp add: b1_def allocate_def Let_def)
  have b1: "db_nodes b1 = (db_nodes b)[i := Node_default]" "db_free b1 = nd_free_next (node b i)" "db_active b1 = db_active b + 1"
    "db_index b1 = db_index b" "db_bids b1 = db_bids b" "db_asks b1 = db_asks b"
    "db_bid_bitmap b1 = db_bid_bitmap b" "db_ask_bitmap b1 = db_ask_bitmap b"
    "db_order_capacity b1 = db_order_capacity b" "db_minimum_price b1 = db_minimum_price b"
    "db_tick_size b1 = db_tick_size b" "db_level_count b1 = db_level_count b"
    "db_best_bid b1 = db_best_bid b" "db_best_ask b1 = db_best_ask b"
    using i i' by (simp_all add: b1_def allocate_def Let_def upd_node_def)
  have sub: "?V \<subseteq> {..<db_order_capacity b}" using I(4) by (auto simp: alloc_ok_def)
  have room: "card (dom (ix_map (db_index b))) + 1 < ix_capacity (db_index b)" using index_room [OF I(5) sub] by linarith
  have none: "ix_map (db_index b) k = None" by (rule index_find(4) [OF inv k(3,2)])
  obtain ix where ix: "ix_insert (db_index b) k i = (ix, True)" "ix_wf ix" "ix_map ix = (ix_map (db_index b))(k \<mapsto> i)"
    "ix_capacity ix = ix_capacity (db_index b)"
    using ix_insert_fresh [OF X(1) k(1) none room] by blast
  define b2 where "b2 = upd_node i (\<lambda>_. n) (b1\<lparr>db_index := ix\<rparr>)"
  have b2: "db_nodes b2 = (db_nodes b)[i := n]" "db_free b2 = nd_free_next (node b i)" "db_active b2 = db_active b + 1"
    "db_index b2 = ix" "db_order_capacity b2 = db_order_capacity b"
    using b1 by (simp_all add: b2_def upd_node_def)
  have same: "node b2 j = node b j" if "j \<noteq> i" for j using that by (simp add: b2)
  have fr: "shape_ok b2" "links_ok Q b2" "bits_ok Q b2"
    by (rule book_frame [OF I(1-3)]; use i(1) same b1 in \<open>fastforce simp: b2_def upd_node_def\<close>)+
  have fin: "finite ?V" using sub finite_subset by blast
  have "free_chain (db_nodes b2) (nd_free_next (node b i)) F = free_chain (db_nodes b) (nd_free_next (node b i)) F"
    using i(4) by (intro free_chain_cong arg_cong [of _ _ nd_free_next] same) auto
  then have al: "alloc_ok F (queued Q \<union> insert i L) b2"
    using I(4) i(1,4) fin by (auto simp: alloc_ok_def b2)
  have fresh: "\<forall>j\<in>?V. nd_id (node b j) \<noteq> k" using iffD1 [OF index_find(1) [OF inv] k(3)] .
  have "(ix_map ix k' = Some j) = (j \<in> queued Q \<union> insert i L \<and> nd_id (node b2 j) = k')" for k' j
  proof (cases "j = i")
    case True
    have "ix_map (db_index b) k' \<noteq> Some i" using X(2) [of k' i] i(1) by blast
    then show ?thesis using True n(1) i'(1) by (auto simp: ix(3) b2)
  next
    case False
    show ?thesis using False X(2) [of k' j] fresh by (auto simp: ix(3) same)
  qed
  then have "index_ok (queued Q \<union> insert i L) b2"
    using I(5) k(1,2) n(1) i'(1) same unfolding index_ok_def b2(4,5) ix(4)
    by (smt (verit, best) Un_insert_right insertE ix(2) nth_list_update_eq b2(1))
  then have "db_inv Q F (insert i L) b2"
    unfolding db_inv_def using fr al I(6,7) i i' n(2) same by (auto simp: b2 nth_list_update)
  then show ?thesis using alloc i i' ix(1) b1 by (auto simp: b2_def level_price_def fun_eq_iff)
qed

lemma release_inv:
  assumes inv: "db_inv Q F L b" and i: "i \<in> L"
  shows "db_inv Q (i # F) (L - {i}) (release i b)" "\<forall>j\<in>queued Q. node (release i b) j = node b j"
proof -
  note I = db_invD [OF inv] note X = index_okD [OF I(5)]
  let ?V = "queued Q \<union> L" and ?b = "release i b"
  note bnd = node_bounds [OF inv UnI2 [OF i]]
  have V: "queued Q \<union> (L - {i}) = ?V - {i}" "i \<in> ?V" "i \<notin> queued Q" using i I(6) by auto
  have "ix_map (db_index b) (nd_id (node b i)) = Some i" using X(2) i by simp
  then obtain ix where ix: "ix_erase (db_index b) (nd_id (node b i)) = (ix, True)" "ix_wf ix"
    "ix_map ix = (ix_map (db_index b))(nd_id (node b i) := None)" "ix_capacity ix = ix_capacity (db_index b)"
    using ix_erase_present [OF X(1), of "nd_id (node b i)"] by auto
  have rb: "db_nodes ?b = (db_nodes b)[i := (node b i)\<lparr>nd_free_next := db_free b\<rparr>]" "db_free ?b = i"
    "db_active ?b = db_active b - 1" "db_index ?b = ix" "db_order_capacity ?b = db_order_capacity b"
    using ix(1) by (simp_all add: release_def release_without_index_def Let_def upd_node_def)
  have same: "node ?b j = node b j" if "j \<noteq> i" for j using that by (simp add: rb)
  show keep: "\<forall>j\<in>queued Q. node ?b j = node b j" using same V(3) by metis
  have fr: "shape_ok ?b" "links_ok Q ?b" "bits_ok Q ?b"
    by (rule book_frame [OF I(1-3) keep]; simp add: release_def release_without_index_def Let_def upd_node_def)+
  have "free_chain (db_nodes ?b) (db_free b) F = free_chain (db_nodes b) (db_free b) F"
    using bnd(3) by (intro free_chain_cong arg_cong [of _ _ nd_free_next] same) auto
  moreover have fin: "finite ?V" using I(4) finite_subset [of ?V "{..<db_order_capacity b}"] by (auto simp: alloc_ok_def)
  ultimately have al: "alloc_ok (i # F) (?V - {i}) ?b"
    using I(4) V(2) bnd by (auto simp: alloc_ok_def rb card_Diff_singleton)
  have inj: "nd_id (node b j) \<noteq> nd_id (node b i)" if "j \<in> ?V" "j \<noteq> i" for j
    using that X(2) [of "nd_id (node b i)" j] X(2) [of "nd_id (node b i)" i] V(2) by auto
  have "(ix_map ix k = Some j) = (j \<in> ?V - {i} \<and> nd_id (node ?b j) = k)" for k j
    using X(2) [of k j] inj [of j] same [of j] by (cases "j = i") (auto simp: ix(3))
  moreover have "\<forall>j\<in>?V - {i}. nd_id (node ?b j) = nd_id (node b j)" using same by simp
  ultimately have "index_ok (?V - {i}) ?b" using I(5) ix(2) unfolding index_ok_def rb(4,5) ix(4) by auto
  then show "db_inv Q (i # F) (L - {i}) ?b"
    unfolding db_inv_def V(1) using fr al I(6,7) same by auto
qed

section \<open>Changing an order in place\<close>

lemma loose_update:
  assumes inv: "db_inv Q F L b" and i: "i \<in> L"
    and f: "nd_id n = nd_id (node b i)" "nd_next n = kInvalid" "nd_free_next n = nd_free_next (node b i)"
  shows "db_inv Q F L (upd_node i (\<lambda>_. n) b)"
proof -
  note I = db_invD [OF inv]
  let ?b = "upd_node i (\<lambda>_. n) b"
  have len: "i < length (db_nodes b)" using node_bounds [OF inv UnI2 [OF i]] by blast
  have same: "node ?b j = node b j" if "j \<noteq> i" for j using that by simp
  have keep: "nd_id (node ?b j) = nd_id (node b j)" "nd_free_next (node ?b j) = nd_free_next (node b j)" for j
    using f len same [of j] by (cases "j = i"; simp)+
  have "i \<notin> queued Q" using I(6) i by auto
  then have "\<forall>j\<in>queued Q. node ?b j = node b j" using same by metis
  note fr = book_frame [OF I(1-3) this]
  have "shape_ok ?b" "links_ok Q ?b" "bits_ok Q ?b" by (rule fr; simp add: upd_node_def)+
  moreover have "alloc_ok F (queued Q \<union> L) ?b" by (rule alloc_ok_frame [OF I(4) keep(2)]) simp_all
  moreover have "index_ok (queued Q \<union> L) ?b" by (rule index_ok_frame [OF I(5) keep(1)]) simp_all
  ultimately show ?thesis unfolding db_inv_def using I(6,7) f(2) len by (auto simp: nth_list_update)
qed

text \<open>Replacing the identifier of a loose node: the index holds the new key and no longer the old.\<close>

lemma loose_rekey:
  assumes inv: "db_inv Q F L b" and i: "i \<in> L"
    and k: "k \<noteq> 0" "k \<noteq> UINT64_MAX" "ix_find (db_index b) k = kInvalid"
    and n: "nd_id n = k" "nd_next n = kInvalid" "nd_free_next n = nd_free_next (node b i)"
  shows "\<exists>ix. ix_insert (db_index b) k i = (ix, True) \<and>
    db_inv Q F L (upd_node i (\<lambda>_. n) (b\<lparr>db_index := fst (ix_erase ix (nd_id (node b i)))\<rparr>))"
proof -
  note I = db_invD [OF inv] note X = index_okD [OF I(5)]
  let ?V = "queued Q \<union> L" and ?old = "nd_id (node b i)"
  have iV: "i \<in> ?V" using i by blast
  have len: "i < length (db_nodes b)" using node_bounds [OF inv iV] by blast
  have sub: "?V \<subseteq> {..<db_order_capacity b}" using I(4) by (auto simp: alloc_ok_def)
  have room: "card (dom (ix_map (db_index b))) + 1 < ix_capacity (db_index b)" using index_room [OF I(5) sub] by linarith
  have none: "ix_map (db_index b) k = None" by (rule index_find(4) [OF inv k(3,2)])
  obtain ix where ix: "ix_insert (db_index b) k i = (ix, True)" "ix_wf ix" "ix_map ix = (ix_map (db_index b))(k \<mapsto> i)"
    "ix_capacity ix = ix_capacity (db_index b)"
    using ix_insert_fresh [OF X(1) k(1) none room] by blast
  have old: "ix_map (db_index b) ?old = Some i" "?old \<noteq> k" using X(2) [of ?old i] iV none by auto
  then obtain ix' where ix': "ix_erase ix ?old = (ix', True)" "ix_wf ix'"
    "ix_map ix' = (ix_map ix)(?old := None)" "ix_capacity ix' = ix_capacity ix"
    using ix_erase_present [OF ix(2), of ?old] by (auto simp: ix(3))
  define b' where "b' = upd_node i (\<lambda>_. n) (b\<lparr>db_index := ix'\<rparr>)"
  have b': "db_nodes b' = (db_nodes b)[i := n]" "db_index b' = ix'" "db_order_capacity b' = db_order_capacity b"
    "db_free b' = db_free b" "db_active b' = db_active b"
    by (simp_all add: b'_def upd_node_def)
  have same: "node b' j = node b j" if "j \<noteq> i" for j using that by (simp add: b')
  have "i \<notin> queued Q" using I(6) i by auto
  then have "\<forall>j\<in>queued Q. node b' j = node b j" using same by metis
  note fr = book_frame [OF I(1-3) this]
  have "shape_ok b'" "links_ok Q b'" "bits_ok Q b'" by (rule fr; simp add: b'_def upd_node_def)+
  moreover have "nd_free_next (node b' j) = nd_free_next (node b j)" for j
    using n(3) len same [of j] by (cases "j = i"; simp add: b')
  then have "alloc_ok F ?V b'" by (rule alloc_ok_frame [OF I(4)]) (simp_all add: b')
  moreover have "index_ok ?V b'"
  proof -
    have "(ix_map ix' k' = Some j) = (j \<in> ?V \<and> nd_id (node b' j) = k')" for k' j
    proof (cases "j = i")
      case True
      then show ?thesis using X(2) [of k' i] iV n(1) len old by (auto simp: ix'(3) ix(3) b')
    next
      case False
      have "j \<in> ?V \<Longrightarrow> nd_id (node b j) \<noteq> ?old \<and> nd_id (node b j) \<noteq> k"
        using False X(2) [of ?old j] X(2) [of k j] old none by auto
      then show ?thesis using False X(2) [of k' j] by (auto simp: ix'(3) ix(3) same)
    qed
    moreover have "nd_id (node b' j) \<noteq> 0 \<and> nd_id (node b' j) \<noteq> UINT64_MAX" if "j \<in> ?V" for j
      using that X(3,4) [of j] k n(1) len same [of j] by (cases "j = i") (auto simp: b')
    ultimately show ?thesis using I(5) ix'(2) unfolding index_ok_def b'(2,3) ix'(4) ix(4) by blast
  qed
  moreover have "nd_next (node b' j) = kInvalid" if "j \<in> L" for j
    using that n(2) I(7) [of j] len same [of j] by (cases "j = i") (auto simp: b')
  ultimately have "db_inv Q F L b'" unfolding db_inv_def using I(6) by blast
  then show ?thesis using ix(1) ix'(1) by (auto simp: b'_def)
qed

text \<open>A trade or a reduction: the quantity of a queued order and the total of its level drop together.\<close>

lemma sum_list_lower:
  assumes "distinct q" "i \<in> set q" "\<And>j. j \<noteq> i \<Longrightarrow> g j = f j" "g i = f i - (x::u64)"
  shows "sum_list (map g q) = sum_list (map f q) - x"
proof -
  obtain xs ys where q: "q = xs @ i # ys" using assms(2) by (auto simp: in_set_conv_decomp)
  have "map g zs = map f zs" if "i \<notin> set zs" for zs using that assms(3) by (metis (no_types, lifting) map_eq_conv)
  then have same: "map g xs = map f xs" "map g ys = map f ys" using assms(1) q by auto
  show ?thesis unfolding q map_append list.map same sum_list.append sum_list.Cons assms(4) by simp
qed

lemma reduce_inv:
  assumes inv: "db_inv Q F L b" and i: "i \<in> set (Q s l)"
    and n: "nd_core n = (nd_id (node b i), nd_price (node b i), nd_remaining (node b i) - x, l, s)"
      "nd_previous n = nd_previous (node b i)" "nd_next n = nd_next (node b i)" "nd_free_next n = nd_free_next (node b i)"
  defines "b' \<equiv> put_level s l ((level_at b s l)\<lparr>lv_total := lv_total (level_at b s l) - x\<rparr>) (upd_node i (\<lambda>_. n) b)"
  shows "db_inv Q F L b'"
proof -
  note I = db_invD [OF inv] note mem = queue_member [OF I(2) i]
  have nodes: "db_nodes b' = (db_nodes b)[i := n]" by (simp add: b'_def)
  have same: "node b' j = node b j" if "j \<noteq> i" for j using that by (simp add: nodes)
  have ni: "node b' i = n" using mem(1) by (simp add: nodes)
  have n': "nd_id n = nd_id (node b i)" "nd_price n = nd_price (node b i)" "nd_remaining n = nd_remaining (node b i) - x"
    "nd_level n = l" "nd_side n = s" using n(1) by (simp_all add: nd_core_def)
  have sh: "shape_ok (upd_node i (\<lambda>_. n) b)" "shape_ok b'" using I(1) by (simp_all add: shape_ok_def b'_def)
  have lev: "level_at b' s' l' = (if s' = s \<and> l' = l then (level_at b s l)\<lparr>lv_total := lv_total (level_at b s l) - x\<rparr>
      else level_at b s' l')" for s' l'
    using level_at_put [OF sh(1)] mem(4) by (simp add: b'_def)
  have ok: "level_ok b s l (Q s l)" by (rule links_okD(1) [OF I(2) mem(4)])
  have keep: "nd_previous (node b' j) = nd_previous (node b j)" "nd_next (node b' j) = nd_next (node b j)"
    "nd_free_next (node b' j) = nd_free_next (node b j)" "nd_id (node b' j) = nd_id (node b j)"
    "nd_price (node b' j) = nd_price (node b j)" "nd_level (node b' j) = nd_level (node b j)"
    "nd_side (node b' j) = nd_side (node b j)" for j
    using n n' mem same [of j] by (cases "j = i"; simp add: ni)+
  have "sum_list (map (\<lambda>i. nd_remaining (node b' i)) (Q s l)) = sum_list (map (\<lambda>i. nd_remaining (node b i)) (Q s l)) - x"
    using ok same n'(3) by (intro sum_list_lower [OF _ i]) (auto simp: level_ok_def ni)
  moreover have "seg (db_nodes b') kInvalid kInvalid (Q s l)"
    using ok keep(1,2) seg_cong [of "Q s l" "db_nodes b'" "db_nodes b"] by (auto simp: level_ok_def)
  ultimately have "level_ok b' s l (Q s l)"
    using ok keep mem(1) by (simp add: level_ok_def lev nodes) (simp add: b'_def)
  then have "links_ok (updq Q s l (Q s l)) b'"
  proof (rule links_ok_update [OF I(2)])
    show "node b' j = node b j" if "j \<in> set (Q s' l')" "(s', l') \<noteq> (s, l)" for j s' l'
      using queue_other [OF I(2) that] i by (intro same) auto
  qed (use mem(4) lev in \<open>auto simp: b'_def\<close>)
  then have "links_ok Q b'" by simp
  moreover have "bits_ok Q b'" using I(3) by (simp add: bits_ok_def b'_def)
  moreover have "alloc_ok F (queued Q \<union> L) b'" by (rule alloc_ok_frame [OF I(4) keep(3)]) (simp_all add: b'_def)
  moreover have "index_ok (queued Q \<union> L) b'" by (rule index_ok_frame [OF I(5) keep(4)]) (simp_all add: b'_def)
  ultimately show ?thesis unfolding db_inv_def using sh(2) I(6,7) keep(2) by simp
qed

lemma unlink_filled_unlink:
  assumes "level_ok b s l (i # q)" "nd_remaining (node b i) = 0"
  shows "unlink_filled i l b = unlink i b"
proof -
  have "nd_previous (node b i) = kInvalid" "nd_side (node b i) = s" "nd_level (node b i) = l"
    using assms(1) by (auto simp: level_ok_def)
  then show ?thesis using assms(2) by (simp add: unlink_filled_def unlink_def Let_def)
qed

section \<open>A new book\<close>

lemma free_chain_new:
  assumes "n + m = c" "length ns = c" "\<And>i. i < c \<Longrightarrow> nd_free_next (ns ! i) = (if i + 1 < c then i + 1 else kInvalid)"
  shows "free_chain ns (if n < c then n else kInvalid) [n..<c]"
  using assms(1)
proof (induction m arbitrary: n)
  case (Suc m)
  from Suc.prems have "n + 1 + m = c" by simp
  from Suc.IH [OF this] have "free_chain ns (if n + 1 < c then n + 1 else kInvalid) [n + 1..<c]" .
  then show ?case using Suc.prems assms(3) [of n] by (simp add: upt_conv_Cons)
qed simp

lemma new_book_inv:
  assumes "order_capacity < kInvalid" "level_count + 63 < 2 ^ 32" "0 < tick_size"
  shows "db_inv (\<lambda>_ _. []) [0..<order_capacity] {} (DensePriceOrderBook_new order_capacity minimum_price tick_size level_count)"
    (is "db_inv _ _ _ ?b")
proof -
  have bm: "bitmap ?b s = replicate (bitmap_words level_count) 0" for s
    by (simp add: bitmap_def DensePriceOrderBook_new_def)
  have lv: "l < level_count \<Longrightarrow> level_at ?b s l = PriceLevel_default" for s l
    by (simp add: level_at_def DensePriceOrderBook_new_def)
  have ix: "ix_wf (FixedOrderIndex_new order_capacity)" "ix_map (FixedOrderIndex_new order_capacity) = Map.empty"
    "order_capacity * 4 \<le> ix_capacity (FixedOrderIndex_new order_capacity)"
    "8 \<le> ix_capacity (FixedOrderIndex_new order_capacity)"
    using FixedOrderIndex_new_wf [of order_capacity] assms(1) by auto
  have "shape_ok ?b" using assms bm by (simp add: shape_ok_def) (simp add: DensePriceOrderBook_new_def)
  moreover have "links_ok (\<lambda>_ _. []) ?b"
    unfolding links_ok_def using lv by (simp add: level_ok_def PriceLevel_default_def) (simp add: DensePriceOrderBook_new_def)
  moreover have "bits_ok (\<lambda>_ _. []) ?b"
    using bm by (auto simp: bits_ok_def bm_bit_def top_level_def low_level_def DensePriceOrderBook_new_def)
  moreover have "alloc_ok [0..<order_capacity] {} ?b"
    using free_chain_new [of 0 order_capacity order_capacity "db_nodes ?b"]
    by (auto simp: alloc_ok_def DensePriceOrderBook_new_def)
  moreover have "index_ok {} ?b" using ix by (simp add: index_ok_def DensePriceOrderBook_new_def)
  moreover have "queued (\<lambda>_ _. []) = {}" by (simp add: queued_def)
  ultimately show ?thesis by (simp add: db_inv_def)
qed

section \<open>Walking a level\<close>

lemma visit_seg:
  assumes "seg ns p kInvalid q" "\<forall>i\<in>set q. i < kInvalid"
  shows "visit_from ns (if q = [] then kInvalid else hd q) = Some (map (\<lambda>i. (nd_id (ns ! i), nd_remaining (ns ! i))) q)"
  using assms
proof (induction q arbitrary: p)
  case Nil
  then show ?case by (simp add: visit_from.simps)
next
  case (Cons i q)
  then have "seg ns i kInvalid q" "nd_next (ns ! i) = (if q = [] then kInvalid else hd q)" "i < kInvalid" by auto
  then show ?case using Cons.IH [of i] Cons.prems(2) visit_from.simps [of ns i] by simp
qed

end
