(* ===== verification/DenseBookFeed.thy ===== *)
theory DenseBookFeed
  imports DenseBookOps
begin

text \<open>
  The contract of the dense order book as a market data consumer sees it: the book is a list of
  resting orders in time priority. The theory defines that specification, the relation between it
  and the linked, bitmap indexed book, and proves that every feed operation and every query
  implements it.
\<close>

section \<open>The specification\<close>

record resting =
  rs_id :: u64
  rs_side :: Side
  rs_price :: int
  rs_quantity :: u64

definition spec_find :: "resting list \<Rightarrow> u64 \<Rightarrow> resting option" where
  "spec_find os k = List.find (\<lambda>r. rs_id r = k) os"

definition spec_remove :: "u64 \<Rightarrow> resting list \<Rightarrow> resting list" where
  "spec_remove k os = filter (\<lambda>r. rs_id r \<noteq> k) os"

definition spec_lower :: "u64 \<Rightarrow> u64 \<Rightarrow> resting list \<Rightarrow> resting list" where
  "spec_lower k x os = map (\<lambda>r. if rs_id r = k then r\<lparr>rs_quantity := rs_quantity r - x\<rparr> else r) os"

definition spec_level :: "resting list \<Rightarrow> Side \<Rightarrow> int \<Rightarrow> resting list" where
  "spec_level os side price = filter (\<lambda>r. rs_side r = side \<and> rs_price r = price) os"

definition spec_prices :: "resting list \<Rightarrow> Side \<Rightarrow> int list" where
  "spec_prices os side = map rs_price (filter (\<lambda>r. rs_side r = side) os)"

definition spec_best_bid :: "resting list \<Rightarrow> int" where
  "spec_best_bid os = (if spec_prices os Buy = [] then 0 else Max (set (spec_prices os Buy)))"

definition spec_best_ask :: "resting list \<Rightarrow> int" where
  "spec_best_ask os = (if spec_prices os Sell = [] then 0 else Min (set (spec_prices os Sell)))"

definition spec_remaining :: "resting list \<Rightarrow> u64 \<Rightarrow> u64" where
  "spec_remaining os k = (case spec_find os k of None \<Rightarrow> 0 | Some r \<Rightarrow> rs_quantity r)"

text \<open>The queries of the book and their answers by the specification.\<close>

definition book_answers :: "DensePriceOrderBook \<Rightarrow> resting list \<Rightarrow> bool" where
  "book_answers b os \<longleftrightarrow>
     active_orders b = length os \<and> best_bid b = spec_best_bid os \<and> best_ask b = spec_best_ask os \<and>
     (\<forall>k. contains b k = (spec_find os k \<noteq> None) \<and> remaining b k = spec_remaining os k) \<and>
     (\<forall>side price.
        level_quantity b side price = sum_list (map rs_quantity (spec_level os side price)) \<and>
        visit_level b side price = Some (map (\<lambda>r. (rs_id r, rs_quantity r)) (spec_level os side price)))"

datatype feed_op =
    Feed_add u64 Side int u64
  | Feed_reduce u64 u64
  | Feed_delete u64
  | Feed_replace u64 u64 int u64

text \<open>The price grid and the capacity are parameters of the specification.\<close>

fun spec_feed :: "nat \<Rightarrow> (int \<Rightarrow> bool) \<Rightarrow> resting list \<Rightarrow> feed_op \<Rightarrow> resting list \<times> bool" where
  "spec_feed cap grid os (Feed_add k side price x) =
     (if k = 0 \<or> k = UINT64_MAX \<or> x = 0 \<or> spec_find os k \<noteq> None \<or> \<not> grid price \<or> cap \<le> length os
      then (os, False)
      else (os @ [\<lparr>rs_id = k, rs_side = side, rs_price = price, rs_quantity = x\<rparr>], True))"
| "spec_feed cap grid os (Feed_reduce k x) =
     (case spec_find os k of None \<Rightarrow> (os, False)
      | Some r \<Rightarrow>
          if x = 0 \<or> rs_quantity r < x then (os, False)
          else if x = rs_quantity r then (spec_remove k os, True)
          else (spec_lower k x os, True))"
| "spec_feed cap grid os (Feed_delete k) =
     (if spec_find os k = None then (os, False) else (spec_remove k os, True))"
| "spec_feed cap grid os (Feed_replace old new price x) =
     (case spec_find os old of None \<Rightarrow> (os, False)
      | Some r \<Rightarrow>
          if new = 0 \<or> new = UINT64_MAX \<or> x = 0 \<or> spec_find os new \<noteq> None \<or> \<not> grid price then (os, False)
          else (spec_remove old os @ [\<lparr>rs_id = new, rs_side = rs_side r, rs_price = price, rs_quantity = x\<rparr>], True))"

fun book_feed :: "DensePriceOrderBook \<Rightarrow> feed_op \<Rightarrow> DensePriceOrderBook \<times> bool" where
  "book_feed b (Feed_add k side price x) = feed_add b k side price x"
| "book_feed b (Feed_reduce k x) = feed_reduce b k x"
| "book_feed b (Feed_delete k) = feed_delete b k"
| "book_feed b (Feed_replace old new price x) = feed_replace b old new price x"

section \<open>The relation\<close>

lemma spec_find_in: "distinct (map rs_id os) \<Longrightarrow> spec_find os k = Some r \<longleftrightarrow> r \<in> set os \<and> rs_id r = k"
  by (induction os) (auto simp: spec_find_def)

lemma spec_find_None: "spec_find os k = None \<longleftrightarrow> k \<notin> rs_id ` set os"
  by (auto simp: spec_find_def find_None_iff)

definition order_of :: "DensePriceOrderBook \<Rightarrow> nat \<Rightarrow> resting" where
  "order_of b i = \<lparr>rs_id = nd_id (node b i), rs_side = nd_side (node b i), rs_price = nd_price (node b i),
     rs_quantity = nd_remaining (node b i)\<rparr>"

definition book_rel :: "queues \<Rightarrow> nat list \<Rightarrow> nat set \<Rightarrow> DensePriceOrderBook \<Rightarrow> resting list \<Rightarrow> bool" where
  "book_rel Q F L b os \<longleftrightarrow> db_inv Q F L b \<and>
     (\<forall>s l. l < db_level_count b \<longrightarrow> map (order_of b) (Q s l) = spec_level os s (level_price b l)) \<and>
     (\<forall>r\<in>set os. \<exists>l<db_level_count b. rs_price r = level_price b l) \<and> distinct (map rs_id os)"

lemma book_relD:
  assumes "book_rel Q F L b os"
  shows "db_inv Q F L b" "l < db_level_count b \<Longrightarrow> map (order_of b) (Q s l) = spec_level os s (level_price b l)"
    "r \<in> set os \<Longrightarrow> \<exists>l<db_level_count b. rs_price r = level_price b l" "distinct (map rs_id os)"
  using assms by (auto simp: book_rel_def)

lemma order_of_sel [simp]:
  "rs_id (order_of b i) = nd_id (node b i)" "rs_side (order_of b i) = nd_side (node b i)"
  "rs_price (order_of b i) = nd_price (node b i)" "rs_quantity (order_of b i) = nd_remaining (node b i)"
  by (simp_all add: order_of_def)

lemma order_of_core: "nd_core (node b' j) = nd_core (node b i) \<Longrightarrow> order_of b' j = order_of b i"
  using nd_coreD [of "node b' j" "node b i"] by (simp add: order_of_def)

lemma order_of_append [simp]: "order_of (append_order i l b) = order_of b"
  by (rule ext, rule order_of_core) simp

lemma order_of_unlink [simp]: "order_of (unlink i b) = order_of b"
  by (rule ext, rule order_of_core) simp

lemma book_relI:
  assumes "db_inv Q F L b" "\<And>s l. l < db_level_count b \<Longrightarrow> map (order_of b) (Q s l) = spec_level os s (level_price b l)"
    "\<And>r. r \<in> set os \<Longrightarrow> \<exists>l<db_level_count b. rs_price r = level_price b l" "distinct (map rs_id os)"
  shows "book_rel Q F L b os"
  using assms unfolding book_rel_def by blast

lemma price_index_iff:
  assumes "shape_ok b"
  shows "price_index b p = Some l \<longleftrightarrow> l < db_level_count b \<and> p = level_price b l"
proof -
  let ?t = "db_tick_size b" and ?d = "p - db_minimum_price b"
  have t: "0 < ?t" using assms by (simp add: shape_ok_def)
  have "price_index b p = (if 0 \<le> ?d \<and> ?d mod ?t = 0 \<and> ?d div ?t < int (db_level_count b) then Some (nat (?d div ?t)) else None)"
    using t by (auto simp: price_index_def Let_def)
  moreover have "p = level_price b l \<longleftrightarrow> ?d mod ?t = 0 \<and> ?d div ?t = int l"
  proof -
    have "?d = int l * ?t \<longleftrightarrow> ?d mod ?t = 0 \<and> ?d div ?t = int l"
      using t div_mult_mod_eq [of ?d ?t] by (metis add.right_neutral mod_mult_self2_is_0 nonzero_mult_div_cancel_right less_irrefl)
    then show ?thesis by (auto simp: level_price_def)
  qed
  moreover have "0 \<le> ?d \<longleftrightarrow> 0 \<le> ?d div ?t" using t by (simp add: pos_imp_zdiv_nonneg_iff)
  ultimately show ?thesis by auto
qed

lemma price_index_grid:
  assumes "shape_ok b"
  shows "price_index b p = None \<longleftrightarrow> \<not> (\<exists>l<db_level_count b. p = level_price b l)"
  using price_index_iff [OF assms, of p] by (metis option.exhaust option.distinct(1))

lemma level_price_inj: "shape_ok b \<Longrightarrow> level_price b l = level_price b l' \<longleftrightarrow> l = l'"
  by (auto simp: level_price_def shape_ok_def)

lemma rel_queued:
  assumes rel: "book_rel Q F L b os"
  shows "set os = order_of b ` queued Q"
proof -
  note inv = book_relD(1) [OF rel] note I = db_invD [OF inv]
  have "order_of b i \<in> set os" if i: "i \<in> set (Q s l)" for i s l
  proof -
    have "order_of b i \<in> set (spec_level os s (level_price b l))"
      using book_relD(2) [OF rel queue_member(4) [OF I(2) i], of s] i by (metis image_eqI list.set_map)
    then show ?thesis by (simp add: spec_level_def)
  qed
  moreover have "\<exists>i\<in>queued Q. r = order_of b i" if r: "r \<in> set os" for r
  proof -
    obtain l where l: "l < db_level_count b" "rs_price r = level_price b l" using book_relD(3) [OF rel r] by blast
    have "r \<in> set (spec_level os (rs_side r) (level_price b l))" using r l by (simp add: spec_level_def)
    then have "r \<in> set (map (order_of b) (Q (rs_side r) l))" using book_relD(2) [OF rel l(1)] by metis
    then show ?thesis by (auto simp: queued_def)
  qed
  ultimately show ?thesis unfolding queued_def by blast
qed

lemma rel_find:
  assumes rel: "book_rel Q F L b os"
  shows "i \<in> queued Q \<Longrightarrow> spec_find os (nd_id (node b i)) = Some (order_of b i)"
    and "spec_find os k = Some r \<Longrightarrow> \<exists>i\<in>queued Q. nd_id (node b i) = k \<and> r = order_of b i \<and> ix_find (db_index b) k = i"
    and "L = {} \<Longrightarrow> ix_find (db_index b) k = kInvalid \<longleftrightarrow> spec_find os k = None"
proof -
  note inv = book_relD(1) [OF rel] note S = rel_queued [OF rel]
  have found: "spec_find os (rs_id r) = Some r" if r: "r \<in> set os" for r
  proof -
    obtain r' where r': "spec_find os (rs_id r) = Some r'"
      using r find_None_iff [of "\<lambda>x. rs_id x = rs_id r" os] unfolding spec_find_def by blast
    then have "r' \<in> set os" "rs_id r' = rs_id r" by (auto simp: spec_find_def find_Some_iff)
    then have "r' = r" using r book_relD(4) [OF rel] by (auto simp: distinct_map inj_on_def)
    then show ?thesis using r' by simp
  qed
  show hit: "spec_find os (nd_id (node b i)) = Some (order_of b i)" if "i \<in> queued Q" for i
    using found [of "order_of b i"] S that by simp
  show found_at: "\<exists>i\<in>queued Q. nd_id (node b i) = k \<and> r = order_of b i \<and> ix_find (db_index b) k = i" if "spec_find os k = Some r" for k r
  proof -
    have r: "r \<in> set os" "rs_id r = k" using that by (auto simp: spec_find_def find_Some_iff)
    then obtain i where "i \<in> queued Q" "r = order_of b i" unfolding S by blast
    moreover from this r(2) have "nd_id (node b i) = k" by simp
    ultimately have "i \<in> queued Q" "r = order_of b i" "nd_id (node b i) = k" by blast+
    then show ?thesis using index_find(3) [OF inv, of i k] by blast
  qed
  show "ix_find (db_index b) k = kInvalid \<longleftrightarrow> spec_find os k = None" if "L = {}"
    using index_find(1) [OF inv, of k] hit found_at [of k] that by (cases "spec_find os k") auto
qed

section \<open>The steps on both sides\<close>

lemma queuedI: "i \<in> set (Q s l) \<Longrightarrow> i \<in> queued Q"
  unfolding queued_def by blast

lemma rel_frame:
  assumes rel: "book_rel Q F L b os" and inv: "db_inv Q F' L' b'"
    and "\<And>i. i \<in> queued Q \<Longrightarrow> order_of b' i = order_of b i"
    and "db_level_count b' = db_level_count b" "level_price b' = level_price b"
  shows "book_rel Q F' L' b' os"
proof -
  have "map (order_of b') (Q s l) = map (order_of b) (Q s l)" for s l using assms(3) queuedI by (metis map_cong)
  then show ?thesis using rel inv unfolding book_rel_def assms(4,5) by metis
qed

lemma rel_append:
  assumes rel: "book_rel Q F L b os" and i: "i \<in> L" and s: "nd_side (node b i) = s" and l: "nd_level (node b i) = l"
    "l < db_level_count b" "nd_price (node b i) = level_price b l"
  shows "book_rel (updq Q s l (Q s l @ [i])) F (L - {i}) (append_order i l b) (os @ [order_of b i])"
proof -
  note inv = book_relD(1) [OF rel] note I = db_invD [OF inv]
  have lv: "map (order_of b) ((updq Q s l (Q s l @ [i])) s' l') = spec_level (os @ [order_of b i]) s' (level_price b l')"
    if "l' < db_level_count b" for s' l'
    using book_relD(2) [OF rel that, of s'] s l(3) level_price_inj [OF I(1), of l l'] by (auto simp: spec_level_def)
  have fresh: "nd_id (node b i) \<notin> rs_id ` set os"
  proof
    assume "nd_id (node b i) \<in> rs_id ` set os"
    then obtain j where j: "j \<in> queued Q" "nd_id (node b i) = nd_id (node b j)" using rel_queued [OF rel] by auto
    have "ix_find (db_index b) (nd_id (node b j)) = i" "ix_find (db_index b) (nd_id (node b j)) = j"
      using index_find(3) [OF inv _ j(2)] index_find(3) [OF inv _ refl] i j(1) by blast+
    then have "i = j" by simp
    then show False using j(1) i I(6) by blast
  qed
  show ?thesis
  proof (rule book_relI [OF append_inv [OF inv i s l]])
    show "\<exists>l'<db_level_count (append_order i l b). rs_price r = level_price (append_order i l b) l'"
      if "r \<in> set (os @ [order_of b i])" for r
      using that book_relD(3) [OF rel, of r] l(2,3) by auto
  qed (use lv fresh book_relD(4) [OF rel] in \<open>simp_all only: order_of_append append_order_sel map_append distinct_append, auto\<close>)
qed

lemma queue_ids:
  assumes "db_inv Q F L b" "i \<in> queued Q" "j \<in> queued Q" "nd_id (node b i) = nd_id (node b j)"
  shows "i = j"
  using index_find(3) [OF assms(1) _ assms(4)] index_find(3) [OF assms(1) _ refl] assms(2,3) by (metis UnI1)

lemma rel_unlink:
  assumes rel: "book_rel Q F L b os" and q: "Q s l = xs @ i # ys"
  shows "book_rel (updq Q s l (xs @ ys)) F (insert i L) (unlink i b) (spec_remove (nd_id (node b i)) os)"
proof -
  note inv = book_relD(1) [OF rel] note I = db_invD [OF inv]
  let ?k = "nd_id (node b i)"
  have i: "i \<in> set (Q s l)" "i \<in> queued Q" using q by (auto intro: queuedI [of _ _ s l])
  have d: "i \<notin> set xs" "i \<notin> set ys"
    using links_okD(1) [OF I(2) queue_member(4) [OF I(2) i(1)], of s] q by (auto simp: level_ok_def)
  have keep: "filter (\<lambda>j. nd_id (node b j) \<noteq> ?k) zs = zs" if "i \<notin> set zs" "set zs \<subseteq> queued Q" for zs
    unfolding filter_id_conv using that queue_ids [OF inv _ i(2)] by blast
  have sub: "set xs \<subseteq> queued Q" "set ys \<subseteq> queued Q" using q by (auto intro: queuedI [of _ _ s l])
  have lv: "map (order_of b) ((updq Q s l (xs @ ys)) s' l') = spec_level (spec_remove ?k os) s' (level_price b l')"
    if l': "l' < db_level_count b" for s' l'
  proof -
    have "(updq Q s l (xs @ ys)) s' l' = filter (\<lambda>j. nd_id (node b j) \<noteq> ?k) (Q s' l')"
    proof (cases "(s', l') = (s, l)")
      case True
      then show ?thesis using keep [OF d(1) sub(1)] keep [OF d(2) sub(2)] q by simp
    next
      case False
      have "i \<notin> set (Q s' l')" using queue_unique [OF I(2) i(1), of s' l'] False by auto
      moreover have "set (Q s' l') \<subseteq> queued Q" by (auto simp: queued_def)
      ultimately show ?thesis using keep False by auto
    qed
    then have "map (order_of b) ((updq Q s l (xs @ ys)) s' l') = filter (\<lambda>r. rs_id r \<noteq> ?k) (map (order_of b) (Q s' l'))"
      by (simp add: filter_map comp_def)
    also have "\<dots> = spec_level (spec_remove ?k os) s' (level_price b l')"
      using book_relD(2) [OF rel l', of s'] by (simp add: spec_level_def spec_remove_def conj_ac)
    finally show ?thesis .
  qed
  have "distinct (map rs_id (spec_remove ?k os))"
    using book_relD(4) [OF rel] by (simp add: spec_remove_def distinct_map_filter)
  then show ?thesis
  proof (rule book_relI [OF unlink_inv [OF inv q], rotated -1])
    show "\<exists>l'<db_level_count (unlink i b). rs_price r = level_price (unlink i b) l'" if "r \<in> set (spec_remove ?k os)" for r
      using that book_relD(3) [OF rel, of r] by (simp add: spec_remove_def)
  qed (simp only: order_of_unlink unlink_sel lv)
qed

lemma release_sel [simp]:
  "db_level_count (release i b) = db_level_count b" "level_price (release i b) = level_price b"
  by (simp_all add: release_def release_without_index_def Let_def level_price_def fun_eq_iff)

lemma rel_release:
  assumes rel: "book_rel Q F L b os" and i: "i \<in> L"
  shows "book_rel Q (i # F) (L - {i}) (release i b) os"
proof (rule rel_frame [OF rel])
  show "db_inv Q (i # F) (L - {i}) (release i b)" by (rule release_inv(1) [OF book_relD(1) [OF rel] i])
  show "order_of (release i b) j = order_of b j" if "j \<in> queued Q" for j
    using release_inv(2) [OF book_relD(1) [OF rel] i] that by (simp add: order_of_def)
qed simp_all

lemma rel_reduce:
  assumes rel: "book_rel Q F L b os" and i: "i \<in> set (Q s l)"
    and n: "nd_core n = (nd_id (node b i), nd_price (node b i), nd_remaining (node b i) - x, l, s)"
      "nd_previous n = nd_previous (node b i)" "nd_next n = nd_next (node b i)" "nd_free_next n = nd_free_next (node b i)"
  shows "book_rel Q F L (put_level s l ((level_at b s l)\<lparr>lv_total := lv_total (level_at b s l) - x\<rparr>)
    (upd_node i (\<lambda>_. n) b)) (spec_lower (nd_id (node b i)) x os)" (is "book_rel Q F L ?b ?os")
proof -
  note inv = book_relD(1) [OF rel] note I = db_invD [OF inv]
  let ?k = "nd_id (node b i)" and ?f = "\<lambda>r. if rs_id r = nd_id (node b i) then r\<lparr>rs_quantity := rs_quantity r - x\<rparr> else r"
  have iq: "i \<in> queued Q" "i < length (db_nodes b)" using queuedI [of i Q, OF i] queue_member(1) [OF I(2) i] by auto
  have "order_of ?b j = ?f (order_of b j)" if "j \<in> queued Q" for j
  proof (cases "j = i")
    case True
    then show ?thesis using iq(2) n(1) queue_member [OF I(2) i] by (simp add: order_of_def nd_core_def)
  next
    case False
    then have "nd_id (node b j) \<noteq> nd_id (node b i)" using queue_ids [OF inv that iq(1)] by blast
    then show ?thesis using False by (simp add: order_of_def)
  qed
  then have ord: "map (order_of ?b) (Q s' l') = map ?f (map (order_of b) (Q s' l'))" for s' l'
    using queuedI [of _ Q s' l'] by simp
  have lv: "spec_level ?os s' p = map ?f (spec_level os s' p)" for s' p
    by (induction os) (auto simp: spec_level_def spec_lower_def)
  have ids: "map rs_id ?os = map rs_id os" by (induction os) (auto simp: spec_lower_def)
  have "\<exists>l<db_level_count b. rs_price r = level_price b l" if "r \<in> set ?os" for r
    using that book_relD(3) [OF rel] by (auto simp: spec_lower_def split: if_splits)
  then show ?thesis
    using reduce_inv [OF inv i n] book_relD(2,4) [OF rel] unfolding book_rel_def by (simp add: ord lv ids)
qed

section \<open>The feed operations\<close>

lemma upd_node_const: "upd_node i f b = upd_node i (\<lambda>_. f (node b i)) b"
  by (simp add: upd_node_def)

lemma rel_active:
  assumes rel: "book_rel Q F {} b os"
  shows "length os = db_active b" "length os = db_order_capacity b - length F" "length F \<le> db_order_capacity b"
proof -
  note inv = book_relD(1) [OF rel]
  have al: "distinct F" "set F \<inter> queued Q = {}" "set F \<union> queued Q = {..<db_order_capacity b}" "db_active b = card (queued Q)"
    using db_invD(4) [OF inv] by (auto simp: alloc_ok_def)
  have fin: "finite (queued Q)" using al(3) finite_subset [of "queued Q" "{..<db_order_capacity b}"] by auto
  have "inj_on (order_of b) (queued Q)"
  proof (rule inj_onI)
    fix i j assume q: "i \<in> queued Q" "j \<in> queued Q" and eq: "order_of b i = order_of b j"
    show "i = j" by (rule queue_ids [OF inv q]) (use arg_cong [OF eq, of rs_id] in simp)
  qed
  moreover have "distinct os" using book_relD(4) [OF rel] by (simp add: distinct_map)
  ultimately show "length os = db_active b"
    unfolding al(4) using rel_queued [OF rel] distinct_card [of os] card_image by metis
  moreover have "db_order_capacity b = length F + card (queued Q)"
    using card_Un_disjoint [OF _ fin al(2)] al(3) distinct_card [OF al(1)] by simp
  ultimately show "length os = db_order_capacity b - length F" "length F \<le> db_order_capacity b" using al(4) by simp_all
qed

definition same_grid :: "DensePriceOrderBook \<Rightarrow> DensePriceOrderBook \<Rightarrow> bool" where
  "same_grid b b' \<longleftrightarrow> db_order_capacity b' = db_order_capacity b \<and> db_minimum_price b' = db_minimum_price b \<and>
     db_tick_size b' = db_tick_size b \<and> db_level_count b' = db_level_count b"

lemma same_gridD:
  "same_grid b b' \<Longrightarrow> price_index b' = price_index b \<and> level_price b' = level_price b \<and>
    db_order_capacity b' = db_order_capacity b \<and> db_level_count b' = db_level_count b"
  by (auto simp: same_grid_def price_index_def level_price_def Let_def intro!: ext)

lemma same_grid_trans: "same_grid b b' \<Longrightarrow> same_grid b' b'' \<Longrightarrow> same_grid b b''"
  by (simp add: same_grid_def)

lemma same_grid_steps [simp]:
  "same_grid b b" "same_grid b (append_order i l b') = same_grid b b'" "same_grid b (unlink i b') = same_grid b b'"
  "same_grid b (release i b') = same_grid b b'" "same_grid b (upd_node i f b') = same_grid b b'"
  "same_grid b (put_level s l v b') = same_grid b b'" "same_grid b (b'\<lparr>db_index := ix\<rparr>) = same_grid b b'"
  "same_grid b (fst (allocate b')) = same_grid b b'"
  by (simp_all add: same_grid_def release_def release_without_index_def allocate_def Let_def)

definition implements :: "DensePriceOrderBook \<Rightarrow> resting list \<Rightarrow> bool" where
  "implements b os \<longleftrightarrow> (\<exists>Q F. book_rel Q F {} b os)"

lemma rel_register:
  fixes side :: Side and price :: int and x :: u64 and level :: nat
  assumes rel: "book_rel Q (i # F) L b os" and k: "k \<noteq> 0" "k \<noteq> UINT64_MAX" "ix_find (db_index b) k = kInvalid"
  defines "n \<equiv> fill_node k side price x level Node_default"
  shows "\<exists>b1 ix. allocate b = (b1, i) \<and> i \<noteq> kInvalid \<and> ix_insert (db_index b1) k i = (ix, True) \<and>
    (let b2 = upd_node i (fill_node k side price x level) (b1\<lparr>db_index := ix\<rparr>) in
     book_rel Q F (insert i L) b2 os \<and> node b2 i = n \<and> same_grid b b2)"
proof -
  note inv = book_relD(1) [OF rel]
  have n: "nd_id n = k" "nd_next n = kInvalid" by (simp_all add: n_def fill_node_def Node_default_def)
  obtain b1 ix where r: "allocate b = (b1, i)" "i \<noteq> kInvalid" "ix_insert (db_index b1) k i = (ix, True)"
    "node b1 i = Node_default" "i < length (db_nodes b1)"
    "db_inv Q F (insert i L) (upd_node i (\<lambda>_. n) (b1\<lparr>db_index := ix\<rparr>))"
    "i \<notin> queued Q \<union> L" "\<forall>j. j \<noteq> i \<longrightarrow> node b1 j = node b j"
    "level_price b1 = level_price b" "db_level_count b1 = db_level_count b"
    using register_node [OF inv k n] by blast
  let ?b = "upd_node i (fill_node k side price x level) (b1\<lparr>db_index := ix\<rparr>)"
  have b: "?b = upd_node i (\<lambda>_. n) (b1\<lparr>db_index := ix\<rparr>)"
    by (subst upd_node_const) (simp add: r(4) n_def)
  have "order_of ?b j = order_of b j" if "j \<in> queued Q" for j
  proof -
    have "j \<noteq> i" using that r(7) by blast
    then show ?thesis using r(8) by (simp add: order_of_def)
  qed
  then have "book_rel Q F (insert i L) ?b os"
    using r(6,9,10) unfolding b [symmetric] by (intro rel_frame [OF rel]) (simp_all add: level_price_def fun_eq_iff)
  moreover have "same_grid b ?b" using same_grid_steps(8) [of b b] r(1) by simp
  ultimately show ?thesis using r(1-5) by (auto simp: Let_def n_def)
qed

lemma feed_add_step:
  assumes rel: "book_rel Q F {} b os"
  shows "\<exists>b' os' r. feed_add b k side price x = (b', r) \<and> same_grid b b' \<and> implements b' os' \<and> (r \<or> b' = b) \<and>
    spec_feed (db_order_capacity b) (\<lambda>p. price_index b p \<noteq> None) os (Feed_add k side price x) = (os', r)"
proof (cases "k = 0 \<or> k = UINT64_MAX \<or> x = 0 \<or> spec_find os k \<noteq> None \<or> price_index b price = None \<or> F = []")
  case True
  have "feed_add b k side price x = (b, False)"
    using True rel_find(3) [OF rel refl, of k] allocate_empty [of Q "{}" b] book_relD(1) [OF rel]
    by (auto simp: feed_add_def split: option.splits)
  moreover have "F = [] \<longleftrightarrow> db_order_capacity b \<le> length os" using rel_active [OF rel] by (cases F) auto
  ultimately show ?thesis using True rel by (auto simp: implements_def)
next
  case False
  then obtain i F' level where F: "F = i # F'" "price_index b price = Some level" by (cases F) auto
  have k: "k \<noteq> 0" "k \<noteq> UINT64_MAX" "ix_find (db_index b) k = kInvalid" "x \<noteq> 0" using False rel_find(3) [OF rel refl] by auto
  obtain b1 ix where r: "allocate b = (b1, i)" "i \<noteq> kInvalid" "ix_insert (db_index b1) k i = (ix, True)"
    and r2: "let b2 = upd_node i (fill_node k side price x level) (b1\<lparr>db_index := ix\<rparr>) in
      book_rel Q F' {i} b2 os \<and> node b2 i = fill_node k side price x level Node_default \<and> same_grid b b2"
    using rel_register [OF rel [unfolded F(1)] k(1-3)] by blast
  define b2 where "b2 = upd_node i (fill_node k side price x level) (b1\<lparr>db_index := ix\<rparr>)"
  have b2: "book_rel Q F' {i} b2 os" "node b2 i = fill_node k side price x level Node_default" "same_grid b b2"
    using r2 by (simp_all add: b2_def Let_def)
  have lev: "level < db_level_count b2" "price = level_price b2 level"
    using price_index_iff [OF db_invD(1) [OF book_relD(1) [OF rel]]] F(2) same_gridD [OF b2(3)] by auto
  have "feed_add b k side price x = (append_order i level b2, True)"
    using k F(2) r by (simp add: feed_add_def b2_def Let_def)
  moreover have "implements (append_order i level b2) (os @ [order_of b2 i])"
    using rel_append [OF b2(1), of i side level] b2(2) lev unfolding implements_def by (auto simp: fill_node_def)
  moreover have "order_of b2 i = \<lparr>rs_id = k, rs_side = side, rs_price = price, rs_quantity = x\<rparr>"
    using b2(2) by (simp add: order_of_def fill_node_def)
  moreover have "\<not> db_order_capacity b \<le> length os" using rel_active [OF rel] F(1) by simp
  ultimately show ?thesis using b2(3) k False by (intro exI [of _ "append_order i level b2"]) auto
qed

lemma queued_split:
  assumes "i \<in> queued Q" "links_ok Q b"
  obtains xs ys where "Q (nd_side (node b i)) (nd_level (node b i)) = xs @ i # ys"
proof -
  obtain s l where i: "i \<in> set (Q s l)" using assms(1) by (auto simp: queued_def)
  then show thesis using queue_member(2,3) [OF assms(2) i] that by (metis in_set_conv_decomp)
qed

lemma rel_discard:
  assumes rel: "book_rel Q F {} b os" and i: "i \<in> queued Q"
  shows "implements (release i (unlink i b)) (spec_remove (nd_id (node b i)) os)"
proof -
  obtain xs ys where q: "Q (nd_side (node b i)) (nd_level (node b i)) = xs @ i # ys"
    using queued_split [OF i db_invD(2) [OF book_relD(1) [OF rel]]] by blast
  show ?thesis using rel_release [OF rel_unlink [OF rel q]] unfolding implements_def by force
qed

lemma feed_delete_step:
  assumes rel: "book_rel Q F {} b os"
  shows "\<exists>b' os' r. feed_delete b k = (b', r) \<and> same_grid b b' \<and> implements b' os' \<and> (r \<or> b' = b) \<and>
    spec_feed cap grid os (Feed_delete k) = (os', r)"
proof (cases "spec_find os k")
  case None
  then have "feed_delete b k = (b, False)" using rel_find(3) [OF rel refl, of k] by (simp add: feed_delete_def)
  then show ?thesis using None rel by (auto simp: implements_def)
next
  case (Some r)
  then obtain i where i: "i \<in> queued Q" "nd_id (node b i) = k" "ix_find (db_index b) k = i"
    using rel_find(2) [OF rel] by blast
  have "feed_delete b k = (release i (unlink i b), True)"
    using Some i(3) rel_find(3) [OF rel refl, of k] by (simp add: feed_delete_def)
  then show ?thesis using Some rel_discard [OF rel i(1)] i(2) by (intro exI [of _ "release i (unlink i b)"]) auto
qed

lemma spec_lower_remove: "spec_remove k (spec_lower k x os) = spec_remove k os"
  by (induction os) (auto simp: spec_remove_def spec_lower_def)

lemma feed_reduce_step:
  assumes rel: "book_rel Q F {} b os"
  shows "\<exists>b' os' r. feed_reduce b k x = (b', r) \<and> same_grid b b' \<and> implements b' os' \<and> (r \<or> b' = b) \<and>
    spec_feed cap grid os (Feed_reduce k x) = (os', r)"
proof (cases "spec_find os k")
  case None
  then have "feed_reduce b k x = (b, False)" using rel_find(3) [OF rel refl, of k] by (simp add: feed_reduce_def)
  then show ?thesis using None rel by (auto simp: implements_def)
next
  case (Some r)
  then obtain i where i: "i \<in> queued Q" "nd_id (node b i) = k" "ix_find (db_index b) k = i" "r = order_of b i"
    using rel_find(2) [OF rel] by blast
  have valid: "i \<noteq> kInvalid" using Some i(3) rel_find(3) [OF rel refl, of k] by auto
  note links = db_invD(2) [OF book_relD(1) [OF rel]]
  let ?s = "nd_side (node b i)" and ?l = "nd_level (node b i)" and ?n = "(node b i)\<lparr>nd_remaining := nd_remaining (node b i) - x\<rparr>"
  obtain xs ys where "Q ?s ?l = xs @ i # ys" using queued_split [OF i(1) links] by blast
  then have q: "i \<in> set (Q ?s ?l)" by simp
  let ?b = "put_level ?s ?l ((level_at b ?s ?l)\<lparr>lv_total := lv_total (level_at b ?s ?l) - x\<rparr>) (upd_node i (\<lambda>_. ?n) b)"
  have low: "book_rel Q F {} ?b (spec_lower k x os)"
    using rel_reduce [OF rel q, of ?n x] i(2) by (simp add: nd_core_def)
  have len: "i < length (db_nodes b)" by (rule queue_member(1) [OF links q])
  show ?thesis
  proof (cases "x = 0 \<or> rs_quantity r < x")
    case True
    then have "feed_reduce b k x = (b, False)" using i by (auto simp: feed_reduce_def)
    then show ?thesis using Some True rel by (auto simp: implements_def)
  next
    case False
    have "feed_reduce b k x = (if x = rs_quantity r then (release i (unlink i ?b), True) else (?b, True))"
      using False i(2-4) valid len by (simp add: feed_reduce_def Let_def not_less leD upd_node_def)
    moreover have "implements (release i (unlink i ?b)) (spec_remove k os)"
      using rel_discard [OF low i(1)] i(2) len by (simp add: spec_lower_remove)
    ultimately show ?thesis using False Some low
      by (cases "x = rs_quantity r") (auto simp: implements_def intro!: exI [of _ "release i (unlink i ?b)"] exI [of _ ?b])
  qed
qed

lemma index_commute:
  "upd_node i f (b\<lparr>db_index := ix\<rparr>) = (upd_node i f b)\<lparr>db_index := ix\<rparr>"
  "put_level s l v (b\<lparr>db_index := ix\<rparr>) = (put_level s l v b)\<lparr>db_index := ix\<rparr>"
  "put_bitmap s bm (b\<lparr>db_index := ix\<rparr>) = (put_bitmap s bm b)\<lparr>db_index := ix\<rparr>"
  "level_at (b\<lparr>db_index := ix\<rparr>) = level_at b" "bitmap (b\<lparr>db_index := ix\<rparr>) = bitmap b"
  "find_best (b\<lparr>db_index := ix\<rparr>) = find_best b"
  by (simp_all add: upd_node_def put_level_def put_bitmap_def level_at_def bitmap_def find_best_def fun_eq_iff)

lemma clear_occupied_index: "clear_occupied s l (b\<lparr>db_index := ix\<rparr>) = (clear_occupied s l b)\<lparr>db_index := ix\<rparr>"
  by (cases s) (simp_all add: clear_occupied_def Let_def index_commute)

lemma unlink_index: "unlink i (b\<lparr>db_index := ix\<rparr>) = (unlink i b)\<lparr>db_index := ix\<rparr>"
  by (simp add: unlink_def Let_def index_commute clear_occupied_index)

lemma feed_replace_step:
  assumes rel: "book_rel Q F {} b os"
  shows "\<exists>b' os' r. feed_replace b old new price x = (b', r) \<and> same_grid b b' \<and> implements b' os' \<and> (r \<or> b' = b) \<and>
    spec_feed cap (\<lambda>p. price_index b p \<noteq> None) os (Feed_replace old new price x) = (os', r)"
proof (cases "spec_find os old = None \<or> new = 0 \<or> new = UINT64_MAX \<or> x = 0 \<or> spec_find os new \<noteq> None \<or> price_index b price = None")
  case True
  have "feed_replace b old new price x = (b, False)"
  proof (cases "price_index b price")
    case None
    then show ?thesis by (simp add: feed_replace_def Let_def)
  next
    case (Some level)
    with True have "ix_find (db_index b) old = kInvalid \<or> new = 0 \<or> new = UINT64_MAX \<or> x = 0 \<or>
        ix_find (db_index b) new \<noteq> kInvalid"
      unfolding rel_find(3) [OF rel refl] by auto
    then show ?thesis unfolding feed_replace_def Let_def by (rule if_P)
  qed
  moreover have "spec_feed cap (\<lambda>p. price_index b p \<noteq> None) os (Feed_replace old new price x) = (os, False)"
    using True by (cases "spec_find os old") simp_all
  moreover have "implements b os" using rel unfolding implements_def by blast
  ultimately show ?thesis using same_grid_steps(1) by blast
next
  case False
  then obtain r level where some: "spec_find os old = Some r" "price_index b price = Some level" by auto
  then obtain i where i: "i \<in> queued Q" "nd_id (node b i) = old" "ix_find (db_index b) old = i" "r = order_of b i"
    using rel_find(2) [OF rel] by blast
  have valid: "i \<noteq> kInvalid" using some(1) i(3) rel_find(3) [OF rel refl, of old] by auto
  have k: "new \<noteq> 0" "new \<noteq> UINT64_MAX" "ix_find (db_index b) new = kInvalid" "x \<noteq> 0"
    using False rel_find(3) [OF rel refl] by auto
  obtain xs ys where q: "Q (nd_side (node b i)) (nd_level (node b i)) = xs @ i # ys"
    using queued_split [OF i(1) db_invD(2) [OF book_relD(1) [OF rel]]] by blast
  let ?Q = "updq Q (nd_side (node b i)) (nd_level (node b i)) (xs @ ys)" and ?u = "unlink i b"
  have unl: "book_rel ?Q F {i} ?u (spec_remove old os)" using rel_unlink [OF rel q] i(2) by simp
  have core: "nd_id (node ?u i) = old" "nd_side (node ?u i) = nd_side (node b i)"
    using nd_coreD [OF unlink_core(1) [of i b i]] i(2) by auto
  have nxt: "nd_next (node ?u i) = kInvalid" using db_invD(7) [OF book_relD(1) [OF unl]] by simp
  let ?f = "\<lambda>n. n\<lparr>nd_id := new, nd_price := price, nd_remaining := x, nd_state := New, nd_level := level\<rparr>"
  let ?n = "?f (node ?u i)"
  obtain ix where ix: "ix_insert (db_index b) new i = (ix, True)"
    "db_inv ?Q F {i} (upd_node i (\<lambda>_. ?n) (?u\<lparr>db_index := fst (ix_erase ix old)\<rparr>))"
    using loose_rekey [OF book_relD(1) [OF unl], of i new ?n] k nxt core(1) by auto
  define b2 where "b2 = upd_node i (\<lambda>_. ?n) (?u\<lparr>db_index := fst (ix_erase ix old)\<rparr>)"
  have notq: "i \<notin> queued ?Q" using db_invD(6) [OF book_relD(1) [OF unl]] by blast
  have grid: "same_grid b b2" by (simp add: b2_def)
  have b2: "book_rel ?Q F {i} b2 (spec_remove old os)"
  proof (rule rel_frame [OF unl])
    show "order_of b2 j = order_of ?u j" if "j \<in> queued ?Q" for j
    proof -
      have "j \<noteq> i" using that notq by blast
      then show ?thesis unfolding order_of_def b2_def by simp
    qed
  qed (use ix(2) in \<open>simp_all add: b2_def level_price_def fun_eq_iff\<close>)
  have len: "i < length (db_nodes ?u)" using node_bounds(1) [OF book_relD(1) [OF unl]] by blast
  have nb: "node b2 i = ?n" using len by (simp add: b2_def)
  have lev: "level < db_level_count b2" "price = level_price b2 level"
    using price_index_iff [OF db_invD(1) [OF book_relD(1) [OF rel]]] some(2) same_gridD [OF grid] by auto
  have "feed_replace b old new price x = (append_order i level b2, True)"
    using i(3) valid k some(2) ix(1)
    by (simp add: feed_replace_def Let_def unlink_index b2_def) (simp add: upd_node_def)
  moreover have "implements (append_order i level b2) (spec_remove old os @ [order_of b2 i])"
    using rel_append [OF b2, of i "nd_side (node b i)" level] nb core(2) lev unfolding implements_def by auto
  moreover have "order_of b2 i = \<lparr>rs_id = new, rs_side = rs_side r, rs_price = price, rs_quantity = x\<rparr>"
    using nb core(2) i(4) by (simp add: order_of_def)
  ultimately show ?thesis using False some grid by (intro exI [of _ "append_order i level b2"]) auto
qed

lemma book_feed_step:
  assumes "implements b os"
  obtains b' os' r where "book_feed b p = (b', r)" "same_grid b b'" "implements b' os'" "r \<or> b' = b"
    "spec_feed (db_order_capacity b) (\<lambda>p. price_index b p \<noteq> None) os p = (os', r)"
proof -
  obtain Q F where rel: "book_rel Q F {} b os" using assms by (auto simp: implements_def)
  show thesis
    using that feed_add_step [OF rel] feed_reduce_step [OF rel] feed_delete_step [OF rel] feed_replace_step [OF rel]
    by (cases p) (metis book_feed.simps)+
qed

section \<open>The queries\<close>

lemma rel_level:
  assumes rel: "book_rel Q F L b os"
  shows "level_quantity b s p = sum_list (map rs_quantity (spec_level os s p))"
    and "visit_level b s p = Some (map (\<lambda>r. (rs_id r, rs_quantity r)) (spec_level os s p))"
proof -
  note I = db_invD [OF book_relD(1) [OF rel]]
  have "level_quantity b s p = sum_list (map rs_quantity (spec_level os s p)) \<and>
    visit_level b s p = Some (map (\<lambda>r. (rs_id r, rs_quantity r)) (spec_level os s p))"
  proof (cases "price_index b p")
    case None
    have "rs_price r \<noteq> p" if "r \<in> set os" for r
      using book_relD(3) [OF rel that] None price_index_grid [OF I(1), of p] by blast
    then have "spec_level os s p = []" by (auto simp: spec_level_def filter_empty_conv)
    then show ?thesis using None by (simp add: level_quantity_def visit_level_def)
  next
    case (Some l)
    then have l: "l < db_level_count b" "p = level_price b l" using price_index_iff [OF I(1)] by auto
    have ok: "level_ok b s l (Q s l)" by (rule links_okD(1) [OF I(2) l(1)])
    have lv: "spec_level os s p = map (order_of b) (Q s l)" using book_relD(2) [OF rel l(1)] l(2) by simp
    have "\<forall>i\<in>set (Q s l). i < kInvalid" using node_bounds(2) [OF book_relD(1) [OF rel]] queuedI by blast
    then show ?thesis
      using Some ok visit_seg [of "db_nodes b" kInvalid "Q s l"]
      by (simp add: level_quantity_def visit_level_def level_ok_def lv comp_def)
  qed
  then show "level_quantity b s p = sum_list (map rs_quantity (spec_level os s p))"
    "visit_level b s p = Some (map (\<lambda>r. (rs_id r, rs_quantity r)) (spec_level os s p))" by blast+
qed

lemma rel_prices:
  assumes rel: "book_rel Q F L b os"
  shows "set (spec_prices os s) = level_price b ` {l. Q s l \<noteq> []}"
proof -
  note I = db_invD [OF book_relD(1) [OF rel]]
  have "set (spec_prices os s) = {nd_price (node b i) | i l. i \<in> set (Q s l)}"
  proof -
    have "set (spec_prices os s) = {nd_price (node b i) | i. i \<in> queued Q \<and> nd_side (node b i) = s}"
      unfolding spec_prices_def set_map set_filter rel_queued [OF rel]
      by (auto simp: image_iff intro!: exI [of _ "order_of b _"])
    also have "\<dots> = {nd_price (node b i) | i l. i \<in> set (Q s l)}"
      using queue_member(2) [OF I(2)] unfolding queued_def by blast
    finally show ?thesis .
  qed
  also have "\<dots> = level_price b ` {l. Q s l \<noteq> []}"
  proof (intro set_eqI iffI)
    fix p assume "p \<in> {nd_price (node b i) | i l. i \<in> set (Q s l)}"
    then obtain i l where "i \<in> set (Q s l)" "p = nd_price (node b i)" by blast
    then show "p \<in> level_price b ` {l. Q s l \<noteq> []}" using queue_member(5) [OF I(2)] by fastforce
  next
    fix p assume "p \<in> level_price b ` {l. Q s l \<noteq> []}"
    then obtain l where l: "Q s l \<noteq> []" "p = level_price b l" by blast
    then have "p = nd_price (node b (hd (Q s l)))" "hd (Q s l) \<in> set (Q s l)"
      using queue_member(5) [OF I(2) hd_in_set [OF l(1)]] by simp_all
    then show "p \<in> {nd_price (node b i) | i l. i \<in> set (Q s l)}" by blast
  qed
  finally show ?thesis .
qed

lemma level_price_mono: "shape_ok b \<Longrightarrow> l \<le> l' \<Longrightarrow> level_price b l \<le> level_price b l'"
  by (simp add: level_price_def shape_ok_def mult_right_mono)

lemma rel_best:
  assumes rel: "book_rel Q F L b os"
  shows "best_bid b = spec_best_bid os" "best_ask b = spec_best_ask os"
    "db_best_bid b = kInvalid \<longleftrightarrow> spec_prices os Buy = []" "db_best_ask b = kInvalid \<longleftrightarrow> spec_prices os Sell = []"
proof -
  note I = db_invD [OF book_relD(1) [OF rel]]
  have lv: "top_level (\<lambda>l. Q Buy l \<noteq> []) (db_best_bid b)" "low_level (\<lambda>l. Q Sell l \<noteq> []) (db_best_ask b)"
    using I(3) by (auto simp: bits_ok_def)
  have none: "spec_prices os s = [] \<longleftrightarrow> (\<forall>l. Q s l = [])" for s
    using rel_prices [OF rel, of s] by (metis (mono_tags, lifting) Collect_empty_eq image_is_empty set_empty)
  note inv = best_invalid [OF I(1-3)]
  show e: "db_best_bid b = kInvalid \<longleftrightarrow> spec_prices os Buy = []" "db_best_ask b = kInvalid \<longleftrightarrow> spec_prices os Sell = []"
    unfolding none using inv lv unfolding top_level_def low_level_def by meson+
  show "best_bid b = spec_best_bid os"
  proof (cases "spec_prices os Buy = []")
    case False
    then have t: "Q Buy (db_best_bid b) \<noteq> []" "\<And>l. Q Buy l \<noteq> [] \<Longrightarrow> l \<le> db_best_bid b"
      using lv(1) none by (auto simp: top_level_def split: if_splits)
    have "Max (set (spec_prices os Buy)) = level_price b (db_best_bid b)"
      by (rule Max_eqI [OF List.finite_set]) (use t level_price_mono [OF I(1)] in \<open>auto simp: rel_prices [OF rel, of Buy]\<close>)
    then show ?thesis using False e(1) by (simp add: best_bid_def spec_best_bid_def)
  qed (use e(1) in \<open>simp add: best_bid_def spec_best_bid_def\<close>)
  show "best_ask b = spec_best_ask os"
  proof (cases "spec_prices os Sell = []")
    case False
    then have t: "Q Sell (db_best_ask b) \<noteq> []" "\<And>l. Q Sell l \<noteq> [] \<Longrightarrow> db_best_ask b \<le> l"
      using lv(2) none by (auto simp: low_level_def split: if_splits)
    have "Min (set (spec_prices os Sell)) = level_price b (db_best_ask b)"
      by (rule Min_eqI [OF List.finite_set]) (use t level_price_mono [OF I(1)] in \<open>auto simp: rel_prices [OF rel, of Sell]\<close>)
    then show ?thesis using False e(2) by (simp add: best_ask_def spec_best_ask_def)
  qed (use e(2) in \<open>simp add: best_ask_def spec_best_ask_def\<close>)
qed

lemma implements_answers:
  assumes "implements b os"
  shows "book_answers b os"
proof -
  obtain Q F where rel: "book_rel Q F {} b os" using assms by (auto simp: implements_def)
  have "contains b k = (spec_find os k \<noteq> None) \<and> remaining b k = spec_remaining os k" for k
  proof (cases "spec_find os k")
    case None
    then show ?thesis using rel_find(3) [OF rel refl, of k] by (simp add: contains_def remaining_def spec_remaining_def)
  next
    case (Some r)
    then obtain i where "r = order_of b i" "ix_find (db_index b) k = i" using rel_find(2) [OF rel] by blast
    then show ?thesis using Some rel_find(3) [OF rel refl, of k]
      by (simp add: contains_def remaining_def spec_remaining_def)
  qed
  then show ?thesis using rel_level [OF rel] rel_best [OF rel] rel_active(1) [OF rel]
    by (simp add: book_answers_def active_orders_def)
qed

lemma implements_new:
  assumes "order_capacity < kInvalid" "level_count + 63 < 2 ^ 32" "0 < tick_size"
  shows "implements (DensePriceOrderBook_new order_capacity minimum_price tick_size level_count) []"
  unfolding implements_def book_rel_def using new_book_inv [OF assms, of minimum_price]
  by (auto simp: spec_level_def intro!: exI)

end
