(* ===== verification/DenseBookMatch.thy ===== *)
theory DenseBookMatch
  imports DenseBookFeed
begin

text \<open>
  Matching: the specification of price-time priority on the list of resting orders, and the proof
  that \<open>submit\<close>, \<open>cancel\<close> and \<open>modify\<close> of the dense book always return and do exactly what it says,
  events included.
\<close>

section \<open>The specification\<close>

definition spec_best :: "resting list \<Rightarrow> Side \<Rightarrow> resting option" where
  "spec_best os side =
     (if spec_prices os side = [] then None
      else Some (hd (spec_level os side (if side = Buy then spec_best_bid os else spec_best_ask os))))"

text \<open>A limit of \<^const>\<open>None\<close> is a market order.\<close>

definition crosses :: "Side \<Rightarrow> int option \<Rightarrow> int \<Rightarrow> bool" where
  "crosses side limit price =
     (case limit of None \<Rightarrow> True | Some p \<Rightarrow> if side = Buy then price \<le> p else p \<le> price)"

lemma spec_best_in:
  assumes "spec_best os side = Some m"
  shows "m \<in> set os" "rs_side m = side" "rs_price m = (if side = Buy then spec_best_bid os else spec_best_ask os)"
proof -
  let ?p = "if side = Buy then spec_best_bid os else spec_best_ask os"
  have ne: "spec_prices os side \<noteq> []" and m: "m = hd (spec_level os side ?p)"
    using assms by (auto simp: spec_best_def split: if_splits)
  have "?p \<in> set (spec_prices os side)"
    using ne by (cases side) (auto simp: spec_best_bid_def spec_best_ask_def intro!: Max_in Min_in)
  then have "spec_level os side ?p \<noteq> []"
    by (auto simp: spec_level_def spec_prices_def filter_empty_conv)
  then have "m \<in> set (spec_level os side ?p)" using m hd_in_set by metis
  then show "m \<in> set os" "rs_side m = side" "rs_price m = ?p" by (auto simp: spec_level_def)
qed

function spec_match :: "u64 \<Rightarrow> Side \<Rightarrow> int option \<Rightarrow> u64 \<Rightarrow> resting list \<Rightarrow> u64 \<times> resting list \<times> sink_event list" where
  "spec_match k side limit x os =
     (if x = 0 then (x, os, [])
      else case spec_best os (opposite side) of
        None \<Rightarrow> (x, os, [])
      | Some m \<Rightarrow>
          if \<not> crosses side limit (rs_price m) then (x, os, [])
          else if x < rs_quantity m then
            (0, spec_lower (rs_id m) x os,
             [On_trade (rs_id m) k (rs_price m) x, On_order (rs_id m) PartiallyFilled (rs_quantity m - x)])
          else
            (case spec_match k side limit (x - rs_quantity m) (spec_remove (rs_id m) os) of (x', os', ev) \<Rightarrow>
               (x', os', On_trade (rs_id m) k (rs_price m) (rs_quantity m) # On_order (rs_id m) Filled 0 # ev)))"
  by pat_completeness auto
termination
proof (relation "measure (\<lambda>(k, side, limit, x, os). length os)")
  fix k side limit x os m
  assume "spec_best os (opposite side) = Some m"
  then have "m \<in> set os" by (rule spec_best_in(1))
  then have "length (spec_remove (rs_id m) os) < length os" by (auto simp: spec_remove_def intro!: length_filter_less)
  then show "((k, side, limit, x - rs_quantity m, spec_remove (rs_id m) os), k, side, limit, x, os)
      \<in> measure (\<lambda>(k, side, limit, x, os). length os)" by simp
qed simp

declare spec_match.simps [simp del]

lemma spec_match_cases:
  assumes "spec_match k side limit x os = (x', os', ev)"
  obtains (stop) "x' = x" "os' = os" "ev = []"
      "x = 0 \<or> (case spec_best os (opposite side) of None \<Rightarrow> True | Some m \<Rightarrow> \<not> crosses side limit (rs_price m))"
  | (part) m where "spec_best os (opposite side) = Some m" "crosses side limit (rs_price m)" "x < rs_quantity m"
      "x' = 0" "os' = spec_lower (rs_id m) x os"
      "ev = [On_trade (rs_id m) k (rs_price m) x, On_order (rs_id m) PartiallyFilled (rs_quantity m - x)]"
  | (full) m ev1 where "x \<noteq> 0" "spec_best os (opposite side) = Some m" "crosses side limit (rs_price m)" "\<not> x < rs_quantity m"
      "spec_match k side limit (x - rs_quantity m) (spec_remove (rs_id m) os) = (x', os', ev1)"
      "ev = On_trade (rs_id m) k (rs_price m) (rs_quantity m) # On_order (rs_id m) Filled 0 # ev1"
proof -
  note eq = assms [unfolded spec_match.simps [of k side limit x os]]
  show thesis
  proof (cases "x = 0 \<or> (case spec_best os (opposite side) of None \<Rightarrow> True | Some m \<Rightarrow> \<not> crosses side limit (rs_price m))")
    case True
    then have "x' = x \<and> os' = os \<and> ev = []" using eq by (cases "spec_best os (opposite side)") (auto split: if_splits)
    then show thesis using stop True by blast
  next
    case False
    then obtain m where m: "x \<noteq> 0" "spec_best os (opposite side) = Some m" "crosses side limit (rs_price m)"
      by (auto split: option.splits)
    show thesis
    proof (cases "x < rs_quantity m")
      case True
      then show thesis using part [OF m(2,3)] eq m by simp
    next
      case False
      obtain y os1 ev1 where "spec_match k side limit (x - rs_quantity m) (spec_remove (rs_id m) os) = (y, os1, ev1)"
        by (metis prod_cases3)
      then show thesis using full [OF m False, of ev1] eq m False by simp
    qed
  qed
qed

definition spec_settle :: "u64 \<Rightarrow> Side \<Rightarrow> int option \<Rightarrow> u64 \<Rightarrow> u64 \<times> resting list \<times> sink_event list \<Rightarrow>
    resting list \<times> sink_event list" where
  "spec_settle k side limit quantity = (\<lambda>(x, os, ev).
     if x = 0 then (os, ev @ [On_order k Filled 0])
     else case limit of
       None \<Rightarrow> (os, ev @ [On_order k Canceled x])
     | Some price \<Rightarrow> (os @ [\<lparr>rs_id = k, rs_side = side, rs_price = price, rs_quantity = x\<rparr>],
          ev @ [On_order k (if x = quantity then New else PartiallyFilled) x]))"

definition rq_limit :: "OrderRequest \<Rightarrow> int option" where
  "rq_limit rq = (if rq_type rq = Limit then Some (rq_price rq) else None)"

definition spec_submit :: "nat \<Rightarrow> (int \<Rightarrow> bool) \<Rightarrow> resting list \<Rightarrow> OrderRequest \<Rightarrow> resting list \<times> bool \<times> sink_event list" where
  "spec_submit cap grid os rq =
     (if rq_id rq = 0 \<or> rq_id rq = UINT64_MAX \<or> rq_quantity rq = 0 \<or> spec_find os (rq_id rq) \<noteq> None \<or>
         (\<exists>p\<in>set_option (rq_limit rq). \<not> grid p) \<or> cap \<le> length os
      then (os, False, [On_order (rq_id rq) Rejected (rq_quantity rq)])
      else case spec_settle (rq_id rq) (rq_side rq) (rq_limit rq) (rq_quantity rq)
                  (spec_match (rq_id rq) (rq_side rq) (rq_limit rq) (rq_quantity rq) os) of
             (os, ev) \<Rightarrow> (os, True, ev))"

definition spec_cancel :: "resting list \<Rightarrow> u64 \<Rightarrow> resting list \<times> bool \<times> sink_event list" where
  "spec_cancel os k =
     (case spec_find os k of None \<Rightarrow> (os, False, [])
      | Some r \<Rightarrow> (spec_remove k os, True, [On_order k Canceled (rs_quantity r)]))"

definition spec_modify :: "(int \<Rightarrow> bool) \<Rightarrow> resting list \<Rightarrow> u64 \<Rightarrow> int \<Rightarrow> u64 \<Rightarrow> resting list \<times> bool \<times> sink_event list" where
  "spec_modify grid os k price quantity =
     (case spec_find os k of None \<Rightarrow> (os, False, [])
      | Some r \<Rightarrow>
          if quantity = 0 \<or> \<not> grid price then (os, False, [])
          else case spec_settle k (rs_side r) (Some price) quantity
                      (spec_match k (rs_side r) (Some price) quantity (spec_remove k os)) of
                 (os, ev) \<Rightarrow> (os, True, ev))"

datatype book_op =
    Op_feed feed_op
  | Op_submit OrderRequest
  | Op_cancel u64
  | Op_modify u64 int u64

fun spec_apply :: "nat \<Rightarrow> (int \<Rightarrow> bool) \<Rightarrow> resting list \<Rightarrow> book_op \<Rightarrow> resting list \<times> bool \<times> sink_event list" where
  "spec_apply cap grid os (Op_feed p) = (case spec_feed cap grid os p of (os, r) \<Rightarrow> (os, r, []))"
| "spec_apply cap grid os (Op_submit rq) = spec_submit cap grid os rq"
| "spec_apply cap grid os (Op_cancel k) = spec_cancel os k"
| "spec_apply cap grid os (Op_modify k price x) = spec_modify grid os k price x"

fun book_apply :: "DensePriceOrderBook \<Rightarrow> book_op \<Rightarrow> (DensePriceOrderBook \<times> bool \<times> sink_event list) option" where
  "book_apply b (Op_feed p) = (case book_feed b p of (b, r) \<Rightarrow> Some (b, r, []))"
| "book_apply b (Op_submit rq) = submit b rq"
| "book_apply b (Op_cancel k) = Some (cancel b k)"
| "book_apply b (Op_modify k price x) = modify b k price x"

fun spec_run :: "nat \<Rightarrow> (int \<Rightarrow> bool) \<Rightarrow> resting list \<Rightarrow> book_op list \<Rightarrow> resting list \<times> (bool \<times> sink_event list) list" where
  "spec_run cap grid os [] = (os, [])"
| "spec_run cap grid os (p # ps) =
     (case spec_apply cap grid os p of (os, r) \<Rightarrow> case spec_run cap grid os ps of (os, rs) \<Rightarrow> (os, r # rs))"

fun book_run :: "DensePriceOrderBook \<Rightarrow> book_op list \<Rightarrow> (DensePriceOrderBook \<times> (bool \<times> sink_event list) list) option" where
  "book_run b [] = Some (b, [])"
| "book_run b (p # ps) =
     (case book_apply b p of None \<Rightarrow> None
      | Some (b, r) \<Rightarrow> (case book_run b ps of None \<Rightarrow> None | Some (b, rs) \<Rightarrow> Some (b, r # rs)))"

section \<open>The contract of a matching loop\<close>

text \<open>
  A loop that consumes the best resting order of the other side step by step computes
  \<^const>\<open>spec_match\<close>. Both order books are instances: \<open>rel\<close> relates the state of a book to the resting
  orders, and \<open>left\<close> is what is left of the taker.
\<close>

definition prepend :: "'e list \<Rightarrow> ('b \<times> 'e list) option \<Rightarrow> ('b \<times> 'e list) option" where
  "prepend ev = map_option (\<lambda>(b, ev'). (b, ev @ ev'))"

lemma prepend_bind: "Option.bind r (\<lambda>(b, ev'). Some (b, ev @ ev')) = prepend ev r"
  by (cases r) (auto simp: prepend_def)

lemma prepend_simps [simp]: "prepend ev None = None" "prepend ev (Some (b, ev')) = Some (b, ev @ ev')"
  "prepend ev (prepend ev' r) = prepend (ev @ ev') r" "prepend [] r = r"
  by (cases r; auto simp: prepend_def)+

locale price_time_loop =
  fixes loop :: "'b \<Rightarrow> ('b \<times> sink_event list) option"
    and rel :: "'b \<Rightarrow> resting list \<Rightarrow> bool"
    and left :: "'b \<Rightarrow> u64"
    and k :: u64 and side :: Side and limit :: "int option"
  assumes stop: "rel b os \<Longrightarrow>
      left b = 0 \<or> (case spec_best os (opposite side) of None \<Rightarrow> True | Some m \<Rightarrow> \<not> crosses side limit (rs_price m)) \<Longrightarrow>
      loop b = Some (b, [])"
    and part: "rel b os \<Longrightarrow> spec_best os (opposite side) = Some m \<Longrightarrow> crosses side limit (rs_price m) \<Longrightarrow>
      left b \<noteq> 0 \<Longrightarrow> left b < rs_quantity m \<Longrightarrow>
      \<exists>b'. loop b = prepend [On_trade (rs_id m) k (rs_price m) (left b), On_order (rs_id m) PartiallyFilled (rs_quantity m - left b)] (loop b') \<and>
        rel b' (spec_lower (rs_id m) (left b) os) \<and> left b' = 0"
    and full: "rel b os \<Longrightarrow> spec_best os (opposite side) = Some m \<Longrightarrow> crosses side limit (rs_price m) \<Longrightarrow>
      left b \<noteq> 0 \<Longrightarrow> \<not> left b < rs_quantity m \<Longrightarrow>
      \<exists>b'. loop b = prepend [On_trade (rs_id m) k (rs_price m) (rs_quantity m), On_order (rs_id m) Filled 0] (loop b') \<and>
        rel b' (spec_remove (rs_id m) os) \<and> left b' = left b - rs_quantity m"
begin

lemma simulates:
  assumes "rel b os" "spec_match k side limit (left b) os = (x', os', ev)"
  shows "\<exists>b'. loop b = Some (b', ev) \<and> rel b' os' \<and> left b' = x'"
  using assms
proof (induction "length os" arbitrary: b os ev rule: less_induct)
  case less
  note r = less.prems(1)
  from less.prems(2) show ?case
  proof (cases rule: spec_match_cases)
    case stop': stop
    then show ?thesis using stop [OF r] r by simp
  next
    case part': (part m)
    show ?thesis
    proof (cases "left b = 0")
      case True
      then show ?thesis using stop [OF r] less.prems r by (simp add: spec_match.simps)
    next
      case False
      from part [OF r part'(1,2) False part'(3)] obtain b' where
        b': "loop b = prepend ev (loop b')" "rel b' os'" "left b' = 0" unfolding part'(5,6) by blast
      then show ?thesis using stop [OF b'(2)] part'(4) by simp
    qed
  next
    case full': (full m ev1)
    from full [OF r full'(2,3,1,4)] obtain b' where b':
      "loop b = prepend [On_trade (rs_id m) k (rs_price m) (rs_quantity m), On_order (rs_id m) Filled 0] (loop b')"
      "rel b' (spec_remove (rs_id m) os)" "left b' = left b - rs_quantity m" by blast
    have "length (spec_remove (rs_id m) os) < length os"
      using spec_best_in(1) [OF full'(2)] by (auto simp: spec_remove_def intro!: length_filter_less)
    from less.hyps [OF this b'(2), of ev1] b'(3) full'(5) obtain b'' where
      "loop b' = Some (b'', ev1)" "rel b'' os'" "left b'' = x'" by auto
    then show ?thesis using b'(1) full'(6) by simp
  qed
qed

end

section \<open>One trade\<close>

lemma rel_loose:
  assumes rel: "book_rel Q F L b os" and i: "i \<in> L"
    and n: "nd_id n = nd_id (node b i)" "nd_next n = kInvalid" "nd_free_next n = nd_free_next (node b i)"
  shows "book_rel Q F L (upd_node i (\<lambda>_. n) b) os"
proof (rule rel_frame [OF rel loose_update [OF book_relD(1) [OF rel] i n]])
  show "order_of (upd_node i (\<lambda>_. n) b) j = order_of b j" if "j \<in> queued Q" for j
  proof -
    have "j \<noteq> i" using that i db_invD(6) [OF book_relD(1) [OF rel]] by blast
    then show ?thesis by (simp add: order_of_def)
  qed
qed simp_all

lemma node_update_node:
  assumes "m \<noteq> i" "m < length ns" "i < length ns"
  shows "ns[i := x, m := y] ! m = y" "ns[i := x, m := y] ! i = x"
  using assms by simp_all

lemma loose_not_queued: "book_rel Q F L b os \<Longrightarrow> i \<in> L \<Longrightarrow> m \<in> set (Q s l) \<Longrightarrow> m \<noteq> i"
  using db_invD(6) [OF book_relD(1)] queuedI [of m Q s l] by blast

text \<open>The state after the fills of a trade: both quantities and the total of the level drop.\<close>

lemma rel_trade:
  fixes x :: u64 and st :: OrderState
  assumes rel: "book_rel Q F L b os" and i: "i \<in> L" and m: "m \<in> set (Q s l)"
  defines "B \<equiv> upd_node m (\<lambda>n. n\<lparr>nd_state := st\<rparr>) (put_level s l ((level_at b s l)\<lparr>lv_total := lv_total (level_at b s l) - x\<rparr>)
    (upd_node m (\<lambda>n. n\<lparr>nd_remaining := nd_remaining n - x\<rparr>) (upd_node i (\<lambda>n. n\<lparr>nd_remaining := nd_remaining n - x\<rparr>) b)))"
  shows "book_rel Q F L B (spec_lower (nd_id (node b m)) x os)"
    and "node B i = (node b i)\<lparr>nd_remaining := nd_remaining (node b i) - x\<rparr>"
    and "node B m = (node b m)\<lparr>nd_remaining := nd_remaining (node b m) - x, nd_state := st\<rparr>" "same_grid b B"
proof -
  note inv = book_relD(1) [OF rel] note I = db_invD [OF inv]
  have neq: "m \<noteq> i" by (rule loose_not_queued [OF rel i m])
  have len: "m < length (db_nodes b)" "i < length (db_nodes b)"
    using node_bounds(1) [OF inv] i queuedI [of m Q, OF m] by blast+
  let ?t = "(node b i)\<lparr>nd_remaining := nd_remaining (node b i) - x\<rparr>"
  let ?n = "(node b m)\<lparr>nd_remaining := nd_remaining (node b m) - x, nd_state := st\<rparr>"
  let ?b = "upd_node i (\<lambda>_. ?t) b"
  have nm: "node ?b m = node b m" using neq by simp
  have B: "B = put_level s l ((level_at ?b s l)\<lparr>lv_total := lv_total (level_at ?b s l) - x\<rparr>) (upd_node m (\<lambda>_. ?n) ?b)"
    unfolding B_def using neq len by (simp add: upd_node_def put_level_def level_at_def)
  have "book_rel Q F L ?b os" using rel_loose [OF rel i, of ?t] I(7) [OF i] by simp
  from rel_reduce [OF this m, of ?n x] show "book_rel Q F L B (spec_lower (nd_id (node b m)) x os)"
    unfolding B nm using queue_member [OF I(2) m] by (simp add: nd_core_def)
  show "node B i = ?t" "node B m = ?n" "same_grid b B" unfolding B using neq len by simp_all
qed

lemma loose_next_node: "book_rel Q F L b os \<Longrightarrow> i \<in> L \<Longrightarrow> j \<noteq> i \<Longrightarrow> node (unlink j b) i = node b i"
  if "Q s l = j # q" for Q
proof -
  assume rel: "book_rel Q F L b os" and i: "i \<in> L" and j: "j \<noteq> i"
  note I = db_invD [OF book_relD(1) [OF rel]]
  have mem: "j \<in> set (Q s l)" using that by simp
  have ok: "level_ok b s l ([] @ j # q)" using links_okD(1) [OF I(2) queue_member(4) [OF I(2) mem], of s] that by simp
  have "i \<notin> set (Q s l)" using loose_not_queued [OF rel i] by blast
  then show "node (unlink j b) i = node b i"
    using unlink_level(3) [OF ok I(1) queue_member(4) [OF I(2) mem], of i] that by simp
qed

lemma trade_step_partial:
  assumes rel: "book_rel Q F L b os" and i: "i \<in> L" and q: "Q (opposite (nd_side (node b i))) l = m # q"
    and less: "nd_remaining (node b i) < nd_remaining (node b m)"
  obtains b' where "trade_step i l price b = (b', [On_trade (nd_id (node b m)) (nd_id (node b i)) price (nd_remaining (node b i)),
      On_order (nd_id (node b m)) PartiallyFilled (nd_remaining (node b m) - nd_remaining (node b i))])"
    "book_rel Q F L b' (spec_lower (nd_id (node b m)) (nd_remaining (node b i)) os)"
    "node b' i = (node b i)\<lparr>nd_remaining := 0\<rparr>" "same_grid b b'"
proof -
  let ?s = "opposite (nd_side (node b i))" and ?x = "nd_remaining (node b i)"
  note I = db_invD [OF book_relD(1) [OF rel]]
  have m: "m \<in> set (Q ?s l)" using q by simp
  have head: "lv_head (level_at b ?s l) = m" using links_okD(1) [OF I(2) queue_member(4) [OF I(2) m], of ?s] q by (simp add: level_ok_def)
  have neq: "m \<noteq> i" by (rule loose_not_queued [OF rel i m])
  have len: "m < length (db_nodes b)" "i < length (db_nodes b)"
    using node_bounds(1) [OF book_relD(1) [OF rel]] i queuedI [of m Q, OF m] by blast+
  note t = rel_trade [OF rel i m, of PartiallyFilled ?x]
  have nz: "nd_remaining (node b m) - ?x \<noteq> 0" using less by auto
  show thesis
    by (rule that [OF _ t(1)]) (use t less nz head neq len in \<open>simp_all add: trade_step_def Let_def nth_list_update\<close>)
qed

lemma trade_step_full:
  assumes rel: "book_rel Q F L b os" and i: "i \<in> L" and q: "Q (opposite (nd_side (node b i))) l = m # q"
    and le: "\<not> nd_remaining (node b i) < nd_remaining (node b m)"
  obtains b' where "trade_step i l price b = (b', [On_trade (nd_id (node b m)) (nd_id (node b i)) price (nd_remaining (node b m)),
      On_order (nd_id (node b m)) Filled 0])"
    "book_rel (updq Q (opposite (nd_side (node b i))) l q) (m # F) L b' (spec_remove (nd_id (node b m)) os)"
    "node b' i = (node b i)\<lparr>nd_remaining := nd_remaining (node b i) - nd_remaining (node b m)\<rparr>" "same_grid b b'"
proof -
  let ?s = "opposite (nd_side (node b i))" and ?x = "nd_remaining (node b m)"
  note I = db_invD [OF book_relD(1) [OF rel]]
  have m: "m \<in> set (Q ?s l)" using q by simp
  have head: "lv_head (level_at b ?s l) = m" using links_okD(1) [OF I(2) queue_member(4) [OF I(2) m], of ?s] q by (simp add: level_ok_def)
  have neq: "m \<noteq> i" by (rule loose_not_queued [OF rel i m])
  have len: "m < length (db_nodes b)" "i < length (db_nodes b)"
    using node_bounds(1) [OF book_relD(1) [OF rel]] i queuedI [of m Q, OF m] by blast+
  define B where "B = upd_node m (\<lambda>n. n\<lparr>nd_state := Filled\<rparr>) (put_level ?s l ((level_at b ?s l)\<lparr>lv_total := lv_total (level_at b ?s l) - ?x\<rparr>)
    (upd_node m (\<lambda>n. n\<lparr>nd_remaining := nd_remaining n - ?x\<rparr>) (upd_node i (\<lambda>n. n\<lparr>nd_remaining := nd_remaining n - ?x\<rparr>) b)))"
  note t = rel_trade [OF rel i m, of Filled ?x, folded B_def]
  note IB = db_invD [OF book_relD(1) [OF t(1)]]
  have okB: "level_ok B ?s l (m # q)"
    using links_okD(1) [OF IB(2) queue_member(4) [OF IB(2) m], of ?s] q by simp
  have uf: "unlink_filled m l B = unlink m B" by (rule unlink_filled_unlink [OF okB]) (simp add: t(3))
  have q': "Q ?s l = [] @ m # q" using q by simp
  have "book_rel (updq Q ?s l q) F (insert m L) (unlink m B) (spec_remove (nd_id (node b m)) os)"
    using rel_unlink [OF t(1) q'] by (simp add: t(3) spec_lower_remove)
  from rel_release [OF this, of m]
  have fin: "book_rel (updq Q ?s l q) (m # F) L (release m (unlink m B)) (spec_remove (nd_id (node b m)) os)"
    using queuedI [of m Q ?s l] m I(6) by (simp add: insert_Diff_if disjoint_iff)
  have "node (release m (unlink m B)) i = node (unlink m B) i"
    using neq by (simp add: release_def release_without_index_def Let_def)
  moreover have "node (unlink m B) i = node B i" by (rule loose_next_node [where Q = Q, OF q t(1) i neq])
  ultimately have ni: "node (release m (unlink m B)) i = (node b i)\<lparr>nd_remaining := nd_remaining (node b i) - ?x\<rparr>"
    by (simp add: t(2))
  show thesis
  proof (rule that [OF _ fin ni])
    show "trade_step i l price b = (release m (unlink m B), [On_trade (nd_id (node b m)) (nd_id (node b i)) price ?x,
        On_order (nd_id (node b m)) Filled 0])"
      using le head neq len uf [unfolded B_def] unfolding B_def by (simp add: trade_step_def Let_def nth_list_update)
  qed (use t(4) in simp)
qed

section \<open>The loops\<close>

definition best_contra :: "nat \<Rightarrow> DensePriceOrderBook \<Rightarrow> nat" where
  "best_contra i b = (if nd_side (node b i) = Buy then db_best_ask b else db_best_bid b)"

definition stops :: "nat \<Rightarrow> OrderType \<Rightarrow> DensePriceOrderBook \<Rightarrow> bool" where
  "stops i type b \<longleftrightarrow> nd_remaining (node b i) = 0 \<or> best_contra i b = kInvalid \<or>
     type = Limit \<and> \<not> crosses (nd_side (node b i)) (Some (nd_price (node b i))) (level_price b (best_contra i b))"

lemma match_orders_unfold:
  "match_orders i type b =
     (if stops i type b then Some (b, [])
      else Option.bind (match_level i (best_contra i b) (level_price b (best_contra i b)) b)
        (\<lambda>(b, ev). prepend ev (match_orders i type b)))"
  by (subst match_orders.simps) (auto simp: stops_def best_contra_def crosses_def Let_def not_le prepend_bind)

lemma match_orders_trade:
  fixes b type i
  defines "l \<equiv> best_contra i b"
  assumes go: "\<not> stops i type b" and head: "lv_head (level_at b (opposite (nd_side (node b i))) l) \<noteq> kInvalid"
    and step: "trade_step i l (level_price b l) b = (b1, ev)"
    and taker: "nd_side (node b1 i) = nd_side (node b i)" "nd_price (node b1 i) = nd_price (node b i)"
    and grid: "same_grid b b1"
    and best: "lv_head (level_at b1 (opposite (nd_side (node b i))) l) \<noteq> kInvalid \<Longrightarrow> best_contra i b1 = l"
  shows "match_orders i type b = prepend ev (match_orders i type b1)"
proof -
  have price: "level_price b1 = level_price b" using same_gridD [OF grid] by blast
  have nz: "nd_remaining (node b i) \<noteq> 0" using go by (auto simp: stops_def)
  have lev: "match_level i l (level_price b l) b = prepend ev (match_level i l (level_price b l) b1)"
    by (subst match_level.simps) (use nz head step in \<open>simp add: prepend_bind\<close>)
  show ?thesis
  proof (cases "nd_remaining (node b1 i) \<noteq> 0 \<and> lv_head (level_at b1 (opposite (nd_side (node b i))) l) \<noteq> kInvalid")
    case True
    then have b1: "best_contra i b1 = l" using best by blast
    have "\<not> stops i type b1" using go True taker by (auto simp: stops_def b1 price l_def [symmetric])
    then show ?thesis
      using go lev match_orders_unfold [of i type b] match_orders_unfold [of i type b1]
      unfolding l_def [symmetric] b1 price
      by (cases "match_level i l (level_price b l) b1") auto
  next
    case False
    then have "match_level i l (level_price b l) b1 = Some (b1, [])"
      by (subst match_level.simps) (use taker in auto)
    then show ?thesis
      using go lev match_orders_unfold [of i type b] unfolding l_def [symmetric] by simp
  qed
qed

lemma rel_spec_best:
  fixes i :: nat
  assumes rel: "book_rel Q F L b os"
  defines "s \<equiv> opposite (nd_side (node b i))" and "l \<equiv> best_contra i b"
  shows "l = kInvalid \<Longrightarrow> spec_best os s = None"
    and "l \<noteq> kInvalid \<Longrightarrow> \<exists>m q. Q s l = m # q \<and> spec_best os s = Some (order_of b m) \<and> nd_price (node b m) = level_price b l \<and>
      lv_head (level_at b s l) = m \<and> m \<noteq> kInvalid"
proof -
  note I = db_invD [OF book_relD(1) [OF rel]] note B = rel_best [OF rel]
  have empty: "l = kInvalid \<longleftrightarrow> spec_prices os s = []"
    using B(3,4) by (cases "nd_side (node b i)") (auto simp: l_def s_def best_contra_def opposite_def)
  then show "l = kInvalid \<Longrightarrow> spec_best os s = None" by (simp add: spec_best_def)
  assume valid: "l \<noteq> kInvalid"
  have price: "(if s = Buy then spec_best_bid os else spec_best_ask os) = level_price b l"
    using B(1,2) valid by (cases "nd_side (node b i)") (auto simp: l_def s_def best_contra_def opposite_def best_bid_def best_ask_def)
  have ne: "Q s l \<noteq> []"
    using I(3) valid
    by (cases "nd_side (node b i)") (auto simp: l_def s_def best_contra_def opposite_def bits_ok_def top_level_def low_level_def split: if_splits)
  then obtain m q where q: "Q s l = m # q" by (cases "Q s l") auto
  then have m: "m \<in> set (Q s l)" by simp
  note mem = queue_member [OF I(2) m]
  have "spec_best os s = Some (order_of b m)"
    using empty valid price book_relD(2) [OF rel mem(4), of s] q by (simp add: spec_best_def) (metis list.sel(1) list.simps(9))
  moreover have "lv_head (level_at b s l) = m" using links_okD(1) [OF I(2) mem(4), of s] q by (simp add: level_ok_def)
  moreover have "m < kInvalid" using node_bounds(2) [OF book_relD(1) [OF rel]] queuedI [of m Q, OF m] by blast
  ultimately show "\<exists>m q. Q s l = m # q \<and> spec_best os s = Some (order_of b m) \<and> nd_price (node b m) = level_price b l \<and>
      lv_head (level_at b s l) = m \<and> m \<noteq> kInvalid"
    using q mem(5) by auto
qed

lemma best_contra_keep:
  assumes inv: "db_inv Q F L b" "db_inv Q' F' L' b1" and side: "nd_side (node b1 i) = nd_side (node b i)"
  defines "s \<equiv> opposite (nd_side (node b i))"
  assumes sub: "\<And>l. Q' s l \<noteq> [] \<Longrightarrow> Q s l \<noteq> []"
    and head: "lv_head (level_at b1 s (best_contra i b)) \<noteq> kInvalid" "best_contra i b < db_level_count b1"
  shows "best_contra i b1 = best_contra i b"
proof -
  note I = db_invD [OF inv(1)] note I' = db_invD [OF inv(2)]
  have "level_ok b1 s (best_contra i b) (Q' s (best_contra i b))" by (rule links_okD(1) [OF I'(2) head(2)])
  then have ne: "Q' s (best_contra i b) \<noteq> []" using head(1) by (auto simp: level_ok_def)
  show ?thesis
  proof (cases "nd_side (node b i)")
    case Buy
    then have "low_level (\<lambda>l. Q' s l \<noteq> []) (best_contra i b1)" "low_level (\<lambda>l. Q s l \<noteq> []) (best_contra i b)"
      using I(3) I'(3) side by (auto simp: s_def opposite_def best_contra_def bits_ok_def)
    then show ?thesis using ne sub unfolding low_level_def by (metis le_antisym)
  next
    case Sell
    then have "top_level (\<lambda>l. Q' s l \<noteq> []) (best_contra i b1)" "top_level (\<lambda>l. Q s l \<noteq> []) (best_contra i b)"
      using I(3) I'(3) side by (auto simp: s_def opposite_def best_contra_def bits_ok_def)
    then show ?thesis using ne sub unfolding top_level_def by (metis le_antisym)
  qed
qed

definition limit_of :: "OrderType \<Rightarrow> Node \<Rightarrow> int option" where
  "limit_of type n = (if type = Limit then Some (nd_price n) else None)"

definition dense_taker :: "nat \<Rightarrow> nat set \<Rightarrow> Node \<Rightarrow> DensePriceOrderBook \<Rightarrow> DensePriceOrderBook \<Rightarrow> resting list \<Rightarrow> bool" where
  "dense_taker i L n b0 b os \<longleftrightarrow> i \<in> L \<and> same_grid b0 b \<and> (\<exists>Q F. book_rel Q F L b os) \<and>
     node b i = n\<lparr>nd_remaining := nd_remaining (node b i)\<rparr>"

lemma dense_takerD:
  assumes "dense_taker i L n b0 b os"
  obtains Q F where "i \<in> L" "book_rel Q F L b os" "nd_id (node b i) = nd_id n" "nd_side (node b i) = nd_side n"
    "limit_of type (node b i) = limit_of type n"
proof -
  have "nd_id (node b i) = nd_id n \<and> nd_side (node b i) = nd_side n \<and> nd_price (node b i) = nd_price n"
    using assms unfolding dense_taker_def by (metis Node.select_convs Node.surjective Node.update_convs(3))
  then show thesis using assms that unfolding dense_taker_def limit_of_def by auto
qed

lemma dense_taker_step:
  assumes "dense_taker i L n b0 b os" "book_rel Q F L b' os'" "node b' i = (node b i)\<lparr>nd_remaining := x\<rparr>" "same_grid b b'"
  shows "dense_taker i L n b0 b' os'" "nd_remaining (node b' i) = x"
proof -
  have n: "node b i = n\<lparr>nd_remaining := nd_remaining (node b i)\<rparr>" using assms(1) by (simp add: dense_taker_def)
  have "node b' i = n\<lparr>nd_remaining := x\<rparr>" unfolding assms(3) by (subst n) simp
  then show "dense_taker i L n b0 b' os'" "nd_remaining (node b' i) = x"
    using assms(1,2) same_grid_trans [OF _ assms(4)] by (auto simp: dense_taker_def)
qed

lemma stops_limit:
  "stops i type b \<longleftrightarrow> nd_remaining (node b i) = 0 \<or> best_contra i b = kInvalid \<or>
     \<not> crosses (nd_side (node b i)) (limit_of type (node b i)) (level_price b (best_contra i b))"
  by (cases type) (auto simp: stops_def limit_of_def crosses_def)

lemma dense_go:
  assumes t: "dense_taker i L n b0 b os" and m: "spec_best os (opposite (nd_side n)) = Some m"
    and go: "crosses (nd_side n) (limit_of type n) (rs_price m)" "nd_remaining (node b i) \<noteq> 0"
  defines "s \<equiv> opposite (nd_side (node b i))" and "l \<equiv> best_contra i b"
  obtains Q F j q where "book_rel Q F L b os" "Q s l = j # q" "m = order_of b j" "level_price b l = rs_price m"
    "l < db_level_count b" "\<not> stops i type b" "lv_head (level_at b s l) \<noteq> kInvalid"
proof -
  obtain Q F where r: "i \<in> L" "book_rel Q F L b os" "nd_id (node b i) = nd_id n" "nd_side (node b i) = nd_side n"
    "limit_of type (node b i) = limit_of type n" by (rule dense_takerD [OF t])
  note best = rel_spec_best [OF r(2), of i, folded s_def l_def]
  have valid: "l \<noteq> kInvalid" using best(1) m r(4) by (auto simp: s_def)
  obtain j q where j: "Q s l = j # q" "spec_best os s = Some (order_of b j)" "nd_price (node b j) = level_price b l"
    "lv_head (level_at b s l) = j" "j \<noteq> kInvalid" using best(2) [OF valid] by blast
  have mj: "m = order_of b j" "level_price b l = rs_price m" using m j(2,3) r(4) by (simp_all add: s_def)
  have "l < db_level_count b" using queue_member(4) [OF db_invD(2) [OF book_relD(1) [OF r(2)]], of j s l] j(1) by simp
  moreover have "\<not> stops i type b" using go r(4,5) valid mj(2) by (simp add: stops_limit l_def [symmetric])
  ultimately show thesis using that [OF r(2) j(1) mj] j(4,5) by simp
qed

lemma dense_part:
  fixes n type i L
  assumes t: "dense_taker i L n b0 b os" and m: "spec_best os (opposite (nd_side n)) = Some m"
    and go: "crosses (nd_side n) (limit_of type n) (rs_price m)" "nd_remaining (node b i) \<noteq> 0"
    and less: "nd_remaining (node b i) < rs_quantity m"
  shows "\<exists>b'. match_orders i type b = prepend [On_trade (rs_id m) (nd_id n) (rs_price m) (nd_remaining (node b i)),
      On_order (rs_id m) PartiallyFilled (rs_quantity m - nd_remaining (node b i))] (match_orders i type b') \<and>
    dense_taker i L n b0 b' (spec_lower (rs_id m) (nd_remaining (node b i)) os) \<and> nd_remaining (node b' i) = 0"
proof -
  let ?x = "nd_remaining (node b i)" and ?s = "opposite (nd_side (node b i))" and ?l = "best_contra i b"
  have i: "i \<in> L" "nd_id (node b i) = nd_id n" by (rule dense_takerD [OF t], assumption)+
  obtain Q F j q where j: "book_rel Q F L b os" "Q ?s ?l = j # q" "m = order_of b j" "level_price b ?l = rs_price m"
    "?l < db_level_count b" "\<not> stops i type b" "lv_head (level_at b ?s ?l) \<noteq> kInvalid" by (rule dense_go [OF t m go])
  have less': "?x < nd_remaining (node b j)" using less j(3) by simp
  obtain b1 where b1: "trade_step i ?l (level_price b ?l) b = (b1, [On_trade (rs_id m) (nd_id n) (rs_price m) ?x,
      On_order (rs_id m) PartiallyFilled (rs_quantity m - ?x)])"
    "book_rel Q F L b1 (spec_lower (rs_id m) ?x os)" "node b1 i = (node b i)\<lparr>nd_remaining := 0\<rparr>" "same_grid b b1"
    by (rule trade_step_partial [OF j(1) i(1) j(2) less', of "level_price b ?l"]) (simp add: j(3) i(2) j(4))
  have "match_orders i type b = prepend [On_trade (rs_id m) (nd_id n) (rs_price m) ?x,
      On_order (rs_id m) PartiallyFilled (rs_quantity m - ?x)] (match_orders i type b1)"
    using best_contra_keep [OF book_relD(1) [OF j(1)] book_relD(1) [OF b1(2)]] j(5) same_gridD [OF b1(4)]
    by (intro match_orders_trade [OF j(6,7) b1(1)]) (auto simp: b1(3,4))
  then show ?thesis using dense_taker_step [OF t b1(2-4)] by blast
qed

lemma dense_full:
  fixes n type i L
  assumes t: "dense_taker i L n b0 b os" and m: "spec_best os (opposite (nd_side n)) = Some m"
    and go: "crosses (nd_side n) (limit_of type n) (rs_price m)" "nd_remaining (node b i) \<noteq> 0"
    and le: "\<not> nd_remaining (node b i) < rs_quantity m"
  shows "\<exists>b'. match_orders i type b = prepend [On_trade (rs_id m) (nd_id n) (rs_price m) (rs_quantity m),
      On_order (rs_id m) Filled 0] (match_orders i type b') \<and>
    dense_taker i L n b0 b' (spec_remove (rs_id m) os) \<and> nd_remaining (node b' i) = nd_remaining (node b i) - rs_quantity m"
proof -
  let ?x = "nd_remaining (node b i)" and ?s = "opposite (nd_side (node b i))" and ?l = "best_contra i b"
  have i: "i \<in> L" "nd_id (node b i) = nd_id n" by (rule dense_takerD [OF t], assumption)+
  obtain Q F j q where j: "book_rel Q F L b os" "Q ?s ?l = j # q" "m = order_of b j" "level_price b ?l = rs_price m"
    "?l < db_level_count b" "\<not> stops i type b" "lv_head (level_at b ?s ?l) \<noteq> kInvalid" by (rule dense_go [OF t m go])
  have le': "\<not> ?x < nd_remaining (node b j)" using le j(3) by simp
  obtain b1 where b1: "trade_step i ?l (level_price b ?l) b = (b1, [On_trade (rs_id m) (nd_id n) (rs_price m) (rs_quantity m),
      On_order (rs_id m) Filled 0])"
    "book_rel (updq Q ?s ?l q) (j # F) L b1 (spec_remove (rs_id m) os)"
    "node b1 i = (node b i)\<lparr>nd_remaining := ?x - rs_quantity m\<rparr>" "same_grid b b1"
    by (rule trade_step_full [OF j(1) i(1) j(2) le', of "level_price b ?l"]) (simp add: j(3) i(2) j(4))
  have "match_orders i type b = prepend [On_trade (rs_id m) (nd_id n) (rs_price m) (rs_quantity m),
      On_order (rs_id m) Filled 0] (match_orders i type b1)"
  proof (rule match_orders_trade [OF j(6,7) b1(1)])
    show "best_contra i b1 = ?l" if "lv_head (level_at b1 ?s ?l) \<noteq> kInvalid"
      using j(2,5) same_gridD [OF b1(4)] that
      by (intro best_contra_keep [OF book_relD(1) [OF j(1)] book_relD(1) [OF b1(2)]]) (auto simp: b1(3) split: if_splits)
  qed (simp_all add: b1(3,4))
  then show ?thesis using dense_taker_step [OF t b1(2-4)] by blast
qed

interpretation dense_loop: price_time_loop "match_orders i type" "dense_taker i L n b0"
    "\<lambda>b. nd_remaining (node b i)" "nd_id n" "nd_side n" "limit_of type n"
  for i :: nat and type :: OrderType and n :: Node and L :: "nat set" and b0 :: DensePriceOrderBook
proof
  fix b os
  assume t: "dense_taker i L n b0 b os"
    and stop: "nd_remaining (node b i) = 0 \<or>
      (case spec_best os (opposite (nd_side n)) of None \<Rightarrow> True | Some m \<Rightarrow> \<not> crosses (nd_side n) (limit_of type n) (rs_price m))"
  obtain Q F where r: "book_rel Q F L b os" "nd_side (node b i) = nd_side n" "limit_of type (node b i) = limit_of type n"
    by (rule dense_takerD [OF t])
  have "stops i type b"
    using stop rel_spec_best(2) [OF r(1), of i] r(2,3) by (cases "best_contra i b = kInvalid") (auto simp: stops_limit)
  then show "match_orders i type b = Some (b, [])" by (subst match_orders_unfold) simp
qed (rule dense_part dense_full; assumption)+

lemma match_sim:
  assumes "book_rel Q F L b os" "i \<in> L"
    "spec_match (nd_id (node b i)) (nd_side (node b i)) (limit_of type (node b i)) (nd_remaining (node b i)) os = (x', os', ev)"
  shows "\<exists>b' Q' F'. match_orders i type b = Some (b', ev) \<and> book_rel Q' F' L b' os' \<and>
     node b' i = (node b i)\<lparr>nd_remaining := x'\<rparr> \<and> same_grid b b'"
proof -
  have "dense_taker i L (node b i) b b os" using assms(1,2) by (auto simp: dense_taker_def)
  from dense_loop.simulates [OF this assms(3)] show ?thesis by (auto simp: dense_taker_def)
qed

section \<open>Orders\<close>

lemma settle_sim:
  assumes rel: "book_rel Q F {i} b os"
    and lim: "type = Limit \<Longrightarrow> nd_level (node b i) = l \<and> l < db_level_count b \<and> nd_price (node b i) = level_price b l"
  obtains b' ev' os' where "settle i l type quantity b = (b', ev')" "implements b' os'" "same_grid b b'"
    "spec_settle (nd_id (node b i)) (nd_side (node b i)) (limit_of type (node b i)) quantity
       (nd_remaining (node b i), os, ev) = (os', ev @ ev')"
proof -
  let ?n = "\<lambda>st. (node b i)\<lparr>nd_state := st\<rparr>"
  have len: "i < length (db_nodes b)" using node_bounds(1) [OF book_relD(1) [OF rel]] by blast
  have st: "upd_state i st b = upd_node i (\<lambda>_. ?n st) b" for st unfolding upd_state_def by (rule upd_node_const)
  have rel': "book_rel Q F {i} (upd_state i st b) os" for st
    unfolding st using db_invD(7) [OF book_relD(1) [OF rel]] by (intro rel_loose [OF rel]) simp_all
  have n: "node (upd_state i st b) i = ?n st" "same_grid b (upd_state i st b)"
    "db_level_count (upd_state i st b) = db_level_count b" "level_price (upd_state i st b) = level_price b" for st
    using len by (simp_all add: st)
  have gone: "implements (release i (upd_state i st b)) os" for st
    using rel_release [OF rel', of i] unfolding implements_def by auto
  show thesis
  proof (cases "nd_remaining (node b i) = 0 \<or> type = Market")
    case True
    let ?st = "if nd_remaining (node b i) = 0 then Filled else Canceled"
    show thesis
      by (rule that [OF _ gone [of ?st], where ev' = "[On_order (nd_id (node b i)) ?st (nd_remaining (node b i))]"])
        (use True n(2) [of ?st] in \<open>auto simp: settle_def spec_settle_def limit_of_def Let_def\<close>)
  next
    case False
    then have type: "type = Limit" by (cases type) auto
    let ?st = "if nd_remaining (node b i) = quantity then New else PartiallyFilled"
    have "implements (append_order i l (upd_state i ?st b)) (os @ [order_of (upd_state i ?st b) i])"
      using rel_append [OF rel', of i _ _ l] lim [OF type] n unfolding implements_def by auto
    moreover have "order_of (upd_state i ?st b) i =
        \<lparr>rs_id = nd_id (node b i), rs_side = nd_side (node b i), rs_price = nd_price (node b i), rs_quantity = nd_remaining (node b i)\<rparr>"
      using n(1) by (simp add: order_of_def)
    ultimately show thesis using False type n(2)
      by (intro that [of "append_order i l (upd_state i ?st b)"]) (auto simp: settle_def spec_settle_def limit_of_def Let_def)
  qed
qed

lemma match_settle_sim:
  assumes rel: "book_rel Q F {i} b os"
    and lim: "type = Limit \<Longrightarrow> nd_level (node b i) = l \<and> l < db_level_count b \<and> nd_price (node b i) = level_price b l"
  obtains b' ev os' where
    "map_option (\<lambda>(b, ev). case settle i l type quantity b of (b, ev') \<Rightarrow> (b, True, ev @ ev')) (match_orders i type b) = Some (b', True, ev)"
    "implements b' os'" "same_grid b b'"
    "spec_settle (nd_id (node b i)) (nd_side (node b i)) (limit_of type (node b i)) quantity
       (spec_match (nd_id (node b i)) (nd_side (node b i)) (limit_of type (node b i)) (nd_remaining (node b i)) os) = (os', ev)"
proof -
  obtain x os1 ev1 where sp: "spec_match (nd_id (node b i)) (nd_side (node b i)) (limit_of type (node b i)) (nd_remaining (node b i)) os
      = (x, os1, ev1)" by (metis prod_cases3)
  obtain b1 Q1 F1 where b1: "match_orders i type b = Some (b1, ev1)" "book_rel Q1 F1 {i} b1 os1"
    "node b1 i = (node b i)\<lparr>nd_remaining := x\<rparr>" "same_grid b b1"
    using match_sim [OF rel _ sp] by auto
  have lim1: "limit_of type (node b1 i) = limit_of type (node b i)" by (simp add: limit_of_def b1(3))
  have "type = Limit \<Longrightarrow> nd_level (node b1 i) = l \<and> l < db_level_count b1 \<and> nd_price (node b1 i) = level_price b1 l"
    using lim same_gridD [OF b1(4)] by (simp add: b1(3))
  then obtain b' ev' os' where s: "settle i l type quantity b1 = (b', ev')" "implements b' os'" "same_grid b1 b'"
    "spec_settle (nd_id (node b1 i)) (nd_side (node b1 i)) (limit_of type (node b1 i)) quantity
       (nd_remaining (node b1 i), os1, ev1) = (os', ev1 @ ev')"
    by (rule settle_sim [OF b1(2)])
  show thesis
    using b1 s sp lim1 same_grid_trans [OF b1(4) s(3)] by (intro that [of b' "ev1 @ ev'" os']) simp_all
qed

lemma submit_sim:
  assumes rel: "book_rel Q F {} b os"
  shows "\<exists>b' os' r. submit b rq = Some (b', r) \<and> same_grid b b' \<and> implements b' os' \<and> (fst r \<or> b' = b) \<and>
    spec_submit (db_order_capacity b) (\<lambda>p. price_index b p \<noteq> None) os rq = (os', r)"
proof (cases "rq_id rq = 0 \<or> rq_id rq = UINT64_MAX \<or> rq_quantity rq = 0 \<or> spec_find os (rq_id rq) \<noteq> None \<or>
    (\<exists>p\<in>set_option (rq_limit rq). price_index b p = None) \<or> F = []")
  case True
  have full: "F = [] \<longleftrightarrow> db_order_capacity b \<le> length os" using rel_active [OF rel] by (cases F) auto
  have "submit b rq = Some (b, False, [On_order (rq_id rq) Rejected (rq_quantity rq)])"
  proof (cases "F = []")
    case True
    then show ?thesis using allocate_empty [of Q "{}" b] book_relD(1) [OF rel] by (simp add: submit_def Let_def)
  next
    case False
    with True have "rq_id rq = 0 \<or> rq_id rq = UINT64_MAX \<or> rq_quantity rq = 0 \<or> ix_find (db_index b) (rq_id rq) \<noteq> kInvalid \<or>
        (rq_type rq = Limit \<and> price_index b (rq_price rq) = None)"
      unfolding rel_find(3) [OF rel refl] by (auto simp: rq_limit_def split: if_splits)
    then show ?thesis by (simp add: submit_def Let_def)
  qed
  moreover have "spec_submit (db_order_capacity b) (\<lambda>p. price_index b p \<noteq> None) os rq =
      (os, False, [On_order (rq_id rq) Rejected (rq_quantity rq)])"
    using True full by (auto simp: spec_submit_def)
  moreover have "implements b os" using rel unfolding implements_def by blast
  ultimately show ?thesis using same_grid_steps(1) by (metis fst_conv)
next
  case False
  let ?k = "rq_id rq" and ?side = "rq_side rq" and ?x = "rq_quantity rq"
  define level where "level = (if rq_type rq = Limit then the (price_index b (rq_price rq)) else kInvalid)"
  obtain i F' where F: "F = i # F'" using False by (cases F) auto
  have k: "?k \<noteq> 0" "?k \<noteq> UINT64_MAX" "ix_find (db_index b) ?k = kInvalid" "?x \<noteq> 0" using False rel_find(3) [OF rel refl] by auto
  have lim: "rq_type rq = Limit \<Longrightarrow> price_index b (rq_price rq) = Some level" using False by (auto simp: rq_limit_def level_def)
  obtain b1 ix where r: "allocate b = (b1, i)" "i \<noteq> kInvalid" "ix_insert (db_index b1) ?k i = (ix, True)"
    and r2: "let b2 = upd_node i (fill_node ?k ?side (rq_price rq) ?x level) (b1\<lparr>db_index := ix\<rparr>) in
      book_rel Q F' {i} b2 os \<and> node b2 i = fill_node ?k ?side (rq_price rq) ?x level Node_default \<and> same_grid b b2"
    using rel_register [OF rel [unfolded F(1)] k(1-3)] by blast
  define b2 where "b2 = upd_node i (fill_node ?k ?side (rq_price rq) ?x level) (b1\<lparr>db_index := ix\<rparr>)"
  have b2: "book_rel Q F' {i} b2 os" "node b2 i = fill_node ?k ?side (rq_price rq) ?x level Node_default" "same_grid b b2"
    using r2 by (simp_all add: b2_def Let_def)
  have n: "nd_id (node b2 i) = ?k" "nd_side (node b2 i) = ?side" "nd_remaining (node b2 i) = ?x" "nd_level (node b2 i) = level"
    "nd_price (node b2 i) = rq_price rq" "limit_of (rq_type rq) (node b2 i) = rq_limit rq"
    by (simp_all add: b2(2) fill_node_def limit_of_def rq_limit_def)
  have lim': "rq_type rq = Limit \<Longrightarrow> nd_level (node b2 i) = level \<and> level < db_level_count b2 \<and> nd_price (node b2 i) = level_price b2 level"
    using price_index_iff [OF db_invD(1) [OF book_relD(1) [OF rel]]] lim same_gridD [OF b2(3)] n by auto
  obtain b' ev os' where m: "map_option (\<lambda>(b, ev). case settle i level (rq_type rq) ?x b of (b, ev') \<Rightarrow> (b, True, ev @ ev'))
      (match_orders i (rq_type rq) b2) = Some (b', True, ev)"
    "implements b' os'" "same_grid b2 b'"
    "spec_settle ?k ?side (rq_limit rq) ?x (spec_match ?k ?side (rq_limit rq) ?x os) = (os', ev)"
    by (rule match_settle_sim [OF b2(1), of "rq_type rq" level ?x, unfolded n]) (use lim' [unfolded n] in simp)
  have guard: "\<not> (?k = 0 \<or> ?k = UINT64_MAX \<or> ?x = 0 \<or> ix_find (db_index b) ?k \<noteq> kInvalid \<or>
      (rq_type rq = Limit \<and> price_index b (rq_price rq) = None))" using k lim by auto
  have "submit b rq = Some (b', True, ev)"
    unfolding m(1) [symmetric]
    by (simp only: submit_def Let_def if_not_P [OF guard] r prod.case not_True_eq_False if_False b2_def level_def)
  moreover have "\<not> db_order_capacity b \<le> length os" using rel_active [OF rel] F(1) by simp
  then have "spec_submit (db_order_capacity b) (\<lambda>p. price_index b p \<noteq> None) os rq = (os', True, ev)"
    using False m(4) by (simp add: spec_submit_def)
  ultimately show ?thesis using m(2) same_grid_trans [OF b2(3) m(3)] by (metis fst_conv)
qed

lemma cancel_sim:
  assumes rel: "book_rel Q F {} b os"
  shows "\<exists>b' os' r. cancel b k = (b', r) \<and> same_grid b b' \<and> implements b' os' \<and> (fst r \<or> b' = b) \<and> spec_cancel os k = (os', r)"
proof (cases "spec_find os k")
  case None
  then have "cancel b k = (b, False, [])" using rel_find(3) [OF rel refl, of k] by (simp add: cancel_def)
  then show ?thesis using None rel by (auto simp: implements_def spec_cancel_def)
next
  case (Some r)
  then obtain i where i: "i \<in> queued Q" "nd_id (node b i) = k" "ix_find (db_index b) k = i" "r = order_of b i"
    using rel_find(2) [OF rel] by blast
  have valid: "i \<noteq> kInvalid" using Some i(3) rel_find(3) [OF rel refl, of k] by auto
  obtain xs ys where q: "Q (nd_side (node b i)) (nd_level (node b i)) = xs @ i # ys"
    using queued_split [OF i(1) db_invD(2) [OF book_relD(1) [OF rel]]] by blast
  note unl = rel_unlink [OF rel q, unfolded i(2)]
  let ?u = "upd_state i Canceled (unlink i b)"
  have st: "?u = upd_node i (\<lambda>_. (node (unlink i b) i)\<lparr>nd_state := Canceled\<rparr>) (unlink i b)"
    unfolding upd_state_def by (rule upd_node_const)
  have "i < length (db_nodes (unlink i b))" using node_bounds(1) [OF book_relD(1) [OF unl]] by blast
  then have rem: "nd_remaining (node ?u i) = nd_remaining (node b i)"
    using nd_coreD [OF unlink_core(1) [of i b i]] by (simp add: st)
  have "book_rel (updq Q (nd_side (node b i)) (nd_level (node b i)) (xs @ ys)) F {i} ?u (spec_remove k os)"
    unfolding st using db_invD(7) [OF book_relD(1) [OF unl]] by (intro rel_loose [OF unl]) simp_all
  from rel_release [OF this, of i] have "implements (release i ?u) (spec_remove k os)" unfolding implements_def by auto
  moreover have "cancel b k = (release i ?u, True, [On_order k Canceled (nd_remaining (node b i))])"
    using i(3) valid rem by (simp add: cancel_def Let_def)
  moreover have "same_grid b (release i ?u)" by (simp add: upd_state_def)
  ultimately show ?thesis using Some i(4) by (intro exI [of _ "release i ?u"]) (auto simp: spec_cancel_def)
qed

lemma modify_sim:
  assumes rel: "book_rel Q F {} b os"
  shows "\<exists>b' os' r. modify b k price x = Some (b', r) \<and> same_grid b b' \<and> implements b' os' \<and> (fst r \<or> b' = b) \<and>
    spec_modify (\<lambda>p. price_index b p \<noteq> None) os k price x = (os', r)"
proof (cases "spec_find os k = None \<or> x = 0 \<or> price_index b price = None")
  case True
  then have "modify b k price x = Some (b, False, [])"
    using rel_find(3) [OF rel refl, of k] by (auto simp: modify_def Let_def)
  moreover have "spec_modify (\<lambda>p. price_index b p \<noteq> None) os k price x = (os, False, [])"
    using True by (cases "spec_find os k") (simp_all add: spec_modify_def)
  moreover have "implements b os" using rel unfolding implements_def by blast
  ultimately show ?thesis using same_grid_steps(1) by (metis fst_conv)
next
  case False
  then obtain r level where some: "spec_find os k = Some r" "price_index b price = Some level" by auto
  then obtain i where i: "i \<in> queued Q" "nd_id (node b i) = k" "ix_find (db_index b) k = i" "r = order_of b i"
    using rel_find(2) [OF rel] by blast
  have valid: "i \<noteq> kInvalid" using some(1) i(3) rel_find(3) [OF rel refl, of k] by auto
  obtain xs ys where q: "Q (nd_side (node b i)) (nd_level (node b i)) = xs @ i # ys"
    using queued_split [OF i(1) db_invD(2) [OF book_relD(1) [OF rel]]] by blast
  note unl = rel_unlink [OF rel q, unfolded i(2)]
  let ?f = "\<lambda>n. n\<lparr>nd_price := price, nd_remaining := x, nd_state := New, nd_level := level\<rparr>"
  define b2 where "b2 = upd_node i ?f (unlink i b)"
  have st: "b2 = upd_node i (\<lambda>_. ?f (node (unlink i b) i)) (unlink i b)"
    unfolding b2_def by (rule upd_node_const)
  have b2: "book_rel (updq Q (nd_side (node b i)) (nd_level (node b i)) (xs @ ys)) F {i} b2 (spec_remove k os)"
    unfolding st using db_invD(7) [OF book_relD(1) [OF unl]] by (intro rel_loose [OF unl]) simp_all
  have grid: "same_grid b b2" by (simp add: b2_def)
  have "i < length (db_nodes (unlink i b))" using node_bounds(1) [OF book_relD(1) [OF unl]] by blast
  then have n: "nd_id (node b2 i) = k" "nd_side (node b2 i) = rs_side r" "nd_remaining (node b2 i) = x" "nd_level (node b2 i) = level"
    "nd_price (node b2 i) = price" "limit_of Limit (node b2 i) = Some price"
    using nd_coreD [OF unlink_core(1) [of i b i]] i(2,4) by (simp_all add: st limit_of_def)
  have lim: "nd_level (node b2 i) = level \<and> level < db_level_count b2 \<and> nd_price (node b2 i) = level_price b2 level"
    using price_index_iff [OF db_invD(1) [OF book_relD(1) [OF rel]]] some(2) same_gridD [OF grid] n by auto
  obtain b' ev os' where m: "map_option (\<lambda>(b, ev). case settle i level Limit x b of (b, ev') \<Rightarrow> (b, True, ev @ ev'))
      (match_orders i Limit b2) = Some (b', True, ev)"
    "implements b' os'" "same_grid b2 b'"
    "spec_settle k (rs_side r) (Some price) x (spec_match k (rs_side r) (Some price) x (spec_remove k os)) = (os', ev)"
    by (rule match_settle_sim [OF b2 lim, of Limit x, unfolded n])
  have "modify b k price x = Some (b', True, ev)"
    using i(3) valid False some(2) m(1) by (simp add: modify_def Let_def b2_def)
  moreover have "spec_modify (\<lambda>p. price_index b p \<noteq> None) os k price x = (os', True, ev)"
    using False some m(4) by (simp add: spec_modify_def)
  ultimately show ?thesis using m(2) same_grid_trans [OF grid m(3)] by (metis fst_conv)
qed

section \<open>Histories\<close>

lemma book_apply_step:
  assumes "implements b os"
  obtains b' os' r where "book_apply b p = Some (b', r)" "same_grid b b'" "implements b' os'" "fst r \<or> b' = b"
    "spec_apply (db_order_capacity b) (\<lambda>p. price_index b p \<noteq> None) os p = (os', r)"
proof -
  obtain Q F where rel: "book_rel Q F {} b os" using assms by (auto simp: implements_def)
  show thesis
  proof (cases p)
    case (Op_feed f)
    show thesis by (rule book_feed_step [OF assms, of f]) (use Op_feed that in auto)
  qed (use that submit_sim [OF rel] cancel_sim [OF rel] modify_sim [OF rel] in \<open>metis book_apply.simps spec_apply.simps\<close>)+
qed

lemma book_run_sim:
  "implements b os \<Longrightarrow> \<exists>b' os' rs. book_run b ps = Some (b', rs) \<and> same_grid b b' \<and> implements b' os' \<and>
    spec_run (db_order_capacity b) (\<lambda>p. price_index b p \<noteq> None) os ps = (os', rs)"
proof (induction ps arbitrary: b os)
  case (Cons p ps)
  obtain b1 os1 r where s: "book_apply b p = Some (b1, r)" "same_grid b b1" "implements b1 os1" "fst r \<or> b1 = b"
    "spec_apply (db_order_capacity b) (\<lambda>p. price_index b p \<noteq> None) os p = (os1, r)"
    by (rule book_apply_step [OF Cons.prems])
  obtain b2 os2 rs where t: "book_run b1 ps = Some (b2, rs)" "same_grid b1 b2" "implements b2 os2"
    "spec_run (db_order_capacity b) (\<lambda>p. price_index b p \<noteq> None) os1 ps = (os2, rs)"
    using Cons.IH [OF s(3)] same_gridD [OF s(2)] by auto
  show ?case using s t same_grid_trans [OF s(2) t(2)] by simp
qed simp

end
