(* ===== verification/DenseBookProps.thy ===== *)
theory DenseBookProps
  imports DenseBookMatch
begin

text \<open>
  The properties of the dense order book: every history of calls returns what the price-time
  priority specification returns, keeps the structural invariant, never leaves the book crossed
  when orders only enter through \<open>submit\<close>, and conserves quantity; a refused call changes nothing.
\<close>

section \<open>Definitions\<close>

definition spec_grid :: "int \<Rightarrow> int \<Rightarrow> nat \<Rightarrow> int \<Rightarrow> bool" where
  "spec_grid minimum_price tick_size level_count p \<longleftrightarrow>
     minimum_price \<le> p \<and> (p - minimum_price) mod tick_size = 0 \<and>
     (p - minimum_price) div tick_size < int level_count"

definition uncrossed :: "resting list \<Rightarrow> bool" where
  "uncrossed os \<longleftrightarrow> (\<forall>r\<in>set os. \<forall>r'\<in>set os. rs_side r = Buy \<and> rs_side r' = Sell \<longrightarrow> rs_price r < rs_price r')"

fun is_feed :: "book_op \<Rightarrow> bool" where
  "is_feed (Op_feed p) = True"
| "is_feed _ = False"

fun traded :: "sink_event list \<Rightarrow> nat" where
  "traded [] = 0"
| "traded (On_trade m t p q # ev) = unat q + traded ev"
| "traded (On_order k st x # ev) = traded ev"

fun left_over :: "sink_event list \<Rightarrow> nat" where
  "left_over ev = (case last ev of On_order k st x \<Rightarrow> unat x | On_trade m t p q \<Rightarrow> 0)"

section \<open>The specification's own laws\<close>

lemma price_index_new:
  assumes "0 < tick_size"
  shows "price_index (DensePriceOrderBook_new c mn tick_size n) p \<noteq> None \<longleftrightarrow> spec_grid mn tick_size n p"
  using assms by (auto simp: price_index_def DensePriceOrderBook_new_def spec_grid_def Let_def)

lemma spec_best_extreme:
  assumes "spec_best os side = Some m" "r \<in> set os" "rs_side r = side"
  shows "if side = Buy then rs_price r \<le> rs_price m else rs_price m \<le> rs_price r"
proof -
  have "rs_price r \<in> set (spec_prices os side)" using assms(2,3) by (auto simp: spec_prices_def)
  then show ?thesis using spec_best_in(3) [OF assms(1)]
    by (cases side) (auto simp: spec_best_bid_def spec_best_ask_def)
qed

lemma spec_best_none: "spec_best os side = None \<Longrightarrow> r \<in> set os \<Longrightarrow> rs_side r \<noteq> side"
  by (auto simp: spec_best_def spec_prices_def filter_empty_conv split: if_splits)

definition order_keys :: "resting list \<Rightarrow> (u64 \<times> Side \<times> int) set" where
  "order_keys os = (\<lambda>r. (rs_id r, rs_side r, rs_price r)) ` set os"

lemma order_keys_steps [simp]:
  "order_keys (spec_lower k x os) = order_keys os" "order_keys (spec_remove k os) \<subseteq> order_keys os"
  "order_keys (os @ os') = order_keys os \<union> order_keys os'"
proof -
  show "order_keys (spec_lower k x os) = order_keys os"
    by (induction os) (auto simp: order_keys_def spec_lower_def)
qed (auto simp: order_keys_def spec_remove_def)

lemma uncrossed_keys:
  "uncrossed os \<longleftrightarrow> (\<forall>(k, s, p)\<in>order_keys os. \<forall>(k', s', p')\<in>order_keys os. s = Buy \<and> s' = Sell \<longrightarrow> p < p')"
  by (auto simp: uncrossed_def order_keys_def)

lemma uncrossed_mono: "uncrossed os \<Longrightarrow> order_keys os' \<subseteq> order_keys os \<Longrightarrow> uncrossed os'"
  unfolding uncrossed_keys by fast

section \<open>What matching leaves\<close>

lemma spec_match_keys:
  "spec_match k side limit x os = (x', os', ev) \<Longrightarrow> order_keys os' \<subseteq> order_keys os"
proof (induction k side limit x os arbitrary: x' os' ev rule: spec_match.induct)
  case (1 k side limit x os)
  from "1.prems" show ?case
  proof (cases rule: spec_match_cases)
    case (full m ev1)
    then show ?thesis using "1.IH" order_keys_steps(2) [of "rs_id m" os] by blast
  qed simp_all
qed

lemma spec_match_rest:
  "spec_match k side limit x os = (x', os', ev) \<Longrightarrow> x' \<noteq> 0 \<Longrightarrow>
   \<forall>r\<in>set os'. rs_side r = opposite side \<longrightarrow> \<not> crosses side limit (rs_price r)"
proof (induction k side limit x os arbitrary: x' os' ev rule: spec_match.induct)
  case (1 k side limit x os)
  from "1.prems"(1) show ?case
  proof (cases rule: spec_match_cases)
    case stop
    show ?thesis
    proof (cases "spec_best os (opposite side)")
      case None
      then show ?thesis using spec_best_none [OF None] stop(2) by blast
    next
      case (Some m)
      then have "\<not> crosses side limit (rs_price m)" using stop "1.prems"(2) by simp
      then have "\<not> crosses side limit (rs_price r)" if "r \<in> set os" "rs_side r = opposite side" for r
        using spec_best_extreme [OF Some that]
        by (cases side) (auto simp: crosses_def opposite_def split: option.splits)
      then show ?thesis using stop(2) by blast
    qed
  next
    case (full m ev1)
    then show ?thesis using "1.IH" "1.prems"(2) by blast
  qed (use "1.prems"(2) in simp)
qed

lemma spec_match_quantity:
  "spec_match k side limit x os = (x', os', ev) \<Longrightarrow>
   unat x = traded ev + unat x' \<and> (\<forall>m t p q. On_trade m t p q \<in> set ev \<longrightarrow> t = k \<and> crosses side limit p)"
proof (induction k side limit x os arbitrary: x' os' ev rule: spec_match.induct)
  case (1 k side limit x os)
  from "1.prems" show ?case
  proof (cases rule: spec_match_cases)
    case (full m ev1)
    have "unat x = unat (rs_quantity m) + unat (x - rs_quantity m)"
      using full(4) by (simp add: unat_sub not_less word_le_nat_alt)
    then show ?thesis using "1.IH" [OF full(1,2) _ full(4,5)] full(3,6) by auto
  qed auto
qed

section \<open>Orders that only enter through matching\<close>

lemma uncrossed_settle:
  assumes un: "uncrossed os" and m: "spec_match k side limit x os = (x', os1, ev)"
    and s: "spec_settle k side limit x (x', os1, ev) = (os', ev')"
  shows "uncrossed os'"
proof -
  have un1: "uncrossed os1" by (rule uncrossed_mono [OF un spec_match_keys [OF m]])
  show ?thesis
  proof (cases "x' = 0 \<or> limit = None")
    case True
    then have "os' = os1" using s by (auto simp: spec_settle_def split: if_splits)
    then show ?thesis using un1 by simp
  next
    case False
    then obtain p where p: "limit = Some p" "x' \<noteq> 0" by auto
    then have "os' = os1 @ [\<lparr>rs_id = k, rs_side = side, rs_price = p, rs_quantity = x'\<rparr>]" using s by (simp add: spec_settle_def)
    then show ?thesis using un1 spec_match_rest [OF m p(2)] p(1)
      by (cases side) (auto simp: uncrossed_def crosses_def opposite_def not_le)
  qed
qed

lemma uncrossed_apply:
  assumes "uncrossed os" "\<not> is_feed p" "spec_apply cap grid os p = (os', r)"
  shows "uncrossed os'"
proof (cases p)
  case (Op_submit rq)
  obtain x' os1 ev where m: "spec_match (rq_id rq) (rq_side rq) (rq_limit rq) (rq_quantity rq) os = (x', os1, ev)"
    by (metis prod_cases3)
  obtain os2 ev2 where s: "spec_settle (rq_id rq) (rq_side rq) (rq_limit rq) (rq_quantity rq) (x', os1, ev) = (os2, ev2)" by fastforce
  show ?thesis using assms(1,3) Op_submit uncrossed_settle [OF assms(1) m s] s
    by (auto simp: spec_submit_def m split: if_splits)
next
  case (Op_modify k price x)
  have un: "uncrossed (spec_remove k os)" by (rule uncrossed_mono [OF assms(1) order_keys_steps(2)])
  have "uncrossed os2" if "spec_settle k side (Some price) x (spec_match k side (Some price) x (spec_remove k os)) = (os2, ev2)" for side os2 ev2
    using that uncrossed_settle [OF un] by (metis prod_cases3)
  then show ?thesis using assms(1,3) Op_modify
    by (auto simp: spec_modify_def split: option.splits if_splits prod.splits)
next
  case (Op_cancel k)
  then show ?thesis using assms(1,3) uncrossed_mono [OF assms(1) order_keys_steps(2)]
    by (auto simp: spec_cancel_def split: option.splits)
qed (use assms(2) in simp)

lemma uncrossed_run:
  "uncrossed os \<Longrightarrow> \<forall>p\<in>set ps. \<not> is_feed p \<Longrightarrow> spec_run cap grid os ps = (os', rs) \<Longrightarrow> uncrossed os'"
proof (induction ps arbitrary: os rs)
  case (Cons p ps)
  obtain os1 r where s: "spec_apply cap grid os p = (os1, r)" by (rule prod.exhaust)
  obtain rs1 where "spec_run cap grid os1 ps = (os', rs1)" using Cons.prems(3) s by (auto split: prod.splits)
  then show ?case using Cons.IH uncrossed_apply [OF Cons.prems(1) _ s] Cons.prems(2) by auto
qed simp

lemma answers_uncrossed:
  assumes "book_answers b os" "uncrossed os" "implements b os" "db_best_bid b \<noteq> kInvalid" "db_best_ask b \<noteq> kInvalid"
  shows "best_bid b < best_ask b"
proof -
  obtain Q F where rel: "book_rel Q F {} b os" using assms(3) by (auto simp: implements_def)
  note e = rel_best [OF rel]
  have ne: "spec_prices os Buy \<noteq> []" "spec_prices os Sell \<noteq> []" using assms(4,5) e(3,4) by auto
  then have "spec_best_bid os \<in> set (spec_prices os Buy)" "spec_best_ask os \<in> set (spec_prices os Sell)"
    by (auto simp: spec_best_bid_def spec_best_ask_def intro!: Max_in Min_in)
  then show ?thesis using assms(2) e(1,2) by (auto simp: spec_prices_def uncrossed_def)
qed

section \<open>Properties\<close>

lemma new_book_run:
  assumes "order_capacity < kInvalid" "level_count + 63 < 2 ^ 32" "0 < tick_size"
  obtains b os rs where
    "book_run (DensePriceOrderBook_new order_capacity minimum_price tick_size level_count) ops = Some (b, rs)"
    "spec_run order_capacity (spec_grid minimum_price tick_size level_count) [] ops = (os, rs)" "implements b os"
proof -
  let ?b = "DensePriceOrderBook_new order_capacity minimum_price tick_size level_count"
  have "(\<lambda>p. price_index ?b p \<noteq> None) = spec_grid minimum_price tick_size level_count"
    by (rule ext) (rule price_index_new [OF assms(3)])
  moreover have "db_order_capacity ?b = order_capacity" by (simp add: DensePriceOrderBook_new_def)
  ultimately show thesis using book_run_sim [OF implements_new [OF assms, of minimum_price], of ops] that by auto
qed

lemma submit_laws:
  assumes "implements b os"
  obtains b' ok ev where "submit b rq = Some (b', ok, ev)" "ok \<Longrightarrow> unat (rq_quantity rq) = traded ev + left_over ev"
    "ok \<Longrightarrow> \<forall>m t p q. On_trade m t p q \<in> set ev \<longrightarrow> t = rq_id rq \<and> crosses (rq_side rq) (rq_limit rq) p"
    "\<not> ok \<Longrightarrow> b' = b \<and> ev = [On_order (rq_id rq) Rejected (rq_quantity rq)]"
proof -
  obtain b' os' r where s: "book_apply b (Op_submit rq) = Some (b', r)" "fst r \<or> b' = b"
    "spec_apply (db_order_capacity b) (\<lambda>p. price_index b p \<noteq> None) os (Op_submit rq) = (os', r)"
    by (rule book_apply_step [OF assms])
  obtain ok ev where r: "r = (ok, ev)" by (cases r)
  obtain x os1 ev1 where m: "spec_match (rq_id rq) (rq_side rq) (rq_limit rq) (rq_quantity rq) os = (x, os1, ev1)"
    by (metis prod_cases3)
  note q = spec_match_quantity [OF m]
  have tr: "traded (es @ [On_order k st y]) = traded es" for es k st y by (induction es rule: traded.induct) auto
  have acc: "unat (rq_quantity rq) = traded ev + left_over ev \<and>
      (\<forall>m t p q. On_trade m t p q \<in> set ev \<longrightarrow> t = rq_id rq \<and> crosses (rq_side rq) (rq_limit rq) p)" if ok
  proof -
    have "spec_settle (rq_id rq) (rq_side rq) (rq_limit rq) (rq_quantity rq) (x, os1, ev1) = (os', ev)"
      using s(3) that r m by (auto simp: spec_submit_def split: if_splits prod.splits)
    then have "\<exists>st. ev = ev1 @ [On_order (rq_id rq) st x]"
      by (cases "rq_limit rq") (auto simp: spec_settle_def split: if_splits)
    then obtain st where ev: "ev = ev1 @ [On_order (rq_id rq) st x]" by blast
    have "\<forall>m t p q. On_trade m t p q \<in> set ev \<longrightarrow> t = rq_id rq \<and> crosses (rq_side rq) (rq_limit rq) p"
      unfolding ev using conjunct2 [OF q] by simp
    then show ?thesis using conjunct1 [OF q] by (simp add: ev tr)
  qed
  have rej: "b' = b \<and> ev = [On_order (rq_id rq) Rejected (rq_quantity rq)]" if "\<not> ok"
    using s(2,3) that r by (auto simp: spec_submit_def split: if_splits prod.splits)
  show thesis using that s(1) r acc rej by simp
qed

text \<open>
  C2. Refinement: any sequence of feed messages, submissions, cancellations and modifications on a
  new book returns (both matching loops end), and every result, every event of the sink and every
  query (best prices, level totals, the FIFO walk of a level, remaining quantities, the number of
  active orders) is the one of the price-time priority specification on the list of resting orders.
\<close>

theorem dense_book_refines:
  assumes "order_capacity < kInvalid" "level_count + 63 < 2 ^ 32" "0 < tick_size"
  shows "\<exists>b os rs. book_run (DensePriceOrderBook_new order_capacity minimum_price tick_size level_count) ops = Some (b, rs) \<and>
    spec_run order_capacity (spec_grid minimum_price tick_size level_count) [] ops = (os, rs) \<and> book_answers b os"
  using new_book_run [OF assms, of minimum_price ops] implements_answers by metis

theorem dense_book_refines_witness:
  "\<exists>b. book_run (DensePriceOrderBook_new 4 100 1 8)
     [Op_submit \<lparr>rq_id = 1, rq_side = Buy, rq_type = Limit, rq_price = 101, rq_quantity = 5\<rparr>,
      Op_feed (Feed_add 2 Buy 101 7),
      Op_submit \<lparr>rq_id = 3, rq_side = Sell, rq_type = Limit, rq_price = 100, rq_quantity = 6\<rparr>] =
     Some (b, [(True, [On_order 1 New 5]), (True, []),
       (True, [On_trade 1 3 101 5, On_order 1 Filled 0, On_trade 2 3 101 1, On_order 2 PartiallyFilled 6, On_order 3 Filled 0])]) \<and>
   visit_level b Buy 101 = Some [(2, 6)] \<and> best_bid b = 101"
proof -
  let ?ops = "[Op_submit \<lparr>rq_id = 1, rq_side = Buy, rq_type = Limit, rq_price = 101, rq_quantity = 5\<rparr>,
      Op_feed (Feed_add 2 Buy 101 7),
      Op_submit \<lparr>rq_id = 3, rq_side = Sell, rq_type = Limit, rq_price = 100, rq_quantity = 6\<rparr>]"
  have spec: "spec_run 4 (spec_grid 100 1 8) [] ?ops = ([\<lparr>rs_id = 2, rs_side = Buy, rs_price = 101, rs_quantity = 6\<rparr>],
      [(True, [On_order 1 New 5]), (True, []),
       (True, [On_trade 1 3 101 5, On_order 1 Filled 0, On_trade 2 3 101 1, On_order 2 PartiallyFilled 6, On_order 3 Filled 0])])"
    by code_simp
  obtain b os rs where "book_run (DensePriceOrderBook_new 4 100 1 8) ?ops = Some (b, rs)"
    "spec_run 4 (spec_grid 100 1 8) [] ?ops = (os, rs)" "book_answers b os"
    using dense_book_refines [of 4 8 1 100 ?ops] by auto
  then show ?thesis unfolding spec by (auto simp: book_answers_def spec_level_def spec_best_bid_def spec_prices_def)
qed

text \<open>
  C17. The invariant: after any sequence of operations on a new book the linked queues, the level
  totals, the bitmaps, the best levels, the free list and the order index agree with one another.
\<close>

theorem dense_book_invariant:
  assumes "order_capacity < kInvalid" "level_count + 63 < 2 ^ 32" "0 < tick_size"
  shows "\<exists>b rs Q F. book_run (DensePriceOrderBook_new order_capacity minimum_price tick_size level_count) ops = Some (b, rs) \<and>
    db_inv Q F {} b"
proof -
  obtain b os rs where b: "book_run (DensePriceOrderBook_new order_capacity minimum_price tick_size level_count) ops = Some (b, rs)"
    "implements b os" by (rule new_book_run [OF assms, of minimum_price ops])
  then show ?thesis unfolding implements_def book_rel_def by blast
qed

theorem dense_book_invariant_witness:
  "\<exists>b rs Q F. book_run (DensePriceOrderBook_new 4 100 1 8)
     [Op_feed (Feed_add 2 Buy 101 7), Op_cancel 2, Op_modify 2 101 3] = Some (b, rs) \<and> db_inv Q F {} b"
  by (rule dense_book_invariant) simp_all

text \<open>
  C21. When orders enter only through \<open>submit\<close> and \<open>modify\<close>, the book is never left crossed: with
  orders on both sides the best bid is below the best ask.
\<close>

theorem matching_never_crosses:
  assumes "order_capacity < kInvalid" "level_count + 63 < 2 ^ 32" "0 < tick_size" "\<forall>p\<in>set ops. \<not> is_feed p"
  shows "\<exists>b rs. book_run (DensePriceOrderBook_new order_capacity minimum_price tick_size level_count) ops = Some (b, rs) \<and>
    (db_best_bid b \<noteq> kInvalid \<and> db_best_ask b \<noteq> kInvalid \<longrightarrow> best_bid b < best_ask b)"
proof -
  obtain b os rs where b: "book_run (DensePriceOrderBook_new order_capacity minimum_price tick_size level_count) ops = Some (b, rs)"
    "spec_run order_capacity (spec_grid minimum_price tick_size level_count) [] ops = (os, rs)" "implements b os"
    by (rule new_book_run [OF assms(1-3), of minimum_price ops])
  have "uncrossed os" using uncrossed_run [OF _ assms(4) b(2)] by (simp add: uncrossed_def)
  then show ?thesis using b(1) answers_uncrossed [OF implements_answers [OF b(3)] _ b(3)] by blast
qed

theorem matching_never_crosses_witness:
  "\<exists>b rs. book_run (DensePriceOrderBook_new 4 100 1 8)
     [Op_submit \<lparr>rq_id = 1, rq_side = Buy, rq_type = Limit, rq_price = 101, rq_quantity = 5\<rparr>,
      Op_submit \<lparr>rq_id = 3, rq_side = Sell, rq_type = Limit, rq_price = 102, rq_quantity = 6\<rparr>] = Some (b, rs) \<and>
   best_bid b = 101 \<and> best_bid b < best_ask b"
proof -
  let ?ops = "[Op_submit \<lparr>rq_id = 1, rq_side = Buy, rq_type = Limit, rq_price = 101, rq_quantity = 5\<rparr>,
      Op_submit \<lparr>rq_id = 3, rq_side = Sell, rq_type = Limit, rq_price = 102, rq_quantity = 6\<rparr>]"
  obtain b rs where b: "book_run (DensePriceOrderBook_new 4 100 1 8) ?ops = Some (b, rs)"
    "db_best_bid b \<noteq> kInvalid \<and> db_best_ask b \<noteq> kInvalid \<longrightarrow> best_bid b < best_ask b"
    using matching_never_crosses [of 4 8 1 ?ops 100] by auto
  obtain b' os rs' where b': "book_run (DensePriceOrderBook_new 4 100 1 8) ?ops = Some (b', rs')"
    "spec_run 4 (spec_grid 100 1 8) [] ?ops = (os, rs')" "implements b' os"
    by (rule new_book_run [of 4 8 1 100 ?ops]) simp_all
  have "fst (spec_run 4 (spec_grid 100 1 8) [] ?ops) =
      [\<lparr>rs_id = 1, rs_side = Buy, rs_price = 101, rs_quantity = 5\<rparr>, \<lparr>rs_id = 3, rs_side = Sell, rs_price = 102, rs_quantity = 6\<rparr>]"
    by code_simp
  then have os: "os = [\<lparr>rs_id = 1, rs_side = Buy, rs_price = 101, rs_quantity = 5\<rparr>, \<lparr>rs_id = 3, rs_side = Sell, rs_price = 102, rs_quantity = 6\<rparr>]"
    using b'(2) by simp
  have "best_bid b = 101" "best_ask b = 102"
    using implements_answers [OF b'(3)] b(1) b'(1)
    by (auto simp: book_answers_def os spec_best_bid_def spec_best_ask_def spec_prices_def)
  then show ?thesis using b by (auto simp: best_bid_def best_ask_def split: if_splits)
qed

text \<open>
  C20. Conservation: a submission on any reachable book returns; if it is accepted, the traded
  quantities and the quantity of its last report add up to what was submitted, without
  wrap-around, and every trade is the taker's and within its limit; if it is refused, the book is
  unchanged and the only event is the rejection.
\<close>

theorem submit_conserves:
  assumes "order_capacity < kInvalid" "level_count + 63 < 2 ^ 32" "0 < tick_size"
    and run: "book_run (DensePriceOrderBook_new order_capacity minimum_price tick_size level_count) ops = Some (b, rs)"
  shows "\<exists>b' ok ev. submit b rq = Some (b', ok, ev) \<and>
    (if ok then unat (rq_quantity rq) = traded ev + left_over ev \<and>
       (\<forall>m t p q. On_trade m t p q \<in> set ev \<longrightarrow> t = rq_id rq \<and> crosses (rq_side rq) (rq_limit rq) p)
     else b' = b \<and> ev = [On_order (rq_id rq) Rejected (rq_quantity rq)])"
proof -
  obtain os where "implements b os" using new_book_run [OF assms(1-3), of minimum_price ops] run by auto
  from submit_laws [OF this, of rq] show ?thesis by metis
qed

theorem submit_conserves_witness:
  "\<exists>b' ok ev. submit (DensePriceOrderBook_new 4 100 1 8)
      \<lparr>rq_id = 1, rq_side = Buy, rq_type = Limit, rq_price = 101, rq_quantity = 5\<rparr> = Some (b', ok, ev) \<and>
    (if ok then 5 = traded ev + left_over ev else ev = [On_order 1 Rejected 5])"
  using submit_conserves [of 4 8 1 100 "[]" "DensePriceOrderBook_new 4 100 1 8" "[]"
      "\<lparr>rq_id = 1, rq_side = Buy, rq_type = Limit, rq_price = 101, rq_quantity = 5\<rparr>"]
  by (force split: if_splits)

text \<open>
  C35. Errors: any operation a reachable book refuses (a zero or reserved or duplicate id, an
  unknown order, a zero quantity, a reduction below zero, a price off the grid, no free node)
  leaves the whole book as it was.
\<close>

theorem refused_unchanged:
  assumes "order_capacity < kInvalid" "level_count + 63 < 2 ^ 32" "0 < tick_size"
    and run: "book_run (DensePriceOrderBook_new order_capacity minimum_price tick_size level_count) ops = Some (b, rs)"
    and refused: "book_apply b p = Some (b', False, ev)"
  shows "b' = b"
proof -
  obtain os where os: "implements b os" using new_book_run [OF assms(1-3), of minimum_price ops] run by auto
  obtain b'' os' r where "book_apply b p = Some (b'', r)" "fst r \<or> b'' = b" by (rule book_apply_step [OF os])
  then show ?thesis using refused by auto
qed

theorem refused_unchanged_witness:
  "book_apply (DensePriceOrderBook_new 4 100 1 8) (Op_feed (Feed_add 0 Buy 101 5)) =
     Some (DensePriceOrderBook_new 4 100 1 8, False, [])"
proof -
  have r: "book_apply (DensePriceOrderBook_new 4 100 1 8) (Op_feed (Feed_add 0 Buy 101 5)) =
      Some (fst (feed_add (DensePriceOrderBook_new 4 100 1 8) 0 Buy 101 5), False, [])"
    by (simp add: feed_add_def)
  show ?thesis using refused_unchanged [of 4 8 1 100 "[]" "DensePriceOrderBook_new 4 100 1 8" "[]", OF _ _ _ _ r] r by simp
qed

end
