(* ===== verification/PriceTimeBook.thy ===== *)
theory PriceTimeBook
  imports DenseBookProps
begin

text \<open>
  The model of \<open>PriceTimeOrderBook\<close> (\<open>components/include/qtrader/PriceTimeOrderBook.hpp\<close>), the reference
  book: an array of nodes with a free list, one ordered map of price levels for each side, one doubly
  linked FIFO for each level, and a hash map from order ids to nodes. The node array is a store from
  addresses to nodes; a pointer is an optional address and \<^const>\<open>None\<close> is \<open>nullptr\<close>. A \<open>std::map\<close> is the
  list of its entries in the order of its comparison, so that \<open>begin()\<close> is the head. The loops of the
  matching may only be left through their conditions, so they are partial functions.
\<close>

section \<open>State\<close>

record RefNode =
  rn_id :: u64
  rn_price :: int
  rn_remaining :: u64
  rn_side :: Side
  rn_state :: OrderState
  rn_previous :: "nat option"
  rn_next :: "nat option"
  rn_free_next :: "nat option"

definition RefNode_default :: RefNode where
  "RefNode_default = \<lparr>rn_id = 0, rn_price = 0, rn_remaining = 0, rn_side = Buy, rn_state = New,
     rn_previous = None, rn_next = None, rn_free_next = None\<rparr>"

record RefLevel =
  rl_head :: "nat option"
  rl_tail :: "nat option"

definition RefLevel_default :: RefLevel where
  "RefLevel_default = \<lparr>rl_head = None, rl_tail = None\<rparr>"

type_synonym RefLevels = "(int \<times> RefLevel) list"

record PriceTimeOrderBook =
  rb_storage :: "nat \<Rightarrow> RefNode"
  rb_capacity :: nat
  rb_free :: "nat option"
  rb_active :: nat
  rb_orders :: "u64 \<rightharpoonup> nat"
  rb_bids :: RefLevels
  rb_asks :: RefLevels

text \<open>The body of the constructor's loop.\<close>

definition ref_push_free :: "nat \<Rightarrow> PriceTimeOrderBook \<Rightarrow> PriceTimeOrderBook" where
  "ref_push_free i b =
     b\<lparr>rb_storage := (rb_storage b)(i := (rb_storage b i)\<lparr>rn_free_next := rb_free b\<rparr>), rb_free := Some i\<rparr>"

definition PriceTimeOrderBook_new :: "nat \<Rightarrow> PriceTimeOrderBook" where
  "PriceTimeOrderBook_new capacity = fold ref_push_free [0..<capacity]
     \<lparr>rb_storage = (\<lambda>_. RefNode_default), rb_capacity = capacity, rb_free = None, rb_active = 0, rb_orders = Map.empty,
      rb_bids = [], rb_asks = []\<rparr>"

section \<open>Ordered maps\<close>

text \<open>The comparisons \<open>std::greater\<close> of the bids and \<open>std::less\<close> of the asks.\<close>

definition before :: "Side \<Rightarrow> int \<Rightarrow> int \<Rightarrow> bool" where
  "before side p p' \<longleftrightarrow> (if side = Buy then p > p' else p < p')"

fun map_put :: "Side \<Rightarrow> int \<Rightarrow> RefLevel \<Rightarrow> RefLevels \<Rightarrow> RefLevels" where
  "map_put side p v [] = [(p, v)]"
| "map_put side p v ((p', v') # m) =
     (if p = p' then (p, v) # m else if before side p p' then (p, v) # (p', v') # m else (p', v') # map_put side p v m)"

definition map_erase :: "int \<Rightarrow> RefLevels \<Rightarrow> RefLevels" where
  "map_erase p m = filter (\<lambda>(p', _). p' \<noteq> p) m"

definition ref_levels :: "PriceTimeOrderBook \<Rightarrow> Side \<Rightarrow> RefLevels" where
  "ref_levels b side = (if side = Buy then rb_bids b else rb_asks b)"

definition put_levels :: "Side \<Rightarrow> RefLevels \<Rightarrow> PriceTimeOrderBook \<Rightarrow> PriceTimeOrderBook" where
  "put_levels side m b = (if side = Buy then b\<lparr>rb_bids := m\<rparr> else b\<lparr>rb_asks := m\<rparr>)"

definition upd_ref :: "nat \<Rightarrow> (RefNode \<Rightarrow> RefNode) \<Rightarrow> PriceTimeOrderBook \<Rightarrow> PriceTimeOrderBook" where
  "upd_ref i f b = b\<lparr>rb_storage := (rb_storage b)(i := f (rb_storage b i))\<rparr>"

abbreviation ref_node :: "PriceTimeOrderBook \<Rightarrow> nat \<Rightarrow> RefNode" where
  "ref_node b i \<equiv> rb_storage b i"

section \<open>Operations\<close>

definition ref_allocate :: "PriceTimeOrderBook \<Rightarrow> PriceTimeOrderBook \<times> nat option" where
  "ref_allocate b =
     (case rb_free b of None \<Rightarrow> (b, None)
      | Some i \<Rightarrow>
          let b = b\<lparr>rb_free := rn_free_next (ref_node b i)\<rparr>;
              b = upd_ref i (\<lambda>_. RefNode_default) b
          in (b\<lparr>rb_active := rb_active b + 1\<rparr>, Some i))"

definition ref_release :: "nat \<Rightarrow> PriceTimeOrderBook \<Rightarrow> PriceTimeOrderBook" where
  "ref_release i b =
     (let b = b\<lparr>rb_orders := (rb_orders b)(rn_id (ref_node b i) := None)\<rparr>;
          b = upd_ref i (\<lambda>n. n\<lparr>rn_free_next := rb_free b\<rparr>) b
      in b\<lparr>rb_free := Some i, rb_active := rb_active b - 1\<rparr>)"

definition append_to :: "Side \<Rightarrow> nat \<Rightarrow> PriceTimeOrderBook \<Rightarrow> PriceTimeOrderBook" where
  "append_to side i b =
     (let price = rn_price (ref_node b i);
          level = (case map_of (ref_levels b side) price of None \<Rightarrow> RefLevel_default | Some level \<Rightarrow> level);
          b = upd_ref i (\<lambda>n. n\<lparr>rn_previous := rl_tail level\<rparr>) b;
          (b, level) = (case rl_tail level of
             Some t \<Rightarrow> (upd_ref t (\<lambda>n. n\<lparr>rn_next := Some i\<rparr>) b, level)
           | None \<Rightarrow> (b, level\<lparr>rl_head := Some i\<rparr>));
          level = level\<lparr>rl_tail := Some i\<rparr>
      in put_levels side (map_put side price level (ref_levels b side)) b)"

definition ref_append :: "nat \<Rightarrow> PriceTimeOrderBook \<Rightarrow> PriceTimeOrderBook" where
  "ref_append i b = (if rn_side (ref_node b i) = Buy then append_to Buy i b else append_to Sell i b)"

definition unlink_from :: "Side \<Rightarrow> nat \<Rightarrow> PriceTimeOrderBook \<Rightarrow> PriceTimeOrderBook" where
  "unlink_from side i b =
     (let order = ref_node b i; price = rn_price order in
      case map_of (ref_levels b side) price of None \<Rightarrow> b
      | Some level \<Rightarrow>
          let (b, level) = (case rn_previous order of
                 Some p \<Rightarrow> (upd_ref p (\<lambda>n. n\<lparr>rn_next := rn_next order\<rparr>) b, level)
               | None \<Rightarrow> (b, level\<lparr>rl_head := rn_next order\<rparr>));
              (b, level) = (case rn_next order of
                 Some s \<Rightarrow> (upd_ref s (\<lambda>n. n\<lparr>rn_previous := rn_previous order\<rparr>) b, level)
               | None \<Rightarrow> (b, level\<lparr>rl_tail := rn_previous order\<rparr>));
              b = upd_ref i (\<lambda>n. n\<lparr>rn_previous := None, rn_next := None\<rparr>) b
          in if rl_head level = None then put_levels side (map_erase price (ref_levels b side)) b
             else put_levels side (map_put side price level (ref_levels b side)) b)"

definition ref_unlink :: "nat \<Rightarrow> PriceTimeOrderBook \<Rightarrow> PriceTimeOrderBook" where
  "ref_unlink i b = (if rn_side (ref_node b i) = Buy then unlink_from Buy i b else unlink_from Sell i b)"

text \<open>The body of the inner matching loop, and whether it breaks.\<close>

definition ref_trade :: "nat \<Rightarrow> Side \<Rightarrow> int \<Rightarrow> PriceTimeOrderBook \<Rightarrow> PriceTimeOrderBook \<times> sink_event list \<times> bool" where
  "ref_trade taker side match_price b =
     (let maker = the (rl_head (the (map_of (ref_levels b side) match_price)));
          quantity = (if rn_remaining (ref_node b taker) < rn_remaining (ref_node b maker)
            then rn_remaining (ref_node b taker) else rn_remaining (ref_node b maker));
          b = upd_ref taker (\<lambda>n. n\<lparr>rn_remaining := rn_remaining n - quantity\<rparr>) b;
          b = upd_ref maker (\<lambda>n. n\<lparr>rn_remaining := rn_remaining n - quantity\<rparr>) b;
          trade = On_trade (rn_id (ref_node b maker)) (rn_id (ref_node b taker)) match_price quantity in
      if rn_remaining (ref_node b maker) = 0 then
        let b = upd_ref maker (\<lambda>n. n\<lparr>rn_state := Filled\<rparr>) b;
            update = On_order (rn_id (ref_node b maker)) Filled 0;
            b = ref_release maker (unlink_from side maker b)
        in (b, [trade, update], ref_levels b side = [] \<or> fst (hd (ref_levels b side)) \<noteq> match_price)
      else
        let b = upd_ref maker (\<lambda>n. n\<lparr>rn_state := PartiallyFilled\<rparr>) b
        in (b, [trade, On_order (rn_id (ref_node b maker)) PartiallyFilled (rn_remaining (ref_node b maker))], False))"

partial_function (option) ref_match_level :: "nat \<Rightarrow> Side \<Rightarrow> int \<Rightarrow> PriceTimeOrderBook \<Rightarrow>
    (PriceTimeOrderBook \<times> sink_event list) option" where
  "ref_match_level taker side match_price b =
     (if rn_remaining (ref_node b taker) \<noteq> 0 \<and> rl_head (the (map_of (ref_levels b side) match_price)) \<noteq> None
      then case ref_trade taker side match_price b of (b, ev, breaks) \<Rightarrow>
        if breaks then Some (b, ev)
        else Option.bind (ref_match_level taker side match_price b) (\<lambda>(b, ev'). Some (b, ev @ ev'))
      else Some (b, []))"

partial_function (option) match_levels :: "nat \<Rightarrow> OrderType \<Rightarrow> Side \<Rightarrow> PriceTimeOrderBook \<Rightarrow>
    (PriceTimeOrderBook \<times> sink_event list) option" where
  "match_levels taker type side b =
     (if rn_remaining (ref_node b taker) \<noteq> 0 \<and> ref_levels b side \<noteq> [] then
        let match_price = fst (hd (ref_levels b side)); price = rn_price (ref_node b taker);
            crosses = (type = Market \<or> (if rn_side (ref_node b taker) = Buy then price \<ge> match_price else price \<le> match_price)) in
        if \<not> crosses then Some (b, [])
        else Option.bind (ref_match_level taker side match_price b) (\<lambda>(b, ev).
          Option.bind (match_levels taker type side b) (\<lambda>(b, ev'). Some (b, ev @ ev')))
      else Some (b, []))"

definition ref_match :: "nat \<Rightarrow> OrderType \<Rightarrow> PriceTimeOrderBook \<Rightarrow> (PriceTimeOrderBook \<times> sink_event list) option" where
  "ref_match taker type b =
     (if rn_side (ref_node b taker) = Buy then match_levels taker type Sell b else match_levels taker type Buy b)"

text \<open>What \<open>submit\<close> does after the matching.\<close>

definition ref_settle :: "nat \<Rightarrow> OrderRequest \<Rightarrow> PriceTimeOrderBook \<Rightarrow> PriceTimeOrderBook \<times> sink_event list" where
  "ref_settle i rq b =
     (let order = ref_node b i in
      if rn_remaining order = 0 then
        (ref_release i (upd_ref i (\<lambda>n. n\<lparr>rn_state := Filled\<rparr>) b), [On_order (rn_id order) Filled 0])
      else if rq_type rq = Market then
        (ref_release i (upd_ref i (\<lambda>n. n\<lparr>rn_state := Canceled\<rparr>) b), [On_order (rn_id order) Canceled (rn_remaining order)])
      else
        let st = (if rn_remaining order = rq_quantity rq then New else PartiallyFilled)
        in (ref_append i (upd_ref i (\<lambda>n. n\<lparr>rn_state := st\<rparr>) b), [On_order (rn_id order) st (rn_remaining order)]))"

definition ref_submit :: "PriceTimeOrderBook \<Rightarrow> OrderRequest \<Rightarrow> (PriceTimeOrderBook \<times> bool \<times> sink_event list) option" where
  "ref_submit b rq =
     (if rq_id rq = 0 \<or> rq_quantity rq = 0 \<or> (rq_type rq = Limit \<and> rq_price rq \<le> 0) \<or> rb_orders b (rq_id rq) \<noteq> None
      then Some (b, False, [On_order (rq_id rq) Rejected (rq_quantity rq)])
      else case ref_allocate b of
        (b, None) \<Rightarrow> Some (b, False, [On_order (rq_id rq) Rejected (rq_quantity rq)])
      | (b, Some i) \<Rightarrow>
          let b = upd_ref i (\<lambda>n. n\<lparr>rn_id := rq_id rq, rn_side := rq_side rq, rn_price := rq_price rq,
                    rn_remaining := rq_quantity rq, rn_state := New\<rparr>) b;
              b = b\<lparr>rb_orders := (rb_orders b)(rq_id rq \<mapsto> i)\<rparr>
          in map_option (\<lambda>(b, ev). case ref_settle i rq b of (b, ev') \<Rightarrow> (b, True, ev @ ev')) (ref_match i (rq_type rq) b))"

definition ref_cancel :: "PriceTimeOrderBook \<Rightarrow> u64 \<Rightarrow> PriceTimeOrderBook \<times> bool \<times> sink_event list" where
  "ref_cancel b oid =
     (case rb_orders b oid of None \<Rightarrow> (b, False, [])
      | Some i \<Rightarrow>
          let b = upd_ref i (\<lambda>n. n\<lparr>rn_state := Canceled\<rparr>) (ref_unlink i b)
          in (ref_release i b, True, [On_order oid Canceled (rn_remaining (ref_node b i))]))"

definition ref_modify :: "PriceTimeOrderBook \<Rightarrow> u64 \<Rightarrow> int \<Rightarrow> u64 \<Rightarrow> (PriceTimeOrderBook \<times> bool \<times> sink_event list) option" where
  "ref_modify b oid new_price new_quantity =
     (case rb_orders b oid of None \<Rightarrow> Some (b, False, [])
      | Some i \<Rightarrow>
          if new_price \<le> 0 \<or> new_quantity = 0 then Some (b, False, [])
          else
            let side = rn_side (ref_node b i); b = ref_release i (ref_unlink i b)
            in ref_submit b \<lparr>rq_id = oid, rq_side = side, rq_type = Limit, rq_price = new_price, rq_quantity = new_quantity\<rparr>)"

definition ref_active_orders :: "PriceTimeOrderBook \<Rightarrow> nat" where
  "ref_active_orders b = rb_active b"

definition ref_best_bid :: "PriceTimeOrderBook \<Rightarrow> int" where
  "ref_best_bid b = (if rb_bids b = [] then 0 else fst (hd (rb_bids b)))"

definition ref_best_ask :: "PriceTimeOrderBook \<Rightarrow> int" where
  "ref_best_ask b = (if rb_asks b = [] then 0 else fst (hd (rb_asks b)))"

declare ref_match_level.simps [code] match_levels.simps [code]

end
