(* ===== verification/PriceTimeInv.thy ===== *)
theory PriceTimeInv
  imports PriceTimeBook
begin

text \<open>
  The invariant of the reference book and its relation to the list of resting orders of the price-time
  specification, with what each pointer operation does to it: linking, unlinking, taking and giving
  back a node, and changing a node that is in a queue or in none.
\<close>

section \<open>Ordered maps\<close>

lemma before_trans: "before s a b \<Longrightarrow> before s b c \<Longrightarrow> before s a c"
  by (auto simp: before_def split: if_splits)

lemma before_total: "a \<noteq> b \<Longrightarrow> \<not> before s a b \<Longrightarrow> before s b a"
  by (auto simp: before_def split: if_splits)

lemma keys_put [simp]: "fst ` set (map_put s p v m) = insert p (fst ` set m)"
  by (induction s p v m rule: map_put.induct) auto

lemma sorted_put: "sorted_wrt (before s) (map fst m) \<Longrightarrow> sorted_wrt (before s) (map fst (map_put s p v m))"
proof (induction s p v m rule: map_put.induct)
  case (2 s p v p' v' m)
  have "\<forall>x\<in>fst ` set m. before s p x" if "before s p p'" using 2(2) that before_trans by fastforce
  moreover have "before s p' p" if "p \<noteq> p'" "\<not> before s p p'" using that before_total by blast
  ultimately show ?case using 2 by (auto simp: keys_put [of s p v m])
qed simp

lemma map_of_put: "map_of (map_put s p v m) = (map_of m)(p \<mapsto> v)"
  by (induction s p v m rule: map_put.induct) auto

lemma map_of_erase: "map_of (map_erase p m) = (map_of m)(p := None)"
  by (induction m) (auto simp: map_erase_def)

lemma sorted_erase: "sorted_wrt (before s) (map fst m) \<Longrightarrow> sorted_wrt (before s) (map fst (map_erase p m))"
  by (induction m) (auto simp: map_erase_def)

lemma sorted_begin:
  assumes "sorted_wrt (before s) (map fst m)" "m \<noteq> []"
  shows "map_of m (fst (hd m)) \<noteq> None" "map_of m p \<noteq> None \<Longrightarrow> p = fst (hd m) \<or> before s (fst (hd m)) p"
proof -
  obtain p' v' m' where m: "m = (p', v') # m'" using assms(2) by (metis list.exhaust surj_pair)
  show "map_of m (fst (hd m)) \<noteq> None" by (simp add: m)
  show "p = fst (hd m) \<or> before s (fst (hd m)) p" if "map_of m p \<noteq> None"
  proof -
    have "p \<in> fst ` set m" using that by (simp add: map_of_eq_None_iff)
    then show ?thesis using assms(1) by (auto simp: m)
  qed
qed

section \<open>Field access\<close>

lemma upd_ref_sel [simp]:
  "rb_storage (upd_ref i f b) = (rb_storage b)(i := f (rb_storage b i))" "rb_capacity (upd_ref i f b) = rb_capacity b"
  "rb_free (upd_ref i f b) = rb_free b" "rb_active (upd_ref i f b) = rb_active b" "rb_orders (upd_ref i f b) = rb_orders b"
  "ref_levels (upd_ref i f b) s = ref_levels b s"
  by (simp_all add: upd_ref_def ref_levels_def)

lemma put_levels_sel [simp]:
  "rb_storage (put_levels s m b) = rb_storage b" "rb_capacity (put_levels s m b) = rb_capacity b"
  "rb_free (put_levels s m b) = rb_free b" "rb_active (put_levels s m b) = rb_active b" "rb_orders (put_levels s m b) = rb_orders b"
  "ref_levels (put_levels s m b) s' = (if s' = s then m else ref_levels b s')"
  by (cases s; cases s'; simp add: put_levels_def ref_levels_def)+

lemma field_sel [simp]:
  "ref_levels (b\<lparr>rb_free := x\<rparr>) s = ref_levels b s" "ref_levels (b\<lparr>rb_active := n\<rparr>) s = ref_levels b s"
  "ref_levels (b\<lparr>rb_orders := m\<rparr>) s = ref_levels b s"
  by (simp_all add: ref_levels_def)

section \<open>Doubly linked segments\<close>

fun pseg :: "(nat \<Rightarrow> RefNode) \<Rightarrow> nat option \<Rightarrow> nat option \<Rightarrow> nat list \<Rightarrow> bool" where
  "pseg st p n [] \<longleftrightarrow> True"
| "pseg st p n (x # xs) \<longleftrightarrow> rn_previous (st x) = p \<and> rn_next (st x) = (if xs = [] then n else Some (hd xs)) \<and> pseg st (Some x) n xs"

lemma pseg_cong:
  "(\<And>x. x \<in> set q \<Longrightarrow> rn_previous (st' x) = rn_previous (st x) \<and> rn_next (st' x) = rn_next (st x)) \<Longrightarrow> pseg st' p n q = pseg st p n q"
  by (induction q arbitrary: p) auto

lemma pseg_frame [simp]: "x \<notin> set q \<Longrightarrow> pseg (st(x := v)) p n q = pseg st p n q"
  by (rule pseg_cong) auto

lemma pseg_append:
  "pseg st p n (xs @ ys) \<longleftrightarrow> pseg st p (if ys = [] then n else Some (hd ys)) xs \<and> pseg st (if xs = [] then p else Some (last xs)) n ys"
  by (induction xs arbitrary: p) auto

lemma pseg_last:
  assumes "pseg st p n q" "distinct q" "q \<noteq> []"
  shows "pseg (st(last q := (st (last q))\<lparr>rn_next := n'\<rparr>)) p n' q"
proof -
  obtain xs x where "q = xs @ [x]" using assms(3) rev_exhaust by blast
  then show ?thesis using assms by (simp add: pseg_append)
qed

lemma pseg_first:
  assumes "pseg st p n q" "distinct q" "q \<noteq> []"
  shows "pseg (st(hd q := (st (hd q))\<lparr>rn_previous := p'\<rparr>)) p' n q"
  using assms by (cases q) auto

lemma pseg_snoc:
  assumes "pseg st None None q" "distinct q" "i \<notin> set q" "rn_next (st i) = None"
  defines "st1 \<equiv> st(i := (st i)\<lparr>rn_previous := (if q = [] then None else Some (last q))\<rparr>)"
  shows "pseg (if q = [] then st1 else st1(last q := (st1 (last q))\<lparr>rn_next := Some i\<rparr>)) None None (q @ [i])"
proof (cases "q = []")
  case False
  then have "last q \<noteq> i" using assms(3) last_in_set by metis
  moreover have "pseg st1 None None q" using assms(1,3) by (simp add: st1_def)
  then have "pseg (st1(last q := (st1 (last q))\<lparr>rn_next := Some i\<rparr>)) None (Some i) q" using assms(2) False by (rule pseg_last)
  ultimately show ?thesis using False assms(4) by (simp add: pseg_append st1_def)
qed (use assms(4) in \<open>simp add: st1_def\<close>)

lemma pseg_ends:
  assumes "pseg st None None (xs @ i # ys)"
  shows "rn_previous (st i) = (if xs = [] then None else Some (last xs))" "rn_next (st i) = (if ys = [] then None else Some (hd ys))"
  using assms by (auto simp: pseg_append)

lemma pseg_unlink:
  assumes "pseg st None None (xs @ i # ys)" "distinct (xs @ i # ys)"
  defines "st1 \<equiv> (case rn_previous (st i) of Some p \<Rightarrow> st(p := (st p)\<lparr>rn_next := rn_next (st i)\<rparr>) | None \<Rightarrow> st)"
  defines "st2 \<equiv> (case rn_next (st i) of Some n \<Rightarrow> st1(n := (st1 n)\<lparr>rn_previous := rn_previous (st i)\<rparr>) | None \<Rightarrow> st1)"
  shows "pseg (st2(i := v)) None None (xs @ ys)"
proof -
  note ends = pseg_ends [OF assms(1)]
  have parts: "pseg st None (Some i) xs" "pseg st (Some i) None ys" using assms(1) by (auto simp: pseg_append)
  have d: "distinct xs" "distinct ys" "set xs \<inter> set ys = {}" "i \<notin> set xs" "i \<notin> set ys" using assms(2) by auto
  have st1: "st1 = (if xs = [] then st else st(last xs := (st (last xs))\<lparr>rn_next := rn_next (st i)\<rparr>))"
    using ends(1) by (simp add: st1_def)
  have st2: "st2 = (if ys = [] then st1 else st1(hd ys := (st1 (hd ys))\<lparr>rn_previous := rn_previous (st i)\<rparr>))"
    using ends(2) by (simp add: st2_def)
  have off: "xs \<noteq> [] \<Longrightarrow> last xs \<notin> set ys" "ys \<noteq> [] \<Longrightarrow> hd ys \<notin> set xs" using d(3) last_in_set hd_in_set by blast+
  have "pseg st1 None (rn_next (st i)) xs" using pseg_last [OF parts(1) d(1)] by (cases "xs = []") (auto simp: st1)
  then have "pseg st2 None (rn_next (st i)) xs" using off(2) by (cases "ys = []") (auto simp: st2)
  moreover have "pseg st1 (Some i) None ys" using parts(2) off(1) by (simp add: st1)
  then have "pseg st2 (rn_previous (st i)) None ys" using pseg_first [of st1 "Some i" None ys] d(2) by (cases "ys = []") (auto simp: st2)
  ultimately have "pseg st2 None None (xs @ ys)" using ends by (simp add: pseg_append)
  then show ?thesis using d by simp
qed

section \<open>The relation\<close>

type_synonym ref_queues = "Side \<Rightarrow> int \<Rightarrow> nat list"

abbreviation updr :: "ref_queues \<Rightarrow> Side \<Rightarrow> int \<Rightarrow> nat list \<Rightarrow> ref_queues" where
  "updr Q s p q \<equiv> Q(s := (Q s)(p := q))"

definition rqueued :: "ref_queues \<Rightarrow> nat set" where
  "rqueued Q = {i. \<exists>s p. i \<in> set (Q s p)}"

definition level_of :: "nat list \<Rightarrow> RefLevel option" where
  "level_of q = (if q = [] then None else Some \<lparr>rl_head = Some (hd q), rl_tail = Some (last q)\<rparr>)"

definition ref_order :: "PriceTimeOrderBook \<Rightarrow> nat \<Rightarrow> resting" where
  "ref_order b i = \<lparr>rs_id = rn_id (ref_node b i), rs_side = rn_side (ref_node b i), rs_price = rn_price (ref_node b i),
     rs_quantity = rn_remaining (ref_node b i)\<rparr>"

lemma ref_order_sel [simp]:
  "rs_id (ref_order b i) = rn_id (ref_node b i)" "rs_side (ref_order b i) = rn_side (ref_node b i)"
  "rs_price (ref_order b i) = rn_price (ref_node b i)" "rs_quantity (ref_order b i) = rn_remaining (ref_node b i)"
  by (simp_all add: ref_order_def)

lemma spec_level_append: "spec_level (os @ [r]) s p = spec_level os s p @ (if rs_side r = s \<and> rs_price r = p then [r] else [])"
  by (simp add: spec_level_def)

fun free_list :: "(nat \<Rightarrow> RefNode) \<Rightarrow> nat option \<Rightarrow> nat list \<Rightarrow> bool" where
  "free_list st f [] \<longleftrightarrow> f = None"
| "free_list st f (x # xs) \<longleftrightarrow> f = Some x \<and> free_list st (rn_free_next (st x)) xs"

definition ref_links :: "ref_queues \<Rightarrow> PriceTimeOrderBook \<Rightarrow> bool" where
  "ref_links Q b \<longleftrightarrow> (\<forall>s. sorted_wrt (before s) (map fst (ref_levels b s))) \<and>
     (\<forall>s p. map_of (ref_levels b s) p = level_of (Q s p) \<and> distinct (Q s p) \<and> pseg (rb_storage b) None None (Q s p) \<and>
        (\<forall>i\<in>set (Q s p). rn_side (ref_node b i) = s \<and> rn_price (ref_node b i) = p))"

definition ref_alloc :: "nat list \<Rightarrow> nat set \<Rightarrow> PriceTimeOrderBook \<Rightarrow> bool" where
  "ref_alloc F V b \<longleftrightarrow> free_list (rb_storage b) (rb_free b) F \<and> distinct F \<and> set F \<inter> V = {} \<and>
     set F \<union> V = {..<rb_capacity b} \<and> rb_active b = card V"

definition ref_index :: "nat set \<Rightarrow> PriceTimeOrderBook \<Rightarrow> bool" where
  "ref_index V b \<longleftrightarrow> (\<forall>k i. rb_orders b k = Some i \<longleftrightarrow> i \<in> V \<and> rn_id (ref_node b i) = k)"

definition ref_content :: "ref_queues \<Rightarrow> PriceTimeOrderBook \<Rightarrow> resting list \<Rightarrow> bool" where
  "ref_content Q b os \<longleftrightarrow> (\<forall>s p. map (ref_order b) (Q s p) = spec_level os s p) \<and> distinct (map rs_id os)"

definition ref_rel :: "ref_queues \<Rightarrow> nat list \<Rightarrow> nat set \<Rightarrow> PriceTimeOrderBook \<Rightarrow> resting list \<Rightarrow> bool" where
  "ref_rel Q F L b os \<longleftrightarrow> ref_links Q b \<and> ref_alloc F (rqueued Q \<union> L) b \<and> ref_index (rqueued Q \<union> L) b \<and> ref_content Q b os \<and>
     rqueued Q \<inter> L = {} \<and> (\<forall>i\<in>L. rn_next (ref_node b i) = None)"

lemma ref_relD:
  assumes "ref_rel Q F L b os"
  shows "ref_links Q b" "ref_alloc F (rqueued Q \<union> L) b" "ref_index (rqueued Q \<union> L) b" "ref_content Q b os" "rqueued Q \<inter> L = {}"
    "i \<in> L \<Longrightarrow> rn_next (ref_node b i) = None"
  using assms by (auto simp: ref_rel_def)

lemma ref_linksD:
  assumes "ref_links Q b"
  shows "sorted_wrt (before s) (map fst (ref_levels b s))" "map_of (ref_levels b s) p = level_of (Q s p)" "distinct (Q s p)"
    "pseg (rb_storage b) None None (Q s p)" "i \<in> set (Q s p) \<Longrightarrow> rn_side (ref_node b i) = s" "i \<in> set (Q s p) \<Longrightarrow> rn_price (ref_node b i) = p"
  using assms by (auto simp: ref_links_def)

lemma links_disjoint:
  assumes "ref_links Q b" "i \<in> set (Q s p)" "i \<in> set (Q s' p')"
  shows "s' = s \<and> p' = p"
  using ref_linksD(5,6) [OF assms(1,2)] ref_linksD(5,6) [OF assms(1,3)] by simp

lemma rqueuedI: "i \<in> set (Q s p) \<Longrightarrow> i \<in> rqueued Q"
  by (auto simp: rqueued_def)

lemma rqueued_place: "ref_links Q b \<Longrightarrow> i \<in> rqueued Q \<Longrightarrow> i \<in> set (Q (rn_side (ref_node b i)) (rn_price (ref_node b i)))"
  by (auto simp: rqueued_def ref_links_def)

text \<open>What an order is, apart from its links and its state.\<close>

definition ref_core :: "RefNode \<Rightarrow> u64 \<times> int \<times> u64 \<times> Side \<times> nat option" where
  "ref_core n = (rn_id n, rn_price n, rn_remaining n, rn_side n, rn_free_next n)"

lemma ref_coreD:
  assumes "ref_core n = ref_core n'"
  shows "rn_id n = rn_id n'" "rn_price n = rn_price n'" "rn_remaining n = rn_remaining n'" "rn_side n = rn_side n'"
    "rn_free_next n = rn_free_next n'"
  using assms by (auto simp: ref_core_def)

lemma free_list_cong: "(\<And>x. x \<in> set F \<Longrightarrow> rn_free_next (st' x) = rn_free_next (st x)) \<Longrightarrow> free_list st' f F = free_list st f F"
  by (induction F arbitrary: f) auto

lemma ref_order_core: "ref_core (ref_node b' i) = ref_core (ref_node b i) \<Longrightarrow> ref_order b' i = ref_order b i"
  by (simp add: ref_order_def ref_core_def)

lemma alloc_core:
  assumes "ref_alloc F V b" "\<And>j. ref_core (ref_node b' j) = ref_core (ref_node b j)" "rb_free b' = rb_free b"
    "rb_active b' = rb_active b" "rb_capacity b' = rb_capacity b"
  shows "ref_alloc F V b'"
  using assms free_list_cong [of F "rb_storage b'" "rb_storage b"] ref_coreD(5) [OF assms(2)] by (simp add: ref_alloc_def)

lemma index_core:
  assumes "ref_index V b" "\<And>j. ref_core (ref_node b' j) = ref_core (ref_node b j)" "rb_orders b' = rb_orders b"
  shows "ref_index V b'"
  using assms ref_coreD(1) [OF assms(2)] by (simp add: ref_index_def)

text \<open>The resting orders are the queued nodes.\<close>

lemma content_set:
  assumes "ref_content Q b os"
  shows "r \<in> set os \<Longrightarrow> \<exists>i\<in>rqueued Q. r = ref_order b i" "i \<in> rqueued Q \<Longrightarrow> ref_order b i \<in> set os"
proof -
  have lv: "map (ref_order b) (Q s p) = spec_level os s p" for s p using assms by (simp add: ref_content_def)
  show "\<exists>i\<in>rqueued Q. r = ref_order b i" if "r \<in> set os"
  proof -
    have "r \<in> set (spec_level os (rs_side r) (rs_price r))" using that by (simp add: spec_level_def)
    then show ?thesis unfolding lv [symmetric] using rqueuedI by auto
  qed
  show "ref_order b i \<in> set os" if i: "i \<in> rqueued Q"
  proof -
    obtain s p where "i \<in> set (Q s p)" using i by (auto simp: rqueued_def)
    then have "ref_order b i \<in> set (spec_level os s p)" unfolding lv [symmetric] by auto
    then show ?thesis by (simp add: spec_level_def)
  qed
qed

lemma rel_find_ref:
  assumes rel: "ref_rel Q F L b os"
  shows "i \<in> rqueued Q \<Longrightarrow> spec_find os (rn_id (ref_node b i)) = Some (ref_order b i)"
    and "spec_find os k = Some r \<Longrightarrow> \<exists>i\<in>rqueued Q. rn_id (ref_node b i) = k \<and> r = ref_order b i \<and> rb_orders b k = Some i"
    and "L = {} \<Longrightarrow> rb_orders b k = None \<longleftrightarrow> spec_find os k = None"
proof -
  note C = content_set [OF ref_relD(4) [OF rel]]
  have dist: "distinct (map rs_id os)" using ref_relD(4) [OF rel] by (simp add: ref_content_def)
  note find_iff = spec_find_in [OF dist]
  show hit: "spec_find os (rn_id (ref_node b i)) = Some (ref_order b i)" if "i \<in> rqueued Q" for i
    using find_iff C(2) [OF that] by (simp add: ref_order_def)
  show found: "\<exists>i\<in>rqueued Q. rn_id (ref_node b i) = k \<and> r = ref_order b i \<and> rb_orders b k = Some i" if "spec_find os k = Some r" for k r
  proof -
    have "r \<in> set os" "rs_id r = k" using that find_iff by auto
    then obtain i where "i \<in> rqueued Q" "r = ref_order b i" using C(1) by blast
    then show ?thesis using \<open>rs_id r = k\<close> ref_relD(3) [OF rel] by (auto simp: ref_order_def ref_index_def)
  qed
  show "rb_orders b k = None \<longleftrightarrow> spec_find os k = None" if "L = {}"
  proof (cases "spec_find os k")
    case None
    have "\<nexists>i. rb_orders b k = Some i" using hit None ref_relD(3) [OF rel] that by (fastforce simp: ref_index_def)
    then show ?thesis using None by simp
  qed (use found in auto)
qed

lemma rel_same_id:
  assumes rel: "ref_rel Q F L b os" and "i \<in> rqueued Q \<union> L" "j \<in> rqueued Q \<union> L" "rn_id (ref_node b i) = rn_id (ref_node b j)"
  shows "i = j"
proof -
  have "rb_orders b (rn_id (ref_node b i)) = Some i" "rb_orders b (rn_id (ref_node b i)) = Some j"
    using ref_relD(3) [OF rel] assms(2-4) by (auto simp: ref_index_def)
  then show ?thesis by simp
qed

lemma rel_fresh:
  assumes rel: "ref_rel Q F L b os" and i: "i \<in> L"
  shows "rn_id (ref_node b i) \<notin> rs_id ` set os"
proof
  assume "rn_id (ref_node b i) \<in> rs_id ` set os"
  then obtain r where r: "r \<in> set os" "rs_id r = rn_id (ref_node b i)" by auto
  obtain j where j: "j \<in> rqueued Q" "r = ref_order b j" using content_set(1) [OF ref_relD(4) [OF rel] r(1)] by blast
  have "i = j" by (rule rel_same_id [OF rel]) (use i j r in \<open>auto simp: ref_order_def\<close>)
  then show False using i j(1) ref_relD(5) [OF rel] by blast
qed

section \<open>Appending a node\<close>

lemma append_to_links:
  fixes s :: Side
  assumes lk: "ref_links Q b" and p: "p = rn_price (ref_node b i)"
  defines "q \<equiv> Q s p"
  defines "st1 \<equiv> (rb_storage b)(i := (ref_node b i)\<lparr>rn_previous := (if q = [] then None else Some (last q))\<rparr>)"
  shows "rb_storage (append_to s i b) = (if q = [] then st1 else st1(last q := (st1 (last q))\<lparr>rn_next := Some i\<rparr>))"
    "ref_levels (append_to s i b) s' =
      (if s' = s then map_put s p (the (level_of (q @ [i]))) (ref_levels b s) else ref_levels b s')"
    "rb_capacity (append_to s i b) = rb_capacity b" "rb_free (append_to s i b) = rb_free b"
    "rb_active (append_to s i b) = rb_active b" "rb_orders (append_to s i b) = rb_orders b"
proof -
  have lv: "map_of (ref_levels b s) (rn_price (ref_node b i)) = level_of q" using ref_linksD(2) [OF lk] by (simp add: q_def p)
  show "rb_storage (append_to s i b) = (if q = [] then st1 else st1(last q := (st1 (last q))\<lparr>rn_next := Some i\<rparr>))"
    by (simp add: append_to_def Let_def lv level_of_def RefLevel_default_def st1_def)
  show "ref_levels (append_to s i b) s' =
      (if s' = s then map_put s p (the (level_of (q @ [i]))) (ref_levels b s) else ref_levels b s')"
    by (simp add: append_to_def Let_def lv level_of_def RefLevel_default_def p)
  show "rb_capacity (append_to s i b) = rb_capacity b" "rb_free (append_to s i b) = rb_free b"
    "rb_active (append_to s i b) = rb_active b" "rb_orders (append_to s i b) = rb_orders b"
    by (simp_all add: append_to_def Let_def lv level_of_def RefLevel_default_def)
qed

lemma append_to_core [simp]: "ref_core (ref_node (append_to s i b) j) = ref_core (ref_node b j)"
  by (auto simp: append_to_def Let_def ref_core_def split: option.splits)

lemma ref_append_side: "ref_append i b = append_to (rn_side (ref_node b i)) i b"
  by (cases "rn_side (ref_node b i)") (simp_all add: ref_append_def)

lemma ref_order_append [simp]: "ref_order (append_to s i b) = ref_order b"
  by (rule ext, rule ref_order_core) simp

lemma append_links:
  assumes lk: "ref_links Q b" and i: "i \<notin> rqueued Q" "rn_next (ref_node b i) = None"
    and s: "s = rn_side (ref_node b i)" "p = rn_price (ref_node b i)"
  shows "ref_links (updr Q s p (Q s p @ [i])) (append_to s i b)"
proof -
  note L = ref_linksD [OF lk] note A = append_to_links [OF lk s(2), of s]
  note core = ref_coreD [OF append_to_core [of s i b]]
  have off: "i \<notin> set (Q s' p')" for s' p' using i(1) rqueuedI by blast
  have tail: "last (Q s p) \<notin> set (Q s' p')" if "Q s p \<noteq> []" "s' \<noteq> s \<or> p' \<noteq> p" for s' p'
  proof
    assume m: "last (Q s p) \<in> set (Q s' p')"
    show False using links_disjoint [OF lk last_in_set [OF that(1)] m] that(2) by blast
  qed
  have new: "pseg (rb_storage (append_to s i b)) None None (Q s p @ [i])"
    unfolding A(1) by (rule pseg_snoc [OF L(4) L(3) off i(2)])
  have old: "pseg (rb_storage (append_to s i b)) None None (Q s' p')" if "s' \<noteq> s \<or> p' \<noteq> p" for s' p'
    unfolding A(1) using L(4) [of s' p'] off [of s' p'] tail [of s' p'] that by simp
  have lev: "map_of (ref_levels (append_to s i b) s') p' = level_of (updr Q s p (Q s p @ [i]) s' p')" for s' p'
    unfolding A(2) using L(2) by (auto simp: map_of_put level_of_def)
  have sorted: "sorted_wrt (before s') (map fst (ref_levels (append_to s i b) s'))" for s'
    unfolding A(2) using L(1) sorted_put by auto
  show ?thesis
    unfolding ref_links_def using sorted lev new old L(3,5,6) off s core(2,4) by (auto simp: fun_upd_apply)
qed

lemma rqueued_snoc: "rqueued (updr Q s p (Q s p @ [i])) = insert i (rqueued Q)"
  by (auto simp: rqueued_def fun_upd_apply split: if_splits)

lemma rel_append_ref:
  assumes rel: "ref_rel Q F L b os" and i: "i \<in> L" and s: "s = rn_side (ref_node b i)" "p = rn_price (ref_node b i)"
  shows "ref_rel (updr Q s p (Q s p @ [i])) F (L - {i}) (ref_append i b) (os @ [ref_order b i])"
proof -
  note R = ref_relD [OF rel] note A = append_to_links [OF R(1) s(2), of s]
  have app: "ref_append i b = append_to s i b" by (simp add: ref_append_side s(1))
  have iq: "i \<notin> rqueued Q" using i R(5) by blast
  have un: "rqueued (updr Q s p (Q s p @ [i])) \<union> (L - {i}) = rqueued Q \<union> L" unfolding rqueued_snoc using i by blast
  have links: "ref_links (updr Q s p (Q s p @ [i])) (append_to s i b)" by (rule append_links [OF R(1) iq R(6) [OF i] s])
  have al: "ref_alloc F (rqueued Q \<union> L) (append_to s i b)" by (rule alloc_core [OF R(2)]) (simp_all add: A(3-6))
  have ix: "ref_index (rqueued Q \<union> L) (append_to s i b)" by (rule index_core [OF R(3)]) (simp_all add: A(3-6))
  have ct: "ref_content (updr Q s p (Q s p @ [i])) (append_to s i b) (os @ [ref_order b i])"
  proof -
    have lv: "map (ref_order b) (Q s' p') = spec_level os s' p'" for s' p' using R(4) by (simp add: ref_content_def)
    have "map (ref_order b) (updr Q s p (Q s p @ [i]) s' p') = spec_level (os @ [ref_order b i]) s' p'" for s' p'
      by (cases "s' = s"; cases "p' = p") (simp_all add: spec_level_append lv s [symmetric])
    moreover have "distinct (map rs_id (os @ [ref_order b i]))"
      using R(4) rel_fresh [OF rel i] by (simp add: ref_content_def)
    ultimately show ?thesis unfolding ref_content_def by simp
  qed
  have loose: "rn_next (ref_node (append_to s i b) j) = None" if "j \<in> L - {i}" for j
  proof -
    have "Q s p \<noteq> [] \<Longrightarrow> last (Q s p) \<in> rqueued Q" using rqueuedI last_in_set by metis
    then have "Q s p \<noteq> [] \<Longrightarrow> last (Q s p) \<noteq> j" using that R(5) by blast
    then show ?thesis unfolding A(1) using R(6) [of j] that by auto
  qed
  show ?thesis unfolding app ref_rel_def un using links al ix ct loose R(5) by (auto simp: rqueued_snoc)
qed

section \<open>Unlinking a node\<close>

lemma unlink_from_core [simp]: "ref_core (ref_node (unlink_from s i b) j) = ref_core (ref_node b j)"
  by (auto simp: unlink_from_def Let_def ref_core_def split: option.splits)

lemma ref_order_unlink [simp]: "ref_order (unlink_from s i b) = ref_order b"
  by (rule ext, rule ref_order_core) simp

lemma ref_unlink_side: "ref_unlink i b = unlink_from (rn_side (ref_node b i)) i b"
  by (cases "rn_side (ref_node b i)") (simp_all add: ref_unlink_def)

definition without :: "(nat \<Rightarrow> RefNode) \<Rightarrow> nat \<Rightarrow> nat \<Rightarrow> RefNode" where
  "without st i = (let st1 = (case rn_previous (st i) of Some p \<Rightarrow> st(p := (st p)\<lparr>rn_next := rn_next (st i)\<rparr>) | None \<Rightarrow> st)
     in case rn_next (st i) of Some n \<Rightarrow> st1(n := (st1 n)\<lparr>rn_previous := rn_previous (st i)\<rparr>) | None \<Rightarrow> st1)"

lemma without_other:
  assumes "pseg st None None (xs @ i # ys)" "j \<notin> set (xs @ ys)"
  shows "without st i j = st j"
proof -
  have "last xs \<noteq> j" if "xs \<noteq> []" using assms(2) last_in_set [OF that] by auto
  moreover have "hd ys \<noteq> j" if "ys \<noteq> []" using assms(2) hd_in_set [OF that] by auto
  moreover note ends = pseg_ends [OF assms(1)]
  ultimately show ?thesis unfolding without_def Let_def ends by (cases "xs = []"; cases "ys = []") simp_all
qed

lemma unlink_from_links:
  fixes s :: Side
  assumes lk: "ref_links Q b" and q: "Q s p = xs @ i # ys"
  shows "rb_storage (unlink_from s i b) =
      (without (rb_storage b) i)(i := (without (rb_storage b) i i)\<lparr>rn_previous := None, rn_next := None\<rparr>)"
    "ref_levels (unlink_from s i b) s' = (if s' = s then
       (if xs @ ys = [] then map_erase p (ref_levels b s) else map_put s p (the (level_of (xs @ ys))) (ref_levels b s))
       else ref_levels b s')"
    "rb_capacity (unlink_from s i b) = rb_capacity b" "rb_free (unlink_from s i b) = rb_free b"
    "rb_active (unlink_from s i b) = rb_active b" "rb_orders (unlink_from s i b) = rb_orders b"
proof -
  note L = ref_linksD [OF lk]
  have p: "rn_price (ref_node b i) = p" by (rule L(6) [of i s]) (simp add: q)
  have lv: "map_of (ref_levels b s) p = Some \<lparr>rl_head = Some (hd (xs @ i # ys)), rl_tail = Some (last (xs @ i # ys))\<rparr>"
    using L(2) [of s p] by (simp add: q level_of_def)
  note E = pseg_ends [OF L(4) [of s p, unfolded q]]
  note defs = unlink_from_def Let_def p lv E
  show "rb_storage (unlink_from s i b) =
      (without (rb_storage b) i)(i := (without (rb_storage b) i i)\<lparr>rn_previous := None, rn_next := None\<rparr>)"
    by (simp add: defs without_def)
  show "ref_levels (unlink_from s i b) s' = (if s' = s then
       (if xs @ ys = [] then map_erase p (ref_levels b s) else map_put s p (the (level_of (xs @ ys))) (ref_levels b s))
       else ref_levels b s')"
    by (simp add: defs level_of_def hd_append)
  show "rb_capacity (unlink_from s i b) = rb_capacity b" "rb_free (unlink_from s i b) = rb_free b"
    "rb_active (unlink_from s i b) = rb_active b" "rb_orders (unlink_from s i b) = rb_orders b"
    by (simp_all add: defs)
qed

lemma unlink_links:
  assumes lk: "ref_links Q b" and q: "Q s p = xs @ i # ys"
  shows "ref_links (updr Q s p (xs @ ys)) (unlink_from s i b)"
proof -
  note L = ref_linksD [OF lk] note A = unlink_from_links [OF lk q]
  note core = ref_coreD [OF unlink_from_core [of s i b]]
  have seg: "pseg (rb_storage b) None None (xs @ i # ys)" "distinct (xs @ i # ys)" using L(3,4) [of s p] by (simp_all add: q)
  have new: "pseg (rb_storage (unlink_from s i b)) None None (xs @ ys)"
    unfolding A(1) without_def Let_def by (rule pseg_unlink [OF seg])
  have old: "pseg (rb_storage (unlink_from s i b)) None None (Q s' p')" if "s' \<noteq> s \<or> p' \<noteq> p" for s' p'
  proof -
    have "j \<notin> set (xs @ i # ys)" if "j \<in> set (Q s' p')" for j
      using links_disjoint [OF lk that, of s p] \<open>s' \<noteq> s \<or> p' \<noteq> p\<close> unfolding q by blast
    then have "rb_storage (unlink_from s i b) j = rb_storage b j" if "j \<in> set (Q s' p')" for j
      unfolding A(1) using without_other [OF seg(1), of j] that by auto
    then show ?thesis using pseg_cong [of "Q s' p'" "rb_storage (unlink_from s i b)" "rb_storage b"] L(4) [of s' p'] by simp
  qed
  have lev: "map_of (ref_levels (unlink_from s i b) s') p' = level_of (updr Q s p (xs @ ys) s' p')" for s' p'
    unfolding A(2) using L(2) by (auto simp: map_of_put map_of_erase level_of_def)
  have sorted: "sorted_wrt (before s') (map fst (ref_levels (unlink_from s i b) s'))" for s'
    unfolding A(2) using L(1) sorted_put sorted_erase by auto
  have sub: "j \<in> set (updr Q s p (xs @ ys) s' p') \<Longrightarrow> j \<in> set (Q s' p')" for j s' p' using q by (auto simp: fun_upd_apply split: if_splits)
  have seg': "distinct (updr Q s p (xs @ ys) s' p') \<and> pseg (rb_storage (unlink_from s i b)) None None (updr Q s p (xs @ ys) s' p')" for s' p'
    using new old [of s' p'] L(3) [of s' p'] seg(2) by (auto simp: fun_upd_apply)
  show ?thesis unfolding ref_links_def core(2,4) using sorted lev seg' L(5,6) [OF sub] by blast
qed

lemma rqueued_unlink:
  assumes "ref_links Q b" "Q s p = xs @ i # ys"
  shows "rqueued Q = insert i (rqueued (updr Q s p (xs @ ys)))" "i \<notin> rqueued (updr Q s p (xs @ ys))"
proof -
  have i: "i \<in> set (Q s p)" using assms(2) by simp
  have "distinct (Q s p)" by (rule ref_linksD(3) [OF assms(1)])
  then have d: "i \<notin> set (xs @ ys)" using assms(2) by simp
  show "rqueued Q = insert i (rqueued (updr Q s p (xs @ ys)))"
  proof (rule set_eqI)
    fix j show "j \<in> rqueued Q \<longleftrightarrow> j \<in> insert i (rqueued (updr Q s p (xs @ ys)))"
    proof (cases "j \<in> set (Q s p)")
      case True
      then have "j = i \<or> j \<in> set (updr Q s p (xs @ ys) s p)" using assms(2) by auto
      then show ?thesis using rqueuedI [of j Q s p, OF True] rqueuedI [of j "updr Q s p (xs @ ys)" s p] by blast
    next
      case False
      then have "j \<noteq> i" "j \<notin> set (xs @ ys)" using assms(2) by auto
      then show ?thesis using False by (auto simp: rqueued_def fun_upd_apply split: if_splits)
    qed
  qed
  show "i \<notin> rqueued (updr Q s p (xs @ ys))"
    using links_disjoint [OF assms(1) i] d by (auto simp: rqueued_def fun_upd_apply split: if_splits)
qed

lemma spec_level_remove: "spec_level (spec_remove k os) s p = filter (\<lambda>r. rs_id r \<noteq> k) (spec_level os s p)"
  by (simp add: spec_level_def spec_remove_def conj_commute)

lemma queue_without:
  assumes lk: "ref_links Q b" and q: "Q s p = xs @ i # ys"
  shows "filter (\<lambda>j. j \<noteq> i) (Q s' p') = updr Q s p (xs @ ys) s' p'"
proof (cases "s' = s \<and> p' = p")
  case True
  have "distinct (Q s p)" by (rule ref_linksD(3) [OF lk])
  then have "i \<notin> set xs" "i \<notin> set ys" by (simp_all add: q)
  then have "filter (\<lambda>j. j \<noteq> i) xs = xs" "filter (\<lambda>j. j \<noteq> i) ys = ys" by (simp_all add: filter_id_conv) blast+
  then show ?thesis using True by (simp add: q)
next
  case False
  have "i \<in> set (Q s p)" by (simp add: q)
  then have "i \<notin> set (Q s' p')" using links_disjoint [OF lk, of i s p s' p'] False by blast
  then have "filter (\<lambda>j. j \<noteq> i) (Q s' p') = Q s' p'" by (simp add: filter_id_conv) blast
  then show ?thesis using False by auto
qed

lemma content_unlink:
  assumes rel: "ref_rel Q F L b os" and q: "Q s p = xs @ i # ys"
  shows "ref_content (updr Q s p (xs @ ys)) b (spec_remove (rn_id (ref_node b i)) os)"
proof -
  note R = ref_relD [OF rel]
  have i: "i \<in> rqueued Q" by (rule rqueuedI [of i Q s p]) (simp add: q)
  have ne: "rn_id (ref_node b j) \<noteq> rn_id (ref_node b i) \<longleftrightarrow> j \<noteq> i" if "j \<in> set (Q s' p')" for j s' p'
    using rel_same_id [OF rel, of j i] rqueuedI [of j Q, OF that] i by blast
  have lv: "map (ref_order b) (Q s' p') = spec_level os s' p'" for s' p' using R(4) by (simp add: ref_content_def)
  have "spec_level (spec_remove (rn_id (ref_node b i)) os) s' p' = map (ref_order b) (updr Q s p (xs @ ys) s' p')" for s' p'
  proof -
    have "spec_level (spec_remove (rn_id (ref_node b i)) os) s' p' =
        map (ref_order b) (filter (\<lambda>j. rn_id (ref_node b j) \<noteq> rn_id (ref_node b i)) (Q s' p'))"
      unfolding spec_level_remove lv [symmetric] by (simp add: filter_map comp_def)
    also have "filter (\<lambda>j. rn_id (ref_node b j) \<noteq> rn_id (ref_node b i)) (Q s' p') = filter (\<lambda>j. j \<noteq> i) (Q s' p')"
      by (rule filter_cong [OF refl ne])
    finally show ?thesis unfolding queue_without [OF R(1) q] .
  qed
  moreover have "distinct (map rs_id (spec_remove (rn_id (ref_node b i)) os))"
    using R(4) by (auto simp: ref_content_def spec_remove_def distinct_map_filter)
  ultimately show ?thesis unfolding ref_content_def by simp
qed

lemma rel_unlink_ref:
  assumes rel: "ref_rel Q F L b os" and q: "Q s p = xs @ i # ys"
  shows "ref_rel (updr Q s p (xs @ ys)) F (insert i L) (unlink_from s i b) (spec_remove (rn_id (ref_node b i)) os)"
proof -
  note R = ref_relD [OF rel] note A = unlink_from_links [OF R(1) q] note U = rqueued_unlink [OF R(1) q]
  have un: "rqueued (updr Q s p (xs @ ys)) \<union> insert i L = rqueued Q \<union> L" using U(1) by blast
  have links: "ref_links (updr Q s p (xs @ ys)) (unlink_from s i b)" by (rule unlink_links [OF R(1) q])
  have al: "ref_alloc F (rqueued Q \<union> L) (unlink_from s i b)" by (rule alloc_core [OF R(2)]) (simp_all add: A(3-6))
  have ix: "ref_index (rqueued Q \<union> L) (unlink_from s i b)" by (rule index_core [OF R(3)]) (simp_all add: A(3-6))
  have ct: "ref_content (updr Q s p (xs @ ys)) (unlink_from s i b) (spec_remove (rn_id (ref_node b i)) os)"
    using content_unlink [OF rel q] by (simp add: ref_content_def)
  have seg: "pseg (rb_storage b) None None (xs @ i # ys)" using ref_linksD(4) [OF R(1), of s p] by (simp add: q)
  have loose: "rn_next (ref_node (unlink_from s i b) j) = None" if "j \<in> insert i L" for j
  proof (cases "j = i")
    case False
    then have "j \<notin> rqueued Q" using that R(5) by blast
    then have "j \<notin> set (xs @ ys)" using rqueuedI [of j Q s p] by (auto simp: q)
    then show ?thesis unfolding A(1) using without_other [OF seg, of j] False R(6) [of j] that by simp
  qed (simp add: A(1))
  have dj: "rqueued (updr Q s p (xs @ ys)) \<inter> insert i L = {}" using U R(5) by blast
  show ?thesis unfolding ref_rel_def un using links al ix ct loose dj by simp
qed

section \<open>Taking, filling and giving back a node\<close>

lemma links_node:
  assumes lk: "ref_links Q b" and "\<And>j. j \<in> rqueued Q \<Longrightarrow> rn_previous (st' j) = rn_previous (ref_node b j) \<and>
      rn_next (st' j) = rn_next (ref_node b j) \<and> rn_side (st' j) = rn_side (ref_node b j) \<and> rn_price (st' j) = rn_price (ref_node b j)"
    and b': "rb_storage b' = st'" "\<And>s. ref_levels b' s = ref_levels b s"
  shows "ref_links Q b'"
proof -
  have mem: "j \<in> set (Q s p) \<Longrightarrow> j \<in> rqueued Q" for j s p by (rule rqueuedI)
  have "pseg st' None None (Q s p) = pseg (rb_storage b) None None (Q s p)" for s p
    by (rule pseg_cong) (use assms(2) [OF mem] in blast)
  then show ?thesis using lk assms(2) [OF mem] unfolding ref_links_def b' by simp
qed

lemma rel_update:
  assumes rel: "ref_rel Q F L b os" and i: "i \<in> rqueued Q \<union> L"
    and n: "rn_id n = rn_id (ref_node b i)" "rn_free_next n = rn_free_next (ref_node b i)" "rn_next n = rn_next (ref_node b i)"
    and queued: "i \<in> rqueued Q \<Longrightarrow> rn_previous n = rn_previous (ref_node b i) \<and> rn_side n = rn_side (ref_node b i) \<and>
      rn_price n = rn_price (ref_node b i)"
    and content: "ref_content Q (upd_ref i (\<lambda>_. n) b) os'"
  shows "ref_rel Q F L (upd_ref i (\<lambda>_. n) b) os'"
proof -
  note R = ref_relD [OF rel]
  have links: "ref_links Q (upd_ref i (\<lambda>_. n) b)"
    by (rule links_node [OF R(1), where st' = "(rb_storage b)(i := n)"]) (use n queued in auto)
  have "free_list ((rb_storage b)(i := n)) f F = free_list (rb_storage b) f F" for f
    by (rule free_list_cong) (use n(2) in auto)
  then have al: "ref_alloc F (rqueued Q \<union> L) (upd_ref i (\<lambda>_. n) b)" using R(2) by (simp add: ref_alloc_def)
  have ix: "ref_index (rqueued Q \<union> L) (upd_ref i (\<lambda>_. n) b)" using R(3) n(1) by (auto simp: ref_index_def)
  show ?thesis unfolding ref_rel_def using links al ix content R(5,6) n(3) by auto
qed

lemma rel_loose_ref:
  assumes rel: "ref_rel Q F L b os" and i: "i \<in> L"
    and n: "rn_id n = rn_id (ref_node b i)" "rn_free_next n = rn_free_next (ref_node b i)" "rn_next n = None"
  shows "ref_rel Q F L (upd_ref i (\<lambda>_. n) b) os"
proof (rule rel_update [OF rel])
  have off: "i \<notin> rqueued Q" using ref_relD(5) [OF rel] i by blast
  then have eq: "map (ref_order (upd_ref i (\<lambda>_. n) b)) (Q s p) = map (ref_order b) (Q s p)" for s p
    using rqueuedI [of i Q s p] by (auto simp: ref_order_def)
  show "ref_content Q (upd_ref i (\<lambda>_. n) b) os" using ref_relD(4) [OF rel] unfolding ref_content_def eq .
  show "i \<in> rqueued Q \<Longrightarrow> rn_previous n = rn_previous (ref_node b i) \<and> rn_side n = rn_side (ref_node b i) \<and>
      rn_price n = rn_price (ref_node b i)" using off by blast
qed (use i n ref_relD(6) [OF rel i] in simp_all)

lemma spec_level_lower:
  "spec_level (spec_lower k x os) s p = map (\<lambda>r. if rs_id r = k then r\<lparr>rs_quantity := rs_quantity r - x\<rparr> else r) (spec_level os s p)"
  by (induction os) (auto simp: spec_level_def spec_lower_def)

lemma rel_lower_ref:
  assumes rel: "ref_rel Q F L b os" and i: "i \<in> rqueued Q"
    and n: "n = (ref_node b i)\<lparr>rn_remaining := rn_remaining (ref_node b i) - x, rn_state := st\<rparr>"
  shows "ref_rel Q F L (upd_ref i (\<lambda>_. n) b) (spec_lower (rn_id (ref_node b i)) x os)"
proof (rule rel_update [OF rel])
  have lv: "map (ref_order b) (Q s p) = spec_level os s p" for s p using ref_relD(4) [OF rel] by (simp add: ref_content_def)
  have "ref_order (upd_ref i (\<lambda>_. n) b) j = (let r = ref_order b j in
      if rs_id r = rn_id (ref_node b i) then r\<lparr>rs_quantity := rs_quantity r - x\<rparr> else r)" if "j \<in> set (Q s p)" for j s p
    using rel_same_id [OF rel, of j i] rqueuedI [of j Q, OF that] i by (auto simp: ref_order_def n Let_def)
  then have "map (ref_order (upd_ref i (\<lambda>_. n) b)) (Q s p) = spec_level (spec_lower (rn_id (ref_node b i)) x os) s p" for s p
    unfolding spec_level_lower lv [symmetric] by (simp add: Let_def)
  moreover have "distinct (map rs_id (spec_lower (rn_id (ref_node b i)) x os))"
  proof -
    have "map rs_id (spec_lower (rn_id (ref_node b i)) x os) = map rs_id os" by (simp add: spec_lower_def)
    then show ?thesis using ref_relD(4) [OF rel] by (simp add: ref_content_def)
  qed
  ultimately show "ref_content Q (upd_ref i (\<lambda>_. n) b) (spec_lower (rn_id (ref_node b i)) x os)" by (simp add: ref_content_def)
qed (use i n in simp_all)

end
