(* ===== verification/PriceTimeMatch.thy ===== *)
theory PriceTimeMatch
  imports PriceTimeInv
begin

text \<open>
  Matching in the reference book: taking and giving back nodes, one trade, and the proof that the
  nested loops always end with what the price-time specification does, events included.
\<close>

section \<open>Nodes\<close>

lemma alloc_finite: "ref_alloc F V b \<Longrightarrow> finite V"
  unfolding ref_alloc_def by (metis finite_Un finite_lessThan)

lemma rel_release_ref:
  assumes rel: "ref_rel Q F L b os" and i: "i \<in> L"
  shows "ref_rel Q (i # F) (L - {i}) (ref_release i b) os"
proof -
  note R = ref_relD [OF rel]
  have off: "i \<notin> rqueued Q" using i R(5) by blast
  let ?V = "rqueued Q \<union> L" and ?b = "ref_release i b"
  have V: "rqueued Q \<union> (L - {i}) = ?V - {i}" using off by blast
  have st: "rb_storage ?b = (rb_storage b)(i := (ref_node b i)\<lparr>rn_free_next := rb_free b\<rparr>)"
    and sel: "rb_free ?b = Some i" "rb_active ?b = rb_active b - 1" "rb_capacity ?b = rb_capacity b"
      "rb_orders ?b = (rb_orders b)(rn_id (ref_node b i) := None)" "\<And>s. ref_levels ?b s = ref_levels b s"
    by (simp_all add: ref_release_def Let_def)
  have links: "ref_links Q ?b" by (rule links_node [OF R(1) _ st sel(5)]) (use off in auto)
  have iF: "i \<notin> set F" using R(2) i by (auto simp: ref_alloc_def)
  then have "free_list (rb_storage ?b) f F = free_list (rb_storage b) f F" for f
    by (intro free_list_cong) (auto simp: st)
  then have al: "ref_alloc (i # F) (?V - {i}) ?b"
    using R(2) iF i alloc_finite [OF R(2)] by (auto simp: ref_alloc_def sel) (simp add: st)
  have ix: "ref_index (?V - {i}) ?b"
    unfolding ref_index_def
  proof (intro allI)
    fix k j show "rb_orders ?b k = Some j \<longleftrightarrow> j \<in> ?V - {i} \<and> rn_id (ref_node ?b j) = k"
      using R(3) rel_same_id [OF rel, of j i] i by (auto simp: ref_index_def sel st)
  qed
  have "ref_order ?b = ref_order b" by (rule ext) (simp add: ref_order_def st)
  then have ct: "ref_content Q ?b os" using R(4) by (simp add: ref_content_def)
  show ?thesis unfolding ref_rel_def V using links al ix ct R(5,6) by (auto simp: st)
qed

lemma rel_register_ref:
  assumes rel: "ref_rel Q (i # F) L b os" and k: "rb_orders b (rn_id n) = None" and n: "rn_next n = None"
  shows "ref_allocate b = (upd_ref i (\<lambda>_. RefNode_default) (b\<lparr>rb_free := rn_free_next (ref_node b i), rb_active := rb_active b + 1\<rparr>), Some i)"
    and "let b' = upd_ref i (\<lambda>_. n) (b\<lparr>rb_free := rn_free_next (ref_node b i), rb_active := rb_active b + 1,
      rb_orders := (rb_orders b)(rn_id n \<mapsto> i)\<rparr>) in ref_rel Q F (insert i L) b' os"
proof -
  note R = ref_relD [OF rel]
  have free: "rb_free b = Some i" using R(2) by (simp add: ref_alloc_def)
  show "ref_allocate b = (upd_ref i (\<lambda>_. RefNode_default) (b\<lparr>rb_free := rn_free_next (ref_node b i), rb_active := rb_active b + 1\<rparr>), Some i)"
    by (simp add: ref_allocate_def free Let_def upd_ref_def)
  define b' where "b' = upd_ref i (\<lambda>_. n) (b\<lparr>rb_free := rn_free_next (ref_node b i), rb_active := rb_active b + 1,
      rb_orders := (rb_orders b)(rn_id n \<mapsto> i)\<rparr>)"
  let ?V = "rqueued Q \<union> L"
  have sel: "rb_storage b' = (rb_storage b)(i := n)" "\<And>s. ref_levels b' s = ref_levels b s"
    "rb_free b' = rn_free_next (ref_node b i)" "rb_active b' = rb_active b + 1" "rb_capacity b' = rb_capacity b"
    "rb_orders b' = (rb_orders b)(rn_id n \<mapsto> i)" by (simp_all add: b'_def)
  have off: "i \<notin> ?V" "i \<notin> set F" using R(2) by (auto simp: ref_alloc_def)
  have V: "rqueued Q \<union> insert i L = insert i ?V" by blast
  have links: "ref_links Q b'" by (rule links_node [OF R(1) _ sel(1,2)]) (use off in auto)
  have "free_list ((rb_storage b)(i := n)) f F = free_list (rb_storage b) f F" for f
    by (rule free_list_cong) (use off in auto)
  then have al: "ref_alloc F (insert i ?V) b'"
    using R(2) off alloc_finite [OF R(2)] by (auto simp: ref_alloc_def sel)
  have fresh: "rn_id (ref_node b j) \<noteq> rn_id n" if "j \<in> ?V" for j
    using R(3) k that unfolding ref_index_def by (metis option.distinct(1))
  have ix: "ref_index (insert i ?V) b'"
    unfolding ref_index_def
  proof (intro allI)
    fix k j show "rb_orders b' k = Some j \<longleftrightarrow> j \<in> insert i ?V \<and> rn_id (ref_node b' j) = k"
      using R(3) fresh [of j] off by (auto simp: ref_index_def sel)
  qed
  have eq: "map (ref_order b') (Q s p) = map (ref_order b) (Q s p)" for s p
    using rqueuedI [of i Q s p] off by (auto simp: ref_order_def sel)
  have ct: "ref_content Q b' os" using R(4) unfolding ref_content_def eq .
  have "ref_rel Q F (insert i L) b' os"
    unfolding ref_rel_def V using links al ix ct R(5,6) n off by (auto simp: sel)
  then show "let b' = upd_ref i (\<lambda>_. n) (b\<lparr>rb_free := rn_free_next (ref_node b i), rb_active := rb_active b + 1,
      rb_orders := (rb_orders b)(rn_id n \<mapsto> i)\<rparr>) in ref_rel Q F (insert i L) b' os" by (simp add: b'_def Let_def)
qed

section \<open>The best level\<close>

lemma rel_head:
  assumes rel: "ref_rel Q F L b os"
  shows "ref_levels b s = [] \<longleftrightarrow> spec_prices os s = []"
    and "ref_levels b s \<noteq> [] \<Longrightarrow> fst (hd (ref_levels b s)) = (if s = Buy then spec_best_bid os else spec_best_ask os)"
proof -
  note R = ref_relD [OF rel] note L = ref_linksD [OF R(1)]
  have lv: "map (ref_order b) (Q s p) = spec_level os s p" for p using R(4) by (simp add: ref_content_def)
  have key: "map_of (ref_levels b s) p \<noteq> None \<longleftrightarrow> p \<in> set (spec_prices os s)" for p
  proof -
    have "map_of (ref_levels b s) p \<noteq> None \<longleftrightarrow> map (ref_order b) (Q s p) \<noteq> []" using L(2) by (simp add: level_of_def)
    also have "\<dots> \<longleftrightarrow> p \<in> set (spec_prices os s)" unfolding lv by (auto simp: spec_level_def spec_prices_def filter_empty_conv)
    finally show ?thesis .
  qed
  show empty: "ref_levels b s = [] \<longleftrightarrow> spec_prices os s = []"
  proof
    assume "ref_levels b s = []"
    then have "p \<notin> set (spec_prices os s)" for p using key [of p] by simp
    then show "spec_prices os s = []" by (cases "spec_prices os s") auto
  next
    assume "spec_prices os s = []"
    then show "ref_levels b s = []" using key sorted_begin(1) [OF L(1) [of s]] by auto
  qed
  assume ne: "ref_levels b s \<noteq> []"
  let ?p = "fst (hd (ref_levels b s))"
  have p: "?p \<in> set (spec_prices os s)" using sorted_begin(1) [OF L(1) ne] key by blast
  have ext: "p = ?p \<or> before s ?p p" if "p \<in> set (spec_prices os s)" for p using sorted_begin(2) [OF L(1) ne] key that by blast
  show "?p = (if s = Buy then spec_best_bid os else spec_best_ask os)"
  proof (cases s)
    case Buy
    have "y \<le> ?p" if "y \<in> set (spec_prices os s)" for y using ext [OF that] Buy by (auto simp: before_def)
    then have "Max (set (spec_prices os s)) = ?p" by (intro Max_eqI p) simp_all
    then show ?thesis using Buy empty ne by (simp add: spec_best_bid_def)
  next
    case Sell
    have "?p \<le> y" if "y \<in> set (spec_prices os s)" for y using ext [OF that] Sell by (auto simp: before_def)
    then have "Min (set (spec_prices os s)) = ?p" by (intro Min_eqI p) simp_all
    then show ?thesis using Sell empty ne by (simp add: spec_best_ask_def)
  qed
qed

lemma rel_best_ref:
  fixes s :: Side
  assumes rel: "ref_rel Q F L b os"
  defines "p \<equiv> fst (hd (ref_levels b s))"
  shows "ref_levels b s = [] \<Longrightarrow> spec_best os s = None"
    and "ref_levels b s \<noteq> [] \<Longrightarrow> \<exists>m q. Q s p = m # q \<and> spec_best os s = Some (ref_order b m) \<and> rn_price (ref_node b m) = p"
proof -
  note R = ref_relD [OF rel] note L = ref_linksD [OF R(1)] note H = rel_head [OF rel, of s]
  show "ref_levels b s = [] \<Longrightarrow> spec_best os s = None" using H(1) by (simp add: spec_best_def)
  assume ne: "ref_levels b s \<noteq> []"
  have "Q s p \<noteq> []" using sorted_begin(1) [OF L(1) ne] L(2) by (auto simp: p_def level_of_def)
  then obtain m q where q: "Q s p = m # q" by (cases "Q s p") auto
  have "map (ref_order b) (Q s p) = spec_level os s p" using R(4) by (simp add: ref_content_def)
  then have "hd (spec_level os s p) = ref_order b m" unfolding q by (metis list.sel(1) list.simps(9))
  then have "spec_best os s = Some (ref_order b m)" using H ne by (auto simp: spec_best_def p_def [symmetric] split: if_splits)
  then show "\<exists>m q. Q s p = m # q \<and> spec_best os s = Some (ref_order b m) \<and> rn_price (ref_node b m) = p"
    using q L(6) [of m s p] by auto
qed

section \<open>One trade\<close>

lemma ref_head:
  assumes "ref_links Q b" "Q s p = m # q"
  shows "the (rl_head (the (map_of (ref_levels b s) p))) = m" "rl_head (the (map_of (ref_levels b s) p)) = Some m"
  using ref_linksD(2) [OF assms(1), of s p] by (simp_all add: assms(2) level_of_def)

text \<open>Both quantities drop.\<close>

lemma rel_fill:
  fixes x :: u64 and st :: OrderState
  assumes rel: "ref_rel Q F L b os" and i: "i \<in> L" and m: "m \<in> rqueued Q"
  defines "B \<equiv> upd_ref m (\<lambda>n. n\<lparr>rn_state := st\<rparr>) (upd_ref m (\<lambda>n. n\<lparr>rn_remaining := rn_remaining n - x\<rparr>)
    (upd_ref i (\<lambda>n. n\<lparr>rn_remaining := rn_remaining n - x\<rparr>) b))"
  shows "ref_rel Q F L B (spec_lower (rn_id (ref_node b m)) x os)"
    and "ref_node B i = (ref_node b i)\<lparr>rn_remaining := rn_remaining (ref_node b i) - x\<rparr>"
    and "ref_node B m = (ref_node b m)\<lparr>rn_remaining := rn_remaining (ref_node b m) - x, rn_state := st\<rparr>"
    and "ref_levels B s = ref_levels b s"
proof -
  have neq: "m \<noteq> i" using i m ref_relD(5) [OF rel] by blast
  let ?t = "(ref_node b i)\<lparr>rn_remaining := rn_remaining (ref_node b i) - x\<rparr>"
  let ?n = "(ref_node b m)\<lparr>rn_remaining := rn_remaining (ref_node b m) - x, rn_state := st\<rparr>"
  let ?b = "upd_ref i (\<lambda>_. ?t) b"
  have B: "B = upd_ref m (\<lambda>_. ?n) ?b" using neq by (simp add: B_def upd_ref_def)
  have "ref_rel Q F L ?b os" using rel_loose_ref [OF rel i, of ?t] ref_relD(6) [OF rel i] by simp
  from rel_lower_ref [OF this m, where n = ?n and x = x and st = st] show "ref_rel Q F L B (spec_lower (rn_id (ref_node b m)) x os)"
    unfolding B using neq by simp
  show "ref_node B i = ?t" "ref_node B m = ?n" "ref_levels B s = ref_levels b s" unfolding B using neq by simp_all
qed

lemma ref_trade_partial:
  assumes rel: "ref_rel Q F L b os" and i: "i \<in> L" and q: "Q s p = m # q"
    and less: "rn_remaining (ref_node b i) < rn_remaining (ref_node b m)"
  obtains b' where "ref_trade i s p b = (b', [On_trade (rn_id (ref_node b m)) (rn_id (ref_node b i)) p (rn_remaining (ref_node b i)),
      On_order (rn_id (ref_node b m)) PartiallyFilled (rn_remaining (ref_node b m) - rn_remaining (ref_node b i))], False)"
    "ref_rel Q F L b' (spec_lower (rn_id (ref_node b m)) (rn_remaining (ref_node b i)) os)"
    "ref_node b' i = (ref_node b i)\<lparr>rn_remaining := 0\<rparr>"
proof -
  let ?x = "rn_remaining (ref_node b i)"
  have m: "m \<in> rqueued Q" by (rule rqueuedI [of m Q s p]) (simp add: q)
  have neq: "m \<noteq> i" using i m ref_relD(5) [OF rel] by blast
  have nz: "rn_remaining (ref_node b m) - ?x \<noteq> 0" using less by auto
  note t = rel_fill [OF rel i m, of PartiallyFilled ?x]
  show thesis
    by (rule that [OF _ t(1)]) (use t less nz ref_head [OF ref_relD(1) [OF rel] q] neq in \<open>simp_all add: ref_trade_def Let_def\<close>)
qed

lemma ref_trade_full:
  assumes rel: "ref_rel Q F L b os" and i: "i \<in> L" and q: "Q s p = m # q"
    and le: "\<not> rn_remaining (ref_node b i) < rn_remaining (ref_node b m)"
  obtains b' where "ref_trade i s p b = (b', [On_trade (rn_id (ref_node b m)) (rn_id (ref_node b i)) p (rn_remaining (ref_node b m)),
      On_order (rn_id (ref_node b m)) Filled 0], ref_levels b' s = [] \<or> fst (hd (ref_levels b' s)) \<noteq> p)"
    "ref_rel (updr Q s p q) (m # F) L b' (spec_remove (rn_id (ref_node b m)) os)"
    "ref_node b' i = (ref_node b i)\<lparr>rn_remaining := rn_remaining (ref_node b i) - rn_remaining (ref_node b m)\<rparr>"
proof -
  let ?x = "rn_remaining (ref_node b m)"
  note R = ref_relD [OF rel]
  have m: "m \<in> rqueued Q" by (rule rqueuedI [of m Q s p]) (simp add: q)
  have neq: "m \<noteq> i" using i m R(5) by blast
  define B where "B = upd_ref m (\<lambda>n. n\<lparr>rn_state := Filled\<rparr>) (upd_ref m (\<lambda>n. n\<lparr>rn_remaining := rn_remaining n - ?x\<rparr>)
    (upd_ref i (\<lambda>n. n\<lparr>rn_remaining := rn_remaining n - ?x\<rparr>) b))"
  note t = rel_fill [OF rel i m, of Filled ?x, folded B_def]
  have q0: "Q s p = [] @ m # q" using q by simp
  note U = rel_unlink_ref [OF t(1) q0]
  let ?b = "ref_release m (unlink_from s m B)"
  have L: "insert m L - {m} = L" using m R(5) by blast
  have rel': "ref_rel (updr Q s p q) (m # F) L ?b (spec_remove (rn_id (ref_node b m)) os)"
    using rel_release_ref [OF U, of m] t(3) spec_lower_remove [of "rn_id (ref_node b m)" ?x os] by (simp add: L)
  have seg: "pseg (rb_storage B) None None ([] @ m # q)" using ref_linksD(4) [OF ref_relD(1) [OF t(1)], of s p] by (simp add: q)
  have "i \<notin> set q" using i R(5) rqueuedI [of i Q s p] by (auto simp: q)
  then have node: "ref_node ?b i = ref_node B i"
    using without_other [OF seg, of i] neq unlink_from_links(1) [OF ref_relD(1) [OF t(1)] q0] by (simp add: ref_release_def Let_def)
  show thesis
    by (rule that [OF _ rel'])
      (use le ref_head [OF R(1) q] neq node t(2) in \<open>simp_all add: ref_trade_def Let_def B_def [symmetric]\<close>, simp_all add: B_def)
qed

section \<open>The loops\<close>

definition ref_limit :: "OrderType \<Rightarrow> RefNode \<Rightarrow> int option" where
  "ref_limit type n = (if type = Limit then Some (rn_price n) else None)"

definition ref_stops :: "nat \<Rightarrow> OrderType \<Rightarrow> Side \<Rightarrow> PriceTimeOrderBook \<Rightarrow> bool" where
  "ref_stops i type s b \<longleftrightarrow> rn_remaining (ref_node b i) = 0 \<or> ref_levels b s = [] \<or>
     \<not> crosses (rn_side (ref_node b i)) (ref_limit type (ref_node b i)) (fst (hd (ref_levels b s)))"

lemma match_levels_unfold:
  "match_levels i type s b =
     (if ref_stops i type s b then Some (b, [])
      else Option.bind (ref_match_level i s (fst (hd (ref_levels b s))) b) (\<lambda>(b, ev). prepend ev (match_levels i type s b)))"
  by (subst match_levels.simps) (cases type; auto simp: ref_stops_def crosses_def ref_limit_def Let_def prepend_bind)

lemma match_levels_trade:
  fixes b s
  defines "p \<equiv> fst (hd (ref_levels b s))"
  assumes go: "\<not> ref_stops i type s b" and head: "rl_head (the (map_of (ref_levels b s) p)) \<noteq> None"
    and step: "ref_trade i s p b = (b1, ev, br)"
    and taker: "rn_side (ref_node b1 i) = rn_side (ref_node b i)" "rn_price (ref_node b1 i) = rn_price (ref_node b i)"
    and cont: "\<not> br \<Longrightarrow> ref_levels b1 s \<noteq> [] \<and> fst (hd (ref_levels b1 s)) = p"
  shows "match_levels i type s b = prepend ev (match_levels i type s b1)"
proof -
  have nz: "rn_remaining (ref_node b i) \<noteq> 0" using go by (auto simp: ref_stops_def)
  have lev: "ref_match_level i s p b = (if br then Some (b1, ev) else prepend ev (ref_match_level i s p b1))"
    by (subst ref_match_level.simps) (use nz head step in \<open>simp add: prepend_bind\<close>)
  note unf = match_levels_unfold [of i type s b, folded p_def]
  show ?thesis
  proof (cases "br \<or> rn_remaining (ref_node b1 i) = 0")
    case True
    have "ref_match_level i s p b1 = Some (b1, [])" if "rn_remaining (ref_node b1 i) = 0"
      by (subst ref_match_level.simps) (simp add: that)
    then have "ref_match_level i s p b = Some (b1, ev)" using True lev by auto
    then show ?thesis using go unf by simp
  next
    case False
    then have b1: "ref_levels b1 s \<noteq> []" "fst (hd (ref_levels b1 s)) = p" using cont by auto
    have "\<not> ref_stops i type s b1" using go b1 False taker by (auto simp: ref_stops_def ref_limit_def p_def)
    then show ?thesis using go lev unf match_levels_unfold [of i type s b1, unfolded b1(2)] False
      by (cases "ref_match_level i s p b1") auto
  qed
qed

lemma not_before: "before s p p' \<Longrightarrow> before s p' p \<Longrightarrow> False"
  by (auto simp: before_def split: if_splits)

text \<open>As long as the best level has orders it stays the best one.\<close>

lemma head_keep:
  assumes lk: "ref_links Q b" "ref_links Q' b'" and ne: "ref_levels b s \<noteq> []"
    and sub: "\<And>p. Q' s p \<noteq> [] \<Longrightarrow> Q s p \<noteq> []" and top: "Q' s (fst (hd (ref_levels b s))) \<noteq> []"
  shows "ref_levels b' s \<noteq> [] \<and> fst (hd (ref_levels b' s)) = fst (hd (ref_levels b s))"
proof -
  let ?p = "fst (hd (ref_levels b s))" and ?p' = "fst (hd (ref_levels b' s))"
  note L = ref_linksD [OF lk(1)] note L' = ref_linksD [OF lk(2)]
  have key: "map_of (ref_levels b' s) ?p \<noteq> None" using top L'(2) by (simp add: level_of_def)
  then have ne': "ref_levels b' s \<noteq> []" by auto
  have "map_of (ref_levels b' s) ?p' \<noteq> None" by (rule sorted_begin(1) [OF L'(1) ne'])
  then have "Q' s ?p' \<noteq> []" using L'(2) [of s ?p'] by (auto simp: level_of_def)
  then have "map_of (ref_levels b s) ?p' \<noteq> None" using sub L(2) [of s ?p'] by (simp add: level_of_def)
  then have "?p' = ?p \<or> before s ?p ?p'" by (rule sorted_begin(2) [OF L(1) ne])
  moreover have "?p = ?p' \<or> before s ?p' ?p" by (rule sorted_begin(2) [OF L'(1) ne' key])
  ultimately show ?thesis using ne' not_before by metis
qed

lemma capacity_steps [simp]: "rb_capacity (unlink_from s i b) = rb_capacity b" "rb_capacity (ref_release i b) = rb_capacity b"
  by (simp_all add: unlink_from_def ref_release_def Let_def split: option.split)

lemma ref_trade_capacity: "ref_trade i s p b = (b', r) \<Longrightarrow> rb_capacity b' = rb_capacity b"
  unfolding ref_trade_def Let_def by (simp split: if_splits) fastforce+

definition ref_taker :: "nat \<Rightarrow> nat set \<Rightarrow> RefNode \<Rightarrow> nat \<Rightarrow> PriceTimeOrderBook \<Rightarrow> resting list \<Rightarrow> bool" where
  "ref_taker i L n c b os \<longleftrightarrow> i \<in> L \<and> rb_capacity b = c \<and> (\<exists>Q F. ref_rel Q F L b os) \<and> ref_node b i = n\<lparr>rn_remaining := rn_remaining (ref_node b i)\<rparr>"

lemma ref_takerD:
  assumes "ref_taker i L n c b os"
  obtains Q F where "i \<in> L" "ref_rel Q F L b os" "rn_id (ref_node b i) = rn_id n" "rn_side (ref_node b i) = rn_side n"
    "ref_limit type (ref_node b i) = ref_limit type n"
proof -
  have "rn_id (ref_node b i) = rn_id n \<and> rn_side (ref_node b i) = rn_side n \<and> rn_price (ref_node b i) = rn_price n"
    using assms unfolding ref_taker_def by (metis RefNode.select_convs RefNode.surjective RefNode.update_convs(3))
  then show thesis using assms that unfolding ref_taker_def ref_limit_def by auto
qed

lemma ref_taker_step:
  assumes "ref_taker i L n c b os" "ref_rel Q F L b' os'" "ref_node b' i = (ref_node b i)\<lparr>rn_remaining := x\<rparr>"
    "ref_trade i s p b = (b', r)"
  shows "ref_taker i L n c b' os'" "rn_remaining (ref_node b' i) = x"
proof -
  have "ref_node b i = n\<lparr>rn_remaining := rn_remaining (ref_node b i)\<rparr>" using assms(1) by (simp add: ref_taker_def)
  then have "ref_node b' i = n\<lparr>rn_remaining := x\<rparr>" using assms(3) by (metis RefNode.fold_congs(3) RefNode.update_convs(3) RefNode.surjective)
  then show "ref_taker i L n c b' os'" "rn_remaining (ref_node b' i) = x" using assms(1,2) ref_trade_capacity [OF assms(4)] by (auto simp: ref_taker_def)
qed

lemma ref_go:
  assumes t: "ref_taker i L n c b os" and m: "spec_best os (opposite (rn_side n)) = Some m"
    and go: "crosses (rn_side n) (ref_limit type n) (rs_price m)" "rn_remaining (ref_node b i) \<noteq> 0"
  defines "s \<equiv> opposite (rn_side n)"
  obtains Q F j q where "ref_rel Q F L b os" "Q s (rs_price m) = j # q" "m = ref_order b j" "fst (hd (ref_levels b s)) = rs_price m"
    "ref_levels b s \<noteq> []" "\<not> ref_stops i type s b" "rl_head (the (map_of (ref_levels b s) (rs_price m))) \<noteq> None"
proof -
  obtain Q F where r: "i \<in> L" "ref_rel Q F L b os" "rn_id (ref_node b i) = rn_id n" "rn_side (ref_node b i) = rn_side n"
    "ref_limit type (ref_node b i) = ref_limit type n" by (rule ref_takerD [OF t])
  note best = rel_best_ref [OF r(2), of s]
  have ne: "ref_levels b s \<noteq> []" using best(1) m by (auto simp: s_def)
  obtain j q where j: "Q s (fst (hd (ref_levels b s))) = j # q" "spec_best os s = Some (ref_order b j)"
    "rn_price (ref_node b j) = fst (hd (ref_levels b s))" using best(2) [OF ne] by blast
  then have mj: "m = ref_order b j" "fst (hd (ref_levels b s)) = rs_price m" using m by (simp_all add: s_def)
  have "\<not> ref_stops i type s b" using go r(4,5) ne mj(2) by (simp add: ref_stops_def)
  then show thesis using that [OF r(2) j(1) [unfolded mj(2)] mj ne] ref_head [OF ref_relD(1) [OF r(2)] j(1)] mj(2) by simp
qed

lemma ref_part:
  fixes n type i L
  defines "s \<equiv> opposite (rn_side n)"
  assumes t: "ref_taker i L n c b os" and m: "spec_best os s = Some m"
    and go: "crosses (rn_side n) (ref_limit type n) (rs_price m)" "rn_remaining (ref_node b i) \<noteq> 0"
    and less: "rn_remaining (ref_node b i) < rs_quantity m"
  shows "\<exists>b'. match_levels i type s b = prepend [On_trade (rs_id m) (rn_id n) (rs_price m) (rn_remaining (ref_node b i)),
      On_order (rs_id m) PartiallyFilled (rs_quantity m - rn_remaining (ref_node b i))] (match_levels i type s b') \<and>
    ref_taker i L n c b' (spec_lower (rs_id m) (rn_remaining (ref_node b i)) os) \<and> rn_remaining (ref_node b' i) = 0"
proof -
  let ?x = "rn_remaining (ref_node b i)"
  have i: "i \<in> L" "rn_id (ref_node b i) = rn_id n" by (rule ref_takerD [OF t], assumption)+
  obtain Q F j q where j: "ref_rel Q F L b os" "Q s (rs_price m) = j # q" "m = ref_order b j"
    "fst (hd (ref_levels b s)) = rs_price m" "ref_levels b s \<noteq> []" "\<not> ref_stops i type s b"
    "rl_head (the (map_of (ref_levels b s) (rs_price m))) \<noteq> None"
    unfolding s_def by (rule ref_go [OF t m [unfolded s_def] go])
  have less': "?x < rn_remaining (ref_node b j)" using less j(3) by simp
  obtain b1 where b1: "ref_trade i s (rs_price m) b = (b1, [On_trade (rs_id m) (rn_id n) (rs_price m) ?x,
      On_order (rs_id m) PartiallyFilled (rs_quantity m - ?x)], False)"
    "ref_rel Q F L b1 (spec_lower (rs_id m) ?x os)" "ref_node b1 i = (ref_node b i)\<lparr>rn_remaining := 0\<rparr>"
    by (rule ref_trade_partial [OF j(1) i(1) j(2) less']) (simp add: j(3) i(2))
  have "match_levels i type s b = prepend [On_trade (rs_id m) (rn_id n) (rs_price m) ?x,
      On_order (rs_id m) PartiallyFilled (rs_quantity m - ?x)] (match_levels i type s b1)"
    using head_keep [OF ref_relD(1) [OF j(1)] ref_relD(1) [OF b1(2)] j(5)] j(2,4)
    by (intro match_levels_trade [of i type s b, unfolded j(4), OF j(6,7) b1(1)]) (simp_all add: b1(3))
  then show ?thesis using ref_taker_step [OF t b1(2,3,1)] by blast
qed

lemma ref_full:
  fixes n type i L
  defines "s \<equiv> opposite (rn_side n)"
  assumes t: "ref_taker i L n c b os" and m: "spec_best os s = Some m"
    and go: "crosses (rn_side n) (ref_limit type n) (rs_price m)" "rn_remaining (ref_node b i) \<noteq> 0"
    and le: "\<not> rn_remaining (ref_node b i) < rs_quantity m"
  shows "\<exists>b'. match_levels i type s b = prepend [On_trade (rs_id m) (rn_id n) (rs_price m) (rs_quantity m),
      On_order (rs_id m) Filled 0] (match_levels i type s b') \<and>
    ref_taker i L n c b' (spec_remove (rs_id m) os) \<and> rn_remaining (ref_node b' i) = rn_remaining (ref_node b i) - rs_quantity m"
proof -
  let ?x = "rn_remaining (ref_node b i)"
  have i: "i \<in> L" "rn_id (ref_node b i) = rn_id n" by (rule ref_takerD [OF t], assumption)+
  obtain Q F j q where j: "ref_rel Q F L b os" "Q s (rs_price m) = j # q" "m = ref_order b j"
    "fst (hd (ref_levels b s)) = rs_price m" "ref_levels b s \<noteq> []" "\<not> ref_stops i type s b"
    "rl_head (the (map_of (ref_levels b s) (rs_price m))) \<noteq> None"
    unfolding s_def by (rule ref_go [OF t m [unfolded s_def] go])
  have le': "\<not> ?x < rn_remaining (ref_node b j)" using le j(3) by simp
  obtain b1 where b1: "ref_trade i s (rs_price m) b = (b1, [On_trade (rs_id m) (rn_id n) (rs_price m) (rs_quantity m),
      On_order (rs_id m) Filled 0], ref_levels b1 s = [] \<or> fst (hd (ref_levels b1 s)) \<noteq> rs_price m)"
    "ref_rel (updr Q s (rs_price m) q) (j # F) L b1 (spec_remove (rs_id m) os)"
    "ref_node b1 i = (ref_node b i)\<lparr>rn_remaining := ?x - rs_quantity m\<rparr>"
    by (rule ref_trade_full [OF j(1) i(1) j(2) le']) (simp add: j(3) i(2))
  have "match_levels i type s b = prepend [On_trade (rs_id m) (rn_id n) (rs_price m) (rs_quantity m),
      On_order (rs_id m) Filled 0] (match_levels i type s b1)"
    by (intro match_levels_trade [of i type s b, unfolded j(4), OF j(6,7) b1(1)]) (simp_all add: b1(3))
  then show ?thesis using ref_taker_step [OF t b1(2,3,1)] by blast
qed

interpretation ref: price_time_loop "match_levels i type (opposite (rn_side n))" "ref_taker i L n c"
    "\<lambda>b. rn_remaining (ref_node b i)" "rn_id n" "rn_side n" "ref_limit type n"
  for i :: nat and type :: OrderType and n :: RefNode and L :: "nat set" and c :: nat
proof
  let ?s = "opposite (rn_side n)"
  fix b os
  assume t: "ref_taker i L n c b os"
    and stop: "rn_remaining (ref_node b i) = 0 \<or>
      (case spec_best os ?s of None \<Rightarrow> True | Some m \<Rightarrow> \<not> crosses (rn_side n) (ref_limit type n) (rs_price m))"
  obtain Q F where r: "ref_rel Q F L b os" "rn_side (ref_node b i) = rn_side n" "ref_limit type (ref_node b i) = ref_limit type n"
    by (rule ref_takerD [OF t])
  have "ref_stops i type ?s b"
    using stop rel_best_ref(2) [OF r(1), of ?s] r(2,3) by (cases "ref_levels b ?s = []") (auto simp: ref_stops_def)
  then show "match_levels i type ?s b = Some (b, [])" by (subst match_levels_unfold) simp
qed (rule ref_part ref_full; assumption)+

lemma ref_match_sim:
  assumes "ref_rel Q F L b os" "i \<in> L"
    "spec_match (rn_id (ref_node b i)) (rn_side (ref_node b i)) (ref_limit type (ref_node b i)) (rn_remaining (ref_node b i)) os = (x', os', ev)"
  shows "\<exists>b' Q' F'. ref_match i type b = Some (b', ev) \<and> ref_rel Q' F' L b' os' \<and> ref_node b' i = (ref_node b i)\<lparr>rn_remaining := x'\<rparr> \<and>
    rb_capacity b' = rb_capacity b"
proof -
  have "ref_taker i L (ref_node b i) (rb_capacity b) b os" using assms(1,2) by (auto simp: ref_taker_def)
  from ref.simulates [OF this assms(3)] obtain b' where
    b': "match_levels i type (opposite (rn_side (ref_node b i))) b = Some (b', ev)" "ref_taker i L (ref_node b i) (rb_capacity b) b' os'"
    "rn_remaining (ref_node b' i) = x'" by blast
  then show ?thesis by (cases "rn_side (ref_node b i)") (auto simp: ref_match_def opposite_def ref_taker_def)
qed

end
