(* ===== verification/PriceTimeOps.thy ===== *)
theory PriceTimeOps
  imports PriceTimeMatch
begin

text \<open>
  The public operations of the reference book against the price-time specification: a new book is
  empty, and \<open>submit\<close>, \<open>cancel\<close> and \<open>modify\<close> return and report what the specification says.
\<close>

definition ref_implements :: "PriceTimeOrderBook \<Rightarrow> resting list \<Rightarrow> bool" where
  "ref_implements b os \<longleftrightarrow> (\<exists>Q F. ref_rel Q F {} b os)"

section \<open>Counting\<close>

lemma rel_active_ref:
  assumes rel: "ref_rel Q F {} b os"
  shows "ref_active_orders b = length os" "rb_capacity b = length F + length os"
proof -
  note R = ref_relD [OF rel]
  have "set os = ref_order b ` rqueued Q" using content_set [OF R(4)] by blast
  then have "rs_id ` set os = (\<lambda>i. rn_id (ref_node b i)) ` rqueued Q" by (simp add: image_image)
  moreover have "inj_on (\<lambda>i. rn_id (ref_node b i)) (rqueued Q)" by (rule inj_onI) (use rel_same_id [OF rel] in blast)
  moreover have "distinct (map rs_id os)" using R(4) by (simp add: ref_content_def)
  ultimately have card: "card (rqueued Q) = length os"
    by (metis card_image distinct_card length_map list.set_map)
  then show "ref_active_orders b = length os" using R(2) by (simp add: ref_active_orders_def ref_alloc_def)
  have "card (set F \<union> rqueued Q) = card (set F) + card (rqueued Q)"
    using R(2) alloc_finite [OF R(2)] by (intro card_Un_disjoint) (auto simp: ref_alloc_def)
  then show "rb_capacity b = length F + length os"
    using R(2) card distinct_card [of F] by (simp add: ref_alloc_def)
qed

section \<open>A new book\<close>

lemma push_free_sel [simp]:
  "rb_capacity (ref_push_free i b) = rb_capacity b" "rb_active (ref_push_free i b) = rb_active b"
  "rb_orders (ref_push_free i b) = rb_orders b" "rb_bids (ref_push_free i b) = rb_bids b" "rb_asks (ref_push_free i b) = rb_asks b"
  by (simp_all add: ref_push_free_def)

lemma push_free_list:
  assumes "rb_free b = None"
  shows "free_list (rb_storage (fold ref_push_free [0..<n] b)) (rb_free (fold ref_push_free [0..<n] b)) (rev [0..<n])"
proof (induction n)
  case (Suc n)
  let ?b = "fold ref_push_free [0..<n] b"
  have "free_list (rb_storage (ref_push_free n ?b)) f (rev [0..<n]) = free_list (rb_storage ?b) f (rev [0..<n])" for f
    by (rule free_list_cong) (simp add: ref_push_free_def)
  moreover have "rn_free_next (rb_storage (ref_push_free n ?b) n) = rb_free ?b" "rb_free (ref_push_free n ?b) = Some n"
    by (simp_all add: ref_push_free_def)
  ultimately show ?case using Suc by simp
qed (simp add: assms)

lemma new_sel:
  "rb_capacity (fold ref_push_free is b) = rb_capacity b" "rb_active (fold ref_push_free is b) = rb_active b"
  "rb_orders (fold ref_push_free is b) = rb_orders b" "rb_bids (fold ref_push_free is b) = rb_bids b"
  "rb_asks (fold ref_push_free is b) = rb_asks b"
  by (induction "is" arbitrary: b) simp_all

lemma ref_implements_new: "ref_implements (PriceTimeOrderBook_new capacity) []"
proof -
  let ?b = "PriceTimeOrderBook_new capacity"
  have free: "free_list (rb_storage ?b) (rb_free ?b) (rev [0..<capacity])"
    and sel: "rb_capacity ?b = capacity" "rb_active ?b = 0" "rb_orders ?b = Map.empty" "\<And>s. ref_levels ?b s = []"
    unfolding PriceTimeOrderBook_new_def ref_levels_def by (simp_all add: push_free_list new_sel)
  have none: "rqueued (\<lambda>s p. []) = {}" by (simp add: rqueued_def)
  have "ref_rel (\<lambda>s p. []) (rev [0..<capacity]) {} ?b []"
    unfolding ref_rel_def none using free
    by (auto simp: ref_links_def ref_alloc_def ref_index_def ref_content_def sel level_of_def spec_level_def)
  then show ?thesis unfolding ref_implements_def by blast
qed

lemma ref_capacity_new: "rb_capacity (PriceTimeOrderBook_new capacity) = capacity"
  unfolding PriceTimeOrderBook_new_def by (simp add: new_sel)

section \<open>Orders\<close>

lemma upd_ref_const: "upd_ref i f b = upd_ref i (\<lambda>_. f (ref_node b i)) b"
  by (simp add: upd_ref_def)

lemma rel_state_ref:
  assumes rel: "ref_rel Q F L b os" and i: "i \<in> L"
  shows "ref_rel Q F L (upd_ref i (\<lambda>n. n\<lparr>rn_state := st\<rparr>) b) os"
  by (subst upd_ref_const, rule rel_loose_ref [OF rel i]) (use ref_relD(6) [OF rel i] in simp_all)

lemma ref_settle_sim:
  assumes rel: "ref_rel Q F {i} b os" and price: "rn_price (ref_node b i) = rq_price rq"
  obtains b' ev' os' where "ref_settle i rq b = (b', ev')" "ref_implements b' os'" "rb_capacity b' = rb_capacity b"
    "spec_settle (rn_id (ref_node b i)) (rn_side (ref_node b i)) (rq_limit rq) (rq_quantity rq)
       (rn_remaining (ref_node b i), os, ev) = (os', ev @ ev')"
proof -
  let ?x = "rn_remaining (ref_node b i)" and ?u = "\<lambda>st. upd_ref i (\<lambda>n. n\<lparr>rn_state := st\<rparr>) b"
  have rel': "ref_rel Q F {i} (?u st) os" for st by (rule rel_state_ref [OF rel]) simp
  have gone: "ref_implements (ref_release i (?u st)) os" "rb_capacity (ref_release i (?u st)) = rb_capacity b" for st
    using rel_release_ref [OF rel', of i] by (auto simp: ref_implements_def ref_release_def Let_def)
  show thesis
  proof (cases "?x = 0 \<or> rq_type rq = Market")
    case True
    let ?st = "if ?x = 0 then Filled else Canceled"
    show thesis
      by (rule that [OF _ gone [of ?st], where ev' = "[On_order (rn_id (ref_node b i)) ?st ?x]"])
        (use True in \<open>auto simp: ref_settle_def spec_settle_def rq_limit_def Let_def\<close>)
  next
    case False
    then have lim: "rq_limit rq = Some (rq_price rq)" by (cases "rq_type rq") (auto simp: rq_limit_def)
    let ?st = "if ?x = rq_quantity rq then New else PartiallyFilled"
    have "ref_rel (updr Q (rn_side (ref_node b i)) (rq_price rq) (Q (rn_side (ref_node b i)) (rq_price rq) @ [i])) F ({i} - {i})
        (ref_append i (?u ?st)) (os @ [ref_order (?u ?st) i])"
      by (rule rel_append_ref [OF rel']) (simp_all add: price)
    then have "ref_implements (ref_append i (?u ?st)) (os @ [ref_order (?u ?st) i])"
      unfolding Diff_cancel ref_implements_def by blast
    moreover have "rb_capacity (ref_append i (?u ?st)) = rb_capacity b"
      by (simp add: ref_append_side append_to_links(3) [OF ref_relD(1) [OF rel'] refl])
    moreover have "ref_order (?u ?st) i = \<lparr>rs_id = rn_id (ref_node b i), rs_side = rn_side (ref_node b i), rs_price = rq_price rq, rs_quantity = ?x\<rparr>"
      by (simp add: ref_order_def price)
    ultimately show thesis using False
      by (intro that [of "ref_append i (?u ?st)"]) (simp_all add: ref_settle_def spec_settle_def lim Let_def)
  qed
qed

lemma ref_match_settle:
  assumes rel: "ref_rel Q F {i} b os" and n: "rn_id (ref_node b i) = rq_id rq" "rn_side (ref_node b i) = rq_side rq"
    "rn_price (ref_node b i) = rq_price rq" "rn_remaining (ref_node b i) = rq_quantity rq"
  obtains b' ev os' where
    "map_option (\<lambda>(b, ev). case ref_settle i rq b of (b, ev') \<Rightarrow> (b, True, ev @ ev')) (ref_match i (rq_type rq) b) = Some (b', True, ev)"
    "ref_implements b' os'" "rb_capacity b' = rb_capacity b"
    "spec_settle (rq_id rq) (rq_side rq) (rq_limit rq) (rq_quantity rq)
       (spec_match (rq_id rq) (rq_side rq) (rq_limit rq) (rq_quantity rq) os) = (os', ev)"
proof -
  obtain x os1 ev1 where sp: "spec_match (rq_id rq) (rq_side rq) (rq_limit rq) (rq_quantity rq) os = (x, os1, ev1)" by (metis prod_cases3)
  have "ref_limit (rq_type rq) (ref_node b i) = rq_limit rq" by (simp add: ref_limit_def rq_limit_def n)
  then obtain b1 Q1 F1 where b1: "ref_match i (rq_type rq) b = Some (b1, ev1)" "ref_rel Q1 F1 {i} b1 os1"
    "ref_node b1 i = (ref_node b i)\<lparr>rn_remaining := x\<rparr>" "rb_capacity b1 = rb_capacity b"
    using ref_match_sim [OF rel, of i "rq_type rq" x os1 ev1] sp n by auto
  have n1: "rn_id (ref_node b1 i) = rq_id rq" "rn_side (ref_node b1 i) = rq_side rq" "rn_remaining (ref_node b1 i) = x"
    and price: "rn_price (ref_node b1 i) = rq_price rq" using n by (simp_all add: b1(3))
  obtain b' ev' os' where s: "ref_settle i rq b1 = (b', ev')" "ref_implements b' os'" "rb_capacity b' = rb_capacity b1"
    "spec_settle (rq_id rq) (rq_side rq) (rq_limit rq) (rq_quantity rq) (x, os1, ev1) = (os', ev1 @ ev')"
    by (rule ref_settle_sim [OF b1(2) price, of ev1, unfolded n1])
  show thesis using b1 s sp by (intro that [of b' "ev1 @ ev'" os']) simp_all
qed

abbreviation positive :: "int \<Rightarrow> bool" where
  "positive p \<equiv> 0 < p"

lemma ref_submit_register:
  assumes rel: "ref_rel Q (i # F) {} b os"
    and ok: "\<not> (rq_id rq = 0 \<or> rq_quantity rq = 0 \<or> (rq_type rq = Limit \<and> rq_price rq \<le> 0) \<or> rb_orders b (rq_id rq) \<noteq> None)"
  obtains b2 where "ref_submit b rq = map_option (\<lambda>(b, ev). case ref_settle i rq b of (b, ev') \<Rightarrow> (b, True, ev @ ev'))
      (ref_match i (rq_type rq) b2)" "ref_rel Q F {i} b2 os" "rb_capacity b2 = rb_capacity b"
    "rn_id (ref_node b2 i) = rq_id rq" "rn_side (ref_node b2 i) = rq_side rq"
    "rn_price (ref_node b2 i) = rq_price rq" "rn_remaining (ref_node b2 i) = rq_quantity rq"
proof -
  define n where "n = RefNode_default\<lparr>rn_id := rq_id rq, rn_side := rq_side rq, rn_price := rq_price rq,
    rn_remaining := rq_quantity rq, rn_state := New\<rparr>"
  define b2 where "b2 = upd_ref i (\<lambda>_. n) (b\<lparr>rb_free := rn_free_next (ref_node b i), rb_active := rb_active b + 1,
    rb_orders := (rb_orders b)(rn_id n \<mapsto> i)\<rparr>)"
  have n: "rn_id n = rq_id rq" "rn_next n = None" by (simp_all add: n_def RefNode_default_def)
  have fresh: "rb_orders b (rn_id n) = None" using ok n(1) by simp
  note reg = rel_register_ref [OF rel fresh n(2)]
  have b2: "ref_rel Q F {i} b2 os" using reg(2) by (simp add: b2_def Let_def)
  have node: "rn_id (ref_node b2 i) = rq_id rq" "rn_side (ref_node b2 i) = rq_side rq"
    "rn_price (ref_node b2 i) = rq_price rq" "rn_remaining (ref_node b2 i) = rq_quantity rq" by (simp_all add: b2_def n_def)
  have "(upd_ref i (\<lambda>n. n\<lparr>rn_id := rq_id rq, rn_side := rq_side rq, rn_price := rq_price rq, rn_remaining := rq_quantity rq, rn_state := New\<rparr>)
      (upd_ref i (\<lambda>_. RefNode_default) (b\<lparr>rb_free := rn_free_next (ref_node b i), rb_active := rb_active b + 1\<rparr>)))
      \<lparr>rb_orders := (rb_orders b)(rq_id rq \<mapsto> i)\<rparr> = b2"
    by (simp add: b2_def n_def upd_ref_def)
  then have "ref_submit b rq = map_option (\<lambda>(b, ev). case ref_settle i rq b of (b, ev') \<Rightarrow> (b, True, ev @ ev')) (ref_match i (rq_type rq) b2)"
    unfolding ref_submit_def if_not_P [OF ok] by (simp add: reg(1) Let_def)
  then show thesis by (rule that [OF _ b2 _ node]) (simp add: b2_def)
qed

lemma ref_submit_sim:
  assumes rel: "ref_rel Q F {} b os" and k: "rq_id rq \<noteq> UINT64_MAX"
  shows "\<exists>b' os' r. ref_submit b rq = Some (b', r) \<and> rb_capacity b' = rb_capacity b \<and> ref_implements b' os' \<and> (fst r \<or> b' = b) \<and>
    spec_submit (rb_capacity b) positive os rq = (os', r)"
proof -
  note find = rel_find_ref(3) [OF rel refl, of "rq_id rq"]
  have full: "F = [] \<longleftrightarrow> rb_capacity b \<le> length os" using rel_active_ref(2) [OF rel] by (cases F) auto
  have lim: "(\<exists>p\<in>set_option (rq_limit rq). \<not> positive p) \<longleftrightarrow> rq_type rq = Limit \<and> rq_price rq \<le> 0"
    by (auto simp: rq_limit_def not_less)
  let ?bad = "rq_id rq = 0 \<or> rq_quantity rq = 0 \<or> (rq_type rq = Limit \<and> rq_price rq \<le> 0) \<or> rb_orders b (rq_id rq) \<noteq> None"
  have spec: "spec_submit (rb_capacity b) positive os rq = (if ?bad \<or> F = [] then (os, False, [On_order (rq_id rq) Rejected (rq_quantity rq)])
      else case spec_settle (rq_id rq) (rq_side rq) (rq_limit rq) (rq_quantity rq)
        (spec_match (rq_id rq) (rq_side rq) (rq_limit rq) (rq_quantity rq) os) of (os, ev) \<Rightarrow> (os, True, ev))"
    unfolding spec_submit_def lim full find using k by (intro if_cong refl) auto
  show ?thesis
  proof (cases "?bad \<or> F = []")
    case True
    have "ref_submit b rq = Some (b, False, [On_order (rq_id rq) Rejected (rq_quantity rq)])"
    proof (cases ?bad)
      case False
      then have "rb_free b = None" using True ref_relD(2) [OF rel] by (auto simp: ref_alloc_def)
      then show ?thesis by (auto simp: ref_submit_def ref_allocate_def)
    qed (simp add: ref_submit_def)
    then show ?thesis using True spec rel by (auto simp: ref_implements_def)
  next
    case False
    then obtain i F' where F: "F = i # F'" by (cases F) auto
    obtain b2 where b2: "ref_submit b rq = map_option (\<lambda>(b, ev). case ref_settle i rq b of (b, ev') \<Rightarrow> (b, True, ev @ ev'))
        (ref_match i (rq_type rq) b2)" "ref_rel Q F' {i} b2 os" "rb_capacity b2 = rb_capacity b"
      "rn_id (ref_node b2 i) = rq_id rq" "rn_side (ref_node b2 i) = rq_side rq"
      "rn_price (ref_node b2 i) = rq_price rq" "rn_remaining (ref_node b2 i) = rq_quantity rq"
      by (rule ref_submit_register [OF rel [unfolded F], of rq]) (use False in blast)
    obtain b' ev os' where m: "map_option (\<lambda>(b, ev). case ref_settle i rq b of (b, ev') \<Rightarrow> (b, True, ev @ ev')) (ref_match i (rq_type rq) b2)
        = Some (b', True, ev)" "ref_implements b' os'" "rb_capacity b' = rb_capacity b2"
      "spec_settle (rq_id rq) (rq_side rq) (rq_limit rq) (rq_quantity rq)
         (spec_match (rq_id rq) (rq_side rq) (rq_limit rq) (rq_quantity rq) os) = (os', ev)"
      by (rule ref_match_settle [OF b2(2,4-7)])
    have "ref_submit b rq = Some (b', True, ev)" unfolding b2(1) m(1) ..
    moreover have "spec_submit (rb_capacity b) positive os rq = (os', True, ev)" unfolding spec if_not_P [OF False] m(4) by simp
    ultimately show ?thesis using m(2,3) b2(3) by simp
  qed
qed

lemma ref_split:
  assumes rel: "ref_rel Q F L b os" and i: "i \<in> rqueued Q"
  obtains xs ys where "Q (rn_side (ref_node b i)) (rn_price (ref_node b i)) = xs @ i # ys"
  using rqueued_place [OF ref_relD(1) [OF rel] i] by (meson split_list)

lemma ref_cancel_sim:
  assumes rel: "ref_rel Q F {} b os"
  shows "\<exists>b' os' r. ref_cancel b k = (b', r) \<and> rb_capacity b' = rb_capacity b \<and> ref_implements b' os' \<and> (fst r \<or> b' = b) \<and>
    spec_cancel os k = (os', r)"
proof (cases "spec_find os k")
  case None
  then have "ref_cancel b k = (b, False, [])" using rel_find_ref(3) [OF rel refl, of k] by (simp add: ref_cancel_def)
  then show ?thesis using None rel by (auto simp: ref_implements_def spec_cancel_def)
next
  case (Some r)
  then obtain i where i: "i \<in> rqueued Q" "rn_id (ref_node b i) = k" "r = ref_order b i" "rb_orders b k = Some i"
    using rel_find_ref(2) [OF rel] by blast
  obtain xs ys where q: "Q (rn_side (ref_node b i)) (rn_price (ref_node b i)) = xs @ i # ys" by (rule ref_split [OF rel i(1)])
  note unl = rel_unlink_ref [OF rel q, unfolded i(2)]
  let ?u = "upd_ref i (\<lambda>n. n\<lparr>rn_state := Canceled\<rparr>) (ref_unlink i b)"
  have rem: "rn_remaining (ref_node ?u i) = rn_remaining (ref_node b i)"
    using ref_coreD(3) [OF unlink_from_core [of "rn_side (ref_node b i)" i b i]] by (simp add: ref_unlink_side)
  from rel_release_ref [OF rel_state_ref [OF unl, of i Canceled], of i]
  have "ref_implements (ref_release i ?u) (spec_remove k os)" unfolding ref_implements_def ref_unlink_side by auto
  moreover have "ref_cancel b k = (ref_release i ?u, True, [On_order k Canceled (rn_remaining (ref_node b i))])"
    using i(4) rem by (simp add: ref_cancel_def Let_def)
  moreover have "rb_capacity (ref_release i ?u) = rb_capacity b" by (simp add: ref_unlink_side)
  ultimately show ?thesis using Some i(3) by (intro exI [of _ "ref_release i ?u"]) (auto simp: spec_cancel_def)
qed

text \<open>A modification gives its node back before it takes one, so it is never refused for want of capacity.\<close>

lemma spec_modify_submit:
  assumes "spec_find os k = Some r" "0 < price" "x \<noteq> 0" "k \<noteq> 0" "k \<noteq> UINT64_MAX" "length os \<le> cap"
  shows "spec_modify positive os k price x =
    spec_submit cap positive (spec_remove k os) \<lparr>rq_id = k, rq_side = rs_side r, rq_type = Limit, rq_price = price, rq_quantity = x\<rparr>"
proof -
  have "r \<in> set os" "rs_id r = k" using assms(1) by (auto simp: spec_find_def find_Some_iff)
  then have "length (spec_remove k os) < length os" by (auto simp: spec_remove_def intro!: length_filter_less)
  moreover have "spec_find (spec_remove k os) k = None" by (auto simp: spec_find_def spec_remove_def find_None_iff)
  ultimately show ?thesis using assms by (simp add: spec_modify_def spec_submit_def rq_limit_def)
qed

lemma ref_modify_sim:
  assumes rel: "ref_rel Q F {} b os" and k: "k \<noteq> 0" "k \<noteq> UINT64_MAX"
  shows "\<exists>b' os' r. ref_modify b k price x = Some (b', r) \<and> rb_capacity b' = rb_capacity b \<and> ref_implements b' os' \<and> (fst r \<or> b' = b) \<and>
    spec_modify positive os k price x = (os', r)"
proof (cases "spec_find os k = None \<or> price \<le> 0 \<or> x = 0")
  case True
  then have "ref_modify b k price x = Some (b, False, [])"
    using rel_find_ref(3) [OF rel refl, of k] by (cases "rb_orders b k") (auto simp: ref_modify_def)
  moreover have "spec_modify positive os k price x = (os, False, [])"
    using True by (cases "spec_find os k") (auto simp: spec_modify_def)
  ultimately show ?thesis using rel by (auto simp: ref_implements_def)
next
  case False
  then obtain r where r: "spec_find os k = Some r" by auto
  then obtain i where i: "i \<in> rqueued Q" "rn_id (ref_node b i) = k" "r = ref_order b i" "rb_orders b k = Some i"
    using rel_find_ref(2) [OF rel] by blast
  obtain xs ys where q: "Q (rn_side (ref_node b i)) (rn_price (ref_node b i)) = xs @ i # ys" by (rule ref_split [OF rel i(1)])
  let ?b = "ref_release i (ref_unlink i b)"
  let ?rq = "\<lparr>rq_id = k, rq_side = rs_side r, rq_type = Limit, rq_price = price, rq_quantity = x\<rparr>"
  have cap: "rb_capacity ?b = rb_capacity b" by (simp add: ref_unlink_side)
  have sub: "ref_modify b k price x = ref_submit ?b ?rq" using i(3,4) False by (simp add: ref_modify_def Let_def)
  have "ref_implements ?b (spec_remove k os)"
    using rel_release_ref [OF rel_unlink_ref [OF rel q], of i] unfolding ref_implements_def ref_unlink_side i(2) by auto
  then obtain Q' F' where rel': "ref_rel Q' F' {} ?b (spec_remove k os)" unfolding ref_implements_def by blast
  obtain b' os' r' where s: "ref_submit ?b ?rq = Some (b', r')" "rb_capacity b' = rb_capacity b" "ref_implements b' os'"
    "spec_submit (rb_capacity b) positive (spec_remove k os) ?rq = (os', r')"
    using ref_submit_sim [OF rel', of ?rq] k(2) cap by auto
  have len: "length os \<le> rb_capacity b" using rel_active_ref(2) [OF rel] by simp
  have spec: "spec_modify positive os k price x = (os', r')"
    using spec_modify_submit [OF r _ _ k len, of price x] False s(4) by simp
  moreover have "fst r'" using spec r False by (auto simp: spec_modify_def split: prod.splits)
  ultimately show ?thesis using s sub by auto
qed

end
