(* ===== verification/PriceTimeProps.thy ===== *)
theory PriceTimeProps
  imports PriceTimeOps
begin

text \<open>
  The contract that both order books keep, as an interface: a step of the book does what a step of
  the price-time specification does. The reference book and the dense book are its instances, and
  what follows is that the reference book implements the specification and that the two books cannot
  be told apart on the operations and prices they share.
\<close>

section \<open>Histories\<close>

text \<open>The reference book has no feed operations.\<close>

fun ref_apply :: "PriceTimeOrderBook \<Rightarrow> book_op \<Rightarrow> (PriceTimeOrderBook \<times> bool \<times> sink_event list) option" where
  "ref_apply b (Op_feed p) = None"
| "ref_apply b (Op_submit rq) = ref_submit b rq"
| "ref_apply b (Op_cancel k) = Some (ref_cancel b k)"
| "ref_apply b (Op_modify k price x) = ref_modify b k price x"

fun run_ops :: "('b \<Rightarrow> book_op \<Rightarrow> ('b \<times> 'r) option) \<Rightarrow> 'b \<Rightarrow> book_op list \<Rightarrow> ('b \<times> 'r list) option" where
  "run_ops step b [] = Some (b, [])"
| "run_ops step b (p # ps) =
     (case step b p of None \<Rightarrow> None
      | Some (b, r) \<Rightarrow> (case run_ops step b ps of None \<Rightarrow> None | Some (b, rs) \<Rightarrow> Some (b, r # rs)))"

fun op_id :: "book_op \<Rightarrow> u64" where
  "op_id (Op_feed p) = 0"
| "op_id (Op_submit rq) = rq_id rq"
| "op_id (Op_cancel k) = k"
| "op_id (Op_modify k price x) = k"

text \<open>The operations both books offer: no feed message, and not the id the dense book reserves.\<close>

definition common_op :: "book_op \<Rightarrow> bool" where
  "common_op p \<longleftrightarrow> \<not> is_feed p \<and> op_id p \<noteq> UINT64_MAX"

fun op_prices :: "book_op \<Rightarrow> int list" where
  "op_prices (Op_submit rq) = (case rq_limit rq of None \<Rightarrow> [] | Some p \<Rightarrow> [p])"
| "op_prices (Op_modify k price x) = [price]"
| "op_prices _ = []"

lemma book_run_ops: "book_run b ps = run_ops book_apply b ps"
  by (induction ps arbitrary: b) (simp_all split: option.split)

section \<open>The contract\<close>

locale price_time_book =
  fixes step :: "'b \<Rightarrow> book_op \<Rightarrow> ('b \<times> bool \<times> sink_event list) option"
    and rel :: "'b \<Rightarrow> resting list \<Rightarrow> bool"
    and cap :: nat and grid :: "int \<Rightarrow> bool" and offers :: "book_op \<Rightarrow> bool"
  assumes step: "rel b os \<Longrightarrow> offers p \<Longrightarrow>
    \<exists>b' os' r. step b p = Some (b', r) \<and> rel b' os' \<and> spec_apply cap grid os p = (os', r)"
begin

lemma run:
  assumes "rel b os" "\<forall>p\<in>set ps. offers p"
  shows "\<exists>b' os' rs. run_ops step b ps = Some (b', rs) \<and> rel b' os' \<and> spec_run cap grid os ps = (os', rs)"
  using assms
proof (induction ps arbitrary: b os)
  case (Cons p ps)
  obtain b1 os1 r where s: "step b p = Some (b1, r)" "rel b1 os1" "spec_apply cap grid os p = (os1, r)"
    using step [OF Cons.prems(1), of p] Cons.prems(2) by auto
  obtain b2 os2 rs where "run_ops step b1 ps = Some (b2, rs)" "rel b2 os2" "spec_run cap grid os1 ps = (os2, rs)"
    using Cons.IH [OF s(2)] Cons.prems(2) by auto
  then show ?case using s by simp
qed simp

end

text \<open>Two books of the same capacity agree on every history whose prices both grids admit.\<close>

lemma spec_apply_grid:
  assumes "\<not> is_feed p" "\<forall>price\<in>set (op_prices p). grid price \<and> grid' price"
  shows "spec_apply cap grid os p = spec_apply cap grid' os p"
proof (cases p)
  case (Op_submit rq)
  then show ?thesis using assms(2) by (cases "rq_limit rq") (simp_all add: spec_submit_def)
next
  case (Op_modify k price x)
  then show ?thesis using assms(2) by (cases "spec_find os k") (simp_all add: spec_modify_def)
qed (use assms(1) in simp_all)

lemma spec_run_grid:
  "\<forall>p\<in>set ps. \<not> is_feed p \<and> (\<forall>price\<in>set (op_prices p). grid price \<and> grid' price) \<Longrightarrow> spec_run cap grid os ps = spec_run cap grid' os ps"
proof (induction ps arbitrary: os)
  case (Cons p ps)
  have "spec_apply cap grid os p = spec_apply cap grid' os p" by (rule spec_apply_grid) (use Cons.prems in auto)
  then show ?case using Cons by simp
qed simp

locale price_time_books = A: price_time_book stepA relA cap gridA offersA + B: price_time_book stepB relB cap gridB offersB
  for stepA :: "'a \<Rightarrow> book_op \<Rightarrow> ('a \<times> bool \<times> sink_event list) option" and relA cap gridA offersA
    and stepB :: "'b \<Rightarrow> book_op \<Rightarrow> ('b \<times> bool \<times> sink_event list) option" and relB gridB offersB
begin

lemma agree:
  assumes "relA a os" "relB b os"
    and ops: "\<forall>p\<in>set ps. offersA p \<and> offersB p \<and> \<not> is_feed p \<and> (\<forall>price\<in>set (op_prices p). gridA price \<and> gridB price)"
  shows "\<exists>a' b' os' rs. run_ops stepA a ps = Some (a', rs) \<and> run_ops stepB b ps = Some (b', rs) \<and> relA a' os' \<and> relB b' os'"
proof -
  obtain a' os' rs where a: "run_ops stepA a ps = Some (a', rs)" "relA a' os'" "spec_run cap gridA os ps = (os', rs)"
    using A.run [OF assms(1), of ps] ops by blast
  obtain b' os'' rs' where b: "run_ops stepB b ps = Some (b', rs')" "relB b' os''" "spec_run cap gridB os ps = (os'', rs')"
    using B.run [OF assms(2), of ps] ops by blast
  have "spec_run cap gridA os ps = spec_run cap gridB os ps" by (rule spec_run_grid) (use ops in blast)
  then show ?thesis using a b by auto
qed

end

section \<open>The dense book\<close>

definition dense_rel :: "nat \<Rightarrow> int \<Rightarrow> int \<Rightarrow> nat \<Rightarrow> DensePriceOrderBook \<Rightarrow> resting list \<Rightarrow> bool" where
  "dense_rel c mn tick n b os \<longleftrightarrow> implements b os \<and> db_order_capacity b = c \<and>
     (\<forall>p. price_index b p \<noteq> None \<longleftrightarrow> spec_grid mn tick n p)"

interpretation dense: price_time_book book_apply "dense_rel c mn tick n" c "spec_grid mn tick n" "\<lambda>_. True"
  for c mn tick n
proof
  fix b os p
  assume r: "dense_rel c mn tick n b os"
  then have im: "implements b os" and cap: "db_order_capacity b = c"
    and grid: "(\<lambda>p. price_index b p \<noteq> None) = spec_grid mn tick n" by (auto simp: dense_rel_def)
  obtain b' os' r where s: "book_apply b p = Some (b', r)" "same_grid b b'" "implements b' os'"
    "spec_apply (db_order_capacity b) (\<lambda>p. price_index b p \<noteq> None) os p = (os', r)"
    by (rule book_apply_step [OF im])
  then show "\<exists>b' os' r. book_apply b p = Some (b', r) \<and> dense_rel c mn tick n b' os' \<and> spec_apply c (spec_grid mn tick n) os p = (os', r)"
    using same_gridD [OF s(2)] r s(4) [unfolded cap grid] unfolding dense_rel_def
    by (intro exI [of _ b'] exI [of _ os'] exI [of _ r]) simp
qed

lemma dense_rel_new:
  assumes "c < kInvalid" "n + 63 < 2 ^ 32" "0 < tick"
  shows "dense_rel c mn tick n (DensePriceOrderBook_new c mn tick n) []"
  using implements_new [OF assms, of mn] price_index_new [OF assms(3)]
  by (simp add: dense_rel_def) (simp add: DensePriceOrderBook_new_def)

section \<open>The reference book\<close>

definition reference_rel :: "nat \<Rightarrow> PriceTimeOrderBook \<Rightarrow> resting list \<Rightarrow> bool" where
  "reference_rel c b os \<longleftrightarrow> ref_implements b os \<and> rb_capacity b = c \<and> 0 \<notin> rs_id ` set os"

lemma ids_keys: "rs_id ` set os = fst ` order_keys os"
  by (simp add: order_keys_def image_image)

lemma settle_ids:
  assumes "spec_settle k side limit x (spec_match k side limit x os) = (os', ev)"
  shows "rs_id ` set os' \<subseteq> insert k (rs_id ` set os)"
proof -
  obtain x1 os1 ev1 where m: "spec_match k side limit x os = (x1, os1, ev1)" by (metis prod_cases3)
  have "rs_id ` set os1 \<subseteq> rs_id ` set os" unfolding ids_keys by (rule image_mono [OF spec_match_keys [OF m]])
  moreover have "rs_id ` set os' \<subseteq> insert k (rs_id ` set os1)"
    using assms unfolding m by (auto simp: spec_settle_def split: if_splits option.splits)
  ultimately show ?thesis by blast
qed

lemma zero_free:
  assumes "0 \<notin> rs_id ` set os" "\<not> is_feed p" "spec_apply cap grid os p = (os', r)"
  shows "0 \<notin> rs_id ` set os'"
proof (cases p)
  case (Op_submit rq)
  then show ?thesis using assms(1,3) settle_ids [of "rq_id rq" "rq_side rq" "rq_limit rq" "rq_quantity rq" os]
    by (auto simp: spec_submit_def split: if_splits prod.splits)
next
  case (Op_modify k price x)
  have rem: "rs_id ` set (spec_remove k os) \<subseteq> rs_id ` set os" by (auto simp: spec_remove_def)
  show ?thesis
  proof (cases "os' = os")
    case False
    then obtain y ev where y: "spec_find os k = Some y"
      "spec_settle k (rs_side y) (Some price) x (spec_match k (rs_side y) (Some price) x (spec_remove k os)) = (os', ev)"
      using assms(3) Op_modify by (auto simp: spec_modify_def split: option.splits if_splits prod.splits)
    have "k \<in> rs_id ` set os" using y(1) by (auto simp: spec_find_def find_Some_iff)
    then show ?thesis using settle_ids [OF y(2)] rem assms(1) by blast
  qed (use assms(1) in simp)
qed (use assms in \<open>auto simp: spec_cancel_def spec_remove_def split: option.splits\<close>)

interpretation reference: price_time_book ref_apply "reference_rel c" c positive common_op for c
proof
  fix b os p
  assume r: "reference_rel c b os" and op: "common_op p"
  then obtain Q F where rel: "ref_rel Q F {} b os" and cap: "rb_capacity b = c" and z: "0 \<notin> rs_id ` set os"
    by (auto simp: reference_rel_def ref_implements_def)
  have "\<exists>b' os' r. ref_apply b p = Some (b', r) \<and> rb_capacity b' = c \<and> ref_implements b' os' \<and> spec_apply c positive os p = (os', r)"
  proof (cases p)
    case (Op_submit rq)
    then show ?thesis using ref_submit_sim [OF rel, of rq] op cap by (auto simp: common_op_def)
  next
    case (Op_cancel k)
    then show ?thesis using ref_cancel_sim [OF rel, of k] cap by auto
  next
    case (Op_modify k price x)
    show ?thesis
    proof (cases "k = 0")
      case True
      then have "spec_find os k = None" using z by (auto simp: spec_find_def find_None_iff)
      then have "ref_apply b p = Some (b, False, []) \<and> spec_apply c positive os p = (os, False, [])"
        using rel_find_ref(3) [OF rel refl, of k] Op_modify by (simp add: ref_modify_def spec_modify_def)
      then show ?thesis using rel cap by (auto simp: ref_implements_def)
    next
      case False
      then show ?thesis using ref_modify_sim [OF rel False, of price x] op cap Op_modify by (auto simp: common_op_def)
    qed
  qed (use op in \<open>simp add: common_op_def\<close>)
  then show "\<exists>b' os' r. ref_apply b p = Some (b', r) \<and> reference_rel c b' os' \<and> spec_apply c positive os p = (os', r)"
    using zero_free [OF z] op unfolding reference_rel_def common_op_def by blast
qed

interpretation books: price_time_books book_apply "dense_rel c mn tick n" c "spec_grid mn tick n" "\<lambda>_. True"
    ref_apply "reference_rel c" positive common_op for c mn tick n
  ..

lemma reference_rel_new: "reference_rel c (PriceTimeOrderBook_new c) []"
  using ref_implements_new [of c] by (simp add: reference_rel_def ref_capacity_new)

definition ref_answers :: "PriceTimeOrderBook \<Rightarrow> resting list \<Rightarrow> bool" where
  "ref_answers b os \<longleftrightarrow> ref_active_orders b = length os \<and> ref_best_bid b = spec_best_bid os \<and> ref_best_ask b = spec_best_ask os"

lemma reference_rel_answers:
  assumes "reference_rel c b os"
  shows "ref_answers b os"
proof -
  obtain Q F where rel: "ref_rel Q F {} b os" using assms by (auto simp: reference_rel_def ref_implements_def)
  have "ref_best_bid b = spec_best_bid os" using rel_head [OF rel, of Buy]
    by (cases "rb_bids b = []") (auto simp: ref_best_bid_def ref_levels_def spec_best_bid_def)
  moreover have "ref_best_ask b = spec_best_ask os" using rel_head [OF rel, of Sell]
    by (cases "rb_asks b = []") (auto simp: ref_best_ask_def ref_levels_def spec_best_ask_def)
  ultimately show ?thesis using rel_active_ref(1) [OF rel] by (simp add: ref_answers_def)
qed

section \<open>Properties\<close>

text \<open>
  Refinement: any sequence of submissions, cancellations and modifications on a new reference book
  returns (both matching loops end), and every result, every event of the sink, the best prices and
  the number of active orders are those of the price-time priority specification.
\<close>

lemma reference_book_refines:
  assumes "\<forall>p\<in>set ops. common_op p"
  shows "\<exists>b os rs. run_ops ref_apply (PriceTimeOrderBook_new capacity) ops = Some (b, rs) \<and>
    spec_run capacity positive [] ops = (os, rs) \<and> ref_answers b os"
  using reference.run [OF reference_rel_new [of capacity] assms] reference_rel_answers by blast

text \<open>
  C3. Equivalence: on every history of submissions, cancellations and modifications with prices on the
  dense book's grid, a positive minimum price and no use of the reserved order id, the bitmap indexed
  book and the reference book of the same capacity return the same results and the same events in the
  same order, and end with the same best prices and the same number of active orders.
\<close>

theorem books_agree:
  assumes "order_capacity < kInvalid" "level_count + 63 < 2 ^ 32" "0 < tick_size" "0 < minimum_price"
    and ops: "\<forall>p\<in>set ops. common_op p \<and> (\<forall>price\<in>set (op_prices p). spec_grid minimum_price tick_size level_count price)"
  shows "\<exists>b b' rs. book_run (DensePriceOrderBook_new order_capacity minimum_price tick_size level_count) ops = Some (b, rs) \<and>
    run_ops ref_apply (PriceTimeOrderBook_new order_capacity) ops = Some (b', rs) \<and>
    best_bid b = ref_best_bid b' \<and> best_ask b = ref_best_ask b' \<and> active_orders b = ref_active_orders b'"
proof -
  have "\<forall>p\<in>set ops. True \<and> common_op p \<and> \<not> is_feed p \<and>
      (\<forall>price\<in>set (op_prices p). spec_grid minimum_price tick_size level_count price \<and> positive price)"
    using ops assms(4) by (fastforce simp: spec_grid_def common_op_def)
  from books.agree [OF dense_rel_new [OF assms(1-3)] reference_rel_new this]
  obtain b b' os rs where r: "run_ops book_apply (DensePriceOrderBook_new order_capacity minimum_price tick_size level_count) ops = Some (b, rs)"
    "run_ops ref_apply (PriceTimeOrderBook_new order_capacity) ops = Some (b', rs)"
    "dense_rel order_capacity minimum_price tick_size level_count b os" "reference_rel order_capacity b' os" by blast
  have "book_answers b os" using r(3) implements_answers by (simp add: dense_rel_def)
  then show ?thesis using r(1,2) reference_rel_answers [OF r(4)]
    by (auto simp: book_run_ops book_answers_def ref_answers_def)
qed

theorem books_agree_witness:
  "\<exists>b b' rs. book_run (DensePriceOrderBook_new 4 100 1 8)
     [Op_submit \<lparr>rq_id = 1, rq_side = Buy, rq_type = Limit, rq_price = 101, rq_quantity = 5\<rparr>,
      Op_submit \<lparr>rq_id = 3, rq_side = Sell, rq_type = Limit, rq_price = 100, rq_quantity = 6\<rparr>, Op_modify 3 104 2] = Some (b, rs) \<and>
   run_ops ref_apply (PriceTimeOrderBook_new 4)
     [Op_submit \<lparr>rq_id = 1, rq_side = Buy, rq_type = Limit, rq_price = 101, rq_quantity = 5\<rparr>,
      Op_submit \<lparr>rq_id = 3, rq_side = Sell, rq_type = Limit, rq_price = 100, rq_quantity = 6\<rparr>, Op_modify 3 104 2] = Some (b', rs) \<and>
   best_bid b = ref_best_bid b' \<and> best_ask b = ref_best_ask b' \<and> active_orders b = ref_active_orders b'"
  by (rule books_agree) (simp_all add: common_op_def rq_limit_def spec_grid_def)

end
