(* ===== verification/UftTypes.thy ===== *)
theory UftTypes
  imports Prelude
begin

text \<open>
  The event types of \<open>include/qtrader/UftTypes.hpp\<close>. Identifiers, sequence numbers, times and
  quantities keep their width; a price (\<open>int64_t\<close>, always built from a \<open>uint32_t\<close> of the wire or
  from a configured grid) is an integer. The \<open>reserved\<close> members, which nothing reads, are left out.
\<close>

type_synonym InstrumentId = u32
type_synonym StrategyId = u32
type_synonym PriceTicks = int
type_synonym Quantity = u64

definition kInvalidInstrumentId :: InstrumentId where
  "kInvalidInstrumentId = - 1"

definition kInvalidStrategyId :: StrategyId where
  "kInvalidStrategyId = - 1"

datatype UftSide = UftSide_Unknown | UftSide_Buy | UftSide_Sell

datatype UftOrderType = UftOrderType_Unknown | UftOrderType_Limit | UftOrderType_Market

datatype UftTransactionType = Tx_Unknown | Tx_Trade | Tx_Cancel | Tx_TradeBust

datatype UftBookAction =
    Book_Add | Book_Reduce | Book_Delete | Book_Replace | Book_Execution | Book_Trade | Book_TradeBust

record UftBookUpdate =
  bu_source_sequence :: u64
  bu_exchange_time_ns :: u64
  bu_order_id :: u64
  bu_new_order_id :: u64
  bu_match_id :: u64
  bu_price_ticks :: PriceTicks
  bu_quantity :: Quantity
  bu_instrument_id :: InstrumentId
  bu_side :: UftSide
  bu_action :: UftBookAction
  bu_printable :: bool

definition UftBookUpdate_default :: UftBookUpdate where
  "UftBookUpdate_default = \<lparr>bu_source_sequence = 0, bu_exchange_time_ns = 0, bu_order_id = 0,
     bu_new_order_id = 0, bu_match_id = 0, bu_price_ticks = 0, bu_quantity = 0,
     bu_instrument_id = kInvalidInstrumentId, bu_side = UftSide_Unknown, bu_action = Book_Add,
     bu_printable = False\<rparr>"

record UftOrderDetail =
  od_source_sequence :: u64
  od_exchange_time_ns :: u64
  od_order_id :: u64
  od_price_ticks :: PriceTicks
  od_quantity :: Quantity
  od_instrument_id :: InstrumentId
  od_side :: UftSide
  od_order_type :: UftOrderType

record UftTransaction =
  tx_source_sequence :: u64
  tx_exchange_time_ns :: u64
  tx_transaction_id :: u64
  tx_ask_order_id :: u64
  tx_bid_order_id :: u64
  tx_price_ticks :: PriceTicks
  tx_quantity :: Quantity
  tx_instrument_id :: InstrumentId
  tx_side :: UftSide
  tx_transaction_type :: UftTransactionType

end
