(* ===== verification/UftEngine.thy ===== *)
theory UftEngine
  imports UftTypes
begin

text \<open>
  The market data engine: \<open>include/qtrader/UftMarketDataEngine.hpp\<close> and its extension with a book
  channel, \<open>include/qtrader/UftBookMarketDataEngine.hpp\<close>. The template's capacities are the lengths
  of the two arrays and the field \<open>ue_max_subscribers\<close>. A strategy is identified by its slot; a
  callback pointer is present or not, and publishing returns the calls it makes, in order. The
  event callbacks get the context as \<open>const\<close>, so they cannot change the engine; \<open>on_init\<close> may
  subscribe and look instruments up, in any order and depending on the answers, which is the
  interaction tree \<open>init_prog\<close>. \<open>nullptr\<close> is \<^const>\<open>None\<close>.

  The invariant says that every subscriber the engine would call is a registered strategy whose
  callback is not null, without repetition, and that the subscribers of a running engine are exactly
  the strategies that asked in \<open>on_init\<close> (\<open>asked\<close>).
\<close>

section \<open>Configuration\<close>

record UftInstrumentMetadata =
  im_instrument_id :: InstrumentId
  im_minimum_price_ticks :: PriceTicks
  im_maximum_price_ticks :: PriceTicks
  im_tick_size :: PriceTicks
  im_standard_code :: string

definition kMaximumStandardCode :: nat where
  "kMaximumStandardCode = 31"

definition UftInstrumentMetadata_default :: UftInstrumentMetadata where
  "UftInstrumentMetadata_default = \<lparr>im_instrument_id = kInvalidInstrumentId, im_minimum_price_ticks = 0,
     im_maximum_price_ticks = 0, im_tick_size = 0, im_standard_code = []\<rparr>"

datatype Channel = Channel_OrderDetail | Channel_Transaction

datatype init_prog =
    Init_done
  | Init_subscribe Channel InstrumentId "bool \<Rightarrow> init_prog"
  | Init_lookup InstrumentId "UftInstrumentMetadata option \<Rightarrow> init_prog"

record UftStrategyCallbacks =
  cb_on_init :: "init_prog option"
  cb_on_session_begin :: bool
  cb_on_session_end :: bool
  cb_on_order_detail :: bool
  cb_on_transaction :: bool

definition UftStrategyCallbacks_default :: UftStrategyCallbacks where
  "UftStrategyCallbacks_default = \<lparr>cb_on_init = None, cb_on_session_begin = False,
     cb_on_session_end = False, cb_on_order_detail = False, cb_on_transaction = False\<rparr>"

text \<open>The context; \<open>cx_bound\<close> says that \<open>engine_\<close>, \<open>subscribe_\<close> and \<open>lookup_\<close> are set.\<close>

record UftStrategyContext =
  cx_strategy_id :: StrategyId
  cx_bound :: bool
  cx_configuration_ok :: bool

record InstrumentSlot =
  is_metadata :: UftInstrumentMetadata
  is_order_details :: "nat option list"
  is_transactions :: "nat option list"
  is_order_detail_count :: nat
  is_transaction_count :: nat
  is_registered :: bool

record StrategySlot =
  ss_callbacks :: UftStrategyCallbacks
  ss_context :: UftStrategyContext
  ss_registered :: bool

record UftMarketDataEngine =
  ue_instruments :: "InstrumentSlot list"
  ue_strategies :: "StrategySlot list"
  ue_max_subscribers :: nat
  ue_configuration_frozen :: bool
  ue_running :: bool

definition UftMarketDataEngine_new :: "nat \<Rightarrow> nat \<Rightarrow> nat \<Rightarrow> UftMarketDataEngine" where
  "UftMarketDataEngine_new instruments strategies max_subscribers =
     \<lparr>ue_instruments = replicate instruments \<lparr>is_metadata = UftInstrumentMetadata_default,
        is_order_details = replicate max_subscribers None, is_transactions = replicate max_subscribers None,
        is_order_detail_count = 0, is_transaction_count = 0, is_registered = False\<rparr>,
      ue_strategies = replicate strategies \<lparr>ss_callbacks = UftStrategyCallbacks_default,
        ss_context = \<lparr>cx_strategy_id = kInvalidStrategyId, cx_bound = False, cx_configuration_ok = True\<rparr>,
        ss_registered = False\<rparr>,
      ue_max_subscribers = max_subscribers, ue_configuration_frozen = False, ue_running = False\<rparr>"

section \<open>Registration\<close>

text \<open>The scan for the terminating NUL stops after \<open>kMaximumStandardCode + 1\<close> characters.\<close>

definition scanned_length :: "string \<Rightarrow> nat" where
  "scanned_length code = min (length code) (kMaximumStandardCode + 1)"

definition register_instrument :: "UftMarketDataEngine \<Rightarrow> InstrumentId \<Rightarrow> string option \<Rightarrow>
    PriceTicks \<Rightarrow> PriceTicks \<Rightarrow> PriceTicks \<Rightarrow> UftMarketDataEngine \<times> bool" where
  "register_instrument en instrument_id standard_code minimum maximum tick_size =
     (let i = unat instrument_id in
      if ue_configuration_frozen en \<or> length (ue_instruments en) \<le> i \<or> standard_code = None \<or>
         tick_size \<le> 0 \<or> minimum > maximum then (en, False)
      else
        let slot = ue_instruments en ! i; code = the standard_code; n = scanned_length code in
        if is_registered slot then (en, False)
        else if n = 0 \<or> n > kMaximumStandardCode then (en, False)
        else
          let metadata = \<lparr>im_instrument_id = instrument_id, im_minimum_price_ticks = minimum,
                im_maximum_price_ticks = maximum, im_tick_size = tick_size, im_standard_code = take n code\<rparr> in
          (en\<lparr>ue_instruments := (ue_instruments en)[i := slot\<lparr>is_metadata := metadata, is_registered := True\<rparr>]\<rparr>, True))"

definition register_strategy :: "UftMarketDataEngine \<Rightarrow> StrategyId \<Rightarrow> bool \<Rightarrow> UftStrategyCallbacks \<Rightarrow>
    UftMarketDataEngine \<times> bool" where
  "register_strategy en strategy_id strategy_present callbacks =
     (let i = unat strategy_id in
      if ue_configuration_frozen en \<or> length (ue_strategies en) \<le> i \<or> \<not> strategy_present then (en, False)
      else
        let slot = ue_strategies en ! i in
        if ss_registered slot then (en, False)
        else
          (en\<lparr>ue_strategies := (ue_strategies en)[i := slot\<lparr>ss_callbacks := callbacks,
              ss_context := \<lparr>cx_strategy_id = strategy_id, cx_bound = True, cx_configuration_ok = True\<rparr>,
              ss_registered := True\<rparr>]\<rparr>, True))"

definition instrument :: "UftMarketDataEngine \<Rightarrow> InstrumentId \<Rightarrow> UftInstrumentMetadata option" where
  "instrument en instrument_id =
     (let i = unat instrument_id in
      if length (ue_instruments en) \<le> i \<or> \<not> is_registered (ue_instruments en ! i) then None
      else Some (is_metadata (ue_instruments en ! i)))"

section \<open>Subscription\<close>

definition append_subscription :: "nat \<Rightarrow> nat option list \<Rightarrow> nat \<Rightarrow> nat \<Rightarrow> bool \<Rightarrow>
    (nat option list \<times> nat) \<times> bool" where
  "append_subscription max_subscribers subscribers count strategy callback_present =
     (if \<not> callback_present \<or> count = max_subscribers then ((subscribers, count), False)
      else if Some strategy \<in> set (take count subscribers) then ((subscribers, count), False)
      else ((subscribers[count := Some strategy], count + 1), True))"

definition subscribe :: "UftMarketDataEngine \<Rightarrow> StrategyId \<Rightarrow> InstrumentId \<Rightarrow> Channel \<Rightarrow>
    UftMarketDataEngine \<times> bool" where
  "subscribe en strategy_id instrument_id channel =
     (let s = unat strategy_id; i = unat instrument_id in
      if \<not> ue_configuration_frozen en \<or> ue_running en \<or> length (ue_strategies en) \<le> s \<or>
         length (ue_instruments en) \<le> i then (en, False)
      else
        let strategy = ue_strategies en ! s; slot = ue_instruments en ! i in
        if \<not> ss_registered strategy \<or> \<not> is_registered slot then (en, False)
        else case channel of
          Channel_OrderDetail \<Rightarrow>
            (case append_subscription (ue_max_subscribers en) (is_order_details slot)
                    (is_order_detail_count slot) s (cb_on_order_detail (ss_callbacks strategy)) of
               ((subs, n), ok) \<Rightarrow>
                 (en\<lparr>ue_instruments := (ue_instruments en)[i :=
                    slot\<lparr>is_order_details := subs, is_order_detail_count := n\<rparr>]\<rparr>, ok))
        | Channel_Transaction \<Rightarrow>
            (case append_subscription (ue_max_subscribers en) (is_transactions slot)
                    (is_transaction_count slot) s (cb_on_transaction (ss_callbacks strategy)) of
               ((subs, n), ok) \<Rightarrow>
                 (en\<lparr>ue_instruments := (ue_instruments en)[i :=
                    slot\<lparr>is_transactions := subs, is_transaction_count := n\<rparr>]\<rparr>, ok)))"

text \<open>\<open>UftStrategyContext::subscribe\<close> and \<open>UftStrategyContext::instrument\<close> of the strategy in slot \<open>s\<close>.\<close>

definition context_subscribe :: "nat \<Rightarrow> InstrumentId \<Rightarrow> Channel \<Rightarrow> UftMarketDataEngine \<Rightarrow>
    UftMarketDataEngine \<times> bool" where
  "context_subscribe s instrument_id channel en =
     (let cx = ss_context (ue_strategies en ! s);
          (en, result) = (if cx_bound cx then subscribe en (cx_strategy_id cx) instrument_id channel else (en, False));
          slot = ue_strategies en ! s
      in (en\<lparr>ue_strategies := (ue_strategies en)[s := slot\<lparr>ss_context :=
            (ss_context slot)\<lparr>cx_configuration_ok := cx_configuration_ok (ss_context slot) \<and> result\<rparr>\<rparr>]\<rparr>, result))"

definition context_instrument :: "nat \<Rightarrow> InstrumentId \<Rightarrow> UftMarketDataEngine \<Rightarrow> UftInstrumentMetadata option" where
  "context_instrument s instrument_id en =
     (if cx_bound (ss_context (ue_strategies en ! s)) then instrument en instrument_id else None)"

primrec run_init :: "nat \<Rightarrow> init_prog \<Rightarrow> UftMarketDataEngine \<Rightarrow> UftMarketDataEngine" where
  "run_init s Init_done = (\<lambda>en. en)"
| "run_init s (Init_subscribe channel i k) = (\<lambda>en.
     case context_subscribe s i channel en of (en, r) \<Rightarrow> run_init s (k r) en)"
| "run_init s (Init_lookup i k) = (\<lambda>en. run_init s (k (context_instrument s i en)) en)"

section \<open>Running\<close>

fun start_loop :: "nat list \<Rightarrow> UftMarketDataEngine \<Rightarrow> UftMarketDataEngine \<times> bool" where
  "start_loop [] en = (en, True)"
| "start_loop (s # rest) en =
     (let strategy = ue_strategies en ! s;
          en = (if ss_registered strategy
                then (case cb_on_init (ss_callbacks strategy) of None \<Rightarrow> en | Some prog \<Rightarrow> run_init s prog en)
                else en);
          strategy = ue_strategies en ! s
      in if ss_registered strategy \<and> \<not> cx_configuration_ok (ss_context strategy) then (en, False)
         else start_loop rest en)"

definition start :: "UftMarketDataEngine \<Rightarrow> UftMarketDataEngine \<times> bool" where
  "start en =
     (if ue_configuration_frozen en then (en, False)
      else case start_loop [0..<length (ue_strategies en)] (en\<lparr>ue_configuration_frozen := True\<rparr>) of
        (en, ok) \<Rightarrow> if ok then (en\<lparr>ue_running := True\<rparr>, True) else (en, False))"

definition stop :: "UftMarketDataEngine \<Rightarrow> UftMarketDataEngine" where
  "stop en = en\<lparr>ue_running := False\<rparr>"

definition session_calls :: "(UftStrategyCallbacks \<Rightarrow> bool) \<Rightarrow> UftMarketDataEngine \<Rightarrow> nat list" where
  "session_calls present en =
     (if \<not> ue_running en then []
      else filter (\<lambda>s. ss_registered (ue_strategies en ! s) \<and> present (ss_callbacks (ue_strategies en ! s)))
             [0..<length (ue_strategies en)])"

definition on_session_begin :: "UftMarketDataEngine \<Rightarrow> nat list" where
  "on_session_begin = session_calls cb_on_session_begin"

definition on_session_end :: "UftMarketDataEngine \<Rightarrow> nat list" where
  "on_session_end = session_calls cb_on_session_end"

text \<open>The strategies called with the event, in order, and the returned number of deliveries.\<close>

definition publish_order_detail :: "UftMarketDataEngine \<Rightarrow> UftOrderDetail \<Rightarrow> nat option list \<times> nat" where
  "publish_order_detail en event =
     (let i = unat (od_instrument_id event) in
      if \<not> ue_running en \<or> length (ue_instruments en) \<le> i then ([], 0)
      else
        let slot = ue_instruments en ! i in
        if \<not> is_registered slot then ([], 0)
        else (map (\<lambda>index. is_order_details slot ! index) [0..<is_order_detail_count slot],
              is_order_detail_count slot))"

definition publish_transaction :: "UftMarketDataEngine \<Rightarrow> UftTransaction \<Rightarrow> nat option list \<times> nat" where
  "publish_transaction en event =
     (let i = unat (tx_instrument_id event) in
      if \<not> ue_running en \<or> length (ue_instruments en) \<le> i then ([], 0)
      else
        let slot = ue_instruments en ! i in
        if \<not> is_registered slot then ([], 0)
        else (map (\<lambda>index. is_transactions slot ! index) [0..<is_transaction_count slot],
              is_transaction_count slot))"

section \<open>The book channel\<close>

text \<open>A slot of the extension: the registered callback with its book, or nothing.\<close>

record 'c UftBookMarketDataEngine =
  be_engine :: UftMarketDataEngine
  be_slots :: "'c option list"

definition UftBookMarketDataEngine_new :: "nat \<Rightarrow> nat \<Rightarrow> nat \<Rightarrow> 'c UftBookMarketDataEngine" where
  "UftBookMarketDataEngine_new instruments strategies max_subscribers =
     \<lparr>be_engine = UftMarketDataEngine_new instruments strategies max_subscribers,
      be_slots = replicate instruments None\<rparr>"

definition register_book :: "'c UftBookMarketDataEngine \<Rightarrow> InstrumentId \<Rightarrow> bool \<Rightarrow> 'c option \<Rightarrow>
    'c UftBookMarketDataEngine \<times> bool" where
  "register_book en instrument_id book_present callback =
     (let i = unat instrument_id in
      if ue_configuration_frozen (be_engine en) \<or> length (be_slots en) \<le> i \<or> \<not> book_present \<or>
         callback = None \<or> instrument (be_engine en) instrument_id = None \<or> be_slots en ! i \<noteq> None
      then (en, False)
      else (en\<lparr>be_slots := (be_slots en)[i := callback]\<rparr>, True))"

definition publish_book_update :: "'c UftBookMarketDataEngine \<Rightarrow> UftBookUpdate \<Rightarrow> 'c list \<times> nat" where
  "publish_book_update en event =
     (let i = unat (bu_instrument_id event) in
      if \<not> ue_running (be_engine en) \<or> length (be_slots en) \<le> i then ([], 0)
      else case be_slots en ! i of None \<Rightarrow> ([], 0) | Some callback \<Rightarrow> ([callback], 1))"

section \<open>The invariant\<close>

datatype engine_call =
    Call_register_instrument InstrumentId "string option" PriceTicks PriceTicks PriceTicks
  | Call_register_strategy StrategyId bool UftStrategyCallbacks
  | Call_start
  | Call_stop

fun engine_apply :: "UftMarketDataEngine \<Rightarrow> engine_call \<Rightarrow> UftMarketDataEngine" where
  "engine_apply en (Call_register_instrument i code lo hi tick) = fst (register_instrument en i code lo hi tick)"
| "engine_apply en (Call_register_strategy s present cbs) = fst (register_strategy en s present cbs)"
| "engine_apply en Call_start = fst (start en)"
| "engine_apply en Call_stop = stop en"

definition subs_ok :: "StrategySlot list \<Rightarrow> nat \<Rightarrow> (UftStrategyCallbacks \<Rightarrow> bool) \<Rightarrow> nat option list \<Rightarrow> nat \<Rightarrow> bool" where
  "subs_ok strategies m present subs n \<longleftrightarrow> length subs = m \<and> n \<le> m \<and> distinct (take n subs) \<and>
     (\<forall>x\<in>set (take n subs). \<exists>s<length strategies. x = Some s \<and> ss_registered (strategies ! s) \<and>
        present (ss_callbacks (strategies ! s)))"

definition slot_subs_ok :: "UftMarketDataEngine \<Rightarrow> InstrumentSlot \<Rightarrow> bool" where
  "slot_subs_ok en slot \<longleftrightarrow>
     subs_ok (ue_strategies en) (ue_max_subscribers en) cb_on_order_detail (is_order_details slot) (is_order_detail_count slot) \<and>
     subs_ok (ue_strategies en) (ue_max_subscribers en) cb_on_transaction (is_transactions slot) (is_transaction_count slot)"

definition engine_inv :: "UftMarketDataEngine \<Rightarrow> bool" where
  "engine_inv en \<longleftrightarrow> (\<forall>slot\<in>set (ue_instruments en). slot_subs_ok en slot) \<and>
     (\<forall>s<length (ue_strategies en). ss_registered (ue_strategies en ! s) \<longrightarrow>
        unat (cx_strategy_id (ss_context (ue_strategies en ! s))) = s \<and> cx_bound (ss_context (ue_strategies en ! s)))"

lemma engine_inv_new: "engine_inv (UftMarketDataEngine_new i s m)"
  by (auto simp: engine_inv_def UftMarketDataEngine_new_def slot_subs_ok_def subs_ok_def)

text \<open>Strategies that stay registered with their callbacks keep every subscription valid.\<close>

definition strategies_kept :: "UftMarketDataEngine \<Rightarrow> UftMarketDataEngine \<Rightarrow> bool" where
  "strategies_kept en en' \<longleftrightarrow> length (ue_strategies en') = length (ue_strategies en) \<and>
     ue_max_subscribers en' = ue_max_subscribers en \<and>
     (\<forall>s<length (ue_strategies en). ss_registered (ue_strategies en ! s) \<longrightarrow>
        ss_registered (ue_strategies en' ! s) \<and> ss_callbacks (ue_strategies en' ! s) = ss_callbacks (ue_strategies en ! s))"

lemma subs_ok_kept:
  "strategies_kept en en' \<Longrightarrow> slot_subs_ok en slot \<Longrightarrow> slot_subs_ok en' slot"
  unfolding strategies_kept_def slot_subs_ok_def subs_ok_def by metis

lemma engine_invI:
  assumes "engine_inv en" "strategies_kept en en'"
    "\<And>slot. slot \<in> set (ue_instruments en') \<Longrightarrow> slot \<in> set (ue_instruments en) \<or> slot_subs_ok en slot"
    "\<And>s. s < length (ue_strategies en) \<Longrightarrow> ss_registered (ue_strategies en' ! s) \<Longrightarrow>
       unat (cx_strategy_id (ss_context (ue_strategies en' ! s))) = s \<and> cx_bound (ss_context (ue_strategies en' ! s))"
  shows "engine_inv en'"
proof -
  have "slot_subs_ok en' slot" if "slot \<in> set (ue_instruments en')" for slot
    using assms(1,3) that subs_ok_kept [OF assms(2)] by (auto simp: engine_inv_def)
  then show ?thesis using assms(2,4) by (auto simp: engine_inv_def strategies_kept_def)
qed

lemma register_instrument_inv:
  assumes "engine_inv en"
  shows "engine_inv (fst (register_instrument en i code lo hi tick))"
proof (cases "snd (register_instrument en i code lo hi tick)")
  case False
  then have "fst (register_instrument en i code lo hi tick) = en"
    by (auto simp: register_instrument_def Let_def split: if_splits)
  then show ?thesis using assms by simp
next
  case True
  then have "unat i < length (ue_instruments en)" by (auto simp: register_instrument_def Let_def split: if_splits)
  then have "slot_subs_ok en (ue_instruments en ! unat i)" using assms by (simp add: engine_inv_def)
  then show ?thesis
    using True assms
    by (intro engine_invI [OF assms])
      (auto simp: register_instrument_def Let_def strategies_kept_def engine_inv_def slot_subs_ok_def
        split: if_splits dest!: subsetD [OF set_update_subset_insert])
qed

lemma register_strategy_inv:
  assumes "engine_inv en"
  shows "engine_inv (fst (register_strategy en i present cbs))"
proof (cases "snd (register_strategy en i present cbs)")
  case False
  then have "fst (register_strategy en i present cbs) = en"
    by (auto simp: register_strategy_def Let_def split: if_splits)
  then show ?thesis using assms by simp
next
  case True
  then show ?thesis
    using assms
    by (intro engine_invI [OF assms])
      (auto simp: register_strategy_def Let_def strategies_kept_def engine_inv_def nth_list_update split: if_splits)
qed

lemma append_subscription_ok:
  assumes "subs_ok st m present subs n" "s < length st" "ss_registered (st ! s)"
    and r: "append_subscription m subs n s (present (ss_callbacks (st ! s))) = ((subs', n'), ok)"
  shows "subs_ok st m present subs' n'"
    and "take n' subs' = (if ok then take n subs @ [Some s] else take n subs)"
proof -
  have "subs_ok st m present subs' n' \<and> take n' subs' = (if ok then take n subs @ [Some s] else take n subs)"
  proof (cases ok)
    case True
    then have c: "subs' = subs[n := Some s]" "n' = n + 1" "present (ss_callbacks (st ! s))" "n \<noteq> m" "Some s \<notin> set (take n subs)"
      using r by (auto simp: append_subscription_def split: if_splits)
    have "n < length subs" using assms(1) c(4) by (simp add: subs_ok_def)
    then have t: "take n' subs' = take n subs @ [Some s]" by (simp add: c take_Suc_conv_app_nth)
    show ?thesis using assms(1-3) c t True by (auto simp: subs_ok_def)
  next
    case False
    then show ?thesis using r assms(1) by (auto simp: append_subscription_def split: if_splits)
  qed
  then show "subs_ok st m present subs' n'" "take n' subs' = (if ok then take n subs @ [Some s] else take n subs)" by blast+
qed

lemma subscribe_inv:
  assumes "engine_inv en"
  shows "engine_inv (fst (subscribe en s i ch))"
    and "ue_strategies (fst (subscribe en s i ch)) = ue_strategies en"
    and "ue_max_subscribers (fst (subscribe en s i ch)) = ue_max_subscribers en"
proof -
  show st: "ue_strategies (fst (subscribe en s i ch)) = ue_strategies en"
    and mx: "ue_max_subscribers (fst (subscribe en s i ch)) = ue_max_subscribers en"
    by (simp_all add: subscribe_def Let_def split: Channel.splits prod.splits)
  show "engine_inv (fst (subscribe en s i ch))"
  proof (cases "\<not> ue_configuration_frozen en \<or> ue_running en \<or> length (ue_strategies en) \<le> unat s \<or>
      length (ue_instruments en) \<le> unat i \<or> \<not> ss_registered (ue_strategies en ! unat s) \<or> \<not> is_registered (ue_instruments en ! unat i)")
    case True
    then have "fst (subscribe en s i ch) = en" by (auto simp: subscribe_def Let_def)
    then show ?thesis using assms by simp
  next
    case False
    let ?slot = "ue_instruments en ! unat i"
    have ok: "slot_subs_ok en ?slot" using assms False by (simp add: engine_inv_def)
    obtain slot' where "ue_instruments (fst (subscribe en s i ch)) = (ue_instruments en)[unat i := slot']" "slot_subs_ok en slot'"
    proof (cases ch)
      case Channel_OrderDetail
      obtain subs n r where a: "append_subscription (ue_max_subscribers en) (is_order_details ?slot) (is_order_detail_count ?slot) (unat s)
          (cb_on_order_detail (ss_callbacks (ue_strategies en ! unat s))) = ((subs, n), r)" by (metis prod.exhaust)
      have "subs_ok (ue_strategies en) (ue_max_subscribers en) cb_on_order_detail subs n"
        using append_subscription_ok(1) [where present = cb_on_order_detail, OF _ _ _ a] ok False by (simp add: slot_subs_ok_def)
      then show thesis using that a False Channel_OrderDetail ok
        by (simp add: subscribe_def Let_def slot_subs_ok_def)
    next
      case Channel_Transaction
      obtain subs n r where a: "append_subscription (ue_max_subscribers en) (is_transactions ?slot) (is_transaction_count ?slot) (unat s)
          (cb_on_transaction (ss_callbacks (ue_strategies en ! unat s))) = ((subs, n), r)" by (metis prod.exhaust)
      have "subs_ok (ue_strategies en) (ue_max_subscribers en) cb_on_transaction subs n"
        using append_subscription_ok(1) [where present = cb_on_transaction, OF _ _ _ a] ok False by (simp add: slot_subs_ok_def)
      then show thesis using that a False Channel_Transaction ok
        by (simp add: subscribe_def Let_def slot_subs_ok_def)
    qed
    then show ?thesis
      using assms st mx by (intro engine_invI [OF assms])
        (auto simp: strategies_kept_def engine_inv_def dest!: subsetD [OF set_update_subset_insert])
  qed
qed

lemma context_subscribe_inv:
  assumes "engine_inv en"
  shows "engine_inv (fst (context_subscribe s i ch en))"
proof -
  let ?cx = "ss_context (ue_strategies en ! s)"
  obtain en1 r where r: "(if cx_bound ?cx then subscribe en (cx_strategy_id ?cx) i ch else (en, False)) = (en1, r)"
    by (rule prod.exhaust)
  then have inv: "engine_inv en1"
    using subscribe_inv(1) [OF assms, of "cx_strategy_id ?cx" i ch] assms by (auto split: if_splits)
  have c: "fst (context_subscribe s i ch en) = en1\<lparr>ue_strategies := (ue_strategies en1)[s := (ue_strategies en1 ! s)\<lparr>ss_context :=
      (ss_context (ue_strategies en1 ! s))\<lparr>cx_configuration_ok := cx_configuration_ok (ss_context (ue_strategies en1 ! s)) \<and> r\<rparr>\<rparr>]\<rparr>"
    unfolding context_subscribe_def Let_def r by simp
  let ?f = "\<lambda>slot. slot\<lparr>ss_context := (ss_context slot)\<lparr>cx_configuration_ok := cx_configuration_ok (ss_context slot) \<and> r\<rparr>\<rparr>"
  have keep: "ss_registered ((ue_strategies en1)[s := ?f (ue_strategies en1 ! s)] ! j) = ss_registered (ue_strategies en1 ! j)"
    "ss_callbacks ((ue_strategies en1)[s := ?f (ue_strategies en1 ! s)] ! j) = ss_callbacks (ue_strategies en1 ! j)"
    "cx_strategy_id (ss_context ((ue_strategies en1)[s := ?f (ue_strategies en1 ! s)] ! j)) = cx_strategy_id (ss_context (ue_strategies en1 ! j))"
    "cx_bound (ss_context ((ue_strategies en1)[s := ?f (ue_strategies en1 ! s)] ! j)) = cx_bound (ss_context (ue_strategies en1 ! j))" for j
    using list_update_field [of ss_registered ?f] list_update_field [of ss_callbacks ?f]
      list_update_field [of "\<lambda>x. cx_strategy_id (ss_context x)" ?f] list_update_field [of "\<lambda>x. cx_bound (ss_context x)" ?f] by simp_all
  show ?thesis unfolding c
    using inv by (intro engine_invI [OF inv]) (auto simp: strategies_kept_def engine_inv_def keep)
qed

lemma run_init_inv: "engine_inv en \<Longrightarrow> engine_inv (run_init s p en)"
proof (induction p arbitrary: en)
  case (Init_subscribe ch i k)
  obtain en' r where c: "context_subscribe s i ch en = (en', r)" by (rule prod.exhaust)
  then have "engine_inv en'" using context_subscribe_inv [OF Init_subscribe.prems, of s i ch] by simp
  then show ?case using Init_subscribe.IH c by simp
qed auto

lemma start_loop_inv: "engine_inv en \<Longrightarrow> engine_inv (fst (start_loop xs en))"
  by (induction xs en rule: start_loop.induct) (auto simp: Let_def run_init_inv split: option.splits)

lemma engine_inv_flags [simp]:
  "engine_inv (en\<lparr>ue_running := r\<rparr>) = engine_inv en" "engine_inv (en\<lparr>ue_configuration_frozen := f\<rparr>) = engine_inv en"
  by (simp_all add: engine_inv_def slot_subs_ok_def)

lemma start_inv: "engine_inv en \<Longrightarrow> engine_inv (fst (start en))"
  using start_loop_inv [of "en\<lparr>ue_configuration_frozen := True\<rparr>" "[0..<length (ue_strategies en)]"]
  by (auto simp: start_def split: prod.splits)

lemma engine_apply_inv: "engine_inv en \<Longrightarrow> engine_inv (engine_apply en c)"
  by (cases c) (simp_all add: register_instrument_inv register_strategy_inv start_inv stop_def)

lemma engine_calls_inv: "engine_inv en \<Longrightarrow> engine_inv (foldl engine_apply en cs)"
  by (induction cs arbitrary: en) (simp_all add: engine_apply_inv)

section \<open>Who is called\<close>

text \<open>
  What a strategy asks for in \<open>on_init\<close> when every subscription succeeds; \<open>look\<close> answers its look-ups.
\<close>

primrec requested :: "(InstrumentId \<Rightarrow> UftInstrumentMetadata option) \<Rightarrow> init_prog \<Rightarrow> (Channel \<times> InstrumentId) set" where
  "requested look Init_done = {}"
| "requested look (Init_subscribe ch i k) = insert (ch, i) (requested look (k True))"
| "requested look (Init_lookup i k) = requested look (k (look i))"

definition asked :: "UftMarketDataEngine \<Rightarrow> Channel \<Rightarrow> InstrumentId \<Rightarrow> nat set" where
  "asked en ch i = {s. s < length (ue_strategies en) \<and> ss_registered (ue_strategies en ! s) \<and>
     (\<exists>p. cb_on_init (ss_callbacks (ue_strategies en ! s)) = Some p \<and> (ch, i) \<in> requested (instrument en) p)}"

fun slot_subscribers :: "Channel \<Rightarrow> InstrumentSlot \<Rightarrow> nat option list" where
  "slot_subscribers Channel_OrderDetail slot = take (is_order_detail_count slot) (is_order_details slot)"
| "slot_subscribers Channel_Transaction slot = take (is_transaction_count slot) (is_transactions slot)"

definition subscribers :: "UftMarketDataEngine \<Rightarrow> Channel \<Rightarrow> InstrumentId \<Rightarrow> nat set" where
  "subscribers en ch i = {s. unat i < length (ue_instruments en) \<and> is_registered (ue_instruments en ! unat i) \<and>
     Some s \<in> set (slot_subscribers ch (ue_instruments en ! unat i))}"

text \<open>What a subscription leaves alone.\<close>

definition same_setup :: "UftMarketDataEngine \<Rightarrow> UftMarketDataEngine \<Rightarrow> bool" where
  "same_setup en en' \<longleftrightarrow> instrument en' = instrument en \<and> length (ue_strategies en') = length (ue_strategies en) \<and>
     ue_running en' = ue_running en \<and> ue_configuration_frozen en' = ue_configuration_frozen en \<and>
     (\<forall>t. ss_registered (ue_strategies en' ! t) = ss_registered (ue_strategies en ! t) \<and>
        ss_callbacks (ue_strategies en' ! t) = ss_callbacks (ue_strategies en ! t))"

lemma same_setup_refl [simp]: "same_setup en en"
  by (simp add: same_setup_def)

lemma same_setup_trans: "same_setup en en' \<Longrightarrow> same_setup en' en'' \<Longrightarrow> same_setup en en''"
  by (auto simp: same_setup_def)

lemma subscribe_adds:
  assumes "engine_inv en" "subscribe en s i ch = (en', r)"
  shows "same_setup en en' \<and> ue_strategies en' = ue_strategies en \<and>
    (r \<longrightarrow> subscribers en' ch' i' = subscribers en ch' i' \<union> (if ch' = ch \<and> i' = i then {unat s} else {}))"
proof (cases "\<not> ue_configuration_frozen en \<or> ue_running en \<or> length (ue_strategies en) \<le> unat s \<or>
    length (ue_instruments en) \<le> unat i \<or> \<not> ss_registered (ue_strategies en ! unat s) \<or> \<not> is_registered (ue_instruments en ! unat i)")
  case True
  then have "en' = en \<and> \<not> r" using assms(2) by (auto simp: subscribe_def Let_def split: if_splits)
  then show ?thesis by simp
next
  case False
  let ?slot = "ue_instruments en ! unat i" and ?st = "ue_strategies en ! unat s"
  have ok: "slot_subs_ok en ?slot" using assms(1) False by (simp add: engine_inv_def)
  obtain slot' where slot': "en' = en\<lparr>ue_instruments := (ue_instruments en)[unat i := slot']\<rparr>" "is_registered slot'"
    "is_metadata slot' = is_metadata ?slot"
    "slot_subscribers ch' slot' = slot_subscribers ch' ?slot @ (if r \<and> ch' = ch then [Some (unat s)] else [])"
  proof (cases ch)
    case Channel_OrderDetail
    obtain subs n where a: "append_subscription (ue_max_subscribers en) (is_order_details ?slot) (is_order_detail_count ?slot) (unat s)
        (cb_on_order_detail (ss_callbacks ?st)) = ((subs, n), r)"
      using assms(2) False Channel_OrderDetail by (auto simp: subscribe_def Let_def split: prod.splits)
    have t: "take n subs = (if r then take (is_order_detail_count ?slot) (is_order_details ?slot) @ [Some (unat s)]
        else take (is_order_detail_count ?slot) (is_order_details ?slot))"
      by (rule append_subscription_ok(2) [where present = cb_on_order_detail, OF _ _ _ a]) (use ok False in \<open>simp_all add: slot_subs_ok_def\<close>)
    show thesis
      by (rule that [of "?slot\<lparr>is_order_details := subs, is_order_detail_count := n\<rparr>"])
        (use assms(2) False Channel_OrderDetail a t in \<open>cases ch'; auto simp: subscribe_def Let_def\<close>)+
  next
    case Channel_Transaction
    obtain subs n where a: "append_subscription (ue_max_subscribers en) (is_transactions ?slot) (is_transaction_count ?slot) (unat s)
        (cb_on_transaction (ss_callbacks ?st)) = ((subs, n), r)"
      using assms(2) False Channel_Transaction by (auto simp: subscribe_def Let_def split: prod.splits)
    have t: "take n subs = (if r then take (is_transaction_count ?slot) (is_transactions ?slot) @ [Some (unat s)]
        else take (is_transaction_count ?slot) (is_transactions ?slot))"
      by (rule append_subscription_ok(2) [where present = cb_on_transaction, OF _ _ _ a]) (use ok False in \<open>simp_all add: slot_subs_ok_def\<close>)
    show thesis
      by (rule that [of "?slot\<lparr>is_transactions := subs, is_transaction_count := n\<rparr>"])
        (use assms(2) False Channel_Transaction a t in \<open>cases ch'; auto simp: subscribe_def Let_def\<close>)+
  qed
  have "instrument en' = instrument en"
    using slot'(1-3) False by (auto simp: fun_eq_iff instrument_def Let_def nth_list_update)
  moreover have "subscribers en' ch' i' = subscribers en ch' i' \<union> (if r \<and> ch' = ch \<and> i' = i then {unat s} else {})"
    using slot' False by (auto simp: subscribers_def nth_list_update word_unat_eq_iff split: if_splits)
  ultimately show ?thesis using slot'(1) by (simp add: same_setup_def)
qed

text \<open>Whether the configuration of strategy \<open>s\<close> is still good.\<close>

abbreviation config_ok :: "UftMarketDataEngine \<Rightarrow> nat \<Rightarrow> bool" where
  "config_ok en s \<equiv> cx_configuration_ok (ss_context (ue_strategies en ! s))"

lemma context_subscribe_adds:
  assumes "engine_inv en" "s < length (ue_strategies en)" "ss_registered (ue_strategies en ! s)" "context_subscribe s i ch en = (en', r)"
  shows "same_setup en en' \<and> config_ok en' s = (config_ok en s \<and> r) \<and>
    (r \<longrightarrow> subscribers en' ch' i' = subscribers en ch' i' \<union> (if ch' = ch \<and> i' = i then {s} else {}))"
proof -
  let ?cx = "ss_context (ue_strategies en ! s)"
  have id: "unat (cx_strategy_id ?cx) = s" using assms(1-3) by (simp add: engine_inv_def)
  obtain en1 where r: "(if cx_bound ?cx then subscribe en (cx_strategy_id ?cx) i ch else (en, False)) = (en1, r)"
    using assms(4) by (auto simp: context_subscribe_def Let_def split: prod.splits)
  let ?f = "\<lambda>slot. slot\<lparr>ss_context := (ss_context slot)\<lparr>cx_configuration_ok := cx_configuration_ok (ss_context slot) \<and> r\<rparr>\<rparr>"
  have en': "en' = en1\<lparr>ue_strategies := (ue_strategies en1)[s := ?f (ue_strategies en1 ! s)]\<rparr>"
    using assms(4) unfolding context_subscribe_def Let_def r by simp
  have one: "same_setup en en1 \<and> ue_strategies en1 = ue_strategies en \<and>
      (r \<longrightarrow> subscribers en1 ch' i' = subscribers en ch' i' \<union> (if ch' = ch \<and> i' = i then {s} else {}))"
    using subscribe_adds [OF assms(1), of "cx_strategy_id ?cx" i ch en1 r ch' i'] r id by (auto split: if_splits)
  have "ss_registered ((ue_strategies en1)[s := ?f (ue_strategies en1 ! s)] ! t) = ss_registered (ue_strategies en1 ! t)"
    "ss_callbacks ((ue_strategies en1)[s := ?f (ue_strategies en1 ! s)] ! t) = ss_callbacks (ue_strategies en1 ! t)" for t
    using list_update_field [of ss_registered ?f] list_update_field [of ss_callbacks ?f] by simp_all
  then have "same_setup en1 en'" by (simp add: en' same_setup_def instrument_def fun_eq_iff Let_def)
  moreover have "subscribers en' = subscribers en1" by (simp add: en' subscribers_def fun_eq_iff)
  moreover have "config_ok en' s = (config_ok en s \<and> r)" using one assms(2) by (simp add: en')
  ultimately show ?thesis using one same_setup_trans by auto
qed

lemma run_init_adds:
  assumes "engine_inv en" "s < length (ue_strategies en)" "ss_registered (ue_strategies en ! s)"
  shows "same_setup en (run_init s p en) \<and> (config_ok (run_init s p en) s \<longrightarrow> config_ok en s \<and>
    subscribers (run_init s p en) ch i = subscribers en ch i \<union> (if (ch, i) \<in> requested (instrument en) p then {s} else {}))"
  using assms
proof (induction p arbitrary: en)
  case (Init_subscribe c j k)
  obtain en1 r where c: "context_subscribe s j c en = (en1, r)" by (rule prod.exhaust)
  note one = context_subscribe_adds [OF Init_subscribe.prems c, of ch i]
  have inv: "engine_inv en1" using context_subscribe_inv [OF Init_subscribe.prems(1), of s j c] c by simp
  have "instrument en1 = instrument en" "s < length (ue_strategies en1)" "ss_registered (ue_strategies en1 ! s)"
    using one Init_subscribe.prems(2,3) by (auto simp: same_setup_def)
  with Init_subscribe.IH [of "k r" en1] inv one c show ?case by (cases r) (auto dest: same_setup_trans)
next
  case (Init_lookup j k)
  then have "cx_bound (ss_context (ue_strategies en ! s))" by (simp add: engine_inv_def)
  with Init_lookup show ?case by (auto simp: context_instrument_def)
qed simp

text \<open>A successful run of the loop has carried out the \<open>on_init\<close> of every registered strategy in full.\<close>

lemma start_step_adds:
  assumes "engine_inv en" "s < length (ue_strategies en)"
    "en1 = (if ss_registered (ue_strategies en ! s)
      then (case cb_on_init (ss_callbacks (ue_strategies en ! s)) of None \<Rightarrow> en | Some p \<Rightarrow> run_init s p en) else en)"
    
  shows "engine_inv en1 \<and> same_setup en en1 \<and> ((ss_registered (ue_strategies en1 ! s) \<longrightarrow> config_ok en1 s) \<longrightarrow>
    subscribers en1 ch i = subscribers en ch i \<union> (asked en ch i \<inter> {s}))"
proof (cases "ss_registered (ue_strategies en ! s) \<and> cb_on_init (ss_callbacks (ue_strategies en ! s)) \<noteq> None")
  case True
  then obtain p where p: "cb_on_init (ss_callbacks (ue_strategies en ! s)) = Some p" "ss_registered (ue_strategies en ! s)" by auto
  then have en1: "en1 = run_init s p en" using assms(3) by simp
  note a = run_init_adds [OF assms(1,2) p(2), of p ch i]
  have "ss_registered (ue_strategies en1 ! s)" using a p(2) by (simp add: en1 same_setup_def)
  with a p assms(2) show ?thesis by (auto simp: en1 run_init_inv [OF assms(1)] asked_def)
next
  case False
  then have "en1 = en" using assms(3) by auto
  with False assms(1) show ?thesis by (auto simp: asked_def)
qed

lemma same_setup_asked: "same_setup en en' \<Longrightarrow> asked en' ch i = asked en ch i"
  by (simp add: same_setup_def asked_def)

lemma start_loop_adds:
  assumes "engine_inv en" "\<forall>s\<in>set xs. s < length (ue_strategies en)" "start_loop xs en = (en', ok)"
  shows "same_setup en en' \<and> (ok \<longrightarrow> subscribers en' ch i = subscribers en ch i \<union> (asked en ch i \<inter> set xs))"
  using assms
proof (induction xs arbitrary: en)
  case (Cons s xs)
  define en1 where "en1 = (if ss_registered (ue_strategies en ! s)
      then (case cb_on_init (ss_callbacks (ue_strategies en ! s)) of None \<Rightarrow> en | Some p \<Rightarrow> run_init s p en) else en)"
  have one: "engine_inv en1 \<and> same_setup en en1 \<and> ((ss_registered (ue_strategies en1 ! s) \<longrightarrow> config_ok en1 s) \<longrightarrow>
      subscribers en1 ch i = subscribers en ch i \<union> (asked en ch i \<inter> {s}))"
    by (rule start_step_adds [OF Cons.prems(1) _ en1_def]) (use Cons.prems(2) in simp)
  have l: "(if ss_registered (ue_strategies en1 ! s) \<and> \<not> config_ok en1 s then (en1, False) else start_loop xs en1) = (en', ok)"
    using Cons.prems(3) unfolding start_loop.simps Let_def en1_def [symmetric] .
  show ?case
  proof (cases "ss_registered (ue_strategies en1 ! s) \<and> \<not> config_ok en1 s")
    case True
    then show ?thesis using l one by auto
  next
    case False
    have "same_setup en1 en' \<and> (ok \<longrightarrow> subscribers en' ch i = subscribers en1 ch i \<union> (asked en1 ch i \<inter> set xs))"
      by (rule Cons.IH) (use one Cons.prems(2) l False in \<open>auto simp: same_setup_def\<close>)
    then show ?thesis using one False same_setup_asked [of en en1 ch i] same_setup_trans by auto
  qed
qed simp

text \<open>Before the start nobody is subscribed; while running, the subscribers are those that asked.\<close>

definition no_subscriptions :: "UftMarketDataEngine \<Rightarrow> bool" where
  "no_subscriptions en \<longleftrightarrow> (\<forall>slot\<in>set (ue_instruments en). is_order_detail_count slot = 0 \<and> is_transaction_count slot = 0)"

definition delivery_inv :: "UftMarketDataEngine \<Rightarrow> bool" where
  "delivery_inv en \<longleftrightarrow> engine_inv en \<and> (ue_configuration_frozen en \<or> (\<not> ue_running en \<and> no_subscriptions en)) \<and>
     (ue_running en \<longrightarrow> (\<forall>ch i. subscribers en ch i = asked en ch i))"

lemma no_subscriptions_subscribers: "no_subscriptions en \<Longrightarrow> subscribers en ch i = {}"
  by (cases ch) (auto simp: subscribers_def no_subscriptions_def)

lemma instrument_flags [simp]:
  "instrument (en\<lparr>ue_running := r\<rparr>) = instrument en" "instrument (en\<lparr>ue_configuration_frozen := r\<rparr>) = instrument en"
  by (simp_all add: fun_eq_iff instrument_def Let_def)

lemma subscribers_flags [simp]:
  "subscribers (en\<lparr>ue_running := r\<rparr>) = subscribers en" "subscribers (en\<lparr>ue_configuration_frozen := r\<rparr>) = subscribers en"
  "asked (en\<lparr>ue_running := r\<rparr>) = asked en" "asked (en\<lparr>ue_configuration_frozen := r\<rparr>) = asked en"
  by (simp_all add: fun_eq_iff subscribers_def asked_def)

lemma start_delivery:
  assumes "delivery_inv en"
  shows "delivery_inv (fst (start en))"
proof (cases "ue_configuration_frozen en")
  case True
  then show ?thesis using assms by (simp add: start_def)
next
  case False
  let ?en = "en\<lparr>ue_configuration_frozen := True\<rparr>" and ?xs = "[0..<length (ue_strategies en)]"
  obtain en' ok where l: "start_loop ?xs ?en = (en', ok)" by (rule prod.exhaust)
  have loop: "same_setup ?en en' \<and> (ok \<longrightarrow> subscribers en' ch i = subscribers en ch i \<union> (asked en ch i \<inter> set ?xs))" for ch i
    using start_loop_adds [OF _ _ l, of ch i] assms by (simp add: delivery_inv_def)
  have "subscribers en ch i = {}" "asked en ch i \<inter> set ?xs = asked en ch i" "asked en' ch i = asked en ch i" for ch i
    using assms False same_setup_asked [of ?en en' ch i] loop
    by (auto simp: delivery_inv_def no_subscriptions_subscribers asked_def)
  moreover have "engine_inv (fst (start en))" "ue_configuration_frozen en'" "ue_running en' = ue_running en"
    using assms loop by (simp_all add: delivery_inv_def start_inv same_setup_def)
  ultimately show ?thesis using loop assms l False by (cases ok) (auto simp: delivery_inv_def start_def)
qed

lemma register_unstarted:
  assumes "\<not> ue_configuration_frozen en" "\<not> ue_running en" "no_subscriptions en"
  shows "\<not> ue_running (fst (register_instrument en i code lo hi tick)) \<and> no_subscriptions (fst (register_instrument en i code lo hi tick))"
    and "\<not> ue_running (fst (register_strategy en s present cbs)) \<and> no_subscriptions (fst (register_strategy en s present cbs))"
  using assms by (auto simp: register_instrument_def register_strategy_def Let_def no_subscriptions_def
    dest!: subsetD [OF set_update_subset_insert])

lemma register_delivery:
  assumes "delivery_inv en"
  shows "delivery_inv (fst (register_instrument en i code lo hi tick)) \<and> delivery_inv (fst (register_strategy en s present cbs))"
proof (cases "ue_configuration_frozen en")
  case True
  then have "fst (register_instrument en i code lo hi tick) = en" "fst (register_strategy en s present cbs) = en"
    by (simp_all add: register_instrument_def register_strategy_def Let_def)
  then show ?thesis using assms by simp
next
  case False
  then have "\<not> ue_running en" "no_subscriptions en" "engine_inv en" using assms by (simp_all add: delivery_inv_def)
  then show ?thesis
    using register_unstarted [OF False] register_instrument_inv register_strategy_inv unfolding delivery_inv_def by blast
qed

lemma stop_delivery: "delivery_inv en \<Longrightarrow> delivery_inv (stop en)"
  by (auto simp: stop_def delivery_inv_def no_subscriptions_def)

lemma engine_calls_delivery: "delivery_inv en \<Longrightarrow> delivery_inv (foldl engine_apply en cs)"
proof (induction cs arbitrary: en)
  case (Cons c cs)
  have "delivery_inv (engine_apply en c)"
    using Cons.prems stop_delivery by (cases c) (simp_all add: register_delivery start_delivery)
  then show ?case using Cons.IH by simp
qed simp

lemma delivery_inv_new: "delivery_inv (UftMarketDataEngine_new i s m)"
  using engine_inv_new by (simp add: delivery_inv_def no_subscriptions_def UftMarketDataEngine_new_def)

lemma publish_subscribers:
  assumes "engine_inv en"
  shows "set (fst (publish_order_detail en ev)) = (if ue_running en then Some ` subscribers en Channel_OrderDetail (od_instrument_id ev) else {})"
    and "set (fst (publish_transaction en tx)) = (if ue_running en then Some ` subscribers en Channel_Transaction (tx_instrument_id tx) else {})"
proof -
  have taken: "set (map ((!) xs) [0..<m]) = {Some s |s. Some s \<in> set (take m xs)}"
    if "subs_ok (ue_strategies en) (ue_max_subscribers en) present xs m" for m present and xs :: "nat option list"
  proof -
    have "map ((!) xs) [0..<m] = take m xs" using that by (intro nth_equalityI) (auto simp: subs_ok_def)
    then show ?thesis using that by (auto simp: subs_ok_def)
  qed
  have slot: "unat i < length (ue_instruments en) \<Longrightarrow> slot_subs_ok en (ue_instruments en ! unat i)" for i :: InstrumentId
    using assms by (simp add: engine_inv_def)
  show "set (fst (publish_order_detail en ev)) = (if ue_running en then Some ` subscribers en Channel_OrderDetail (od_instrument_id ev) else {})"
    using slot [of "od_instrument_id ev"] taken
    by (auto simp: publish_order_detail_def Let_def slot_subs_ok_def subscribers_def image_iff simp del: set_map)
  show "set (fst (publish_transaction en tx)) = (if ue_running en then Some ` subscribers en Channel_Transaction (tx_instrument_id tx) else {})"
    using slot [of "tx_instrument_id tx"] taken
    by (auto simp: publish_transaction_def Let_def slot_subs_ok_def subscribers_def image_iff simp del: set_map)
qed

lemma start_sets_running: "delivery_inv en \<Longrightarrow> ue_running (fst (start en)) = (ue_running en \<or> snd (start en))"
proof (cases "ue_configuration_frozen en")
  case False
  assume "delivery_inv en"
  let ?en = "en\<lparr>ue_configuration_frozen := True\<rparr>"
  obtain en' ok where l: "start_loop [0..<length (ue_strategies en)] ?en = (en', ok)" by (rule prod.exhaust)
  have "same_setup ?en en'" using start_loop_adds [OF _ _ l] \<open>delivery_inv en\<close> by (simp add: delivery_inv_def)
  then show ?thesis using l False by (auto simp: start_def same_setup_def)
qed (simp add: start_def)

section \<open>Properties\<close>

definition valid_calls :: "UftMarketDataEngine \<Rightarrow> (UftStrategyCallbacks \<Rightarrow> bool) \<Rightarrow> nat option list \<Rightarrow> bool" where
  "valid_calls en present called \<longleftrightarrow> distinct called \<and> length called \<le> ue_max_subscribers en \<and>
     (\<forall>c\<in>set called. \<exists>s<length (ue_strategies en). c = Some s \<and> ss_registered (ue_strategies en ! s) \<and>
        present (ss_callbacks (ue_strategies en ! s)))"

lemma publish_valid:
  assumes "engine_inv en"
  shows "valid_calls en cb_on_order_detail (fst (publish_order_detail en ev)) \<and>
      snd (publish_order_detail en ev) = length (fst (publish_order_detail en ev))"
    and "valid_calls en cb_on_transaction (fst (publish_transaction en tx)) \<and>
      snd (publish_transaction en tx) = length (fst (publish_transaction en tx))"
proof -
  have taken: "map ((!) xs) [0..<m] = take m xs" if "m \<le> length xs" for m and xs :: "nat option list"
    using that by (intro nth_equalityI) auto
  have slot: "i < length (ue_instruments en) \<Longrightarrow> slot_subs_ok en (ue_instruments en ! i)" for i
    using assms by (simp add: engine_inv_def)
  show "valid_calls en cb_on_order_detail (fst (publish_order_detail en ev)) \<and>
      snd (publish_order_detail en ev) = length (fst (publish_order_detail en ev))"
    using slot [of "unat (od_instrument_id ev)"]
    by (auto simp: publish_order_detail_def Let_def slot_subs_ok_def subs_ok_def taken valid_calls_def)
  show "valid_calls en cb_on_transaction (fst (publish_transaction en tx)) \<and>
      snd (publish_transaction en tx) = length (fst (publish_transaction en tx))"
    using slot [of "unat (tx_instrument_id tx)"]
    by (auto simp: publish_transaction_def Let_def slot_subs_ok_def subs_ok_def taken valid_calls_def)
qed

text \<open>
  C36. Delivery is safe and complete: after any sequence of registrations, starts (with strategies
  that subscribe in any way) and stops, a running engine that publishes an order detail or a
  transaction calls exactly the registered strategies whose \<open>on_init\<close> asked for that instrument on
  that channel, an engine that is not running calls nobody, and a successful start makes the engine
  run. Every strategy called has a callback for the channel that is not null, none is called twice,
  and the result is the number of calls, which is bounded by the subscriber capacity.
\<close>

theorem engine_delivery_safe:
  assumes "en = foldl engine_apply (UftMarketDataEngine_new instruments strategies m) calls"
  shows "set (fst (publish_order_detail en ev)) = (if ue_running en then Some ` asked en Channel_OrderDetail (od_instrument_id ev) else {}) \<and>
    set (fst (publish_transaction en tx)) = (if ue_running en then Some ` asked en Channel_Transaction (tx_instrument_id tx) else {}) \<and>
    ue_running (fst (start en)) = (ue_running en \<or> snd (start en)) \<and> \<not> ue_running (stop en) \<and>
    valid_calls en cb_on_order_detail (fst (publish_order_detail en ev)) \<and>
    snd (publish_order_detail en ev) = length (fst (publish_order_detail en ev)) \<and>
    valid_calls en cb_on_transaction (fst (publish_transaction en tx)) \<and>
    snd (publish_transaction en tx) = length (fst (publish_transaction en tx))"
proof -
  have inv: "delivery_inv en" using engine_calls_delivery [OF delivery_inv_new] assms by simp
  then have eng: "engine_inv en" by (simp add: delivery_inv_def)
  have "set (fst (publish_order_detail en ev)) = (if ue_running en then Some ` asked en Channel_OrderDetail (od_instrument_id ev) else {})"
    "set (fst (publish_transaction en tx)) = (if ue_running en then Some ` asked en Channel_Transaction (tx_instrument_id tx) else {})"
    using inv publish_subscribers [OF eng] by (simp_all add: delivery_inv_def)
  then show ?thesis using publish_valid(1) [OF eng, of ev] publish_valid(2) [OF eng, of tx] start_sets_running [OF inv] by (simp add: stop_def)
qed

text \<open>
  Two strategies are registered and one of them asks for instrument 1 on both channels: it alone is
  called, and nobody is after the stop.
\<close>

definition two_strategies :: "engine_call list" where
  "two_strategies =
     [Call_register_instrument 1 (Some ''A'') 1 100 1,
      Call_register_strategy 0 True (UftStrategyCallbacks_default\<lparr>cb_on_order_detail := True\<rparr>),
      Call_register_strategy 1 True (UftStrategyCallbacks_default\<lparr>cb_on_order_detail := True, cb_on_transaction := True,
        cb_on_init := Some (Init_subscribe Channel_OrderDetail 1 (\<lambda>_. Init_subscribe Channel_Transaction 1 (\<lambda>_. Init_done)))\<rparr>),
      Call_start]"

lemma two_strategies_asked:
  "asked (foldl engine_apply (UftMarketDataEngine_new 2 2 1) two_strategies) Channel_OrderDetail 1 = {1}"
proof -
  define en where "en = foldl engine_apply (UftMarketDataEngine_new 2 2 1) two_strategies"
  have n: "length (ue_strategies en) = 2" "cb_on_init (ss_callbacks (ue_strategies en ! 0)) = None"
    "ss_registered (ue_strategies en ! 1)"
    "case cb_on_init (ss_callbacks (ue_strategies en ! 1)) of None \<Rightarrow> False
      | Some p \<Rightarrow> (Channel_OrderDetail, 1) \<in> requested (instrument en) p"
    unfolding en_def by code_simp+
  have "0 \<notin> asked en Channel_OrderDetail 1" "1 \<in> asked en Channel_OrderDetail 1"
    using n by (auto simp: asked_def simp del: One_nat_def split: option.splits)
  moreover have "s = 0 \<or> s = 1" if "s \<in> asked en Channel_OrderDetail 1" for s
    using that n(1) by (auto simp: asked_def)
  ultimately have "asked en Channel_OrderDetail 1 = {1}" by blast
  then show ?thesis unfolding en_def .
qed

definition witness_event :: UftOrderDetail where
  "witness_event = \<lparr>od_source_sequence = 7, od_exchange_time_ns = 0, od_order_id = 42, od_price_ticks = 10,
      od_quantity = 5, od_instrument_id = 1, od_side = UftSide_Buy, od_order_type = UftOrderType_Limit\<rparr>"

theorem engine_delivery_safe_witness:
  "let en = foldl engine_apply (UftMarketDataEngine_new 2 2 1) two_strategies;
       en' = foldl engine_apply (UftMarketDataEngine_new 2 2 1) (two_strategies @ [Call_stop]) in
     ue_running en \<and> asked en Channel_OrderDetail 1 = {1} \<and>
     set (fst (publish_order_detail en witness_event)) = {Some 1} \<and>
     set (fst (publish_order_detail en' witness_event)) = {}"
proof -
  have r: "ue_running (foldl engine_apply (UftMarketDataEngine_new 2 2 1) two_strategies)"
    "\<not> ue_running (foldl engine_apply (UftMarketDataEngine_new 2 2 1) (two_strategies @ [Call_stop]))" by code_simp+
  have "od_instrument_id witness_event = 1" by (simp add: witness_event_def)
  note d = engine_delivery_safe [OF refl, of 2 2 1 two_strategies witness_event, unfolded this two_strategies_asked]
    engine_delivery_safe [OF refl, of 2 2 1 "two_strategies @ [Call_stop]" witness_event]
  show ?thesis unfolding Let_def
    using d(1) [THEN conjunct1] d(2) [THEN conjunct1] unfolding if_P [OF r(1)] if_not_P [OF r(2)]
    by (intro conjI r(1) two_strategies_asked) (simp_all only: image_insert image_empty)
qed

end
