(* ===== verification/UftAdapter.thy ===== *)
theory UftAdapter
  imports UftTypes FixedHashTable ItchWire
begin

text \<open>
  \<open>NasdaqItchUftAdapter\<close> (\<open>include/qtrader/NasdaqItchUftAdapter.hpp\<close>): one instrument's ITCH 5.0
  messages turned into UFT events, with the live orders and the matches of the day in two
  \<open>FixedHashTable\<close>s. The template parameter \<open>Engine\<close> is the record \<open>engine_ops\<close> of its publishing
  operations on a state of type \<open>'e\<close>; an engine without \<open>publish_book_update\<close> has no book channel
  (the overload of \<open>book_publish\<close> taken then does nothing). A message is a buffer with the size the
  transport reports; \<^const>\<open>None\<close> is a null pointer.
\<close>

section \<open>State\<close>

record UftAdapterStats =
  us_order_details :: u64
  us_transactions :: u64
  us_matches :: u64
  us_cancels :: u64
  us_trade_busts :: u64
  us_duplicate_matches_suppressed :: u64
  us_non_printable_suppressed :: u64
  us_broken_trades_without_output :: u64
  us_unknown_broken_trades :: u64
  us_malformed_or_missing_orders :: u64
  us_capacity_exhaustions :: u64
  us_peak_active_orders :: u64
  us_order_events_delivered :: u64
  us_transaction_events_delivered :: u64
  us_callback_deliveries :: u64
  us_undelivered_events :: u64
  us_book_events :: u64
  us_book_callback_deliveries :: u64
  us_undelivered_book_events :: u64

definition UftAdapterStats_zero :: UftAdapterStats where
  "UftAdapterStats_zero = \<lparr>us_order_details = 0, us_transactions = 0, us_matches = 0, us_cancels = 0,
     us_trade_busts = 0, us_duplicate_matches_suppressed = 0, us_non_printable_suppressed = 0,
     us_broken_trades_without_output = 0, us_unknown_broken_trades = 0, us_malformed_or_missing_orders = 0,
     us_capacity_exhaustions = 0, us_peak_active_orders = 0, us_order_events_delivered = 0,
     us_transaction_events_delivered = 0, us_callback_deliveries = 0, us_undelivered_events = 0,
     us_book_events = 0, us_book_callback_deliveries = 0, us_undelivered_book_events = 0\<rparr>"

record UftOrder =
  uo_price_ticks :: PriceTicks
  uo_remaining :: Quantity
  uo_side :: UftSide

record UftMatch =
  um_price_ticks :: PriceTicks
  um_quantity :: Quantity
  um_order_id :: u64
  um_side :: UftSide
  um_emitted :: bool

record NasdaqItchUftAdapter =
  ua_instrument_id :: InstrumentId
  ua_locator :: u16
  ua_source_sequence :: u64
  ua_orders :: "UftOrder FixedHashTable"
  ua_matches :: "UftMatch FixedHashTable"
  ua_stats :: UftAdapterStats

definition UftOrder_default :: UftOrder where
  "UftOrder_default = \<lparr>uo_price_ticks = 0, uo_remaining = 0, uo_side = UftSide_Unknown\<rparr>"

definition UftMatch_default :: UftMatch where
  "UftMatch_default = \<lparr>um_price_ticks = 0, um_quantity = 0, um_order_id = 0, um_side = UftSide_Unknown,
     um_emitted = False\<rparr>"

definition NasdaqItchUftAdapter_new :: "InstrumentId \<Rightarrow> u16 \<Rightarrow> nat \<Rightarrow> nat \<Rightarrow> table_error + NasdaqItchUftAdapter" where
  "NasdaqItchUftAdapter_new instrument_id locator maximum_active_orders maximum_unique_matches =
     (case FixedHashTable_new UftOrder_default maximum_active_orders of
        Inl e \<Rightarrow> Inl e
      | Inr orders \<Rightarrow>
          (case FixedHashTable_new UftMatch_default maximum_unique_matches of
             Inl e \<Rightarrow> Inl e
           | Inr matches \<Rightarrow> Inr \<lparr>ua_instrument_id = instrument_id, ua_locator = locator, ua_source_sequence = 0,
               ua_orders = orders, ua_matches = matches, ua_stats = UftAdapterStats_zero\<rparr>))"

definition adapter_active_orders :: "NasdaqItchUftAdapter \<Rightarrow> nat" where
  "adapter_active_orders a = fht_size (ua_orders a)"

definition startup_memory_bytes :: "nat \<Rightarrow> nat \<Rightarrow> NasdaqItchUftAdapter \<Rightarrow> nat" where
  "startup_memory_bytes sizeof_order_entry sizeof_match_entry a =
     fht_allocated_bytes sizeof_order_entry (ua_orders a) + fht_allocated_bytes sizeof_match_entry (ua_matches a)"

record 'e engine_ops =
  eo_publish_order_detail :: "UftOrderDetail \<Rightarrow> 'e \<Rightarrow> 'e \<times> nat"
  eo_publish_transaction :: "UftTransaction \<Rightarrow> 'e \<Rightarrow> 'e \<times> nat"
  eo_publish_book_update :: "(UftBookUpdate \<Rightarrow> 'e \<Rightarrow> 'e \<times> nat) option"

type_synonym 'e adapter_state = "NasdaqItchUftAdapter \<times> 'e"

section \<open>Counters\<close>

definition upd_stats :: "(UftAdapterStats \<Rightarrow> UftAdapterStats) \<Rightarrow> 'e adapter_state \<Rightarrow> 'e adapter_state" where
  "upd_stats f = (\<lambda>(a, e). (a\<lparr>ua_stats := f (ua_stats a)\<rparr>, e))"

definition count_malformed :: "'e adapter_state \<Rightarrow> 'e adapter_state" where
  "count_malformed = upd_stats (\<lambda>s. s\<lparr>us_malformed_or_missing_orders := us_malformed_or_missing_orders s + 1\<rparr>)"

definition count_insert_failure :: "FixedHashInsertResult \<Rightarrow> 'e adapter_state \<Rightarrow> 'e adapter_state" where
  "count_insert_failure result =
     (if result = Full then upd_stats (\<lambda>s. s\<lparr>us_capacity_exhaustions := us_capacity_exhaustions s + 1\<rparr>)
      else count_malformed)"

definition count_duplicate :: "'e adapter_state \<Rightarrow> 'e adapter_state" where
  "count_duplicate = upd_stats (\<lambda>s. s\<lparr>us_duplicate_matches_suppressed := us_duplicate_matches_suppressed s + 1\<rparr>)"

section \<open>Publishing\<close>

definition book_publish :: "'e engine_ops \<Rightarrow> UftBookUpdate \<Rightarrow> 'e adapter_state \<Rightarrow> 'e adapter_state" where
  "book_publish en event st =
     (case eo_publish_book_update en of
        None \<Rightarrow> st
      | Some publish \<Rightarrow>
          (case upd_stats (\<lambda>s. s\<lparr>us_book_events := us_book_events s + 1\<rparr>) st of (a, e) \<Rightarrow>
             case publish event e of (e, delivered) \<Rightarrow>
               upd_stats (\<lambda>s.
                 let s = s\<lparr>us_book_callback_deliveries := us_book_callback_deliveries s + of_nat delivered\<rparr> in
                 if delivered = 0 then s\<lparr>us_undelivered_book_events := us_undelivered_book_events s + 1\<rparr> else s)
                 (a, e)))"

definition emit_book :: "'e engine_ops \<Rightarrow> bytes \<Rightarrow> UftBookAction \<Rightarrow> u64 \<Rightarrow> u64 \<Rightarrow> u64 \<Rightarrow> PriceTicks \<Rightarrow> Quantity \<Rightarrow>
    UftSide \<Rightarrow> bool \<Rightarrow> 'e adapter_state \<Rightarrow> 'e adapter_state" where
  "emit_book en message action oid new_id match_id price quantity side printable = (\<lambda>(a, e).
     book_publish en \<lparr>bu_source_sequence = ua_source_sequence a, bu_exchange_time_ns = read_u48 message 5,
       bu_order_id = oid, bu_new_order_id = new_id, bu_match_id = match_id, bu_price_ticks = price,
       bu_quantity = quantity, bu_instrument_id = ua_instrument_id a, bu_side = side, bu_action = action,
       bu_printable = printable\<rparr> (a, e))"

definition side_of :: "u8 \<Rightarrow> UftSide" where
  "side_of side =
     (if side = ascii CHR ''B'' then UftSide_Buy else if side = ascii CHR ''S'' then UftSide_Sell else UftSide_Unknown)"

definition emit_order :: "'e engine_ops \<Rightarrow> bytes \<Rightarrow> u64 \<Rightarrow> UftOrder \<Rightarrow> 'e adapter_state \<Rightarrow> 'e adapter_state" where
  "emit_order en message order_id order = (\<lambda>(a, e).
     let event = \<lparr>od_source_sequence = ua_source_sequence a, od_exchange_time_ns = read_u48 message 5,
           od_order_id = order_id, od_price_ticks = uo_price_ticks order, od_quantity = uo_remaining order,
           od_instrument_id = ua_instrument_id a, od_side = uo_side order, od_order_type = UftOrderType_Limit\<rparr>;
         (a, e) = upd_stats (\<lambda>s. s\<lparr>us_order_details := us_order_details s + 1\<rparr>) (a, e);
         (e, deliveries) = eo_publish_order_detail en event e
     in upd_stats (\<lambda>s.
          let s = s\<lparr>us_callback_deliveries := us_callback_deliveries s + of_nat deliveries\<rparr> in
          if deliveries = 0 then s\<lparr>us_undelivered_events := us_undelivered_events s + 1\<rparr>
          else s\<lparr>us_order_events_delivered := us_order_events_delivered s + 1\<rparr>) (a, e))"

definition emit_transaction :: "'e engine_ops \<Rightarrow> bytes \<Rightarrow> u64 \<Rightarrow> UftTransactionType \<Rightarrow> UftSide \<Rightarrow> PriceTicks \<Rightarrow>
    Quantity \<Rightarrow> u64 \<Rightarrow> 'e adapter_state \<Rightarrow> 'e adapter_state" where
  "emit_transaction en message transaction_id type side price_ticks quantity order_id = (\<lambda>(a, e).
     if quantity = 0 then count_malformed (a, e)
     else
       let event = \<lparr>tx_source_sequence = ua_source_sequence a, tx_exchange_time_ns = read_u48 message 5,
             tx_transaction_id = transaction_id,
             tx_ask_order_id = (if side = UftSide_Sell then order_id else 0),
             tx_bid_order_id = (if side = UftSide_Buy then order_id else 0),
             tx_price_ticks = price_ticks, tx_quantity = quantity, tx_instrument_id = ua_instrument_id a,
             tx_side = side, tx_transaction_type = type\<rparr>;
           (a, e) = upd_stats (\<lambda>s. s\<lparr>us_transactions := us_transactions s + 1\<rparr>) (a, e);
           (e, deliveries) = eo_publish_transaction en event e
       in upd_stats (\<lambda>s.
            let s = s\<lparr>us_callback_deliveries := us_callback_deliveries s + of_nat deliveries\<rparr>;
                s = (if deliveries = 0 then s\<lparr>us_undelivered_events := us_undelivered_events s + 1\<rparr>
                     else s\<lparr>us_transaction_events_delivered := us_transaction_events_delivered s + 1\<rparr>)
            in case type of
                 Tx_Trade \<Rightarrow> s\<lparr>us_matches := us_matches s + 1\<rparr>
               | Tx_Cancel \<Rightarrow> s\<lparr>us_cancels := us_cancels s + 1\<rparr>
               | Tx_TradeBust \<Rightarrow> s\<lparr>us_trade_busts := us_trade_busts s + 1\<rparr>
               | Tx_Unknown \<Rightarrow> s) (a, e))"

section \<open>Messages\<close>

definition set_orders :: "UftOrder FixedHashTable \<Rightarrow> 'e adapter_state \<Rightarrow> 'e adapter_state" where
  "set_orders t = (\<lambda>(a, e). (a\<lparr>ua_orders := t\<rparr>, e))"

definition set_matches :: "UftMatch FixedHashTable \<Rightarrow> 'e adapter_state \<Rightarrow> 'e adapter_state" where
  "set_matches t = (\<lambda>(a, e). (a\<lparr>ua_matches := t\<rparr>, e))"

definition add :: "'e engine_ops \<Rightarrow> bytes \<Rightarrow> 'e adapter_state \<Rightarrow> 'e adapter_state" where
  "add en message st =
     (let order_id = read_u64 message 11; side = side_of (message ! 19);
          quantity = read_u32 message 20; price = read_u32 message 32 in
      if side = UftSide_Unknown \<or> quantity = 0 \<or> price = 0 then count_malformed st
      else
        let order = \<lparr>uo_price_ticks = uint price, uo_remaining = ucast quantity, uo_side = side\<rparr>;
            (orders, inserted) = fht_insert (ua_orders (fst st)) order_id order in
        if inserted \<noteq> Inserted then count_insert_failure inserted (set_orders orders st)
        else
          let st = set_orders orders st;
              st = upd_stats (\<lambda>s. s\<lparr>us_peak_active_orders :=
                     max (us_peak_active_orders s) (of_nat (fht_size orders))\<rparr>) st;
              st = emit_order en message order_id order st
          in emit_book en message Book_Add order_id 0 0 (uo_price_ticks order) (ucast quantity) side False st)"

text \<open>The end of \<open>execute\<close> and \<open>cancel_partial\<close>: the update through the order pointer.\<close>

definition reduce_order :: "u64 \<Rightarrow> Quantity \<Rightarrow> 'e adapter_state \<Rightarrow> 'e adapter_state" where
  "reduce_order order_id quantity st =
     (case fht_find (ua_orders (fst st)) order_id of
        None \<Rightarrow> st
      | Some order \<Rightarrow>
          let order = order\<lparr>uo_remaining := uo_remaining order - quantity\<rparr>;
              orders = fht_store (ua_orders (fst st)) order_id order in
          set_orders (if uo_remaining order = 0 then fst (fht_erase orders order_id) else orders) st)"

definition execute :: "'e engine_ops \<Rightarrow> bytes \<Rightarrow> 'e adapter_state \<Rightarrow> 'e adapter_state" where
  "execute en message st =
     (let order_id = read_u64 message 11; quantity = ucast (read_u32 message 19) :: u64 in
      case fht_find (ua_orders (fst st)) order_id of
        None \<Rightarrow> count_malformed st
      | Some order \<Rightarrow>
          if quantity = 0 \<or> quantity > uo_remaining order then count_malformed st
          else
            let with_price = message ! 0 = ascii CHR ''C'';
                match_id = read_u64 message 23;
                price = (if with_price then uint (read_u32 message 32) else uo_price_ticks order);
                printable = (\<not> with_price \<or> message ! 31 = ascii CHR ''Y'') in
            if price \<le> 0 \<or> (with_price \<and> message ! 31 \<noteq> ascii CHR ''Y'' \<and> message ! 31 \<noteq> ascii CHR ''N'')
            then count_malformed st
            else
              let match = \<lparr>um_price_ticks = price, um_quantity = quantity, um_order_id = order_id,
                    um_side = uo_side order, um_emitted = printable\<rparr>;
                  (matches, first) = fht_insert (ua_matches (fst st)) match_id match;
                  st = set_matches matches st in
              if first = Full \<or> first = InvalidKey then count_insert_failure first st
              else
                let st = (if \<not> printable then
                            upd_stats (\<lambda>s. s\<lparr>us_non_printable_suppressed := us_non_printable_suppressed s + 1\<rparr>) st
                          else if first = Inserted then
                            emit_transaction en message match_id Tx_Trade (uo_side order) price quantity order_id st
                          else if first = Duplicate then count_duplicate st
                          else count_insert_failure first st);
                    st = emit_book en message Book_Execution order_id 0 match_id price quantity (uo_side order) printable st
                in reduce_order order_id quantity st)"

definition cancel_partial :: "'e engine_ops \<Rightarrow> bytes \<Rightarrow> 'e adapter_state \<Rightarrow> 'e adapter_state" where
  "cancel_partial en message st =
     (let order_id = read_u64 message 11; quantity = ucast (read_u32 message 19) :: u64 in
      case fht_find (ua_orders (fst st)) order_id of
        None \<Rightarrow> count_malformed st
      | Some order \<Rightarrow>
          if quantity = 0 \<or> quantity > uo_remaining order then count_malformed st
          else
            let st = emit_transaction en message (ua_source_sequence (fst st)) Tx_Cancel (uo_side order)
                       (uo_price_ticks order) quantity order_id st;
                st = emit_book en message Book_Reduce order_id 0 0 (uo_price_ticks order) quantity (uo_side order) False st
            in reduce_order order_id quantity st)"

definition cancel_all :: "'e engine_ops \<Rightarrow> bytes \<Rightarrow> 'e adapter_state \<Rightarrow> 'e adapter_state" where
  "cancel_all en message st =
     (let order_id = read_u64 message 11 in
      case fht_find (ua_orders (fst st)) order_id of
        None \<Rightarrow> count_malformed st
      | Some snapshot \<Rightarrow>
          let st = emit_transaction en message (ua_source_sequence (fst st)) Tx_Cancel (uo_side snapshot)
                     (uo_price_ticks snapshot) (uo_remaining snapshot) order_id st;
              st = emit_book en message Book_Delete order_id 0 0 (uo_price_ticks snapshot) (uo_remaining snapshot)
                     (uo_side snapshot) False st
          in set_orders (fst (fht_erase (ua_orders (fst st)) order_id)) st)"

definition replace :: "'e engine_ops \<Rightarrow> bytes \<Rightarrow> 'e adapter_state \<Rightarrow> 'e adapter_state" where
  "replace en message st =
     (let old_id = read_u64 message 11; new_id = read_u64 message 19;
          quantity = read_u32 message 27; price = read_u32 message 31 in
      case fht_find (ua_orders (fst st)) old_id of
        None \<Rightarrow> count_malformed st
      | Some old_order \<Rightarrow>
          if new_id = 0 \<or> quantity = 0 \<or> price = 0 \<or> fht_find (ua_orders (fst st)) new_id \<noteq> None
          then count_malformed st
          else
            let orders = fst (fht_erase (ua_orders (fst st)) old_id);
                replacement = \<lparr>uo_price_ticks = uint price, uo_remaining = ucast quantity, uo_side = uo_side old_order\<rparr>;
                (orders, inserted) = fht_insert orders new_id replacement;
                st = set_orders orders st in
            if inserted \<noteq> Inserted then count_insert_failure inserted st
            else
              let st = emit_transaction en message (ua_source_sequence (fst st)) Tx_Cancel (uo_side old_order)
                         (uo_price_ticks old_order) (uo_remaining old_order) old_id st;
                  st = emit_order en message new_id replacement st
              in emit_book en message Book_Replace old_id new_id 0 (uo_price_ticks replacement) (ucast quantity)
                   (uo_side replacement) False st)"

text \<open>The common end of \<open>non_cross_trade\<close> and \<open>cross_trade\<close>.\<close>

definition record_trade :: "'e engine_ops \<Rightarrow> bytes \<Rightarrow> u64 \<Rightarrow> UftMatch \<Rightarrow> 'e adapter_state \<Rightarrow> 'e adapter_state" where
  "record_trade en message match_id match st =
     (let (matches, first) = fht_insert (ua_matches (fst st)) match_id match;
          st = set_matches matches st;
          st = (if first = Inserted then
                  emit_book en message Book_Trade (um_order_id match) 0 match_id (um_price_ticks match)
                    (um_quantity match) (um_side match) True st
                else st) in
      if first = Inserted then
        emit_transaction en message match_id Tx_Trade (um_side match) (um_price_ticks match) (um_quantity match)
          (um_order_id match) st
      else if first = Duplicate then count_duplicate st
      else count_insert_failure first st)"

definition non_cross_trade :: "'e engine_ops \<Rightarrow> bytes \<Rightarrow> 'e adapter_state \<Rightarrow> 'e adapter_state" where
  "non_cross_trade en message st =
     (let match_id = read_u64 message 36;
          match = \<lparr>um_price_ticks = uint (read_u32 message 32), um_quantity = ucast (read_u32 message 20),
            um_order_id = read_u64 message 11, um_side = side_of (message ! 19), um_emitted = True\<rparr> in
      if um_quantity match = 0 \<or> um_price_ticks match \<le> 0 \<or> um_side match = UftSide_Unknown
      then count_malformed st
      else record_trade en message match_id match st)"

definition cross_trade :: "'e engine_ops \<Rightarrow> bytes \<Rightarrow> 'e adapter_state \<Rightarrow> 'e adapter_state" where
  "cross_trade en message st =
     (let match_id = read_u64 message 31;
          match = \<lparr>um_price_ticks = uint (read_u32 message 27), um_quantity = read_u64 message 11,
            um_order_id = 0, um_side = UftSide_Unknown, um_emitted = True\<rparr> in
      if um_quantity match = 0 \<or> um_price_ticks match \<le> 0 then count_malformed st
      else record_trade en message match_id match st)"

definition broken_trade :: "'e engine_ops \<Rightarrow> bytes \<Rightarrow> 'e adapter_state \<Rightarrow> 'e adapter_state" where
  "broken_trade en message st =
     (let match_id = read_u64 message 11 in
      case fht_find (ua_matches (fst st)) match_id of
        None \<Rightarrow> upd_stats (\<lambda>s. s\<lparr>us_unknown_broken_trades := us_unknown_broken_trades s + 1\<rparr>) st
      | Some match \<Rightarrow>
          let st = emit_book en message Book_TradeBust (um_order_id match) 0 match_id (um_price_ticks match)
                     (um_quantity match) (um_side match) (um_emitted match) st;
              st = (if um_emitted match then
                      emit_transaction en message match_id Tx_TradeBust (um_side match) (um_price_ticks match)
                        (um_quantity match) (um_order_id match) st
                    else upd_stats (\<lambda>s. s\<lparr>us_broken_trades_without_output :=
                           us_broken_trades_without_output s + 1\<rparr>) st)
          in set_matches (fst (fht_erase (ua_matches (fst st)) match_id)) st)"

definition dispatch :: "'e engine_ops \<Rightarrow> bytes \<Rightarrow> 'e adapter_state \<Rightarrow> 'e adapter_state" where
  "dispatch en message st =
     (let type = message ! 0 in
      if type = ascii CHR ''A'' \<or> type = ascii CHR ''F'' then add en message st
      else if type = ascii CHR ''E'' \<or> type = ascii CHR ''C'' then execute en message st
      else if type = ascii CHR ''X'' then cancel_partial en message st
      else if type = ascii CHR ''D'' then cancel_all en message st
      else if type = ascii CHR ''U'' then replace en message st
      else if type = ascii CHR ''P'' then non_cross_trade en message st
      else if type = ascii CHR ''Q'' then cross_trade en message st
      else if type = ascii CHR ''B'' then broken_trade en message st
      else st)"

definition on_message :: "'e engine_ops \<Rightarrow> bytes option \<Rightarrow> nat \<Rightarrow> 'e adapter_state \<Rightarrow> 'e adapter_state" where
  "on_message en message_ptr sz st =
     (case message_ptr of
        None \<Rightarrow> st
      | Some message \<Rightarrow>
          if sz < 11 \<or> read_u16 message 1 \<noteq> ua_locator (fst st) then st
          else
            let st = (case st of (a, e) \<Rightarrow> (a\<lparr>ua_source_sequence := ua_source_sequence a + 1\<rparr>, e)) in
            if sz \<noteq> expected_message_size (message ! 0) then count_malformed st
            else dispatch en message st)"

end
