(* ===== verification/UftAdapterProps.thy ===== *)
theory UftAdapterProps
  imports UftAdapter
begin

text \<open>
  Properties of the ITCH adapter for any engine: it reads only the bytes of the message, its
  counters balance, its tables stay well formed and hold valid orders only, and the printed tape
  is consistent.
\<close>

section \<open>Frames\<close>

text \<open>Counting and publishing change only the counters and the engine.\<close>

named_theorems adapter "What the helpers of the adapter leave alone."

definition frame :: "'e adapter_state \<Rightarrow> 'e adapter_state \<Rightarrow> bool" where
  "frame st st' \<longleftrightarrow> (\<exists>s. fst st' = (fst st)\<lparr>ua_stats := s\<rparr>)"

lemma frameD:
  assumes "frame st st'"
  shows "ua_orders (fst st') = ua_orders (fst st)" "ua_matches (fst st') = ua_matches (fst st)"
    "ua_source_sequence (fst st') = ua_source_sequence (fst st)" "ua_locator (fst st') = ua_locator (fst st)"
    "ua_instrument_id (fst st') = ua_instrument_id (fst st)"
  using assms by (auto simp: frame_def)

lemma frame_refl [simp]: "frame st st"
  by (auto simp: frame_def intro: exI [of _ "ua_stats (fst st)"])

lemma frame_trans: "frame st st' \<Longrightarrow> frame st' st'' \<Longrightarrow> frame st st''"
  by (auto simp: frame_def)

lemma frame_upd_stats [simp]: "frame st (upd_stats f st)"
  by (cases st) (auto simp: upd_stats_def frame_def)

lemma frame_engine: "frame (a, e) (a, e')"
  by (auto simp: frame_def intro: exI [of _ "ua_stats a"])

lemma frame_counts [simp]: "frame st (count_malformed st)" "frame st (count_insert_failure r st)" "frame st (count_duplicate st)"
  by (simp_all add: count_malformed_def count_insert_failure_def count_duplicate_def)

lemma frame_book_publish [simp]: "frame st (book_publish en ev st)"
proof (cases st)
  case (Pair a e)
  show ?thesis
  proof (cases "eo_publish_book_update en")
    case None
    then show ?thesis by (simp add: book_publish_def)
  next
    case (Some publish)
    then show ?thesis using Pair by (auto simp: book_publish_def upd_stats_def frame_def split: prod.splits)
  qed
qed

lemma frame_publish: "upd_stats f (a, e) = (a', e') \<Longrightarrow> frame (a, e) (upd_stats g (a', e''))"
  by (auto simp: upd_stats_def frame_def)

lemma frame_emits [simp]:
  "frame st (emit_book en m act oid nid mid p q s pr st)" "frame st (emit_order en m oid ord st)"
  "frame st (emit_transaction en m tid ty s p q oid st)"
proof -
  obtain a e where st: "st = (a, e)" by (cases st)
  show "frame st (emit_book en m act oid nid mid p q s pr st)" by (simp add: st emit_book_def)
  show "frame st (emit_order en m oid ord st)"
    by (auto simp: st emit_order_def Let_def intro: frame_publish split: prod.splits)
  show "frame st (emit_transaction en m tid ty s p q oid st)"
    by (auto simp: st emit_transaction_def Let_def intro: frame_publish split: prod.splits)
qed

lemma sel_set [simp]:
  "ua_orders (fst (set_orders t st)) = t" "ua_matches (fst (set_orders t st)) = ua_matches (fst st)"
  "ua_orders (fst (set_matches t' st)) = ua_orders (fst st)" "ua_matches (fst (set_matches t' st)) = t'"
  "ua_source_sequence (fst (set_orders t st)) = ua_source_sequence (fst st)"
  "ua_source_sequence (fst (set_matches t' st)) = ua_source_sequence (fst st)"
  "ua_stats (fst (set_orders t st)) = ua_stats (fst st)" "ua_stats (fst (set_matches t' st)) = ua_stats (fst st)"
  "snd (set_orders t st) = snd st" "snd (set_matches t' st) = snd st"
  "ua_locator (fst (set_orders t st)) = ua_locator (fst st)" "ua_locator (fst (set_matches t' st)) = ua_locator (fst st)"
  by (cases st; simp add: set_orders_def set_matches_def)+

lemma frame_sel [simp]:
  "ua_orders (fst (upd_stats f st)) = ua_orders (fst st)" "ua_matches (fst (upd_stats f st)) = ua_matches (fst st)"
  "ua_orders (fst (count_malformed st)) = ua_orders (fst st)" "ua_matches (fst (count_malformed st)) = ua_matches (fst st)"
  "ua_orders (fst (count_insert_failure r st)) = ua_orders (fst st)" "ua_matches (fst (count_insert_failure r st)) = ua_matches (fst st)"
  "ua_orders (fst (count_duplicate st)) = ua_orders (fst st)" "ua_matches (fst (count_duplicate st)) = ua_matches (fst st)"
  "ua_orders (fst (emit_book en m act oid nid mid p q s pr st)) = ua_orders (fst st)"
  "ua_matches (fst (emit_book en m act oid nid mid p q s pr st)) = ua_matches (fst st)"
  "ua_orders (fst (emit_order en m oid ord st)) = ua_orders (fst st)" "ua_matches (fst (emit_order en m oid ord st)) = ua_matches (fst st)"
  "ua_orders (fst (emit_transaction en m tid ty s p q oid st)) = ua_orders (fst st)"
  "ua_matches (fst (emit_transaction en m tid ty s p q oid st)) = ua_matches (fst st)"
  using frameD(1,2) frame_upd_stats frame_counts frame_emits by metis+

section \<open>Only the bytes of the message\<close>

lemma emit_take [simp]:
  assumes "11 \<le> n"
  shows "emit_book en (take n m) act oid nid mid p q s pr = emit_book en m act oid nid mid p q s pr"
    "emit_order en (take n m) oid ord = emit_order en m oid ord"
    "emit_transaction en (take n m) tid ty s p q oid = emit_transaction en m tid ty s p q oid"
  using assms by (simp_all add: emit_book_def emit_order_def emit_transaction_def read_take fun_eq_iff)

lemma message_take:
  "36 \<le> n \<Longrightarrow> add en (take n m) st = add en m st"
  "23 \<le> n \<Longrightarrow> cancel_partial en (take n m) st = cancel_partial en m st"
  "19 \<le> n \<Longrightarrow> cancel_all en (take n m) st = cancel_all en m st"
  "35 \<le> n \<Longrightarrow> replace en (take n m) st = replace en m st"
  "44 \<le> n \<Longrightarrow> non_cross_trade en (take n m) st = non_cross_trade en m st"
  "40 \<le> n \<Longrightarrow> cross_trade en (take n m) st = cross_trade en m st"
  "19 \<le> n \<Longrightarrow> broken_trade en (take n m) st = broken_trade en m st"
  by (simp_all add: add_def cancel_partial_def cancel_all_def replace_def non_cross_trade_def cross_trade_def
      broken_trade_def record_trade_def read_take Let_def cong: option.case_cong if_cong)

text \<open>An \<open>E\<close> message has no price and no printable flag: only \<open>C\<close> reads beyond byte 31.\<close>

lemma execute_take:
  assumes "31 \<le> n" "m ! 0 = ascii CHR ''C'' \<Longrightarrow> 36 \<le> n"
  shows "execute en (take n m) st = execute en m st"
  using assms
  by (cases "fht_find (ua_orders (fst st)) (read_u64 m 11)"; cases "m ! 0 = ascii CHR ''C''")
    (simp_all add: execute_def read_take Let_def cong: if_cong prod.case_cong)

lemma dispatch_take:
  assumes "n = expected_message_size (m ! 0)" "0 < n"
  shows "dispatch en (take n m) st = dispatch en m st"
proof -
  have t: "take n m ! 0 = m ! 0" using assms(2) by simp
  note sz = assms(1) [unfolded expected_message_size_def]
  show ?thesis unfolding dispatch_def Let_def t
  proof (intro if_cong refl)
    show "add en (take n m) st = add en m st" if "m ! 0 = ascii CHR ''A'' \<or> m ! 0 = ascii CHR ''F''"
      using sz that by (intro message_take(1)) (elim disjE; simp)
    show "execute en (take n m) st = execute en m st" if "m ! 0 = ascii CHR ''E'' \<or> m ! 0 = ascii CHR ''C''"
      using sz that by (intro execute_take) (elim disjE; simp)+
    show "cancel_partial en (take n m) st = cancel_partial en m st" if "m ! 0 = ascii CHR ''X''"
      using sz that by (intro message_take(2)) simp
    show "cancel_all en (take n m) st = cancel_all en m st" if "m ! 0 = ascii CHR ''D''"
      using sz that by (intro message_take(3)) simp
    show "replace en (take n m) st = replace en m st" if "m ! 0 = ascii CHR ''U''"
      using sz that by (intro message_take(4)) simp
    show "non_cross_trade en (take n m) st = non_cross_trade en m st" if "m ! 0 = ascii CHR ''P''"
      using sz that by (intro message_take(5)) simp
    show "cross_trade en (take n m) st = cross_trade en m st" if "m ! 0 = ascii CHR ''Q''"
      using sz that by (intro message_take(6)) simp
    show "broken_trade en (take n m) st = broken_trade en m st" if "m ! 0 = ascii CHR ''B''"
      using sz that by (intro message_take(7)) simp
  qed
qed

section \<open>Accounting\<close>

definition stats_balanced :: "UftAdapterStats \<Rightarrow> bool" where
  "stats_balanced s \<longleftrightarrow>
     us_order_details s + us_transactions s =
       us_order_events_delivered s + us_transaction_events_delivered s + us_undelivered_events s \<and>
     us_transactions s = us_matches s + us_cancels s + us_trade_busts s"

abbreviation balanced :: "'e adapter_state \<Rightarrow> bool" where
  "balanced st \<equiv> stats_balanced (ua_stats (fst st))"

lemma balanced_upd:
  assumes "\<And>s. stats_balanced s \<Longrightarrow> stats_balanced (f s)" "balanced st"
  shows "balanced (upd_stats f st)"
  using assms by (cases st) (simp add: upd_stats_def)

lemma stats_balanced_other [simp]:
  "stats_balanced (s\<lparr>us_peak_active_orders := x\<rparr>) = stats_balanced s"
  "stats_balanced (s\<lparr>us_non_printable_suppressed := x\<rparr>) = stats_balanced s"
  "stats_balanced (s\<lparr>us_unknown_broken_trades := x\<rparr>) = stats_balanced s"
  "stats_balanced (s\<lparr>us_broken_trades_without_output := x\<rparr>) = stats_balanced s"
  "stats_balanced (s\<lparr>us_duplicate_matches_suppressed := x\<rparr>) = stats_balanced s"
  "stats_balanced (s\<lparr>us_malformed_or_missing_orders := x\<rparr>) = stats_balanced s"
  "stats_balanced (s\<lparr>us_capacity_exhaustions := x\<rparr>) = stats_balanced s"
  "stats_balanced (s\<lparr>us_callback_deliveries := x\<rparr>) = stats_balanced s"
  "stats_balanced (s\<lparr>us_book_events := x\<rparr>) = stats_balanced s"
  "stats_balanced (s\<lparr>us_book_callback_deliveries := x\<rparr>) = stats_balanced s"
  "stats_balanced (s\<lparr>us_undelivered_book_events := x\<rparr>) = stats_balanced s"
  by (simp_all add: stats_balanced_def)

lemma balanced_counts:
  assumes "balanced st"
  shows "balanced (count_malformed st)" "balanced (count_insert_failure r st)" "balanced (count_duplicate st)"
  using assms unfolding count_malformed_def count_insert_failure_def count_duplicate_def
  by (auto intro!: balanced_upd)

lemma balanced_emits:
  assumes "balanced st"
  shows "balanced (emit_book en m act oid nid mid p q s pr st)" "balanced (emit_order en m oid ord st)"
    "ty \<noteq> Tx_Unknown \<Longrightarrow> balanced (emit_transaction en m tid ty s p q oid st)"
proof -
  obtain a e where st: "st = (a, e)" by (cases st)
  show "balanced (emit_book en m act oid nid mid p q s pr st)"
    using assms by (auto simp: st emit_book_def book_publish_def upd_stats_def Let_def split: option.splits prod.splits)
  show "balanced (emit_order en m oid ord st)"
    using assms by (auto simp: st emit_order_def upd_stats_def stats_balanced_def Let_def algebra_simps split: prod.splits)
  show "balanced (emit_transaction en m tid ty s p q oid st)" if "ty \<noteq> Tx_Unknown"
    using assms balanced_counts(1) [OF assms] that
    by (cases ty) (auto simp: st emit_transaction_def upd_stats_def stats_balanced_def Let_def algebra_simps split: prod.splits)
qed

lemma balanced_set [simp]: "balanced (set_orders t st) = balanced st" "balanced (set_matches t' st) = balanced st"
  by simp_all

lemma balanced_reduce: "balanced st \<Longrightarrow> balanced (reduce_order k q st)"
  by (simp add: reduce_order_def Let_def split: option.splits)

lemmas balanced_steps = balanced_counts balanced_emits balanced_reduce

lemma balanced_messages:
  assumes "balanced st"
  shows "balanced (add en m st)" "balanced (execute en m st)" "balanced (cancel_partial en m st)" "balanced (cancel_all en m st)"
    "balanced (replace en m st)" "balanced (record_trade en m k mt st)" "balanced (broken_trade en m st)"
proof -
  show "balanced (add en m st)" using assms
    by (auto simp: add_def Let_def intro!: balanced_steps balanced_upd split: prod.splits)
  show "balanced (execute en m st)" using assms
    by (auto simp: execute_def Let_def intro!: balanced_steps balanced_upd split: prod.splits option.splits)
  show "balanced (cancel_partial en m st)" "balanced (cancel_all en m st)" "balanced (replace en m st)"
    using assms by (auto simp: cancel_partial_def cancel_all_def replace_def Let_def intro!: balanced_steps split: prod.splits option.splits)
  show "balanced (record_trade en m k mt st)" using assms
    by (auto simp: record_trade_def Let_def intro!: balanced_steps split: prod.splits)
  show "balanced (broken_trade en m st)" using assms
    by (auto simp: broken_trade_def Let_def intro!: balanced_steps balanced_upd split: option.splits)
qed

lemma balanced_dispatch: "balanced st \<Longrightarrow> balanced (dispatch en m st)"
  using balanced_messages [of st en m] balanced_counts(1) [of st]
  by (simp add: dispatch_def non_cross_trade_def cross_trade_def Let_def)

lemma balanced_on_message: "balanced st \<Longrightarrow> balanced (on_message en m n st)"
  by (cases st) (auto simp: on_message_def Let_def intro!: balanced_dispatch balanced_counts split: option.splits)

section \<open>The adapter's state as a pair of maps\<close>

type_synonym order_map = "u64 \<rightharpoonup> UftOrder"
type_synonym match_map = "u64 \<rightharpoonup> UftMatch"

definition order_valid :: "UftOrder \<Rightarrow> bool" where
  "order_valid ord \<longleftrightarrow> uo_side ord \<noteq> UftSide_Unknown \<and> uo_remaining ord \<noteq> 0 \<and> 0 < uo_price_ticks ord \<and>
     uo_price_ticks ord < 2 ^ 32"

definition match_valid :: "UftMatch \<Rightarrow> bool" where
  "match_valid mt \<longleftrightarrow> um_quantity mt \<noteq> 0 \<and> 0 < um_price_ticks mt \<and> um_price_ticks mt < 2 ^ 32"

definition adapter_valid :: "NasdaqItchUftAdapter \<Rightarrow> bool" where
  "adapter_valid a \<longleftrightarrow> fht_wf (ua_orders a) \<and> fht_wf (ua_matches a) \<and>
     (\<forall>k ord. fht_map (ua_orders a) k = Some ord \<longrightarrow> order_valid ord) \<and>
     (\<forall>k mt. fht_map (ua_matches a) k = Some mt \<longrightarrow> match_valid mt)"

abbreviation maps :: "'e adapter_state \<Rightarrow> order_map \<times> match_map" where
  "maps st \<equiv> (fht_map (ua_orders (fst st)), fht_map (ua_matches (fst st)))"

definition lower_order :: "order_map \<Rightarrow> u64 \<Rightarrow> Quantity \<Rightarrow> order_map" where
  "lower_order ords k q = (case ords k of None \<Rightarrow> ords
     | Some ord \<Rightarrow> if uo_remaining ord = q then ords(k := None)
         else ords(k \<mapsto> ord\<lparr>uo_remaining := uo_remaining ord - q\<rparr>))"

text \<open>
  One published book update and what the message that caused it does to the live orders and the
  matches of the day.
\<close>

inductive book_step :: "order_map \<times> match_map \<Rightarrow> UftBookUpdate \<Rightarrow> order_map \<times> match_map \<Rightarrow> bool" where
  step_add: "bu_action ev = Book_Add \<Longrightarrow> k = bu_order_id ev \<Longrightarrow> k \<noteq> 0 \<Longrightarrow> ords k = None \<Longrightarrow>
    ord = \<lparr>uo_price_ticks = bu_price_ticks ev, uo_remaining = bu_quantity ev, uo_side = bu_side ev\<rparr> \<Longrightarrow>
    order_valid ord \<Longrightarrow> book_step (ords, ms) ev (ords(k \<mapsto> ord), ms)"
| step_execution: "bu_action ev = Book_Execution \<Longrightarrow> k = bu_order_id ev \<Longrightarrow> ords k = Some ord \<Longrightarrow>
    bu_side ev = uo_side ord \<Longrightarrow> bu_quantity ev \<noteq> 0 \<Longrightarrow> bu_quantity ev \<le> uo_remaining ord \<Longrightarrow> bu_match_id ev \<noteq> 0 \<Longrightarrow>
    mt = \<lparr>um_price_ticks = bu_price_ticks ev, um_quantity = bu_quantity ev, um_order_id = k, um_side = uo_side ord,
      um_emitted = bu_printable ev\<rparr> \<Longrightarrow> match_valid mt \<Longrightarrow>
    ms' = (if ms (bu_match_id ev) = None then ms(bu_match_id ev \<mapsto> mt) else ms) \<Longrightarrow>
    book_step (ords, ms) ev (lower_order ords k (bu_quantity ev), ms')"
| step_reduce: "bu_action ev = Book_Reduce \<Longrightarrow> k = bu_order_id ev \<Longrightarrow> ords k = Some ord \<Longrightarrow>
    bu_side ev = uo_side ord \<Longrightarrow> bu_price_ticks ev = uo_price_ticks ord \<Longrightarrow>
    bu_quantity ev \<noteq> 0 \<Longrightarrow> bu_quantity ev \<le> uo_remaining ord \<Longrightarrow>
    book_step (ords, ms) ev (lower_order ords k (bu_quantity ev), ms)"
| step_delete: "bu_action ev = Book_Delete \<Longrightarrow> k = bu_order_id ev \<Longrightarrow> ords k = Some ord \<Longrightarrow>
    bu_side ev = uo_side ord \<Longrightarrow> bu_price_ticks ev = uo_price_ticks ord \<Longrightarrow> bu_quantity ev = uo_remaining ord \<Longrightarrow>
    book_step (ords, ms) ev (ords(k := None), ms)"
| step_replace: "bu_action ev = Book_Replace \<Longrightarrow> k = bu_order_id ev \<Longrightarrow> ords k = Some old \<Longrightarrow> k' = bu_new_order_id ev \<Longrightarrow>
    k' \<noteq> 0 \<Longrightarrow> ords k' = None \<Longrightarrow> bu_side ev = uo_side old \<Longrightarrow>
    ord = \<lparr>uo_price_ticks = bu_price_ticks ev, uo_remaining = bu_quantity ev, uo_side = bu_side ev\<rparr> \<Longrightarrow>
    order_valid ord \<Longrightarrow> book_step (ords, ms) ev (ords(k := None, k' \<mapsto> ord), ms)"
| step_trade: "bu_action ev = Book_Trade \<Longrightarrow> bu_match_id ev \<noteq> 0 \<Longrightarrow> ms (bu_match_id ev) = None \<Longrightarrow>
    mt = \<lparr>um_price_ticks = bu_price_ticks ev, um_quantity = bu_quantity ev, um_order_id = bu_order_id ev,
      um_side = bu_side ev, um_emitted = True\<rparr> \<Longrightarrow> bu_printable ev \<Longrightarrow> match_valid mt \<Longrightarrow>
    book_step (ords, ms) ev (ords, ms(bu_match_id ev \<mapsto> mt))"
| step_bust: "bu_action ev = Book_TradeBust \<Longrightarrow> ms (bu_match_id ev) = Some mt \<Longrightarrow> bu_quantity ev = um_quantity mt \<Longrightarrow>
    bu_price_ticks ev = um_price_ticks mt \<Longrightarrow> bu_printable ev = um_emitted mt \<Longrightarrow>
    book_step (ords, ms) ev (ords, ms(bu_match_id ev := None))"

inductive_cases book_stepE: "book_step s ev s'"

lemma lower_order_valid:
  assumes "\<forall>k ord. ords k = Some ord \<longrightarrow> order_valid ord"
  shows "\<forall>k ord. lower_order ords k' q k = Some ord \<longrightarrow> order_valid ord"
  using assms by (auto simp: lower_order_def order_valid_def split: option.splits if_splits)

lemma book_step_valid:
  assumes "book_step (ords, ms) ev (ords', ms')" "\<forall>k ord. ords k = Some ord \<longrightarrow> order_valid ord"
    "\<forall>k mt. ms k = Some mt \<longrightarrow> match_valid mt"
  shows "\<forall>k ord. ords' k = Some ord \<longrightarrow> order_valid ord" "\<forall>k mt. ms' k = Some mt \<longrightarrow> match_valid mt"
proof -
  have "(\<forall>k ord. ords' k = Some ord \<longrightarrow> order_valid ord) \<and> (\<forall>k mt. ms' k = Some mt \<longrightarrow> match_valid mt)"
    using assms(1)
  proof (cases rule: book_step.cases)
    case (step_execution k ord mt)
    then show ?thesis using assms(2,3) lower_order_valid [OF assms(2)] by auto
  next
    case (step_reduce k ord)
    then show ?thesis using assms(2,3) lower_order_valid [OF assms(2)] by auto
  qed (use assms(2,3) in auto)
  then show "\<forall>k ord. ords' k = Some ord \<longrightarrow> order_valid ord" "\<forall>k mt. ms' k = Some mt \<longrightarrow> match_valid mt" by blast+
qed

section \<open>Well-formed tables\<close>

definition tables_wf :: "'e adapter_state \<Rightarrow> bool" where
  "tables_wf st \<longleftrightarrow> fht_wf (ua_orders (fst st)) \<and> fht_wf (ua_matches (fst st))"

lemma tables_wfD: "tables_wf st \<Longrightarrow> fht_wf (ua_orders (fst st))" "tables_wf st \<Longrightarrow> fht_wf (ua_matches (fst st))"
  by (simp_all add: tables_wf_def)

lemma tables_wf_frame [simp]:
  "tables_wf (upd_stats f st) = tables_wf st" "tables_wf (count_malformed st) = tables_wf st"
  "tables_wf (count_insert_failure r st) = tables_wf st" "tables_wf (count_duplicate st) = tables_wf st"
  "tables_wf (emit_book en m act oid nid mid p q s pr st) = tables_wf st"
  "tables_wf (emit_order en m oid ord st) = tables_wf st"
  "tables_wf (emit_transaction en m tid ty s p q oid st) = tables_wf st"
  "tables_wf (set_orders t st) = (fht_wf t \<and> fht_wf (ua_matches (fst st)))"
  "tables_wf (set_matches t' st) = (fht_wf (ua_orders (fst st)) \<and> fht_wf t')"
  by (simp_all add: tables_wf_def)

lemma reduce_order_maps:
  assumes "tables_wf st"
  shows "fht_map (ua_orders (fst (reduce_order k q st))) = lower_order (fht_map (ua_orders (fst st))) k q"
    "ua_matches (fst (reduce_order k q st)) = ua_matches (fst st)" "tables_wf (reduce_order k q st)" "snd (reduce_order k q st) = snd st"
proof -
  note wf = tables_wfD [OF assms]
  let ?t = "ua_orders (fst st)"
  have "fht_map (ua_orders (fst (reduce_order k q st))) = lower_order (fht_map ?t) k q \<and>
    ua_matches (fst (reduce_order k q st)) = ua_matches (fst st) \<and> tables_wf (reduce_order k q st) \<and> snd (reduce_order k q st) = snd st"
  proof (cases "fht_map ?t k")
    case None
    then show ?thesis using assms wf by (simp add: reduce_order_def fh.find_map lower_order_def)
  next
    case (Some ord)
    let ?o = "ord\<lparr>uo_remaining := uo_remaining ord - q\<rparr>"
    have s: "fht_wf (fht_store ?t k ?o)" "fht_map (fht_store ?t k ?o) = (fht_map ?t)(k \<mapsto> ?o)"
      using fh.store_wf [OF wf(1)] fh.store_map [OF wf(1)] Some by auto
    show ?thesis
      using Some wf s fh.erase_wf [OF s(1)] fh.erase_map [OF s(1)]
      by (auto simp: reduce_order_def fh.find_map Let_def lower_order_def)
  qed
  then show "fht_map (ua_orders (fst (reduce_order k q st))) = lower_order (fht_map ?t) k q"
    "ua_matches (fst (reduce_order k q st)) = ua_matches (fst st)" "tables_wf (reduce_order k q st)" "snd (reduce_order k q st) = snd st"
    by blast+
qed

section \<open>Every message is a step or quiet\<close>

definition silent :: "'e engine_ops \<Rightarrow> bool" where
  "silent en \<longleftrightarrow> (\<forall>ev e. fst (eo_publish_order_detail en ev e) = e) \<and> (\<forall>tx e. fst (eo_publish_transaction en tx e) = e)"

definition book_event :: "'e adapter_state \<Rightarrow> bytes \<Rightarrow> UftBookAction \<Rightarrow> u64 \<Rightarrow> u64 \<Rightarrow> u64 \<Rightarrow> PriceTicks \<Rightarrow> Quantity \<Rightarrow>
    UftSide \<Rightarrow> bool \<Rightarrow> UftBookUpdate" where
  "book_event st message action oid new_id match_id price quantity side printable =
     \<lparr>bu_source_sequence = ua_source_sequence (fst st), bu_exchange_time_ns = read_u48 message 5,
       bu_order_id = oid, bu_new_order_id = new_id, bu_match_id = match_id, bu_price_ticks = price,
       bu_quantity = quantity, bu_instrument_id = ua_instrument_id (fst st), bu_side = side, bu_action = action,
       bu_printable = printable\<rparr>"

lemma book_event_sel [simp]:
  "bu_action (book_event st m act oid nid mid p q s pr) = act" "bu_order_id (book_event st m act oid nid mid p q s pr) = oid"
  "bu_new_order_id (book_event st m act oid nid mid p q s pr) = nid" "bu_match_id (book_event st m act oid nid mid p q s pr) = mid"
  "bu_price_ticks (book_event st m act oid nid mid p q s pr) = p" "bu_quantity (book_event st m act oid nid mid p q s pr) = q"
  "bu_side (book_event st m act oid nid mid p q s pr) = s" "bu_printable (book_event st m act oid nid mid p q s pr) = pr"
  "bu_instrument_id (book_event st m act oid nid mid p q s pr) = ua_instrument_id (fst st)"
  by (simp_all add: book_event_def)

lemma book_event_cong: "frame st st' \<Longrightarrow> book_event st' = book_event st"
  using frameD(3,5) [of st st'] by (simp add: book_event_def fun_eq_iff)

lemma book_event_frame [simp]:
  "book_event (upd_stats f st) = book_event st" "book_event (set_orders t st) = book_event st"
  "book_event (set_matches t' st) = book_event st" "book_event (emit_order en m oid ord st) = book_event st"
  "book_event (emit_transaction en m tid ty s p q oid st) = book_event st" "book_event (count_duplicate st) = book_event st"
  "book_event (count_insert_failure r st) = book_event st"
  using book_event_cong frame_upd_stats frame_emits(2,3) frame_counts
  by (metis, cases st, simp add: set_orders_def book_event_def fun_eq_iff,
      cases st, simp add: set_matches_def book_event_def fun_eq_iff, metis+)

lemma engine_frame [simp]:
  "snd (upd_stats f st) = snd st" "snd (count_malformed st) = snd st" "snd (count_insert_failure r st) = snd st"
  "snd (count_duplicate st) = snd st"
  by (cases st; simp add: upd_stats_def count_malformed_def count_insert_failure_def count_duplicate_def)+

lemma engine_silent:
  assumes "silent en"
  shows "snd (emit_order en m oid ord st) = snd st" "snd (emit_transaction en m tid ty s p q oid st) = snd st"
proof -
  obtain a e where st: "st = (a, e)" by (cases st)
  have q: "fst (eo_publish_order_detail en ev e) = e" "fst (eo_publish_transaction en tx e) = e" for ev tx
    using assms by (simp_all add: silent_def)
  show "snd (emit_order en m oid ord st) = snd st"
    by (simp add: st emit_order_def upd_stats_def case_prod_unfold Let_def q)
  show "snd (emit_transaction en m tid ty s p q oid st) = snd st"
    by (simp add: st emit_transaction_def upd_stats_def case_prod_unfold Let_def q)
qed

lemma engine_emit_book:
  assumes "eo_publish_book_update en = Some B"
  shows "snd (emit_book en m act oid nid mid p q s pr st) = fst (B (book_event st m act oid nid mid p q s pr) (snd st))"
  using assms by (cases st) (simp add: emit_book_def book_publish_def book_event_def upd_stats_def split: prod.splits)

lemma instrument_frame [simp]:
  "ua_instrument_id (fst (upd_stats f st)) = ua_instrument_id (fst st)"
  "ua_instrument_id (fst (set_orders t st)) = ua_instrument_id (fst st)" "ua_instrument_id (fst (set_matches t' st)) = ua_instrument_id (fst st)"
  "ua_instrument_id (fst (emit_order en m oid ord st)) = ua_instrument_id (fst st)"
  "ua_instrument_id (fst (emit_transaction en m tid ty s p q oid st)) = ua_instrument_id (fst st)"
  "ua_instrument_id (fst (count_duplicate st)) = ua_instrument_id (fst st)"
  "ua_instrument_id (fst (count_insert_failure r st)) = ua_instrument_id (fst st)"
  by (rule frameD(5); simp)
    (cases st; simp add: set_orders_def set_matches_def; fail | rule frameD(5), simp)+

definition quiet_or_step :: "(UftBookUpdate \<Rightarrow> 'e \<Rightarrow> 'e \<times> nat) \<Rightarrow> 'e adapter_state \<Rightarrow> 'e adapter_state \<Rightarrow> bool" where
  "quiet_or_step B st st' \<longleftrightarrow> tables_wf st' \<and>
     (maps st' = maps st \<and> snd st' = snd st \<or>
      (\<exists>ev. book_step (maps st) ev (maps st') \<and> snd st' = fst (B ev (snd st)) \<and>
         bu_instrument_id ev = ua_instrument_id (fst st)))"

lemma quietI: "tables_wf st' \<Longrightarrow> maps st' = maps st \<Longrightarrow> snd st' = snd st \<Longrightarrow> quiet_or_step B st st'"
  by (simp add: quiet_or_step_def)

lemma stepI:
  "tables_wf st' \<Longrightarrow> book_step (maps st) ev (maps st') \<Longrightarrow> snd st' = fst (B ev (snd st)) \<Longrightarrow>
   bu_instrument_id ev = ua_instrument_id (fst st) \<Longrightarrow> quiet_or_step B st st'"
  unfolding quiet_or_step_def by blast

lemma uint_u32_bounds: "x \<noteq> 0 \<Longrightarrow> 0 < uint (x :: u32)" "uint (x :: u32) < 2 ^ 32"
  using uint_range_size [of x] by (auto simp: word_size uint_0_iff order_less_le)

lemma ucast_u32_zero [simp]: "(ucast (x :: u32) :: u64) = 0 \<longleftrightarrow> x = 0"
proof -
  have "unat (ucast x :: u64) = unat x"
    using unsigned_less [of x, where ?'a = nat] by (simp add: unsigned_ucast_eq take_bit_nat_eq_self)
  then show ?thesis by (metis unat_eq_zero)
qed

lemma add_step:
  assumes en: "silent en" "eo_publish_book_update en = Some B" and wf: "tables_wf st"
  shows "quiet_or_step B st (add en m st)"
proof -
  note w = tables_wfD [OF wf]
  let ?k = "read_u64 m 11" and ?side = "side_of (m ! 19)" and ?q = "read_u32 m 20" and ?p = "read_u32 m 32"
  let ?ord = "\<lparr>uo_price_ticks = uint ?p, uo_remaining = ucast ?q, uo_side = ?side\<rparr>"
  show ?thesis
  proof (cases "?side = UftSide_Unknown \<or> ?q = 0 \<or> ?p = 0")
    case True
    then show ?thesis using wf by (intro quietI) (auto simp: add_def)
  next
    case False
    show ?thesis
    proof (cases rule: fh.insert_cases [OF w(1), where k = ?k and v = ?ord, case_names invalid duplicate full inserted])
      case (inserted t')
      let ?ev = "book_event st m Book_Add ?k 0 0 (uint ?p) (ucast ?q) ?side False"
      have valid: "order_valid ?ord" using False uint_u32_bounds [of ?p] by (auto simp: order_valid_def)
      have "book_step (maps st) ?ev (fht_map t', fht_map (ua_matches (fst st)))"
        unfolding inserted(6) using inserted(1,2) valid by (intro book_step.step_add) simp_all
      then show ?thesis
        using False inserted w
        by (intro stepI [where ev = ?ev])
          (auto simp: add_def Let_def engine_emit_book [OF en(2)] engine_silent [OF en(1)])
    qed (use False wf in \<open>auto simp: add_def Let_def tables_wf_def intro!: quietI\<close>)
  qed
qed

lemma execute_step:
  assumes en: "silent en" "eo_publish_book_update en = Some B" and wf: "tables_wf st" and valid: "adapter_valid (fst st)"
  shows "quiet_or_step B st (execute en m st)"
proof -
  note w = tables_wfD [OF wf]
  let ?k = "read_u64 m 11" and ?q = "ucast (read_u32 m 19) :: u64" and ?mid = "read_u64 m 23"
  let ?C = "m ! 0 = ascii CHR ''C''"
  define printable where "printable \<longleftrightarrow> \<not> ?C \<or> m ! 31 = ascii CHR ''Y''"
  show ?thesis
  proof (cases "fht_map (ua_orders (fst st)) ?k")
    case None
    then show ?thesis using wf w by (intro quietI) (auto simp: execute_def fh.find_map)
  next
    case (Some ord)
    define price where "price = (if ?C then uint (read_u32 m 32) else uo_price_ticks ord)"
    let ?mt = "\<lparr>um_price_ticks = price, um_quantity = ?q, um_order_id = ?k, um_side = uo_side ord, um_emitted = printable\<rparr>"
    let ?ev = "book_event st m Book_Execution ?k 0 ?mid price ?q (uo_side ord) printable"
    let ?bad = "?q = 0 \<or> uo_remaining ord < ?q \<or> price \<le> 0 \<or> (?C \<and> m ! 31 \<noteq> ascii CHR ''Y'' \<and> m ! 31 \<noteq> ascii CHR ''N'')"
    show ?thesis
    proof (cases ?bad)
      case True
      then have "execute en m st = count_malformed st"
        using Some w unfolding price_def by (auto simp: execute_def fh.find_map Let_def)
      then show ?thesis using wf by (intro quietI) simp_all
    next
      case False
      have mv: "match_valid ?mt"
        using False valid Some uint_u32_bounds(2) [of "read_u32 m 32"]
        by (auto simp: match_valid_def adapter_valid_def order_valid_def price_def)
      have exec: "execute en m st = (case fht_insert (ua_matches (fst st)) ?mid ?mt of (matches, first) \<Rightarrow>
          if first = Full \<or> first = InvalidKey then count_insert_failure first (set_matches matches st)
          else reduce_order ?k ?q (emit_book en m Book_Execution ?k 0 ?mid price ?q (uo_side ord) printable
            (if \<not> printable then upd_stats (\<lambda>s. s\<lparr>us_non_printable_suppressed := us_non_printable_suppressed s + 1\<rparr>) (set_matches matches st)
             else if first = Inserted then emit_transaction en m ?mid Tx_Trade (uo_side ord) price ?q ?k (set_matches matches st)
             else if first = Duplicate then count_duplicate (set_matches matches st)
             else count_insert_failure first (set_matches matches st))))"
        unfolding execute_def Let_def fh.find_map [OF w(1)] Some option.case printable_def [symmetric] price_def [symmetric]
        using False by (simp only: if_False de_Morgan_disj simp_thms)
      have step: "book_step (maps st) ?ev (lower_order (fht_map (ua_orders (fst st))) ?k ?q,
          if fht_map (ua_matches (fst st)) ?mid = None then (fht_map (ua_matches (fst st)))(?mid \<mapsto> ?mt) else fht_map (ua_matches (fst st)))"
        if "?mid \<noteq> 0"
        using Some False mv that
        by (intro book_step.step_execution [where k = ?k and ord = ord and mt = ?mt, of ?ev, simplified]) (simp_all add: not_less)
      define mid_st where "mid_st matches first = (if \<not> printable then upd_stats (\<lambda>s. s\<lparr>us_non_printable_suppressed := us_non_printable_suppressed s + 1\<rparr>) (set_matches matches st)
             else if first = Inserted then emit_transaction en m ?mid Tx_Trade (uo_side ord) price ?q ?k (set_matches matches st)
             else if first = Duplicate then count_duplicate (set_matches matches st)
             else count_insert_failure first (set_matches matches st))" for matches first
      have ms: "ua_orders (fst (mid_st ma f)) = ua_orders (fst st)" "ua_matches (fst (mid_st ma f)) = ma" "snd (mid_st ma f) = snd st"
        "book_event (mid_st ma f) = book_event st" for ma f
        by (auto simp: mid_st_def engine_silent [OF en(1)])
      have fin: "quiet_or_step B st (reduce_order ?k ?q (emit_book en m Book_Execution ?k 0 ?mid price ?q (uo_side ord) printable (mid_st ma f)))"
        if "?mid \<noteq> 0" "fht_wf ma" "fht_map ma = (if fht_map (ua_matches (fst st)) ?mid = None
            then (fht_map (ua_matches (fst st)))(?mid \<mapsto> ?mt) else fht_map (ua_matches (fst st)))" for ma f
      proof -
        have t: "tables_wf (emit_book en m Book_Execution ?k 0 ?mid price ?q (uo_side ord) printable (mid_st ma f))"
          using that(2) w(1) by (simp add: tables_wf_def ms)
        show ?thesis
          using step [OF that(1)] reduce_order_maps [OF t] that(3)
          by (intro stepI [where ev = ?ev]) (simp_all add: ms engine_emit_book [OF en(2)])
      qed
      show ?thesis unfolding exec mid_st_def [symmetric]
      proof (cases rule: fh.insert_cases [OF w(2), where k = ?mid and v = ?mt, case_names invalid duplicate full inserted])
        case (duplicate v)
        then show "quiet_or_step B st (case fht_insert (ua_matches (fst st)) ?mid ?mt of (matches, first) \<Rightarrow>
          if first = Full \<or> first = InvalidKey then count_insert_failure first (set_matches matches st)
          else reduce_order ?k ?q (emit_book en m Book_Execution ?k 0 ?mid price ?q (uo_side ord) printable (mid_st matches first)))"
          using fin [of "ua_matches (fst st)" Duplicate] w by simp
      next
        case (inserted t')
        then show "quiet_or_step B st (case fht_insert (ua_matches (fst st)) ?mid ?mt of (matches, first) \<Rightarrow>
          if first = Full \<or> first = InvalidKey then count_insert_failure first (set_matches matches st)
          else reduce_order ?k ?q (emit_book en m Book_Execution ?k 0 ?mid price ?q (uo_side ord) printable (mid_st matches first)))"
          using fin [of t' Inserted] by simp
      qed (use w in \<open>auto intro!: quietI\<close>)
    qed
  qed
qed

lemma cancel_partial_step:
  assumes en: "silent en" "eo_publish_book_update en = Some B" and wf: "tables_wf st"
  shows "quiet_or_step B st (cancel_partial en m st)"
proof -
  note w = tables_wfD [OF wf]
  let ?k = "read_u64 m 11" and ?q = "ucast (read_u32 m 19) :: u64"
  show ?thesis
  proof (cases "fht_map (ua_orders (fst st)) ?k")
    case None
    then show ?thesis using wf w by (intro quietI) (auto simp: cancel_partial_def fh.find_map)
  next
    case (Some ord)
    show ?thesis
    proof (cases "?q = 0 \<or> uo_remaining ord < ?q")
      case True
      then show ?thesis using Some wf w by (intro quietI) (auto simp: cancel_partial_def fh.find_map)
    next
      case False
      let ?ev = "book_event st m Book_Reduce ?k 0 0 (uo_price_ticks ord) ?q (uo_side ord) False"
      define st1 where "st1 = emit_book en m Book_Reduce ?k 0 0 (uo_price_ticks ord) ?q (uo_side ord) False
        (emit_transaction en m (ua_source_sequence (fst st)) Tx_Cancel (uo_side ord) (uo_price_ticks ord) ?q ?k st)"
      have r: "cancel_partial en m st = reduce_order ?k ?q st1"
        using Some False w by (simp add: cancel_partial_def fh.find_map Let_def st1_def)
      have t: "tables_wf st1" using wf by (simp add: st1_def)
      have "book_step (maps st) ?ev (lower_order (fht_map (ua_orders (fst st))) ?k ?q, fht_map (ua_matches (fst st)))"
        using Some False by (intro book_step.step_reduce [where k = ?k and ord = ord, of ?ev, simplified]) (simp_all add: not_less)
      then show ?thesis unfolding r using reduce_order_maps [OF t]
        by (intro stepI [where ev = ?ev]) (simp_all add: st1_def engine_emit_book [OF en(2)] engine_silent [OF en(1)])
    qed
  qed
qed

lemma cancel_all_step:
  assumes en: "silent en" "eo_publish_book_update en = Some B" and wf: "tables_wf st"
  shows "quiet_or_step B st (cancel_all en m st)"
proof -
  note w = tables_wfD [OF wf]
  let ?k = "read_u64 m 11"
  show ?thesis
  proof (cases "fht_map (ua_orders (fst st)) ?k")
    case None
    then show ?thesis using wf w by (intro quietI) (auto simp: cancel_all_def fh.find_map)
  next
    case (Some ord)
    let ?ev = "book_event st m Book_Delete ?k 0 0 (uo_price_ticks ord) (uo_remaining ord) (uo_side ord) False"
    have "book_step (maps st) ?ev ((fht_map (ua_orders (fst st)))(?k := None), fht_map (ua_matches (fst st)))"
      using Some by (intro book_step.step_delete [where k = ?k and ord = ord]) simp_all
    then show ?thesis using Some w fh.erase_wf [OF w(1)] fh.erase_map [OF w(1)]
      by (intro stepI [where ev = ?ev])
        (simp_all add: cancel_all_def fh.find_map Let_def engine_emit_book [OF en(2)] engine_silent [OF en(1)])
  qed
qed

lemma replace_step:
  assumes en: "silent en" "eo_publish_book_update en = Some B" and wf: "tables_wf st" and valid: "adapter_valid (fst st)"
  shows "quiet_or_step B st (replace en m st)"
proof -
  note w = tables_wfD [OF wf]
  let ?k = "read_u64 m 11" and ?n = "read_u64 m 19" and ?q = "read_u32 m 27" and ?p = "read_u32 m 31"
  let ?t = "ua_orders (fst st)"
  show ?thesis
  proof (cases "fht_map ?t ?k")
    case None
    then show ?thesis using wf w by (intro quietI) (auto simp: replace_def fh.find_map)
  next
    case (Some old)
    let ?ord = "\<lparr>uo_price_ticks = uint ?p, uo_remaining = ucast ?q, uo_side = uo_side old\<rparr>"
    show ?thesis
    proof (cases "?n = 0 \<or> ?q = 0 \<or> ?p = 0 \<or> fht_map ?t ?n \<noteq> None")
      case True
      then show ?thesis using Some wf w by (intro quietI) (auto simp: replace_def fh.find_map Let_def)
    next
      case False
      let ?ev = "book_event st m Book_Replace ?k ?n 0 (uint ?p) (ucast ?q) (uo_side old) False"
      obtain t' where t': "fht_insert (fst (fht_erase ?t ?k)) ?n ?ord = (t', Inserted)" "fht_wf t'"
        "fht_map t' = (fht_map ?t)(?k := None, ?n \<mapsto> ?ord)"
        using fh.erase_then_insert [OF w(1), of ?k ?n ?ord] Some False by auto
      have "order_valid ?ord"
        using False valid Some uint_u32_bounds [of ?p] by (auto simp: order_valid_def adapter_valid_def)
      then have "book_step (maps st) ?ev (fht_map t', fht_map (ua_matches (fst st)))"
        unfolding t'(3) using Some False
        by (intro book_step.step_replace [where k = ?k and k' = ?n and old = old]) simp_all
      then show ?thesis using Some False w t'(1,2)
        by (intro stepI [where ev = ?ev])
          (simp_all add: replace_def fh.find_map Let_def engine_emit_book [OF en(2)] engine_silent [OF en(1)])
    qed
  qed
qed

lemma record_trade_step:
  assumes en: "silent en" "eo_publish_book_update en = Some B" and wf: "tables_wf st"
    and mt: "match_valid mt" "um_emitted mt"
  shows "quiet_or_step B st (record_trade en m mid mt st)"
proof -
  note w = tables_wfD [OF wf]
  show ?thesis
  proof (cases rule: fh.insert_cases [OF w(2), where k = mid and v = mt, case_names invalid duplicate full inserted])
    case (inserted t')
    let ?ev = "book_event st m Book_Trade (um_order_id mt) 0 mid (um_price_ticks mt) (um_quantity mt) (um_side mt) True"
    have "book_step (maps st) ?ev (fht_map (ua_orders (fst st)), fht_map t')"
      unfolding inserted(6) using inserted(1,2) mt
      by (intro book_step.step_trade [of ?ev _ mt, simplified]) simp_all
    then show ?thesis using inserted w
      by (intro stepI [where ev = ?ev])
        (simp_all add: record_trade_def Let_def engine_emit_book [OF en(2)] engine_silent [OF en(1)])
  qed (use w in \<open>auto simp: record_trade_def Let_def intro!: quietI\<close>)
qed

lemma broken_trade_step:
  assumes en: "silent en" "eo_publish_book_update en = Some B" and wf: "tables_wf st"
  shows "quiet_or_step B st (broken_trade en m st)"
proof -
  note w = tables_wfD [OF wf]
  let ?k = "read_u64 m 11"
  show ?thesis
  proof (cases "fht_map (ua_matches (fst st)) ?k")
    case None
    then show ?thesis using wf w by (intro quietI) (auto simp: broken_trade_def fh.find_map)
  next
    case (Some mt)
    let ?ev = "book_event st m Book_TradeBust (um_order_id mt) 0 ?k (um_price_ticks mt) (um_quantity mt) (um_side mt) (um_emitted mt)"
    have "book_step (maps st) ?ev (fht_map (ua_orders (fst st)), (fht_map (ua_matches (fst st)))(?k := None))"
      using Some by (intro book_step.step_bust [of ?ev _ mt, simplified]) simp_all
    then show ?thesis using Some w fh.erase_wf [OF w(2)] fh.erase_map [OF w(2)]
      by (cases "um_emitted mt"; intro stepI [where ev = ?ev])
        (simp_all add: broken_trade_def fh.find_map Let_def engine_emit_book [OF en(2)] engine_silent [OF en(1)])
  qed
qed

lemma dispatch_step:
  assumes en: "silent en" "eo_publish_book_update en = Some B" and valid: "adapter_valid (fst st)"
  shows "quiet_or_step B st (dispatch en m st)"
proof -
  have wf: "tables_wf st" using valid by (simp add: tables_wf_def adapter_valid_def)
  have bad: "quiet_or_step B st (count_malformed st)" "quiet_or_step B st st" using wf by (intro quietI; simp)+
  have "quiet_or_step B st (non_cross_trade en m st)" "quiet_or_step B st (cross_trade en m st)"
    using bad uint_u32_bounds [of "read_u32 m 32"] uint_u32_bounds [of "read_u32 m 27"]
    by (auto simp: non_cross_trade_def cross_trade_def Let_def match_valid_def not_le uint_0_iff intro!: record_trade_step [OF en wf])
  then show ?thesis
    using add_step [OF en wf] execute_step [OF en wf valid] cancel_partial_step [OF en wf] cancel_all_step [OF en wf]
      replace_step [OF en wf valid] broken_trade_step [OF en wf] bad
    by (simp add: dispatch_def Let_def)
qed

lemma on_message_step:
  assumes en: "silent en" "eo_publish_book_update en = Some B" and valid: "adapter_valid (fst st)"
  shows "quiet_or_step B st (on_message en m n st)"
proof -
  have wf: "tables_wf st" using valid by (simp add: tables_wf_def adapter_valid_def)
  obtain a e where st: "st = (a, e)" by (cases st)
  let ?st = "(a\<lparr>ua_source_sequence := ua_source_sequence a + 1\<rparr>, e)"
  have "adapter_valid (fst ?st)" using valid by (simp add: st adapter_valid_def)
  from dispatch_step [OF en this] have "quiet_or_step B st (dispatch en msg ?st)" for msg
    by (simp add: quiet_or_step_def st)
  moreover have "quiet_or_step B st (count_malformed ?st)" "quiet_or_step B st st"
    using wf by (auto simp: st tables_wf_def intro!: quietI)
  ultimately show ?thesis by (auto simp: on_message_def Let_def st split: option.splits)
qed

lemma on_message_valid:
  assumes en: "silent en" "eo_publish_book_update en = Some B" and valid: "adapter_valid (fst st)"
  shows "adapter_valid (fst (on_message en m n st))"
proof -
  have v: "\<forall>k ord. fht_map (ua_orders (fst st)) k = Some ord \<longrightarrow> order_valid ord"
    "\<forall>k mt. fht_map (ua_matches (fst st)) k = Some mt \<longrightarrow> match_valid mt" using valid by (simp_all add: adapter_valid_def)
  let ?st = "on_message en m n st"
  from on_message_step [OF assms, of m n] have t: "tables_wf ?st" by (simp add: quiet_or_step_def)
  consider "maps ?st = maps st" | ev where "book_step (maps st) ev (maps ?st)"
    using on_message_step [OF assms, of m n] unfolding quiet_or_step_def by blast
  then show ?thesis
  proof cases
    case 1
    then show ?thesis using t v by (simp add: adapter_valid_def tables_wf_def)
  next
    case 2
    then show ?thesis using t book_step_valid [OF 2 v] by (simp add: adapter_valid_def tables_wf_def)
  qed
qed

end
