(* ===== verification/Pipeline.thy ===== *)
theory Pipeline
  imports UftEngine UftAdapterProps DenseBookFeed
begin

text \<open>
  \<open>UftOrderBookPipeline\<close> (\<open>include/qtrader/UftOrderBookPipeline.hpp\<close>): one instrument's feed
  session. The pipeline checks transport sequence numbers, hands each message to the ITCH adapter,
  receives the adapter's book updates through the market data engine, applies them to the dense
  order book and a match table, and calls the strategy after each complete message while the feed
  is live.

  The engine's book callback is the pipeline's own \<open>receive\<close>, so the adapter's engine state is the
  pipeline itself; \<open>apply\<close> does not touch the adapter. The strategy is external code: it is an
  argument that maps what it is called with to the calls it makes back into the pipeline.
\<close>

section \<open>State\<close>

datatype BookFeedState = Feed_Live | Feed_Recovering | Feed_Faulted
datatype BookIngestResult = Ingest_Applied | Ingest_Duplicate | Ingest_Gap | Ingest_Faulted

record pipeline_match =
  pm_quantity :: Quantity
  pm_printable :: bool
  pm_busted :: bool

definition pipeline_match_default :: pipeline_match where
  "pipeline_match_default = \<lparr>pm_quantity = 0, pm_printable = False, pm_busted = False\<rparr>"

record UftOrderBookPipeline =
  pl_session :: bytes
  pl_next :: u64
  pl_high_water :: u64
  pl_callbacks :: u64
  pl_adapter :: NasdaqItchUftAdapter
  pl_book :: DensePriceOrderBook
  pl_matches :: "pipeline_match FixedHashTable"
  pl_engine :: "unit UftBookMarketDataEngine"
  pl_state :: BookFeedState
  pl_error :: "string option"
  pl_last :: UftBookUpdate
  pl_net_volume :: Quantity
  pl_pending :: bool
  pl_started :: bool
  pl_in_ingest :: bool

datatype pipeline_error = Invalid_order_capacity | Table_error table_error | Invalid_price_grid | Invalid_configuration

definition checked_orders :: "nat \<Rightarrow> pipeline_error + nat" where
  "checked_orders n = (if n = 0 \<or> n \<ge> UINT32_MAX then Inl Invalid_order_capacity else Inr n)"

definition levels :: "PriceTicks \<Rightarrow> PriceTicks \<Rightarrow> PriceTicks \<Rightarrow> pipeline_error + nat" where
  "levels lo hi tick =
     (if lo \<le> 0 \<or> hi < lo \<or> tick \<le> 0 \<or> (hi - lo) mod tick \<noteq> 0 \<or> (hi - lo) div tick > int UINT32_MAX - 64
      then Inl Invalid_price_grid
      else Inr (nat ((hi - lo) div tick + 1)))"

definition UftOrderBookPipeline_new :: "bytes \<Rightarrow> u64 \<Rightarrow> u16 \<Rightarrow> nat \<Rightarrow> nat \<Rightarrow> PriceTicks \<Rightarrow> PriceTicks \<Rightarrow> PriceTicks \<Rightarrow>
    pipeline_error + UftOrderBookPipeline" where
  "UftOrderBookPipeline_new session first_sequence locator max_orders max_matches minimum maximum tick =
     (case checked_orders max_orders of Inl e \<Rightarrow> Inl e | Inr orders \<Rightarrow>
      case NasdaqItchUftAdapter_new 0 locator orders max_matches of Inl e \<Rightarrow> Inl (Table_error e) | Inr adapter \<Rightarrow>
      case levels minimum maximum tick of Inl e \<Rightarrow> Inl e | Inr level_count \<Rightarrow>
      case FixedHashTable_new pipeline_match_default max_matches of Inl e \<Rightarrow> Inl (Table_error e) | Inr matches \<Rightarrow>
        let engine = UftBookMarketDataEngine_new 1 1 1;
            (base, registered) = register_instrument (be_engine engine) 0 (Some ''ITCH.BOOK'') minimum maximum tick;
            engine = engine\<lparr>be_engine := base\<rparr>;
            bad = (session = [] \<or> first_sequence = 0 \<or> first_sequence = UINT64_MAX) in
        if bad \<or> \<not> registered then Inl Invalid_configuration
        else case register_book engine 0 True (Some ()) of (engine, booked) \<Rightarrow>
          if \<not> booked then Inl Invalid_configuration
          else Inr \<lparr>pl_session = session, pl_next = first_sequence, pl_high_water = 0, pl_callbacks = 0,
            pl_adapter = adapter, pl_book = DensePriceOrderBook_new max_orders minimum tick level_count,
            pl_matches = matches, pl_engine = engine, pl_state = Feed_Live, pl_error = None,
            pl_last = UftBookUpdate_default, pl_net_volume = 0, pl_pending = False, pl_started = False,
            pl_in_ingest = False\<rparr>)"

section \<open>Faults and book updates\<close>

definition fault :: "string \<Rightarrow> UftOrderBookPipeline \<Rightarrow> UftOrderBookPipeline" where
  "fault reason p = p\<lparr>pl_state := Feed_Faulted, pl_error := (if pl_error p = None then Some reason else pl_error p)\<rparr>"

definition record_match :: "UftBookUpdate \<Rightarrow> UftOrderBookPipeline \<Rightarrow> UftOrderBookPipeline \<times> bool" where
  "record_match e p =
     (case fht_find (pl_matches p) (bu_match_id e) of
        Some match \<Rightarrow> (p, \<not> pm_busted match)
      | None \<Rightarrow>
          if bu_printable e \<and> bu_quantity e > UINT64_MAX - pl_net_volume p then (p, False)
          else case fht_insert (pl_matches p) (bu_match_id e)
                      \<lparr>pm_quantity = bu_quantity e, pm_printable = bu_printable e, pm_busted = False\<rparr> of
            (matches, r) \<Rightarrow>
              let p = p\<lparr>pl_matches := matches\<rparr> in
              if r \<noteq> Inserted then (p, False)
              else (if bu_printable e then p\<lparr>pl_net_volume := pl_net_volume p + bu_quantity e\<rparr> else p, True))"

definition bust_match :: "UftBookUpdate \<Rightarrow> UftOrderBookPipeline \<Rightarrow> UftOrderBookPipeline \<times> bool" where
  "bust_match e p =
     (case fht_find (pl_matches p) (bu_match_id e) of
        None \<Rightarrow> (p, False)
      | Some match \<Rightarrow>
          if pm_busted match then (p, False)
          else
            let p = (if pm_printable match then p\<lparr>pl_net_volume := pl_net_volume p - pm_quantity match\<rparr> else p)
            in (p\<lparr>pl_matches := fht_store (pl_matches p) (bu_match_id e) (match\<lparr>pm_busted := True\<rparr>)\<rparr>, True))"

text \<open>A call of a book operation, made only if \<open>ok\<close> still holds (\<open>ok && book_.f(...)\<close>).\<close>

definition and_book :: "bool \<Rightarrow> (DensePriceOrderBook \<Rightarrow> DensePriceOrderBook \<times> bool) \<Rightarrow> UftOrderBookPipeline \<Rightarrow>
    UftOrderBookPipeline \<times> bool" where
  "and_book ok f p = (if ok then (case f (pl_book p) of (b, r) \<Rightarrow> (p\<lparr>pl_book := b\<rparr>, r)) else (p, False))"

definition mutate :: "UftBookUpdate \<Rightarrow> UftOrderBookPipeline \<Rightarrow> UftOrderBookPipeline \<times> bool" where
  "mutate e p =
     (let ok = (bu_quantity e \<noteq> 0);
          side = (if bu_side e = UftSide_Buy then Buy else Sell) in
      case bu_action e of
        Book_Add \<Rightarrow> and_book (ok \<and> (bu_side e = UftSide_Buy \<or> bu_side e = UftSide_Sell))
          (\<lambda>b. feed_add b (bu_order_id e) side (bu_price_ticks e) (bu_quantity e)) p
      | Book_Reduce \<Rightarrow> and_book ok (\<lambda>b. feed_reduce b (bu_order_id e) (bu_quantity e)) p
      | Book_Delete \<Rightarrow> and_book (ok \<and> remaining (pl_book p) (bu_order_id e) = bu_quantity e)
          (\<lambda>b. feed_delete b (bu_order_id e)) p
      | Book_Replace \<Rightarrow> and_book ok
          (\<lambda>b. feed_replace b (bu_order_id e) (bu_new_order_id e) (bu_price_ticks e) (bu_quantity e)) p
      | Book_Execution \<Rightarrow>
          (case and_book ok (\<lambda>b. feed_reduce b (bu_order_id e) (bu_quantity e)) p of (p, ok) \<Rightarrow>
             if ok then record_match e p else (p, False))
      | Book_Trade \<Rightarrow> (if ok then record_match e p else (p, False))
      | Book_TradeBust \<Rightarrow> bust_match e p)"

definition apply_update :: "UftBookUpdate \<Rightarrow> UftOrderBookPipeline \<Rightarrow> UftOrderBookPipeline" where
  "apply_update e p =
     (if pl_state p = Feed_Faulted then p
      else case mutate e p of (p, ok) \<Rightarrow>
        if \<not> ok then fault ''invalid mutation or exhausted book/match capacity'' p
        else p\<lparr>pl_last := e, pl_pending := True\<rparr>)"

text \<open>The pipeline's engine as the adapter sees it.\<close>

definition pipeline_engine :: "UftOrderBookPipeline engine_ops" where
  "pipeline_engine =
     \<lparr>eo_publish_order_detail = (\<lambda>ev p. (p, snd (publish_order_detail (be_engine (pl_engine p)) ev))),
      eo_publish_transaction = (\<lambda>tx p. (p, snd (publish_transaction (be_engine (pl_engine p)) tx))),
      eo_publish_book_update = Some (\<lambda>ev p.
        case publish_book_update (pl_engine p) ev of (calls, n) \<Rightarrow> (fold (\<lambda>_. apply_update ev) calls p, n))\<rparr>"

section \<open>The feed\<close>

record strategy_call =
  sc_book :: DensePriceOrderBook
  sc_update :: "UftBookUpdate option"
  sc_sequence :: u64
  sc_net_volume :: Quantity

definition pipeline_start :: "bool \<Rightarrow> bool \<Rightarrow> UftOrderBookPipeline \<Rightarrow> UftOrderBookPipeline \<times> bool" where
  "pipeline_start strategy_present callback_present p =
     (if pl_started p \<or> \<not> strategy_present \<or> \<not> callback_present then (p, False)
      else case start (be_engine (pl_engine p)) of (base, ok) \<Rightarrow>
        (p\<lparr>pl_engine := (pl_engine p)\<lparr>be_engine := base\<rparr>, pl_started := ok\<rparr>, ok))"

definition note_gap :: "u64 \<Rightarrow> UftOrderBookPipeline \<Rightarrow> UftOrderBookPipeline" where
  "note_gap highest_sequence p =
     (if pl_state p = Feed_Faulted \<or> highest_sequence < pl_next p then p
      else p\<lparr>pl_state := Feed_Recovering, pl_high_water := max (pl_high_water p) highest_sequence\<rparr>)"

definition invalidate :: "UftOrderBookPipeline \<Rightarrow> UftOrderBookPipeline" where
  "invalidate p = fault ''external feed/session failure'' p"

text \<open>Calls back from the strategy; \<open>ingest\<close> refuses them as reentrant.\<close>

datatype reentry = Re_ingest | Re_note_gap u64 | Re_invalidate

fun reenter :: "reentry \<Rightarrow> UftOrderBookPipeline \<Rightarrow> UftOrderBookPipeline" where
  "reenter Re_ingest p = fault ''not started, reentrant, faulted or session mismatch'' p"
| "reenter (Re_note_gap h) p = note_gap h p"
| "reenter Re_invalidate p = invalidate p"

definition counters_changed :: "UftAdapterStats \<Rightarrow> UftAdapterStats \<Rightarrow> bool" where
  "counters_changed before after \<longleftrightarrow>
     us_malformed_or_missing_orders after \<noteq> us_malformed_or_missing_orders before \<or>
     us_capacity_exhaustions after \<noteq> us_capacity_exhaustions before \<or>
     us_unknown_broken_trades after \<noteq> us_unknown_broken_trades before \<or>
     us_undelivered_book_events after \<noteq> us_undelivered_book_events before"

text \<open>The message is handed on and its effects are checked.\<close>

definition run_adapter :: "bytes \<Rightarrow> nat \<Rightarrow> UftOrderBookPipeline \<Rightarrow> UftOrderBookPipeline" where
  "run_adapter message sz p =
     (let before = ua_stats (pl_adapter p);
          p = p\<lparr>pl_in_ingest := True, pl_pending := False\<rparr>;
          (adapter, p) = on_message pipeline_engine (Some message) sz (pl_adapter p, p);
          p = p\<lparr>pl_adapter := adapter\<rparr>
      in if counters_changed before (ua_stats adapter) \<or> active_orders (pl_book p) \<noteq> adapter_active_orders adapter
         then fault ''adapter/book state error; rebuild from trusted session replay'' p else p)"

definition ingest :: "(strategy_call \<Rightarrow> reentry list) \<Rightarrow> bytes \<Rightarrow> u64 \<Rightarrow> bytes option \<Rightarrow> nat \<Rightarrow> UftOrderBookPipeline \<Rightarrow>
    UftOrderBookPipeline \<times> BookIngestResult \<times> strategy_call option" where
  "ingest strategy session sequence message sz p =
     (if \<not> pl_started p \<or> pl_in_ingest p \<or> pl_state p = Feed_Faulted \<or> session \<noteq> pl_session p then
        (fault ''not started, reentrant, faulted or session mismatch'' p, Ingest_Faulted, None)
      else if sequence < pl_next p then (p, Ingest_Duplicate, None)
      else if sequence = UINT64_MAX then (fault ''sequence overflow'' p, Ingest_Faulted, None)
      else if sequence > pl_next p then
        (p\<lparr>pl_state := Feed_Recovering, pl_high_water := max (pl_high_water p) sequence\<rparr>, Ingest_Gap, None)
      else if message = None \<or> sz < 11 \<or> sz \<noteq> expected_message_size (the message ! 0) then
        (fault ''malformed or unsupported ITCH message'' p, Ingest_Faulted, None)
      else
        let p = run_adapter (the message) sz p in
        if pl_state p = Feed_Faulted then (p\<lparr>pl_in_ingest := False\<rparr>, Ingest_Faulted, None)
        else
          let p = p\<lparr>pl_next := pl_next p + 1\<rparr>;
              recovered = (pl_state p = Feed_Recovering \<and> pl_next p > pl_high_water p);
              p = (if recovered then p\<lparr>pl_state := Feed_Live\<rparr> else p);
              (p, call) =
                (if pl_state p = Feed_Live \<and> (pl_pending p \<or> recovered) then
                   let p = p\<lparr>pl_callbacks := pl_callbacks p + 1\<rparr>;
                       call = \<lparr>sc_book = pl_book p, sc_update = (if pl_pending p then Some (pl_last p) else None),
                         sc_sequence = sequence, sc_net_volume = pl_net_volume p\<rparr>
                   in (fold reenter (strategy call) p, Some call)
                 else (p, None));
              p = p\<lparr>pl_in_ingest := False\<rparr>
          in (p, if pl_state p = Feed_Faulted then Ingest_Faulted else Ingest_Applied, call))"

definition ready :: "UftOrderBookPipeline \<Rightarrow> bool" where
  "ready p \<longleftrightarrow> pl_started p \<and> pl_state p = Feed_Live"

end
