(* ===== verification/PipelineSync.thy ===== *)
theory PipelineSync
  imports Pipeline
begin

text \<open>
  What the pipeline keeps in step: the adapter's live orders and the book, the adapter's matches,
  the match table and the printed volume. Each book update that the adapter publishes and the
  pipeline accepts moves both sides alike.
\<close>

section \<open>Live orders and resting orders\<close>

definition resting_of :: "u64 \<Rightarrow> UftOrder \<Rightarrow> resting" where
  "resting_of k ord = \<lparr>rs_id = k, rs_side = (if uo_side ord = UftSide_Buy then Buy else Sell),
     rs_price = uo_price_ticks ord, rs_quantity = uo_remaining ord\<rparr>"

definition mirror :: "order_map \<Rightarrow> resting list \<Rightarrow> bool" where
  "mirror ords os \<longleftrightarrow> distinct (map rs_id os) \<and> (\<forall>k. spec_find os k = map_option (resting_of k) (ords k))"

lemma mirrorD: "mirror ords os \<Longrightarrow> spec_find os k = map_option (resting_of k) (ords k)"
  by (simp add: mirror_def)

lemma resting_of_sel [simp]:
  "rs_id (resting_of k ord) = k" "rs_price (resting_of k ord) = uo_price_ticks ord" "rs_quantity (resting_of k ord) = uo_remaining ord"
  "rs_side (resting_of k ord) = (if uo_side ord = UftSide_Buy then Buy else Sell)"
  by (simp_all add: resting_of_def)

lemma spec_find_Nil [simp]: "spec_find [] k = None"
  by (simp add: spec_find_def)

lemma spec_find_append: "spec_find (os @ [r]) k = (case spec_find os k of None \<Rightarrow> if rs_id r = k then Some r else None | Some x \<Rightarrow> Some x)"
  by (induction os) (auto simp: spec_find_def)

lemma spec_find_remove: "spec_find (spec_remove k' os) k = (if k = k' then None else spec_find os k)"
  by (induction os) (auto simp: spec_find_def spec_remove_def)

lemma spec_find_lower:
  "spec_find (spec_lower k' x os) k = (if k = k' then map_option (\<lambda>r. r\<lparr>rs_quantity := rs_quantity r - x\<rparr>) (spec_find os k) else spec_find os k)"
  by (induction os) (auto simp: spec_find_def spec_lower_def)

lemma mirror_set:
  assumes "mirror ords os"
  shows "set os = {resting_of k ord |k ord. ords k = Some ord}"
proof -
  have "r \<in> set os \<longleftrightarrow> map_option (resting_of (rs_id r)) (ords (rs_id r)) = Some r" for r
    using assms spec_find_in [of os "rs_id r" r] by (simp add: mirror_def)
  then show ?thesis by (auto simp: set_eq_iff) metis
qed

lemma mirror_length:
  assumes "mirror ords os"
  shows "length os = card (dom ords)"
proof -
  have "dom ords = rs_id ` set os" unfolding mirror_set [OF assms] by force
  then show ?thesis using assms distinct_card [of "map rs_id os"] by (simp add: mirror_def)
qed

lemma mirror_append:
  assumes "mirror ords os" "ords k = None"
  shows "mirror (ords(k \<mapsto> ord)) (os @ [resting_of k ord])"
  using assms spec_find_None [of os k]
  by (auto simp: mirror_def spec_find_append split: option.splits)

lemma mirror_remove: "mirror ords os \<Longrightarrow> mirror (ords(k := None)) (spec_remove k os)"
proof -
  assume "mirror ords os"
  moreover have "distinct (map rs_id os) \<Longrightarrow> distinct (map rs_id (spec_remove k os))"
    by (simp add: spec_remove_def distinct_map_filter)
  ultimately show ?thesis by (simp add: mirror_def spec_find_remove)
qed

lemma mirror_lower:
  assumes "mirror ords os" "ords k = Some ord" "q \<noteq> uo_remaining ord"
  shows "mirror (lower_order ords k q) (spec_lower k q os)"
proof -
  have "map rs_id (spec_lower k q os) = map rs_id os" by (simp add: spec_lower_def comp_def if_distrib cong: if_cong)
  then show ?thesis using assms by (auto simp: mirror_def spec_find_lower lower_order_def resting_of_def)
qed

text \<open>The feed operation of a book update.\<close>

fun feed_of :: "UftBookUpdate \<Rightarrow> feed_op option" where
  "feed_of ev = (case bu_action ev of
     Book_Add \<Rightarrow> Some (Feed_add (bu_order_id ev) (if bu_side ev = UftSide_Buy then Buy else Sell) (bu_price_ticks ev) (bu_quantity ev))
   | Book_Reduce \<Rightarrow> Some (Feed_reduce (bu_order_id ev) (bu_quantity ev))
   | Book_Delete \<Rightarrow> Some (Feed_delete (bu_order_id ev))
   | Book_Replace \<Rightarrow> Some (Feed_replace (bu_order_id ev) (bu_new_order_id ev) (bu_price_ticks ev) (bu_quantity ev))
   | Book_Execution \<Rightarrow> Some (Feed_reduce (bu_order_id ev) (bu_quantity ev))
   | Book_Trade \<Rightarrow> None
   | Book_TradeBust \<Rightarrow> None)"

lemma mirror_reduce:
  assumes "mirror ords os" "ords k = Some ord" "spec_feed cap grid os (Feed_reduce k q) = (os', True)"
  shows "mirror (lower_order ords k q) os'"
  using assms mirror_remove [OF assms(1), of k] mirror_lower [OF assms(1,2), of q] mirrorD [OF assms(1), of k]
  by (auto simp: lower_order_def split: if_splits)

lemma mirror_feed:
  assumes "mirror ords os" "book_step (ords, ms) ev (ords', ms')" "feed_of ev = Some op" "spec_feed cap grid os op = (os', True)"
  shows "mirror ords' os'"
  using assms(2)
proof (cases rule: book_step.cases)
  case (step_add k ord)
  then have "os' = os @ [resting_of k ord]" using assms(3,4) by (auto simp: resting_of_def split: if_splits)
  then show ?thesis using step_add mirror_append [OF assms(1), of k ord] by simp
next
  case (step_execution k ord mt)
  then have "op = Feed_reduce k (bu_quantity ev)" using assms(3) by simp
  then show ?thesis using step_execution assms(4) mirror_reduce [OF assms(1) step_execution(4)] by simp
next
  case (step_reduce k ord)
  then have "op = Feed_reduce k (bu_quantity ev)" using assms(3) by simp
  then show ?thesis using step_reduce assms(4) mirror_reduce [OF assms(1) step_reduce(5)] by simp
next
  case (step_delete k ord)
  then show ?thesis using assms mirror_remove [OF assms(1), of k] by (auto split: if_splits)
next
  case (step_replace k old k' ord)
  have "os' = spec_remove k os @ [resting_of k' ord]"
    using step_replace assms(3,4) mirrorD [OF assms(1), of k] by (auto simp: resting_of_def split: if_splits)
  then show ?thesis
    using step_replace mirror_append [OF mirror_remove [OF assms(1), of k], of k' ord] by simp
qed (use assms(3) in simp_all)

lemma mirror_no_feed:
  assumes "book_step (ords, ms) ev (ords', ms')" "feed_of ev = None"
  shows "ords' = ords"
  using assms by (cases rule: book_step.cases) simp_all

section \<open>Matches and the printed volume\<close>

definition tape :: "match_map \<Rightarrow> (u64 \<rightharpoonup> pipeline_match) \<Rightarrow> bool" where
  "tape ms pms \<longleftrightarrow> (\<forall>k. ms k = None \<and> (case pms k of None \<Rightarrow> True | Some m \<Rightarrow> pm_busted m) \<or>
     (\<exists>mt m. ms k = Some mt \<and> pms k = Some m \<and> \<not> pm_busted m \<and> um_quantity mt = pm_quantity m \<and> um_emitted mt = pm_printable m))"

definition volume :: "match_map \<Rightarrow> nat" where
  "volume ms = (\<Sum>k\<in>{k. \<exists>mt. ms k = Some mt \<and> um_emitted mt}. unat (um_quantity (the (ms k))))"

lemma tapeD:
  assumes "tape ms pms"
  shows "ms k = Some mt \<Longrightarrow> \<exists>m. pms k = Some m \<and> \<not> pm_busted m \<and> um_quantity mt = pm_quantity m \<and> um_emitted mt = pm_printable m"
    "ms k = None \<Longrightarrow> pms k = Some m \<Longrightarrow> pm_busted m" "pms k = None \<Longrightarrow> ms k = None"
    "pms k = Some m \<Longrightarrow> \<not> pm_busted m \<Longrightarrow> ms k \<noteq> None"
  using assms unfolding tape_def by (force split: option.splits)+

lemma tape_finite: "tape ms pms \<Longrightarrow> finite (dom pms) \<Longrightarrow> finite (dom ms)"
  by (rule finite_subset [of _ "dom pms"]) (auto dest: tapeD(1))

lemma tape_insert:
  assumes "tape ms pms" "um_quantity mt = q" "um_emitted mt = pr"
  shows "tape (ms(k \<mapsto> mt)) (pms(k \<mapsto> \<lparr>pm_quantity = q, pm_printable = pr, pm_busted = False\<rparr>))"
  using assms unfolding tape_def by simp

lemma tape_bust: "tape ms pms \<Longrightarrow> tape (ms(k := None)) (pms(k \<mapsto> m\<lparr>pm_busted := True\<rparr>))"
  unfolding tape_def by simp

lemma volume_set_finite: "finite (dom ms) \<Longrightarrow> finite {k. \<exists>mt. ms k = Some mt \<and> um_emitted mt}"
  by (rule finite_subset [of _ "dom ms"]) auto

lemma volume_insert:
  assumes "finite (dom ms)" "ms k = None"
  shows "volume (ms(k \<mapsto> mt)) = volume ms + (if um_emitted mt then unat (um_quantity mt) else 0)"
proof -
  let ?S = "{k. \<exists>mt. ms k = Some mt \<and> um_emitted mt}"
  have S: "{j. \<exists>x. (ms(k \<mapsto> mt)) j = Some x \<and> um_emitted x} = (if um_emitted mt then insert k ?S else ?S)"
    using assms(2) by auto
  have "k \<notin> ?S" using assms(2) by simp
  then have "(\<Sum>j\<in>?S. unat (um_quantity (the ((ms(k \<mapsto> mt)) j)))) = volume ms"
    unfolding volume_def by (intro sum.cong) auto
  then show ?thesis
    using volume_set_finite [OF assms(1)] \<open>k \<notin> ?S\<close> unfolding volume_def [of "ms(k \<mapsto> mt)"] S by (cases "um_emitted mt") simp_all
qed

lemma volume_remove:
  assumes "finite (dom ms)" "ms k = Some mt"
  shows "volume ms = volume (ms(k := None)) + (if um_emitted mt then unat (um_quantity mt) else 0)"
proof -
  have "(ms(k := None))(k \<mapsto> mt) = ms" using assms(2) by auto
  then show ?thesis using volume_insert [of "ms(k := None)" k mt] assms(1) by simp
qed

section \<open>An accepted update keeps both sides in step\<close>

definition taped :: "match_map \<Rightarrow> UftOrderBookPipeline \<Rightarrow> bool" where
  "taped ms p \<longleftrightarrow> fht_wf (pl_matches p) \<and> tape ms (fht_map (pl_matches p)) \<and> unat (pl_net_volume p) = volume ms"

definition synced :: "order_map \<times> match_map \<Rightarrow> UftOrderBookPipeline \<Rightarrow> bool" where
  "synced s p \<longleftrightarrow> taped (snd s) p \<and> (\<exists>os. implements (pl_book p) os \<and> mirror (fst s) os)"

lemma taped_frame [simp]: "taped ms (p\<lparr>pl_book := b\<rparr>) = taped ms p"
  by (simp add: taped_def)

lemma unat_add_limit: "\<not> (UINT64_MAX - v < q) \<Longrightarrow> unat (v + q) = unat v + unat (q :: u64)"
proof -
  assume a: "\<not> (UINT64_MAX - v < q)"
  have m: "unat UINT64_MAX = 18446744073709551615" by (simp add: unsigned_minus_1_eq_mask mask_eq_exp_minus_1)
  have "unat (UINT64_MAX - v) = 18446744073709551615 - unat v"
    unfolding m [symmetric] by (rule unat_sub) simp
  then have "unat v + unat q < 2 ^ LENGTH(64)"
    using a unat_u64_less [of v] by (simp add: not_less word_le_nat_alt)
  then show ?thesis by (rule unat_add_lem [THEN iffD1])
qed

lemma taped_finite: "taped ms p \<Longrightarrow> finite (dom ms)"
  using tape_finite fh.dom_finite by (auto simp: taped_def)

lemma record_taped:
  assumes t: "taped ms p" and r: "record_match e p = (p', True)"
    and mt: "um_quantity mt = bu_quantity e" "um_emitted mt = bu_printable e"
  shows "taped (if ms (bu_match_id e) = None then ms(bu_match_id e \<mapsto> mt) else ms) p'"
proof -
  let ?k = "bu_match_id e"
  let ?m = "\<lparr>pm_quantity = bu_quantity e, pm_printable = bu_printable e, pm_busted = False\<rparr>"
  have wf: "fht_wf (pl_matches p)" and tp: "tape ms (fht_map (pl_matches p))" and v: "unat (pl_net_volume p) = volume ms"
    using t by (simp_all add: taped_def)
  show ?thesis
  proof (cases "fht_map (pl_matches p) ?k")
    case (Some m)
    then have "p' = p" "\<not> pm_busted m" using r wf by (simp_all add: record_match_def fh.find_map)
    then show ?thesis using tapeD(4) [OF tp Some] t by auto
  next
    case None
    then have ms: "ms ?k = None" by (rule tapeD(3) [OF tp])
    show ?thesis
    proof (cases rule: fh.insert_cases [OF wf, where k = ?k and v = ?m, case_names invalid duplicate full inserted])
      case (inserted t')
      have lim: "\<not> (UINT64_MAX - pl_net_volume p < bu_quantity e)" if "bu_printable e"
        using r None wf that by (auto simp: record_match_def fh.find_map)
      have p': "p' = (if bu_printable e then p\<lparr>pl_matches := t', pl_net_volume := pl_net_volume p + bu_quantity e\<rparr>
          else p\<lparr>pl_matches := t'\<rparr>)"
        using r None wf inserted by (auto simp: record_match_def fh.find_map split: if_splits)
      have "unat (pl_net_volume p') = volume (ms(?k \<mapsto> mt))"
        using volume_insert [OF taped_finite [OF t] ms, of mt] mt v unat_add_limit [OF lim] by (simp add: p')
      moreover have "pl_matches p' = t'" by (simp add: p')
      ultimately show ?thesis
        using ms inserted tape_insert [OF tp mt, of ?k] unfolding taped_def by simp
    qed (use r None wf in \<open>auto simp: record_match_def fh.find_map Let_def split: if_splits\<close>)
  qed
qed

lemma bust_taped:
  assumes t: "taped ms p" and r: "bust_match e p = (p', True)" and m: "ms (bu_match_id e) = Some mt"
  shows "taped (ms(bu_match_id e := None)) p'"
proof -
  let ?k = "bu_match_id e"
  have wf: "fht_wf (pl_matches p)" and tp: "tape ms (fht_map (pl_matches p))" and v: "unat (pl_net_volume p) = volume ms"
    using t by (simp_all add: taped_def)
  obtain pm where pm: "fht_map (pl_matches p) ?k = Some pm" "\<not> pm_busted pm" "um_quantity mt = pm_quantity pm" "um_emitted mt = pm_printable pm"
    using tapeD(1) [OF tp m] by blast
  have p': "p' = p\<lparr>pl_net_volume := (if pm_printable pm then pl_net_volume p - pm_quantity pm else pl_net_volume p),
      pl_matches := fht_store (pl_matches p) ?k (pm\<lparr>pm_busted := True\<rparr>)\<rparr>"
    using r wf pm by (auto simp: bust_match_def fh.find_map)
  have vol: "volume ms = volume (ms(?k := None)) + (if um_emitted mt then unat (um_quantity mt) else 0)"
    by (rule volume_remove [OF taped_finite [OF t] m])
  have "unat (pl_net_volume p') = volume (ms(?k := None))"
  proof (cases "pm_printable pm")
    case True
    then have "unat (pm_quantity pm) \<le> unat (pl_net_volume p)" using vol v pm by simp
    then show ?thesis using True vol v pm by (simp add: p' unat_sub word_le_nat_alt)
  qed (use vol v pm in \<open>simp add: p'\<close>)
  then show ?thesis using tape_bust [OF tp, of ?k pm] fh.store_wf [OF wf] fh.store_map [OF wf] pm by (simp add: taped_def p')
qed

lemma feed_synced:
  assumes s: "synced (ords, ms) p" and b: "book_step (ords, ms) ev (ords', ms')" and f: "feed_of ev = Some op"
    and r: "book_feed (pl_book p) op = (b', True)"
  shows "\<exists>os. implements b' os \<and> mirror ords' os"
proof -
  obtain os where os: "implements (pl_book p) os" "mirror ords os" using s by (auto simp: synced_def)
  obtain os' where "implements b' os'"
    "spec_feed (db_order_capacity (pl_book p)) (\<lambda>x. price_index (pl_book p) x \<noteq> None) os op = (os', True)"
    using r by (rule_tac p = op in book_feed_step [OF os(1)]) auto
  then show ?thesis using mirror_feed [OF os(2) b f] by blast
qed

lemma and_book_True: "and_book ok f p = (p', True) \<longleftrightarrow> ok \<and> (\<exists>b. f (pl_book p) = (b, True) \<and> p' = p\<lparr>pl_book := b\<rparr>)"
  by (auto simp: and_book_def split: prod.splits)

lemma mutate_synced:
  assumes s: "synced (ords, ms) p" and b: "book_step (ords, ms) ev (ords', ms')" and r: "mutate ev p = (p', True)"
  shows "synced (ords', ms') p'"
  using b
proof (cases rule: book_step.cases)
  case (step_execution k ord mt)
  obtain b' where b': "feed_reduce (pl_book p) k (bu_quantity ev) = (b', True)" "record_match ev (p\<lparr>pl_book := b'\<rparr>) = (p', True)"
    using r step_execution by (auto simp: mutate_def and_book_def split: prod.splits if_splits)
  have "pl_book p' = b'" using b'(2) by (auto simp: record_match_def Let_def split: option.splits if_splits prod.splits)
  moreover have "taped ms' p'"
    using record_taped [OF _ b'(2), of ms mt] s step_execution by (simp add: synced_def)
  ultimately show ?thesis using feed_synced [OF s b, of "Feed_reduce k (bu_quantity ev)" b'] b'(1) step_execution
    by (simp add: synced_def)
next
  case (step_trade mt)
  have rec: "record_match ev p = (p', True)" using r step_trade by (auto simp: mutate_def Let_def split: if_splits)
  then have "pl_book p' = pl_book p" by (auto simp: record_match_def Let_def split: option.splits if_splits prod.splits)
  then show ?thesis using record_taped [OF _ rec, of ms mt] s step_trade by (simp add: synced_def)
next
  case (step_bust mt)
  have rec: "bust_match ev p = (p', True)" using r step_bust by (auto simp: mutate_def Let_def split: if_splits)
  then have "pl_book p' = pl_book p" by (auto simp: bust_match_def Let_def split: option.splits if_splits prod.splits)
  then show ?thesis using bust_taped [OF _ rec, of ms mt] s step_bust by (simp add: synced_def)
next
  case (step_add k ord)
  then obtain b' where "p' = p\<lparr>pl_book := b'\<rparr>" "book_feed (pl_book p) (the (feed_of ev)) = (b', True)"
    using r by (auto simp: mutate_def and_book_True Let_def)
  then show ?thesis using feed_synced [OF s b, of "the (feed_of ev)" b'] s step_add by (simp add: synced_def)
next
  case (step_reduce k ord)
  then obtain b' where "p' = p\<lparr>pl_book := b'\<rparr>" "book_feed (pl_book p) (the (feed_of ev)) = (b', True)"
    using r by (auto simp: mutate_def and_book_True Let_def)
  then show ?thesis using feed_synced [OF s b, of "the (feed_of ev)" b'] s step_reduce by (simp add: synced_def)
next
  case (step_delete k ord)
  then obtain b' where "p' = p\<lparr>pl_book := b'\<rparr>" "book_feed (pl_book p) (the (feed_of ev)) = (b', True)"
    using r by (auto simp: mutate_def and_book_True Let_def)
  then show ?thesis using feed_synced [OF s b, of "the (feed_of ev)" b'] s step_delete by (simp add: synced_def)
next
  case (step_replace k old k' ord)
  then obtain b' where "p' = p\<lparr>pl_book := b'\<rparr>" "book_feed (pl_book p) (the (feed_of ev)) = (b', True)"
    using r by (auto simp: mutate_def and_book_True Let_def)
  then show ?thesis using feed_synced [OF s b, of "the (feed_of ev)" b'] s step_replace by (simp add: synced_def)
qed

end
