(* ===== verification/UftAdapterThms.thy ===== *)
theory UftAdapterThms
  imports UftAdapterProps
begin

text \<open>
  What the ITCH adapter promises over a whole feed, for any engine: it reads only the bytes of the
  message, its counters balance, its live orders and matches are valid, they do not depend on the
  engine, and the published book updates alone rebuild them.
\<close>

definition adapter_run :: "'e engine_ops \<Rightarrow> (bytes option \<times> nat) list \<Rightarrow> 'e adapter_state \<Rightarrow> 'e adapter_state" where
  "adapter_run en msgs st = foldl (\<lambda>st (m, n). on_message en m n st) st msgs"

lemma adapter_run_simps [simp]:
  "adapter_run en [] st = st" "adapter_run en ((m, n) # msgs) st = adapter_run en msgs (on_message en m n st)"
  by (simp_all add: adapter_run_def)

lemma adapter_run_induct:
  assumes "P st" "\<And>st m n. P st \<Longrightarrow> P (on_message en m n st)"
  shows "P (adapter_run en msgs st)"
  using assms(1)
proof (induction msgs arbitrary: st)
  case (Cons mn msgs)
  then show ?case using assms(2) by (cases mn) simp
qed simp

lemma adapter_new:
  assumes "NasdaqItchUftAdapter_new i l mo mm = Inr a"
  shows "adapter_valid a" "fht_map (ua_orders a) = Map.empty" "fht_map (ua_matches a) = Map.empty"
    "ua_stats a = UftAdapterStats_zero" "ua_instrument_id a = i"
  using assms by (auto simp: NasdaqItchUftAdapter_new_def adapter_valid_def FixedHashTable_new_wf split: sum.splits)

section \<open>The instrument of an adapter\<close>

lemma instrument_messages:
  "ua_instrument_id (fst (add en m st)) = ua_instrument_id (fst st)"
  "ua_instrument_id (fst (execute en m st)) = ua_instrument_id (fst st)"
  "ua_instrument_id (fst (cancel_partial en m st)) = ua_instrument_id (fst st)"
  "ua_instrument_id (fst (cancel_all en m st)) = ua_instrument_id (fst st)"
  "ua_instrument_id (fst (replace en m st)) = ua_instrument_id (fst st)"
  "ua_instrument_id (fst (record_trade en m k mt st)) = ua_instrument_id (fst st)"
  "ua_instrument_id (fst (broken_trade en m st)) = ua_instrument_id (fst st)"
proof -
  have i [simp]: "ua_instrument_id (fst (emit_book en m act oid nid mid p q s pr st)) = ua_instrument_id (fst st)"
    "ua_instrument_id (fst (count_malformed st)) = ua_instrument_id (fst st)" for en m act oid nid mid p q s pr and st :: "'a adapter_state"
    by (rule frameD(5); simp)+
  have ife: "ua_instrument_id (fst (if b then x else y)) = (if b then ua_instrument_id (fst x) else ua_instrument_id (fst y))"
    for b and x y :: "'a adapter_state" by simp
  have red [simp]: "ua_instrument_id (fst (reduce_order k q st)) = ua_instrument_id (fst st)" for k q and st :: "'a adapter_state"
    by (simp add: reduce_order_def Let_def split: option.split)
  show "ua_instrument_id (fst (add en m st)) = ua_instrument_id (fst st)"
    by (simp add: add_def Let_def case_prod_unfold)
  show "ua_instrument_id (fst (execute en m st)) = ua_instrument_id (fst st)"
    by (cases "fht_find (ua_orders (fst st)) (read_u64 m 11)") (simp_all add: execute_def Let_def case_prod_unfold ife)
  show "ua_instrument_id (fst (cancel_partial en m st)) = ua_instrument_id (fst st)"
    "ua_instrument_id (fst (cancel_all en m st)) = ua_instrument_id (fst st)"
    "ua_instrument_id (fst (replace en m st)) = ua_instrument_id (fst st)"
    "ua_instrument_id (fst (broken_trade en m st)) = ua_instrument_id (fst st)"
    by (simp_all add: cancel_partial_def cancel_all_def replace_def broken_trade_def Let_def case_prod_unfold ife split: option.split)
  show "ua_instrument_id (fst (record_trade en m k mt st)) = ua_instrument_id (fst st)"
    by (simp add: record_trade_def Let_def case_prod_unfold ife)
qed

lemma instrument_on_message: "ua_instrument_id (fst (on_message en m n st)) = ua_instrument_id (fst st)"
proof -
  have i [simp]: "ua_instrument_id (fst (count_malformed st)) = ua_instrument_id (fst st)" for st :: "'a adapter_state"
    by (rule frameD(5)) simp
  have "ua_instrument_id (fst (dispatch en msg st)) = ua_instrument_id (fst st)" for msg and st :: "'a adapter_state"
    by (simp add: dispatch_def non_cross_trade_def cross_trade_def Let_def instrument_messages)
  then show ?thesis by (cases st) (simp add: on_message_def Let_def split: option.split)
qed

section \<open>The tables do not depend on the engine\<close>

definition same_tables :: "'e adapter_state \<Rightarrow> 'f adapter_state \<Rightarrow> bool" where
  "same_tables st st' \<longleftrightarrow> ua_orders (fst st) = ua_orders (fst st') \<and> ua_matches (fst st) = ua_matches (fst st') \<and>
     ua_locator (fst st) = ua_locator (fst st')"

lemma locator_frame [simp]:
  "ua_locator (fst (upd_stats f st)) = ua_locator (fst st)" "ua_locator (fst (count_malformed st)) = ua_locator (fst st)"
  "ua_locator (fst (count_insert_failure r st)) = ua_locator (fst st)" "ua_locator (fst (count_duplicate st)) = ua_locator (fst st)"
  "ua_locator (fst (emit_book en m act oid nid mid p q s pr st)) = ua_locator (fst st)"
  "ua_locator (fst (emit_order en m oid ord st)) = ua_locator (fst st)"
  "ua_locator (fst (emit_transaction en m tid ty s p q oid st)) = ua_locator (fst st)"
  by (rule frameD(4); simp)+

lemma sel_if:
  "ua_orders (fst (if b then x else y)) = (if b then ua_orders (fst x) else ua_orders (fst y))"
  "ua_matches (fst (if b then x else y)) = (if b then ua_matches (fst x) else ua_matches (fst y))"
  "ua_locator (fst (if b then x else y)) = (if b then ua_locator (fst x) else ua_locator (fst y))"
  by simp_all

lemma same_tables_messages:
  assumes "same_tables st st'"
  shows "same_tables (add en m st) (add en' m st')" "same_tables (cancel_partial en m st) (cancel_partial en' m st')"
    "same_tables (cancel_all en m st) (cancel_all en' m st')" "same_tables (replace en m st) (replace en' m st')"
    "same_tables (record_trade en m k mt st) (record_trade en' m k mt st')"
    "same_tables (broken_trade en m st) (broken_trade en' m st')" "same_tables (execute en m st) (execute en' m st')"
proof -
  note eqs = assms [unfolded same_tables_def]
  show "same_tables (add en m st) (add en' m st')"
    using eqs by (auto simp: same_tables_def add_def Let_def split: prod.splits)
  show "same_tables (cancel_partial en m st) (cancel_partial en' m st')"
    using eqs by (auto simp: same_tables_def cancel_partial_def Let_def reduce_order_def split: option.splits)
  show "same_tables (cancel_all en m st) (cancel_all en' m st')"
    using eqs by (auto simp: same_tables_def cancel_all_def Let_def split: option.splits)
  show "same_tables (replace en m st) (replace en' m st')"
    using eqs by (auto simp: same_tables_def replace_def Let_def split: option.splits prod.splits)
  show "same_tables (record_trade en m k mt st) (record_trade en' m k mt st')"
    using eqs by (auto simp: same_tables_def record_trade_def Let_def split: prod.splits)
  show "same_tables (broken_trade en m st) (broken_trade en' m st')"
    using eqs by (auto simp: same_tables_def broken_trade_def Let_def split: option.splits)
  show "same_tables (execute en m st) (execute en' m st')"
    using eqs
    by (cases "fht_find (ua_orders (fst st)) (read_u64 m 11)")
      (simp_all add: same_tables_def execute_def Let_def reduce_order_def case_prod_unfold sel_if cong: if_cong)
qed
lemma same_tables_on_message:
  assumes "same_tables st st'"
  shows "same_tables (on_message en m n st) (on_message en' m n st')"
proof -
  have bump: "same_tables (case st of (a, e) \<Rightarrow> (a\<lparr>ua_source_sequence := ua_source_sequence a + 1\<rparr>, e))
    (case st' of (a, e) \<Rightarrow> (a\<lparr>ua_source_sequence := ua_source_sequence a + 1\<rparr>, e))"
    using assms by (cases st; cases st') (simp add: same_tables_def)
  have count: "same_tables (count_malformed s) (count_malformed s')" if "same_tables s s'"
    for s :: "'a adapter_state" and s' :: "'b adapter_state" using that by (simp add: same_tables_def)
  have "same_tables (dispatch en msg s) (dispatch en' msg s')" if "same_tables s s'"
    for msg and s :: "'a adapter_state" and s' :: "'b adapter_state"
    using same_tables_messages [OF that] count [OF that] that
    by (simp add: dispatch_def non_cross_trade_def cross_trade_def Let_def)
  then show ?thesis
    using assms bump count unfolding on_message_def Let_def
    by (simp add: same_tables_def [of st] split: option.split)
qed

lemma same_tables_run:
  assumes "same_tables st st'"
  shows "same_tables (adapter_run en msgs st) (adapter_run en' msgs st')"
  using assms
proof (induction msgs arbitrary: st st')
  case (Cons mn msgs)
  then show ?case using same_tables_on_message [OF Cons.prems] by (cases mn) simp
qed simp

text \<open>An engine that records the book updates it gets.\<close>

definition recorder :: "UftBookUpdate list engine_ops" where
  "recorder = \<lparr>eo_publish_order_detail = (\<lambda>_ log. (log, 0)), eo_publish_transaction = (\<lambda>_ log. (log, 0)),
     eo_publish_book_update = Some (\<lambda>ev log. (log @ [ev], 1))\<rparr>"

lemma recorder_silent: "silent recorder" "eo_publish_book_update recorder = Some (\<lambda>ev log. (log @ [ev], 1))"
  by (simp_all add: recorder_def silent_def)

lemma adapter_run_valid:
  assumes "adapter_valid (fst st)"
  shows "adapter_valid (fst (adapter_run en msgs st))"
proof -
  have "adapter_valid (fst (adapter_run recorder msgs (fst st, [])))"
    using assms on_message_valid [OF recorder_silent] by (intro adapter_run_induct [where P = "\<lambda>st. adapter_valid (fst st)"]) simp_all
  moreover have "same_tables (adapter_run recorder msgs (fst st, [])) (adapter_run en msgs st)"
    by (rule same_tables_run) (simp add: same_tables_def)
  ultimately show ?thesis by (simp add: same_tables_def adapter_valid_def)
qed

section \<open>Replaying the book channel\<close>

text \<open>What a consumer of the book channel does with an update: no message is needed.\<close>

fun replay_update :: "order_map \<times> match_map \<Rightarrow> UftBookUpdate \<Rightarrow> order_map \<times> match_map" where
  "replay_update (ords, ms) ev =
     (let ord = \<lparr>uo_price_ticks = bu_price_ticks ev, uo_remaining = bu_quantity ev, uo_side = bu_side ev\<rparr>;
          mt = \<lparr>um_price_ticks = bu_price_ticks ev, um_quantity = bu_quantity ev, um_order_id = bu_order_id ev,
            um_side = bu_side ev, um_emitted = bu_printable ev\<rparr>;
          recorded = (if ms (bu_match_id ev) = None then ms(bu_match_id ev \<mapsto> mt) else ms) in
      case bu_action ev of
        Book_Add \<Rightarrow> (ords(bu_order_id ev \<mapsto> ord), ms)
      | Book_Reduce \<Rightarrow> (lower_order ords (bu_order_id ev) (bu_quantity ev), ms)
      | Book_Delete \<Rightarrow> (ords(bu_order_id ev := None), ms)
      | Book_Replace \<Rightarrow> (ords(bu_order_id ev := None, bu_new_order_id ev \<mapsto> ord), ms)
      | Book_Execution \<Rightarrow> (lower_order ords (bu_order_id ev) (bu_quantity ev), recorded)
      | Book_Trade \<Rightarrow> (ords, recorded)
      | Book_TradeBust \<Rightarrow> (ords, ms(bu_match_id ev := None)))"

lemma book_step_replay: "book_step s ev s' \<Longrightarrow> replay_update s ev = s'"
  by (induction rule: book_step.induct) (simp_all add: Let_def)

lemma recorded_replay:
  assumes "adapter_valid (fst st)" "foldl replay_update (Map.empty, Map.empty) (snd st) = maps st"
  shows "foldl replay_update (Map.empty, Map.empty) (snd (on_message recorder m n st)) = maps (on_message recorder m n st)"
proof -
  let ?st = "on_message recorder m n st"
  from on_message_step [OF recorder_silent assms(1), of m n]
  consider "maps ?st = maps st" "snd ?st = snd st" | ev where "book_step (maps st) ev (maps ?st)" "snd ?st = snd st @ [ev]"
    unfolding quiet_or_step_def by auto
  then show ?thesis using assms(2) by cases (simp_all add: book_step_replay del: replay_update.simps)
qed

lemma run_replay:
  assumes "adapter_valid (fst st)" "foldl replay_update (Map.empty, Map.empty) (snd st) = maps st"
  shows "foldl replay_update (Map.empty, Map.empty) (snd (adapter_run recorder msgs st)) = maps (adapter_run recorder msgs st)"
  using adapter_run_induct [where P = "\<lambda>st. adapter_valid (fst st) \<and> foldl replay_update (Map.empty, Map.empty) (snd st) = maps st"
      and en = recorder] assms recorded_replay on_message_valid [OF recorder_silent] by auto

section \<open>Properties\<close>

text \<open>A new adapter for locate code 7, and an order of the feed: buy 5 at price 9 with reference 1.\<close>

definition sample_add :: bytes where
  "sample_add = [65, 0, 7, 0, 0, 0, 0, 0, 0, 0, 0, 0, 0, 0, 0, 0, 0, 0, 1, 66, 0, 0, 0, 5,
     65, 65, 65, 65, 32, 32, 32, 32, 0, 0, 0, 9]"

lemma sample_fields:
  "read_u16 sample_add (Suc 0) = 7" "read_u48 sample_add 5 = 0" "read_u64 sample_add 11 = 1" "sample_add ! 19 = 66"
  "read_u32 sample_add 20 = 5" "read_u32 sample_add 32 = 9" "sample_add ! 0 = 65" "expected_message_size 65 = 36"
  by (simp_all add: sample_add_def read_u16_def read_u48_def read_u64_def read_u32_def expected_message_size_def)

lemma sample_adapter:
  obtains a where "NasdaqItchUftAdapter_new 0 7 4 4 = Inr a"
proof -
  have "rounded_capacity 4 = Inr 8" by (simp add: rounded_capacity_def SIZE_MAX_def while_unfold)
  then show thesis using that by (simp add: NasdaqItchUftAdapter_new_def FixedHashTable_new_def)
qed

lemma sample_run:
  assumes "NasdaqItchUftAdapter_new 0 7 4 4 = Inr a"
  shows "snd (adapter_run recorder [(Some sample_add, 36)] (a, [])) = [\<lparr>bu_source_sequence = 1,
    bu_exchange_time_ns = 0, bu_order_id = 1, bu_new_order_id = 0, bu_match_id = 0, bu_price_ticks = 9, bu_quantity = 5,
    bu_instrument_id = 0, bu_side = UftSide_Buy, bu_action = Book_Add, bu_printable = False\<rparr>]"
proof -
  let ?ord = "\<lparr>uo_price_ticks = 9, uo_remaining = 5, uo_side = UftSide_Buy\<rparr>"
  have a: "ua_locator a = 7" "ua_source_sequence a = 0" "fh_maximum (ua_orders a) = 4" "fh_size (ua_orders a) = 0"
    using assms by (auto simp: NasdaqItchUftAdapter_new_def FixedHashTable_new_wf split: sum.splits)
  have wf: "fht_wf (ua_orders a)" using adapter_new [OF assms] by (simp add: adapter_valid_def)
  obtain t' where "fht_insert (ua_orders a) 1 ?ord = (t', Inserted)"
    using fh.insert_fresh [OF wf, of 1 ?ord] adapter_new [OF assms] a by auto
  then show ?thesis
    using a adapter_new [OF assms]
    by (simp add: on_message_def dispatch_def add_def sample_fields side_of_def emit_order_def emit_book_def
        book_publish_def recorder_def upd_stats_def set_orders_def Let_def)
qed

text \<open>
  C8. The book channel is complete: whatever the messages, the book updates that a new adapter
  publishes, replayed in order from empty maps, give exactly its live orders (reference, side,
  price and remaining quantity) and its unbroken matches. A consumer of the channel needs no
  message of the feed.
\<close>

theorem adapter_updates_replay:
  assumes "NasdaqItchUftAdapter_new i l mo mm = Inr a" "adapter_run recorder msgs (a, []) = (a', log)"
  shows "foldl replay_update (Map.empty, Map.empty) log = (fht_find (ua_orders a'), fht_find (ua_matches a'))"
proof -
  note new = adapter_new [OF assms(1)]
  have "adapter_valid a'" using adapter_run_valid [of "(a, [])" recorder msgs] new(1) assms(2) by simp
  then have "fht_find (ua_orders a') = fht_map (ua_orders a')" "fht_find (ua_matches a') = fht_map (ua_matches a')"
    by (auto simp: adapter_valid_def fh.find_map)
  then show ?thesis using run_replay [of "(a, [])" msgs] new assms(2) by simp
qed

theorem adapter_updates_replay_witness:
  "\<exists>a. NasdaqItchUftAdapter_new 0 7 4 4 = Inr a \<and>
     fht_find (ua_orders (fst (adapter_run recorder [(Some sample_add, 36)] (a, [])))) =
       [1 \<mapsto> \<lparr>uo_price_ticks = 9, uo_remaining = 5, uo_side = UftSide_Buy\<rparr>]"
proof -
  obtain a where a: "NasdaqItchUftAdapter_new 0 7 4 4 = Inr a" by (rule sample_adapter)
  have "adapter_run recorder [(Some sample_add, 36)] (a, []) =
    (fst (adapter_run recorder [(Some sample_add, 36)] (a, [])), snd (adapter_run recorder [(Some sample_add, 36)] (a, [])))"
    by simp
  from adapter_updates_replay [OF a this] show ?thesis
    unfolding sample_run [OF a] using a by (auto simp: Let_def)
qed

text \<open>
  C37. The live orders and the matches of an adapter are well typed after any messages and for any
  engine: every live order has a known side, a non-zero remaining quantity and a positive price of
  32 bits, and every match has a non-zero quantity and a positive price; and the engine has no
  influence on them.
\<close>

theorem adapter_live_orders_valid:
  assumes "NasdaqItchUftAdapter_new i l mo mm = Inr a" "adapter_run en msgs (a, e) = (a', e')"
  shows "(\<forall>k ord. fht_find (ua_orders a') k = Some ord \<longrightarrow> k \<noteq> 0 \<and> uo_side ord \<noteq> UftSide_Unknown \<and> uo_remaining ord \<noteq> 0 \<and>
      0 < uo_price_ticks ord \<and> uo_price_ticks ord < 2 ^ 32) \<and>
    (\<forall>k mt. fht_find (ua_matches a') k = Some mt \<longrightarrow> k \<noteq> 0 \<and> um_quantity mt \<noteq> 0 \<and> 0 < um_price_ticks mt \<and>
      um_price_ticks mt < 2 ^ 32) \<and>
    ua_orders a' = ua_orders (fst (adapter_run recorder msgs (a, []))) \<and> ua_matches a' = ua_matches (fst (adapter_run recorder msgs (a, [])))"
proof -
  have v: "adapter_valid a'" using adapter_run_valid [of "(a, e)" en msgs] adapter_new(1) [OF assms(1)] assms(2) by simp
  then have "fht_find (ua_orders a') = fht_map (ua_orders a')" "fht_find (ua_matches a') = fht_map (ua_matches a')"
    by (auto simp: adapter_valid_def fh.find_map)
  moreover have "fht_map (ua_orders a') 0 = None" "fht_map (ua_matches a') 0 = None" by (simp_all add: fh.zero_absent)
  moreover have "same_tables (adapter_run en msgs (a, e)) (adapter_run recorder msgs (a, []))"
    by (rule same_tables_run) (simp add: same_tables_def)
  ultimately show ?thesis using v assms(2)
    by (auto simp: adapter_valid_def order_valid_def match_valid_def same_tables_def)
qed

theorem adapter_live_orders_valid_witness:
  "\<exists>a. NasdaqItchUftAdapter_new 0 7 4 4 = Inr a \<and>
     (\<exists>ord. fht_find (ua_orders (fst (adapter_run recorder [(Some sample_add, 36)] (a, [])))) 1 = Some ord \<and>
        uo_side ord \<noteq> UftSide_Unknown \<and> 0 < uo_price_ticks ord)"
proof -
  obtain a where a: "NasdaqItchUftAdapter_new 0 7 4 4 = Inr a" by (rule sample_adapter)
  let ?st = "adapter_run recorder [(Some sample_add, 36)] (a, [])"
  have valid: "adapter_valid (fst ?st)" using adapter_run_valid [of "(a, [])"] adapter_new(1) [OF a] by (metis fst_conv)
  have "foldl replay_update (Map.empty, Map.empty) (snd ?st) = maps ?st"
    by (rule run_replay) (use adapter_new [OF a] in simp_all)
  then have "fht_map (ua_orders (fst ?st)) = fst (foldl replay_update (Map.empty, Map.empty) (snd ?st))" by (metis fst_conv)
  then have "fht_map (ua_orders (fst ?st)) 1 \<noteq> None" unfolding sample_run [OF a] by (simp add: Let_def)
  then obtain ord where "fht_find (ua_orders (fst ?st)) 1 = Some ord" using valid by (auto simp: adapter_valid_def fh.find_map)
  then show ?thesis using adapter_live_orders_valid [OF a, of recorder "[(Some sample_add, 36)]" "[]" "fst ?st" "snd ?st"] a by auto
qed

text \<open>
  The counters of an adapter balance after any messages and for any engine, modulo their 64
  bits: every order detail and every transaction was delivered or counted as undelivered, and the
  transactions are the matches, the cancels and the trade busts.
\<close>

lemma adapter_accounting:
  assumes "NasdaqItchUftAdapter_new i l mo mm = Inr a" "s = ua_stats (fst (adapter_run en msgs (a, e)))"
  shows "us_order_details s + us_transactions s =
      us_order_events_delivered s + us_transaction_events_delivered s + us_undelivered_events s \<and>
    us_transactions s = us_matches s + us_cancels s + us_trade_busts s"
proof -
  have "balanced (a, e)" using adapter_new(4) [OF assms(1)] by (simp add: stats_balanced_def UftAdapterStats_zero_def)
  then have "balanced (adapter_run en msgs (a, e))"
    by (intro adapter_run_induct [where P = "\<lambda>st. balanced st"] balanced_on_message)
  then show ?thesis unfolding assms(2) stats_balanced_def .
qed

text \<open>
  C38. Whatever its size, handling a message reads nothing beyond the reported size: two buffers
  that agree on the first \<open>size\<close> bytes are handled alike, with any engine and in any state.
\<close>

theorem adapter_reads_message_only:
  assumes "take sz m = take sz m'"
  shows "on_message en (Some m) sz st = on_message en (Some m') sz st"
proof (cases "sz < 11")
  case True
  then show ?thesis by (simp add: on_message_def)
next
  case False
  have "read_u16 m 1 = read_u16 m' 1"
    using read_take(1) [of 1 sz m] read_take(1) [of 1 sz m'] assms False by simp
  moreover have h: "m ! 0 = m' ! 0"
    using nth_take [of 0 sz m] nth_take [of 0 sz m'] assms False by simp
  moreover have "dispatch en m st' = dispatch en m' st'" if "sz = expected_message_size (m ! 0)" for st'
    using dispatch_take [of sz m en st'] dispatch_take [of sz m' en st'] assms that h False by simp
  ultimately show ?thesis by (simp add: on_message_def Let_def)
qed

theorem adapter_reads_message_only_witness:
  "take 36 sample_add = take 36 (sample_add @ [1, 2, 3]) \<and>
   (\<forall>st. on_message recorder (Some sample_add) 36 st = on_message recorder (Some (sample_add @ [1, 2, 3])) 36 st)"
proof -
  have "take 36 sample_add = take 36 (sample_add @ [1, 2, 3])" by (simp add: sample_add_def)
  then show ?thesis using adapter_reads_message_only by blast
qed

end
