(* ===== verification/PipelineProps.thy ===== *)
theory PipelineProps
  imports PipelineSync UftAdapterThms
begin

text \<open>
  The pipeline over any sequence of calls: the book mirrors the adapter's live orders, the printed
  volume is that of the unbroken printable matches, a fault is final, the strategy is called only
  with a complete book, and a filled gap leads back to the live state.
\<close>

section \<open>Frames\<close>

text \<open>What book updates leave alone.\<close>

definition fixed_part where
  "fixed_part p = (pl_session p, pl_next p, pl_high_water p, pl_callbacks p, pl_adapter p, pl_engine p, pl_started p, pl_in_ingest p)"

lemma mutate_frame:
  "fixed_part (fst (mutate ev p)) = fixed_part p \<and> pl_state (fst (mutate ev p)) = pl_state p"
proof -
  have r: "fixed_part (fst (record_match ev p)) = fixed_part p \<and> pl_state (fst (record_match ev p)) = pl_state p" for p
    by (simp add: record_match_def fixed_part_def Let_def split: option.split prod.split)
  have b: "fixed_part (fst (bust_match ev p)) = fixed_part p \<and> pl_state (fst (bust_match ev p)) = pl_state p"
    by (simp add: bust_match_def fixed_part_def Let_def split: option.split)
  have a: "fixed_part (fst (and_book ok f p)) = fixed_part p \<and> pl_state (fst (and_book ok f p)) = pl_state p" for ok f
    by (simp add: and_book_def fixed_part_def split: prod.split)
  show ?thesis
    by (cases "bu_action ev") (simp_all add: mutate_def Let_def r a b case_prod_unfold)
qed

lemma apply_frame:
  "fixed_part (apply_update ev p) = fixed_part p" "pl_state (apply_update ev p) = pl_state p \<or> pl_state (apply_update ev p) = Feed_Faulted"
  using mutate_frame [of ev p] by (auto simp: apply_update_def fixed_part_def fault_def split: prod.splits)

section \<open>The invariant\<close>

definition attached :: "UftOrderBookPipeline \<Rightarrow> bool" where
  "attached p \<longleftrightarrow> length (be_slots (pl_engine p)) = 1 \<and> be_slots (pl_engine p) ! 0 = Some () \<and>
     ua_instrument_id (pl_adapter p) = 0 \<and> (pl_started p \<longrightarrow> ue_running (be_engine (pl_engine p)))"

definition in_step :: "NasdaqItchUftAdapter \<Rightarrow> UftOrderBookPipeline \<Rightarrow> bool" where
  "in_step a p \<longleftrightarrow> adapter_valid a \<and> synced (fht_map (ua_orders a), fht_map (ua_matches a)) p"

lemma synced_cong:
  "pl_book p' = pl_book p \<Longrightarrow> pl_matches p' = pl_matches p \<Longrightarrow> pl_net_volume p' = pl_net_volume p \<Longrightarrow> synced s p' = synced s p"
  by (simp add: synced_def taped_def)

lemma in_step_cong:
  "pl_book p' = pl_book p \<Longrightarrow> pl_matches p' = pl_matches p \<Longrightarrow> pl_net_volume p' = pl_net_volume p \<Longrightarrow> in_step a p' = in_step a p"
  using synced_cong [of p' p] by (simp add: in_step_def)

lemma in_step_active:
  assumes "in_step a p"
  shows "active_orders (pl_book p) = adapter_active_orders a"
proof -
  obtain os where "implements (pl_book p) os" "mirror (fht_map (ua_orders a)) os" using assms by (auto simp: in_step_def synced_def)
  then show ?thesis
    using mirror_length implements_answers [of "pl_book p" os] fh.size_card [of "ua_orders a"] assms
    by (simp add: book_answers_def adapter_active_orders_def fht_size_def in_step_def adapter_valid_def)
qed

lemma pipeline_engine_silent:
  "silent pipeline_engine"
  "eo_publish_book_update pipeline_engine = Some (\<lambda>ev p. case publish_book_update (pl_engine p) ev of (calls, n) \<Rightarrow> (fold (\<lambda>_. apply_update ev) calls p, n))"
  by (simp_all add: pipeline_engine_def silent_def)

lemma published:
  assumes "attached p" "pl_started p" "bu_instrument_id ev = 0"
  shows "publish_book_update (pl_engine p) ev = ([()], 1)"
  using assms by (simp add: publish_book_update_def attached_def)

text \<open>A message handed to the adapter: the pipeline faults or stays in step with the adapter.\<close>

lemma handed_on:
  assumes att: "attached p" "pl_started p" and st: "pl_state p \<noteq> Feed_Faulted" and sync: "in_step (pl_adapter p) p"
    and om: "on_message pipeline_engine (Some m) sz (pl_adapter p, p\<lparr>pl_in_ingest := True, pl_pending := False\<rparr>) = (a, q)"
  shows "fixed_part q = fixed_part (p\<lparr>pl_in_ingest := True, pl_pending := False\<rparr>)" "ua_instrument_id a = 0"
    "pl_state q = Feed_Faulted \<or> pl_state q = pl_state p \<and> in_step a q"
proof -
  let ?p = "p\<lparr>pl_in_ingest := True, pl_pending := False\<rparr>"
  have valid: "adapter_valid (fst (pl_adapter p, ?p))" using sync by (simp add: in_step_def)
  have a: "adapter_valid a" using on_message_valid [OF pipeline_engine_silent valid, of "Some m" sz] om by simp
  show "ua_instrument_id a = 0"
    using instrument_on_message [of pipeline_engine "Some m" sz "(pl_adapter p, ?p)"] om att by (simp add: attached_def)
  have s: "synced (fht_map (ua_orders (pl_adapter p)), fht_map (ua_matches (pl_adapter p))) ?p"
    using sync synced_cong [of ?p p] by (simp add: in_step_def)
  have "fixed_part q = fixed_part ?p \<and> (pl_state q = Feed_Faulted \<or> pl_state q = pl_state p \<and> in_step a q)"
  proof -
    consider "fht_map (ua_orders a) = fht_map (ua_orders (pl_adapter p))" "fht_map (ua_matches a) = fht_map (ua_matches (pl_adapter p))" "q = ?p"
      | ev where "book_step (fht_map (ua_orders (pl_adapter p)), fht_map (ua_matches (pl_adapter p))) ev (fht_map (ua_orders a), fht_map (ua_matches a))"
        "q = apply_update ev ?p"
      using on_message_step [OF pipeline_engine_silent valid, of "Some m" sz] om published [of ?p] att
      by (auto simp: quiet_or_step_def attached_def)
    then show ?thesis
    proof cases
      case 1
      then show ?thesis using a s by (simp add: in_step_def)
    next
      case (2 ev)
      obtain p2 ok where mu: "mutate ev ?p = (p2, ok)" by fastforce
      have "synced (fht_map (ua_orders a), fht_map (ua_matches a)) p2" if ok
        using mutate_synced [OF s 2(1)] mu that by simp
      then show ?thesis
        using apply_frame [of ev ?p] 2(2) a mu st
        by (auto simp: apply_update_def in_step_def fault_def synced_def taped_def)
    qed
  qed
  then show "fixed_part q = fixed_part ?p" "pl_state q = Feed_Faulted \<or> pl_state q = pl_state p \<and> in_step a q" by blast+
qed

lemma run_adapter_inv:
  fixes m sz
  assumes att: "attached p" "pl_started p" and st: "pl_state p \<noteq> Feed_Faulted" and sync: "in_step (pl_adapter p) p"
  defines "p' \<equiv> run_adapter m sz p"
  shows "attached p' \<and> pl_started p' \<and> pl_in_ingest p' \<and> pl_next p' = pl_next p \<and> pl_high_water p' = pl_high_water p \<and>
    pl_session p' = pl_session p \<and> pl_callbacks p' = pl_callbacks p \<and>
    (pl_state p' = Feed_Faulted \<or> pl_state p' = pl_state p \<and> in_step (pl_adapter p') p')"
proof -
  let ?p = "p\<lparr>pl_in_ingest := True, pl_pending := False\<rparr>"
  obtain a q where om: "on_message pipeline_engine (Some m) sz (pl_adapter p, ?p) = (a, q)" by fastforce
  note h = handed_on [OF att st sync om]
  have "in_step a (q\<lparr>pl_adapter := a\<rparr>) = in_step a q" by (rule in_step_cong) simp_all
  moreover have "p' = q\<lparr>pl_adapter := a\<rparr> \<or> (\<exists>reason. p' = fault reason (q\<lparr>pl_adapter := a\<rparr>))"
    using om by (auto simp: p'_def run_adapter_def Let_def)
  ultimately show ?thesis using att h by (auto simp: fixed_part_def attached_def fault_def)
qed

text \<open>Between two calls: attached, in step, and live exactly when no known message is missing.\<close>

definition pipe_core :: "UftOrderBookPipeline \<Rightarrow> bool" where
  "pipe_core p \<longleftrightarrow> attached p \<and> (pl_state p \<noteq> Feed_Faulted \<longrightarrow> in_step (pl_adapter p) p) \<and>
     (pl_state p = Feed_Recovering \<longrightarrow> pl_next p \<le> pl_high_water p) \<and>
     (pl_state p = Feed_Live \<longrightarrow> pl_high_water p < pl_next p)"

definition pipe_inv :: "UftOrderBookPipeline \<Rightarrow> bool" where
  "pipe_inv p \<longleftrightarrow> pipe_core p \<and> \<not> pl_in_ingest p"

lemma attached_cong [simp]:
  "attached (fault r p) = attached p" "attached (p\<lparr>pl_state := s\<rparr>) = attached p" "attached (p\<lparr>pl_high_water := h\<rparr>) = attached p"
  "attached (p\<lparr>pl_next := n\<rparr>) = attached p" "attached (p\<lparr>pl_callbacks := c\<rparr>) = attached p" "attached (p\<lparr>pl_in_ingest := b\<rparr>) = attached p"
  by (simp_all add: attached_def fault_def)

lemma in_step_frame [simp]:
  "in_step a (fault r p) = in_step a p" "in_step a (p\<lparr>pl_state := s\<rparr>) = in_step a p" "in_step a (p\<lparr>pl_high_water := h\<rparr>) = in_step a p"
  "in_step a (p\<lparr>pl_next := n\<rparr>) = in_step a p" "in_step a (p\<lparr>pl_callbacks := c\<rparr>) = in_step a p" "in_step a (p\<lparr>pl_in_ingest := b\<rparr>) = in_step a p"
  by (rule in_step_cong; simp add: fault_def)+

lemma fault_sel [simp]:
  "pl_state (fault r p) = Feed_Faulted" "pl_adapter (fault r p) = pl_adapter p" "pl_in_ingest (fault r p) = pl_in_ingest p"
  "pl_next (fault r p) = pl_next p" "pl_book (fault r p) = pl_book p" "pl_net_volume (fault r p) = pl_net_volume p"
  "pl_matches (fault r p) = pl_matches p" "pl_started (fault r p) = pl_started p" "pl_high_water (fault r p) = pl_high_water p"
  by (simp_all add: fault_def)

lemma fault_core [simp]: "pipe_core (fault r p) = attached p" "pipe_inv (fault r p) = (attached p \<and> \<not> pl_in_ingest p)"
  by (simp_all add: pipe_core_def pipe_inv_def)

lemma note_gap_core: "pipe_core p \<Longrightarrow> pipe_core (note_gap h p)"
  by (auto simp: note_gap_def pipe_core_def not_less max.coboundedI2)

lemma reenter_core: "pipe_core p \<Longrightarrow> pipe_core (reenter c p)"
  by (cases c) (simp_all add: note_gap_core invalidate_def, simp_all add: pipe_core_def)

lemma reenter_frame:
  "pl_in_ingest (reenter c p) = pl_in_ingest p" "pl_book (reenter c p) = pl_book p" "pl_adapter (reenter c p) = pl_adapter p"
  "pl_next (reenter c p) = pl_next p"
  by (cases c; simp add: note_gap_def invalidate_def)+

lemma reenters:
  "pipe_core p \<Longrightarrow> pipe_core (fold reenter cs p)" "pl_book (fold reenter cs p) = pl_book p" "pl_adapter (fold reenter cs p) = pl_adapter p"
  "pl_next (fold reenter cs p) = pl_next p"
  by (induction cs arbitrary: p) (simp_all add: reenter_core reenter_frame)

text \<open>The branch of \<open>ingest\<close> that applies a message.\<close>

definition accepts :: "bytes \<Rightarrow> u64 \<Rightarrow> bytes option \<Rightarrow> nat \<Rightarrow> UftOrderBookPipeline \<Rightarrow> bool" where
  "accepts session sequence message sz p \<longleftrightarrow> pl_started p \<and> \<not> pl_in_ingest p \<and> pl_state p \<noteq> Feed_Faulted \<and> session = pl_session p \<and>
     sequence = pl_next p \<and> sequence \<noteq> UINT64_MAX \<and> message \<noteq> None \<and> 11 \<le> sz \<and> sz = expected_message_size (the message ! 0)"

definition advance :: "UftOrderBookPipeline \<Rightarrow> UftOrderBookPipeline" where
  "advance p =
     (let q = p\<lparr>pl_next := pl_next p + 1\<rparr> in
      if pl_state p = Feed_Recovering \<and> pl_next p + 1 > pl_high_water p then q\<lparr>pl_state := Feed_Live\<rparr> else q)"

definition notified :: "u64 \<Rightarrow> UftOrderBookPipeline \<Rightarrow> strategy_call" where
  "notified sequence p = \<lparr>sc_book = pl_book p, sc_update = (if pl_pending p then Some (pl_last p) else None),
     sc_sequence = sequence, sc_net_volume = pl_net_volume p\<rparr>"

lemma ingest_accepts:
  assumes "accepts session sequence message sz p"
  defines "p' \<equiv> run_adapter (the message) sz p"
  shows "ingest strategy session sequence message sz p =
    (if pl_state p' = Feed_Faulted then (p'\<lparr>pl_in_ingest := False\<rparr>, Ingest_Faulted, None)
     else if pl_state (advance p') = Feed_Live \<and> (pl_pending p' \<or> pl_state p' = Feed_Recovering) then
       let q = (fold reenter (strategy (notified sequence p')) ((advance p')\<lparr>pl_callbacks := pl_callbacks p' + 1\<rparr>))\<lparr>pl_in_ingest := False\<rparr>
       in (q, if pl_state q = Feed_Faulted then Ingest_Faulted else Ingest_Applied, Some (notified sequence p'))
     else ((advance p')\<lparr>pl_in_ingest := False\<rparr>, Ingest_Applied, None))"
proof -
  let ?skip = "\<not> pl_started p \<or> pl_in_ingest p \<or> pl_state p = Feed_Faulted \<or> session \<noteq> pl_session p"
  have c: "?skip = False" "(sequence < pl_next p) = False" "(sequence = UINT64_MAX) = False" "(pl_next p < sequence) = False"
    "(message = None \<or> sz < 11 \<or> sz \<noteq> expected_message_size (the message ! 0)) = False"
    using assms(1) by (auto simp: accepts_def)
  show ?thesis
    unfolding ingest_def c if_False p'_def [symmetric]
    by (cases "pl_state p'"; cases "pl_next p' + 1 > pl_high_water p'"; cases "pl_pending p'")
      (simp_all add: advance_def notified_def Let_def)
qed

lemma ingest_refuses:
  assumes "\<not> accepts session sequence message sz p"
  obtains (fault) r where "ingest strategy session sequence message sz p = (fault r p, Ingest_Faulted, None)"
  | (duplicate) "ingest strategy session sequence message sz p = (p, Ingest_Duplicate, None)" "sequence < pl_next p"
  | (gap) "ingest strategy session sequence message sz p =
      (p\<lparr>pl_state := Feed_Recovering, pl_high_water := max (pl_high_water p) sequence\<rparr>, Ingest_Gap, None)" "pl_next p < sequence"
      "pl_state p \<noteq> Feed_Faulted"
proof -
  let ?skip = "\<not> pl_started p \<or> pl_in_ingest p \<or> pl_state p = Feed_Faulted \<or> session \<noteq> pl_session p"
  let ?bad = "message = None \<or> sz < 11 \<or> sz \<noteq> expected_message_size (the message ! 0)"
  consider ?skip | "\<not> ?skip" "sequence < pl_next p" | "\<not> ?skip" "\<not> sequence < pl_next p" "sequence = UINT64_MAX"
    | "\<not> ?skip" "sequence \<noteq> UINT64_MAX" "pl_next p < sequence" | "\<not> ?skip" "sequence = pl_next p" "sequence \<noteq> UINT64_MAX" ?bad
    using assms unfolding accepts_def by (metis linorder_neqE not_less)
  then show thesis
  proof cases
    case 1
    then show ?thesis using fault unfolding ingest_def by (simp only: if_True)
  next
    case 2
    then show ?thesis using duplicate unfolding ingest_def by (simp only: if_True if_False)
  next
    case 3
    then show ?thesis using fault unfolding ingest_def by (simp only: if_True if_False simp_thms)
  next
    case 4
    then have "\<not> sequence < pl_next p" by simp
    then show ?thesis using 4 gap unfolding ingest_def by (simp only: if_True if_False de_Morgan_disj simp_thms)
  next
    case 5
    then have "\<not> sequence < pl_next p" "\<not> pl_next p < sequence" by simp_all
    then show ?thesis using 5(1,3,4) fault unfolding ingest_def by (simp only: if_True if_False)
  qed
qed

lemma advance_core:
  assumes "pipe_core p" "pl_state p \<noteq> Feed_Faulted" "pl_next p \<noteq> UINT64_MAX"
  shows "pipe_core (advance p)"
proof -
  have n: "pl_next p < pl_next p + 1" using assms(3) by (simp add: word_less_nat_alt unat_inc)
  then have "pl_high_water p < pl_next p \<Longrightarrow> pl_high_water p < pl_next p + 1" by simp
  then show ?thesis using assms n by (auto simp: pipe_core_def advance_def Let_def not_less)
qed

lemma core_callbacks [simp]: "pipe_core (p\<lparr>pl_callbacks := c\<rparr>) = pipe_core p" "pipe_core (p\<lparr>pl_in_ingest := b\<rparr>) = pipe_core p"
  by (simp_all add: pipe_core_def)

lemma run_adapter_core:
  assumes "accepts session sequence message sz p" "pipe_core p"
  defines "p' \<equiv> run_adapter (the message) sz p"
  shows "pipe_core p'" "pl_next p' = sequence" "sequence \<noteq> UINT64_MAX" "pl_high_water p' = pl_high_water p"
    "pl_state p' = Feed_Faulted \<or> pl_state p' = pl_state p"
proof -
  have "attached p" "pl_started p" "pl_state p \<noteq> Feed_Faulted" "in_step (pl_adapter p) p"
    using assms(1,2) by (auto simp: accepts_def pipe_core_def)
  from run_adapter_inv [OF this, of "the message" sz]
  show "pipe_core p'" "pl_next p' = sequence" "sequence \<noteq> UINT64_MAX" "pl_high_water p' = pl_high_water p"
    "pl_state p' = Feed_Faulted \<or> pl_state p' = pl_state p"
    using assms(1,2) by (auto simp: p'_def pipe_core_def accepts_def)
qed

lemma ingest_inv:
  assumes "pipe_inv p"
  shows "pipe_inv (fst (ingest strategy session sequence message sz p))"
proof (cases "accepts session sequence message sz p")
  case True
  have "pipe_core p" using assms by (simp add: pipe_inv_def)
  note r = run_adapter_core [OF True this]
  have a: "pipe_core (advance (run_adapter (the message) sz p))" if "pl_state (run_adapter (the message) sz p) \<noteq> Feed_Faulted"
    using advance_core [OF r(1) that] r by simp
  show ?thesis using r(1) a unfolding ingest_accepts [OF True] by (simp add: pipe_inv_def Let_def reenters)
next
  case False
  then show ?thesis
  proof (cases rule: ingest_refuses [where strategy = strategy, case_names refused duplicate gap])
    case gap
    then have "pl_next p \<le> max (pl_high_water p) sequence" by (simp add: le_max_iff_disj order.strict_implies_order)
    then show ?thesis using assms gap by (simp add: pipe_inv_def pipe_core_def)
  qed (use assms in \<open>auto simp: pipe_inv_def, auto simp: pipe_core_def\<close>)
qed

section \<open>Histories\<close>

text \<open>A call from outside; for a message, also what the strategy does when it is notified.\<close>

datatype pipeline_call =
    Pl_start bool bool
  | Pl_ingest "strategy_call \<Rightarrow> reentry list" bytes u64 "bytes option" nat
  | Pl_note_gap u64
  | Pl_invalidate

fun pipeline_apply :: "UftOrderBookPipeline \<Rightarrow> pipeline_call \<Rightarrow> UftOrderBookPipeline" where
  "pipeline_apply p (Pl_start strategy callback) = fst (pipeline_start strategy callback p)"
| "pipeline_apply p (Pl_ingest strategy session sequence message sz) = fst (ingest strategy session sequence message sz p)"
| "pipeline_apply p (Pl_note_gap h) = note_gap h p"
| "pipeline_apply p Pl_invalidate = invalidate p"

lemma start_running: "start en = (en', True) \<Longrightarrow> ue_running en'"
  by (auto simp: start_def split: if_splits prod.splits)

lemma pipeline_start_inv: "pipe_inv p \<Longrightarrow> pipe_inv (fst (pipeline_start s c p))"
proof -
  assume "pipe_inv p"
  moreover obtain base ok where st: "start (be_engine (pl_engine p)) = (base, ok)" by fastforce
  ultimately show ?thesis using start_running [of "be_engine (pl_engine p)" base]
    by (simp add: pipeline_start_def pipe_inv_def pipe_core_def attached_def
        in_step_cong [of "p\<lparr>pl_engine := (pl_engine p)\<lparr>be_engine := base\<rparr>, pl_started := ok\<rparr>" p])
qed

lemma pipeline_apply_inv: "pipe_inv p \<Longrightarrow> pipe_inv (pipeline_apply p c)"
proof (cases c)
  case (Pl_note_gap h)
  assume "pipe_inv p"
  then show ?thesis using Pl_note_gap note_gap_core [of p h] by (simp add: pipe_inv_def note_gap_def)
qed (auto simp: pipeline_start_inv ingest_inv invalidate_def, auto simp: pipe_inv_def pipe_core_def)

lemma pipeline_run_inv: "pipe_inv p \<Longrightarrow> pipe_inv (foldl pipeline_apply p calls)"
  by (induction calls arbitrary: p) (simp_all add: pipeline_apply_inv)

lemma pipeline_new_inv:
  assumes "UftOrderBookPipeline_new session first_sequence locator max_orders max_matches minimum maximum tick = Inr p"
  shows "pipe_inv p"
proof -
  obtain n where lv: "levels minimum maximum tick = Inr n"
    using assms by (auto simp: UftOrderBookPipeline_new_def split: sum.splits)
  obtain a where ad: "NasdaqItchUftAdapter_new 0 locator max_orders max_matches = Inr a"
    using assms by (auto simp: UftOrderBookPipeline_new_def checked_orders_def split: sum.splits if_splits)
  obtain t where tb: "FixedHashTable_new pipeline_match_default max_matches = Inr t"
    using assms lv ad by (auto simp: UftOrderBookPipeline_new_def checked_orders_def split: sum.splits if_splits)
  have mo: "max_orders < UINT32_MAX" using assms by (auto simp: UftOrderBookPipeline_new_def checked_orders_def split: if_splits)
  note new = adapter_new [OF ad] FixedHashTable_new_wf [OF tb]
  have "implements (DensePriceOrderBook_new max_orders minimum tick n) []"
    using lv mo by (intro implements_new) (auto simp: levels_def split: if_splits)
  moreover have "first_sequence \<noteq> 0" "pl_state p = Feed_Live" "pl_next p = first_sequence" "pl_high_water p = 0" "pl_adapter p = a"
      "pl_book p = DensePriceOrderBook_new max_orders minimum tick n" "pl_matches p = t" "pl_net_volume p = 0" "\<not> pl_in_ingest p"
    using assms lv ad tb by (auto simp: UftOrderBookPipeline_new_def checked_orders_def Let_def split: if_splits prod.splits)
  moreover have "attached p"
    using assms lv ad tb new
    by (auto simp: UftOrderBookPipeline_new_def checked_orders_def Let_def attached_def register_book_def UftBookMarketDataEngine_new_def
        split: if_splits prod.splits)
  moreover have "mirror Map.empty []" "tape Map.empty Map.empty" "volume Map.empty = 0"
    by (simp_all add: mirror_def tape_def volume_def)
  ultimately show ?thesis using new
    by (auto simp: pipe_inv_def pipe_core_def in_step_def synced_def taped_def word_neq_0_conv)
qed

lemma reached_inv:
  assumes "UftOrderBookPipeline_new session first_sequence locator max_orders max_matches minimum maximum tick = Inr p"
  shows "pipe_inv (foldl pipeline_apply p calls)"
  using assms by (intro pipeline_run_inv pipeline_new_inv)

text \<open>The book shows exactly the live orders of the adapter.\<close>

definition shows_live :: "DensePriceOrderBook \<Rightarrow> NasdaqItchUftAdapter \<Rightarrow> bool" where
  "shows_live b a \<longleftrightarrow> (\<exists>os. book_answers b os \<and> distinct (map rs_id os) \<and>
     set os = {resting_of k ord |k ord. fht_find (ua_orders a) k = Some ord})"

definition printed_volume :: "NasdaqItchUftAdapter \<Rightarrow> nat" where
  "printed_volume a = (\<Sum>k\<in>{k. \<exists>mt. fht_find (ua_matches a) k = Some mt \<and> um_emitted mt}. unat (um_quantity (the (fht_find (ua_matches a) k))))"

lemma in_step_shows:
  assumes "in_step a p"
  shows "shows_live (pl_book p) a" "unat (pl_net_volume p) = printed_volume a"
proof -
  obtain os where os: "implements (pl_book p) os" "mirror (fht_map (ua_orders a)) os" "taped (fht_map (ua_matches a)) p"
    using assms by (auto simp: in_step_def synced_def)
  have f: "fht_find (ua_orders a) k = fht_map (ua_orders a) k" "fht_find (ua_matches a) k = fht_map (ua_matches a) k" for k
    using assms by (auto simp: in_step_def adapter_valid_def fh.find_map)
  show "shows_live (pl_book p) a"
    using implements_answers [OF os(1)] mirror_set [OF os(2)] os(2) unfolding shows_live_def f mirror_def by blast
  show "unat (pl_net_volume p) = printed_volume a" using os(3) by (simp add: printed_volume_def f taped_def volume_def)
qed

section \<open>Recovery\<close>

text \<open>The missing messages handed over one after the other; the result and the notification of each.\<close>

fun replay_gap :: "(strategy_call \<Rightarrow> reentry list) \<Rightarrow> (bytes \<times> nat) list \<Rightarrow> UftOrderBookPipeline \<Rightarrow>
    UftOrderBookPipeline \<times> (BookIngestResult \<times> strategy_call option) list" where
  "replay_gap strategy [] p = (p, [])"
| "replay_gap strategy ((m, n) # msgs) p =
     (case ingest strategy (pl_session p) (pl_next p) (Some m) n p of (p, r) \<Rightarrow>
      case replay_gap strategy msgs p of (p, rs) \<Rightarrow> (p, r # rs))"

lemma fold_reenter_session: "pl_session (fold reenter cs p) = pl_session p"
proof (induction cs arbitrary: p)
  case (Cons c cs)
  then show ?case by (cases c) (simp_all add: note_gap_def invalidate_def fault_def)
qed simp

lemma applied_recovering:
  assumes inv: "pipe_inv p" and rec: "pl_state p = Feed_Recovering"
    and r: "ingest strategy session (pl_next p) message sz p = (p', Ingest_Applied, call)"
  shows "if pl_next p < pl_high_water p
    then call = None \<and> pl_state p' = Feed_Recovering \<and> pl_next p' = pl_next p + 1 \<and> pl_high_water p' = pl_high_water p
    else pl_next p = pl_high_water p \<and> (\<exists>c. call = Some c \<and> sc_sequence c = pl_high_water p \<and>
      (strategy c = [] \<longrightarrow> pl_state p' = Feed_Live))"
proof -
  have acc: "accepts session (pl_next p) message sz p"
    using r by (rule_tac ccontr) (erule ingest_refuses [where strategy = strategy]; auto)
  let ?p = "run_adapter (the message) sz p"
  have core: "pipe_core p" using inv by (simp add: pipe_inv_def)
  note ra = run_adapter_core [OF acc core]
  have st: "pl_state ?p = Feed_Recovering"
    using ra(5) r rec unfolding ingest_accepts [OF acc] by (auto split: if_splits)
  have le: "pl_next p \<le> pl_high_water p" using core rec by (simp add: pipe_core_def)
  have inc: "unat (pl_next p + 1) = unat (pl_next p) + 1" using ra(3) by (rule unat_inc)
  show ?thesis
  proof (cases "pl_next p < pl_high_water p")
    case True
    then have "\<not> pl_high_water p < pl_next p + 1" using inc by (simp add: word_less_nat_alt not_less)
    then show ?thesis using True r st ra unfolding ingest_accepts [OF acc] by (auto simp: advance_def Let_def)
  next
    case False
    then have eq: "pl_next p = pl_high_water p" using le by simp
    moreover have "pl_high_water p < pl_next p + 1" using inc eq by (simp add: word_less_nat_alt)
    ultimately show ?thesis using r st ra unfolding ingest_accepts [OF acc] by (auto simp: advance_def Let_def notified_def)
  qed
qed

lemma replay_recovers:
  assumes "pipe_inv p" "pl_state p = Feed_Recovering" "length msgs = unat (pl_high_water p) - unat (pl_next p) + 1"
    "\<forall>x\<in>set (snd (replay_gap strategy msgs p)). fst x = Ingest_Applied"
  shows "\<exists>c. map snd (snd (replay_gap strategy msgs p)) = replicate (length msgs - 1) None @ [Some c] \<and>
    sc_sequence c = pl_high_water p \<and> (strategy c = [] \<longrightarrow> pl_state (fst (replay_gap strategy msgs p)) = Feed_Live)"
  using assms
proof (induction msgs arbitrary: p)
  case (Cons mn msgs)
  obtain m n where mn: "mn = (m, n)" by (cases mn)
  obtain p' r call where i: "ingest strategy (pl_session p) (pl_next p) (Some m) n p = (p', r, call)" by (metis prod_cases3)
  have r: "r = Ingest_Applied" using Cons.prems(4) i by (simp add: mn split: prod.splits)
  have inv: "pipe_inv p'" using ingest_inv [OF Cons.prems(1)] i by (metis fst_conv)
  note ap = applied_recovering [OF Cons.prems(1,2) i [unfolded r]]
  show ?case
  proof (cases "pl_next p < pl_high_water p")
    case True
    then have n: "call = None" "pl_state p' = Feed_Recovering" "pl_next p' = pl_next p + 1" "pl_high_water p' = pl_high_water p"
      using ap by simp_all
    have "pl_next p \<noteq> UINT64_MAX" using True by (rule less_max_word)
    then have "unat (pl_next p') = unat (pl_next p) + 1" by (simp add: n unat_inc)
    then have len: "length msgs = unat (pl_high_water p') - unat (pl_next p') + 1" "0 < length msgs"
      using Cons.prems(3) True n(4) by (simp_all add: word_less_nat_alt)
    then obtain c where "map snd (snd (replay_gap strategy msgs p')) = replicate (length msgs - 1) None @ [Some c]"
      "sc_sequence c = pl_high_water p" "strategy c = [] \<longrightarrow> pl_state (fst (replay_gap strategy msgs p')) = Feed_Live"
      using Cons.IH [OF inv n(2)] Cons.prems(4) n(4) i by (auto simp: mn split: prod.splits)
    then show ?thesis using i n(1) len(2)
      by (cases msgs) (auto simp: mn case_prod_unfold)
  next
    case False
    then have "msgs = []" using Cons.prems(3) by (simp add: word_less_nat_alt)
    then show ?thesis using ap False i by (auto simp: mn)
  qed
qed simp

text \<open>A message of another instrument is applied without effect on the book.\<close>

lemma foreign_applied:
  assumes acc: "accepts session sequence (Some m) sz p" and inv: "pipe_inv p" and loc: "read_u16 m 1 \<noteq> ua_locator (pl_adapter p)"
  shows "fst (snd (ingest (\<lambda>_. []) session sequence (Some m) sz p)) = Ingest_Applied"
proof -
  let ?p = "p\<lparr>pl_in_ingest := True, pl_pending := False\<rparr>"
  have "in_step (pl_adapter p) p" using acc inv by (auto simp: accepts_def pipe_inv_def pipe_core_def)
  then have "run_adapter m sz p = ?p"
    using loc in_step_active by (simp add: run_adapter_def on_message_def counters_changed_def Let_def)
  moreover have "pl_state p \<noteq> Feed_Faulted" using acc by (simp add: accepts_def)
  ultimately show ?thesis unfolding ingest_accepts [OF acc] by (simp add: advance_def Let_def)
qed

section \<open>Construction\<close>

lemma rounded_capacity_ok: "(\<exists>c. rounded_capacity n = Inr c) \<longleftrightarrow> 0 < n \<and> n \<le> 2 ^ 62"
proof
  assume "\<exists>c. rounded_capacity n = Inr c"
  then obtain m where "m + 3 \<le> 63" "2 * n \<le> 2 ^ (m + 3)" "n \<noteq> 0" using rounded_capacity_cases by blast
  then show "0 < n \<and> n \<le> 2 ^ 62" using power_increasing [of "m + 3" 63 "2 :: nat"] by simp
next
  assume n: "0 < n \<and> n \<le> 2 ^ 62"
  then have "n \<le> SIZE_MAX div 2" by (simp add: SIZE_MAX_def)
  then show "\<exists>c. rounded_capacity n = Inr c" using rounded_loop [of n] n by (auto simp: rounded_capacity_def)
qed

lemma table_new_ok: "(\<exists>t. FixedHashTable_new v n = Inr t) \<longleftrightarrow> 0 < n \<and> n \<le> 2 ^ 62"
  unfolding rounded_capacity_ok [symmetric] by (auto simp: FixedHashTable_new_def split: sum.splits)

lemma adapter_new_ok:
  "(\<exists>a. NasdaqItchUftAdapter_new i l mo mm = Inr a) \<longleftrightarrow> 0 < mo \<and> mo \<le> 2 ^ 62 \<and> 0 < mm \<and> mm \<le> 2 ^ 62"
  using table_new_ok [of UftOrder_default mo] table_new_ok [of UftMatch_default mm]
  by (auto simp: NasdaqItchUftAdapter_new_def split: sum.splits)

lemma engine_new:
  assumes "minimum \<le> maximum" "0 < tick"
  obtains en where "register_instrument (be_engine (UftBookMarketDataEngine_new 1 1 1 :: unit UftBookMarketDataEngine)) 0 (Some ''ITCH.BOOK'') minimum maximum tick = (en, True)"
    "register_book ((UftBookMarketDataEngine_new 1 1 1)\<lparr>be_engine := en\<rparr>) 0 True (Some ()) = (\<lparr>be_engine = en, be_slots = [Some ()]\<rparr>, True)"
    "snd (start en)"
  using assms that
  by (simp add: register_instrument_def UftBookMarketDataEngine_new_def UftMarketDataEngine_new_def scanned_length_def
      kMaximumStandardCode_def register_book_def instrument_def start_def Let_def)

lemma pipeline_new_ok:
  assumes "0 < max_orders" "max_orders < UINT32_MAX" "0 < max_matches" "max_matches \<le> 2 ^ 62" "0 < minimum" "minimum \<le> maximum"
    "0 < tick" "(maximum - minimum) mod tick = 0" "(maximum - minimum) div tick \<le> int UINT32_MAX - 64"
    "session \<noteq> []" "first_sequence \<noteq> 0" "first_sequence \<noteq> UINT64_MAX"
  obtains p where "UftOrderBookPipeline_new session first_sequence locator max_orders max_matches minimum maximum tick = Inr p"
    "pl_session p = session" "pl_next p = first_sequence" "pl_state p = Feed_Live" "pl_high_water p = 0"
    "ua_locator (pl_adapter p) = locator" "\<not> pl_started p" "\<not> pl_in_ingest p" "snd (start (be_engine (pl_engine p)))"
proof -
  have "max_orders \<le> 2 ^ 62" using assms(2) by simp
  then obtain a where a: "NasdaqItchUftAdapter_new 0 locator max_orders max_matches = Inr a" "ua_locator a = locator"
    using adapter_new_ok [of 0 locator max_orders max_matches] assms by (fastforce simp: NasdaqItchUftAdapter_new_def split: sum.splits)
  obtain t where t: "FixedHashTable_new pipeline_match_default max_matches = Inr t"
    using table_new_ok [of pipeline_match_default max_matches] assms by blast
  obtain en where "register_instrument (be_engine (UftBookMarketDataEngine_new 1 1 1 :: unit UftBookMarketDataEngine)) 0 (Some ''ITCH.BOOK'') minimum maximum tick = (en, True)"
    "register_book ((UftBookMarketDataEngine_new 1 1 1)\<lparr>be_engine := en\<rparr>) 0 True (Some ()) = (\<lparr>be_engine = en, be_slots = [Some ()]\<rparr>, True)"
    "snd (start en)" using engine_new [OF assms(6,7)] by blast
  then show thesis using that a t assms
    by (simp add: UftOrderBookPipeline_new_def checked_orders_def levels_def Let_def)
qed

end
