(* ===== verification/PipelineThms.thy ===== *)
theory PipelineThms
  imports PipelineProps
begin

text \<open>
  The properties of the order book pipeline, with a sample pipeline for locate code 7 on the price
  grid 1 to 20 that takes the order of the adapter's sample message.
\<close>

section \<open>A sample pipeline\<close>

definition sample_session :: bytes where
  "sample_session = replicate 10 65"

lemma sample_session_length [simp]: "length sample_session = 10" "sample_session \<noteq> []"
  by (simp_all add: sample_session_def)

abbreviation sample_new :: "pipeline_error + UftOrderBookPipeline" where
  "sample_new \<equiv> UftOrderBookPipeline_new sample_session 1 7 4 4 1 20 1"

lemma sample_pipeline:
  obtains p where "sample_new = Inr p" "pl_session p = sample_session" "pl_next p = 1" "pl_state p = Feed_Live" "pl_high_water p = 0"
    "ua_locator (pl_adapter p) = 7" "\<not> pl_started p" "\<not> pl_in_ingest p" "snd (start (be_engine (pl_engine p)))"
  by (rule pipeline_new_ok [of 4 4 1 20 1 sample_session 1 7]) auto

lemma sample_started:
  assumes "snd (start (be_engine (pl_engine p)))" "\<not> pl_started p"
  shows "pl_started (pipeline_apply p (Pl_start True True))"
    "pl_session (pipeline_apply p (Pl_start True True)) = pl_session p" "pl_next (pipeline_apply p (Pl_start True True)) = pl_next p"
    "pl_state (pipeline_apply p (Pl_start True True)) = pl_state p" "pl_high_water (pipeline_apply p (Pl_start True True)) = pl_high_water p"
    "pl_adapter (pipeline_apply p (Pl_start True True)) = pl_adapter p" "pl_in_ingest (pipeline_apply p (Pl_start True True)) = pl_in_ingest p"
    "pl_book (pipeline_apply p (Pl_start True True)) = pl_book p"
  using assms by (auto simp: pipeline_start_def split: prod.splits)

text \<open>The book of a new pipeline takes the sample order.\<close>

lemma new_book_sel:
  "db_order_capacity (DensePriceOrderBook_new c m t l) = c" "db_minimum_price (DensePriceOrderBook_new c m t l) = m"
  "db_tick_size (DensePriceOrderBook_new c m t l) = t" "db_level_count (DensePriceOrderBook_new c m t l) = l"
  by (simp_all add: DensePriceOrderBook_new_def Let_def)

lemma sample_feed:
  assumes "sample_new = Inr p"
  shows "snd (feed_add (pl_book p) 1 Buy 9 5)" "implements (pl_book p) []"
proof -
  have b: "pl_book p = DensePriceOrderBook_new 4 1 1 20"
    using assms by (auto simp: UftOrderBookPipeline_new_def checked_orders_def levels_def Let_def split: sum.splits prod.splits if_splits)
  show i: "implements (pl_book p) []" unfolding b by (rule implements_new) simp_all
  have g: "price_index (pl_book p) 9 \<noteq> None" "db_order_capacity (pl_book p) = 4"
    by (simp_all add: b price_index_def new_book_sel Let_def)
  show "snd (feed_add (pl_book p) 1 Buy 9 5)"
  proof (rule book_feed_step [OF i, of "Feed_add 1 Buy 9 5"])
    fix b' os' r
    assume "book_feed (pl_book p) (Feed_add 1 Buy 9 5) = (b', r)"
      "spec_feed (db_order_capacity (pl_book p)) (\<lambda>x. price_index (pl_book p) x \<noteq> None) [] (Feed_add 1 Buy 9 5) = (os', r)"
    then show "snd (feed_add (pl_book p) 1 Buy 9 5)" using g by simp
  qed
qed

text \<open>The pipeline after \<open>start\<close> and the sample message is live, with the order in the adapter.\<close>

abbreviation sample_calls :: "pipeline_call list" where
  "sample_calls \<equiv> [Pl_start True True, Pl_ingest (\<lambda>_. []) sample_session 1 (Some sample_add) 36]"

lemma sample_accepts:
  assumes "sample_new = Inr p" "pl_session p = sample_session" "pl_next p = 1" "pl_state p = Feed_Live"
    "\<not> pl_started p" "\<not> pl_in_ingest p" "snd (start (be_engine (pl_engine p)))"
  shows "accepts sample_session 1 (Some sample_add) 36 (pipeline_apply p (Pl_start True True))"
  using sample_started [OF assms(7,5)] assms by (simp add: accepts_def sample_fields del: pipeline_apply.simps)

lemma sample_applied:
  assumes new: "sample_new = Inr p" "pl_session p = sample_session" "pl_next p = 1" "pl_state p = Feed_Live" "pl_high_water p = 0"
    "ua_locator (pl_adapter p) = 7" "\<not> pl_started p" "\<not> pl_in_ingest p" "snd (start (be_engine (pl_engine p)))"
  shows "pl_state (run_adapter sample_add 36 (pipeline_apply p (Pl_start True True))) = Feed_Live"
    "pl_pending (run_adapter sample_add 36 (pipeline_apply p (Pl_start True True)))"
proof -
  define q where "q = pipeline_apply p (Pl_start True True)"
  define q' where "q' = q\<lparr>pl_in_ingest := True, pl_pending := False\<rparr>"
  define a where "a = pl_adapter p"
  note s = sample_started [OF new(9,7), folded q_def]
  have inv: "pipe_inv q" unfolding q_def by (rule pipeline_apply_inv [OF pipeline_new_inv [OF new(1)]])
  then have att: "attached q'" "pl_started q'" "in_step a q'"
    using s new(4) in_step_cong [of q' q] by (simp_all add: pipe_inv_def pipe_core_def q'_def a_def attached_def)
  have wf: "fht_wf (ua_orders a)" "ua_instrument_id a = 0" using att s by (auto simp: in_step_def adapter_valid_def attached_def a_def q'_def)
  obtain os where "implements (pl_book q') os" "mirror (fht_map (ua_orders a)) os" using att(3) by (auto simp: in_step_def synced_def)
  obtain ad where ad: "NasdaqItchUftAdapter_new 0 7 4 4 = Inr a"
    using new(1) by (auto simp: UftOrderBookPipeline_new_def checked_orders_def a_def Let_def split: sum.splits prod.splits if_splits)
  note an = adapter_new [OF ad]
  have sz: "fh_maximum (ua_orders a) = 4" "fh_size (ua_orders a) = 0"
    using ad by (auto simp: NasdaqItchUftAdapter_new_def FixedHashTable_new_wf split: sum.splits)
  let ?ord = "\<lparr>uo_price_ticks = 9, uo_remaining = 5, uo_side = UftSide_Buy\<rparr>"
  obtain t' where t': "fht_insert (ua_orders a) 1 ?ord = (t', Inserted)" "fht_wf t'" "fht_map t' = [1 \<mapsto> ?ord]"
    using fh.insert_fresh [OF wf(1), of 1 ?ord] an sz by auto
  define ev where "ev = \<lparr>bu_source_sequence = ua_source_sequence a + 1, bu_exchange_time_ns = 0, bu_order_id = 1, bu_new_order_id = 0,
    bu_match_id = 0, bu_price_ticks = 9, bu_quantity = 5, bu_instrument_id = 0, bu_side = UftSide_Buy, bu_action = Book_Add,
    bu_printable = False\<rparr>"
  have pub: "publish_book_update (pl_engine q') ev = ([()], 1)" using published [OF att(1,2)] by (simp add: ev_def)
  have loc: "ua_locator a = 7" using new(6) by (simp add: a_def)
  have om: "snd (on_message pipeline_engine (Some sample_add) 36 (a, q')) = apply_update ev q'"
    "\<not> counters_changed (ua_stats a) (ua_stats (fst (on_message pipeline_engine (Some sample_add) 36 (a, q'))))"
    using t'(1) loc wf(2) pub unfolding ev_def
    by (simp_all add: on_message_def dispatch_def add_def sample_fields side_of_def emit_order_def emit_book_def
        book_publish_def pipeline_engine_def upd_stats_def set_orders_def counters_changed_def Let_def)
  have feed: "snd (feed_add (pl_book q') 1 Buy 9 5)" using sample_feed(1) [OF new(1)] s(8) by (simp add: q'_def)
  have ap: "pl_state (apply_update ev q') = Feed_Live" "pl_pending (apply_update ev q')"
    using feed s(4) new(4) by (auto simp: apply_update_def mutate_def and_book_def ev_def q'_def Let_def split: prod.splits)
  obtain a' where a': "on_message pipeline_engine (Some sample_add) 36 (pl_adapter q, q\<lparr>pl_in_ingest := True, pl_pending := False\<rparr>) = (a', apply_update ev q')"
    using om(1) s(6) by (metis a_def q'_def prod.collapse)
  have "attached q" "pl_started q" "pl_state q \<noteq> Feed_Faulted" "in_step (pl_adapter q) q"
    using inv s(1,4) new(4) by (auto simp: pipe_inv_def pipe_core_def)
  from handed_on(3) [OF this a'] have "active_orders (pl_book (apply_update ev q')) = adapter_active_orders a'"
    using ap(1) in_step_active by simp
  moreover have "\<not> counters_changed (ua_stats (pl_adapter q)) (ua_stats a')"
    using om(2) a' s(6) by (simp add: a_def q'_def)
  ultimately have "run_adapter sample_add 36 q = (apply_update ev q')\<lparr>pl_adapter := a'\<rparr>"
    using a' by (simp add: run_adapter_def Let_def)
  then show "pl_state (run_adapter sample_add 36 (pipeline_apply p (Pl_start True True))) = Feed_Live"
    "pl_pending (run_adapter sample_add 36 (pipeline_apply p (Pl_start True True)))"
    using ap by (simp_all add: q_def [symmetric] del: pipeline_apply.simps)
qed

lemma sample_live:
  obtains p where "sample_new = Inr p" "pl_state (foldl pipeline_apply p sample_calls) = Feed_Live"
    "\<exists>q c. ingest (\<lambda>_. []) sample_session 1 (Some sample_add) 36 (foldl pipeline_apply p [Pl_start True True]) = (q, Ingest_Applied, Some c)"
proof -
  obtain p where new: "sample_new = Inr p" "pl_session p = sample_session" "pl_next p = 1" "pl_state p = Feed_Live" "pl_high_water p = 0"
    "ua_locator (pl_adapter p) = 7" "\<not> pl_started p" "\<not> pl_in_ingest p" "snd (start (be_engine (pl_engine p)))"
    by (rule sample_pipeline)
  note acc = sample_accepts [OF new(1-4,7-9)]
  define q where "q = pipeline_apply p (Pl_start True True)"
  have "\<exists>r c. ingest (\<lambda>_. []) sample_session 1 (Some sample_add) 36 q = (r, Ingest_Applied, Some c) \<and> pl_state r = Feed_Live"
    using ingest_accepts [OF acc, of "\<lambda>_. []"] sample_applied [OF new]
    by (simp add: q_def [symmetric] advance_def Let_def del: pipeline_apply.simps)
  then show thesis using that [OF new(1)] by (auto simp: q_def)
qed

section \<open>Properties\<close>

text \<open>
  C4. The book is the feed's: after any sequence of starts, messages (accepted or refused, with a
  strategy that calls back in any way), gap reports and invalidations on a new pipeline, as long as
  it has not faulted, every query of the order book answers as the list of exactly the live orders
  of the ITCH adapter, with side, price and remaining quantity.
\<close>

theorem pipeline_book_mirrors_feed:
  assumes "UftOrderBookPipeline_new session first_sequence locator max_orders max_matches minimum maximum tick = Inr p\<^sub>0"
    "p = foldl pipeline_apply p\<^sub>0 calls" "pl_state p \<noteq> Feed_Faulted"
  shows "shows_live (pl_book p) (pl_adapter p) \<and> active_orders (pl_book p) = adapter_active_orders (pl_adapter p)"
proof -
  have "in_step (pl_adapter p) p" using reached_inv [OF assms(1), of calls] assms(2,3) by (auto simp: pipe_inv_def pipe_core_def)
  then show ?thesis using in_step_shows(1) in_step_active by blast
qed

theorem pipeline_book_mirrors_feed_witness:
  "\<exists>p\<^sub>0. sample_new = Inr p\<^sub>0 \<and> pl_state (foldl pipeline_apply p\<^sub>0 sample_calls) = Feed_Live \<and>
     shows_live (pl_book (foldl pipeline_apply p\<^sub>0 sample_calls)) (pl_adapter (foldl pipeline_apply p\<^sub>0 sample_calls))"
proof -
  obtain p where p: "sample_new = Inr p" "pl_state (foldl pipeline_apply p sample_calls) = Feed_Live" by (rule sample_live)
  then show ?thesis using pipeline_book_mirrors_feed [OF p(1) refl, of sample_calls] by (metis BookFeedState.distinct(3))
qed

text \<open>
  C18. The printed volume is exact: in every reachable state that has not faulted it is the sum of
  the quantities of the printable matches that were not broken, each counted once however often its
  match number was reported, and the 64-bit counter has not wrapped around.
\<close>

theorem pipeline_printed_volume:
  assumes "UftOrderBookPipeline_new session first_sequence locator max_orders max_matches minimum maximum tick = Inr p\<^sub>0"
    "p = foldl pipeline_apply p\<^sub>0 calls" "pl_state p \<noteq> Feed_Faulted"
  shows "unat (pl_net_volume p) = printed_volume (pl_adapter p)"
  using reached_inv [OF assms(1), of calls] assms(2,3) in_step_shows(2) by (auto simp: pipe_inv_def pipe_core_def)

theorem pipeline_printed_volume_witness:
  "\<exists>p\<^sub>0. sample_new = Inr p\<^sub>0 \<and> pl_state (foldl pipeline_apply p\<^sub>0 sample_calls) = Feed_Live \<and>
     unat (pl_net_volume (foldl pipeline_apply p\<^sub>0 sample_calls)) = printed_volume (pl_adapter (foldl pipeline_apply p\<^sub>0 sample_calls))"
proof -
  obtain p where p: "sample_new = Inr p" "pl_state (foldl pipeline_apply p sample_calls) = Feed_Live" by (rule sample_live)
  then show ?thesis using pipeline_printed_volume [OF p(1) refl, of sample_calls] by (metis BookFeedState.distinct(3))
qed

text \<open>
  C7. The strategy is called only with a complete picture: when a message causes a call, the
  pipeline was started and not faulted, the message was the next one, no message known to the feed
  is missing, and the strategy gets the transport sequence number, the book with exactly the live
  orders after the whole message and the exact printed volume. Every other outcome calls nobody.
\<close>

theorem strategy_call_safe:
  assumes "UftOrderBookPipeline_new session\<^sub>0 first_sequence locator max_orders max_matches minimum maximum tick = Inr p\<^sub>0"
    "p = foldl pipeline_apply p\<^sub>0 calls" "ingest strategy session sequence message sz p = (p', r, Some c)"
  shows "pl_started p \<and> pl_state p \<noteq> Feed_Faulted \<and> session = pl_session p \<and> sequence = pl_next p \<and> pl_high_water p \<le> sequence \<and>
    sc_sequence c = sequence \<and> shows_live (sc_book c) (pl_adapter p') \<and> unat (sc_net_volume c) = printed_volume (pl_adapter p')"
proof -
  have inv: "pipe_inv p" using reached_inv [OF assms(1), of calls] assms(2) by simp
  then have core: "pipe_core p" by (simp add: pipe_inv_def)
  have acc: "accepts session sequence message sz p"
    using assms(3) by (rule_tac ccontr) (erule ingest_refuses [where strategy = strategy]; auto)
  let ?p = "run_adapter (the message) sz p"
  note ra = run_adapter_core [OF acc core]
  have live: "pl_state ?p \<noteq> Feed_Faulted" "pl_state (advance ?p) = Feed_Live" "c = notified sequence ?p" "pl_adapter p' = pl_adapter ?p"
    using assms(3) unfolding ingest_accepts [OF acc] by (auto simp: Let_def reenters advance_def split: if_splits)
  have step: "in_step (pl_adapter ?p) ?p" using ra(1) live(1) by (simp add: pipe_core_def)
  have "pl_high_water p \<le> sequence"
  proof -
    have "pl_high_water (advance ?p) < pl_next (advance ?p)"
      using advance_core [OF ra(1) live(1)] ra(2,3) live(2) by (simp add: pipe_core_def)
    then have "pl_high_water p < sequence + 1" using ra(2,4) by (simp add: advance_def Let_def split: if_splits)
    then show ?thesis using unat_inc [OF ra(3)] by (simp add: word_less_nat_alt word_le_nat_alt)
  qed
  then show ?thesis using acc in_step_shows [OF step] live(3,4) by (simp add: accepts_def notified_def)
qed

theorem strategy_call_safe_witness:
  "\<exists>p\<^sub>0 q c. sample_new = Inr p\<^sub>0 \<and>
     ingest (\<lambda>_. []) sample_session 1 (Some sample_add) 36 (foldl pipeline_apply p\<^sub>0 [Pl_start True True]) = (q, Ingest_Applied, Some c) \<and>
     sc_sequence c = 1 \<and> shows_live (sc_book c) (pl_adapter q)"
proof -
  obtain p q c where p: "sample_new = Inr p"
    "ingest (\<lambda>_. []) sample_session 1 (Some sample_add) 36 (foldl pipeline_apply p [Pl_start True True]) = (q, Ingest_Applied, Some c)"
    by (rule sample_live) blast
  then show ?thesis using strategy_call_safe [OF p(1) refl p(2)] by blast
qed

text \<open>The sequence numbers of the messages that were taken: applied, or handed to the strategy.\<close>

fun taken :: "UftOrderBookPipeline \<Rightarrow> pipeline_call list \<Rightarrow> u64 list" where
  "taken p [] = []"
| "taken p (c # calls) =
     (case c of
        Pl_ingest strategy session sequence message sz \<Rightarrow>
          (case ingest strategy session sequence message sz p of (_, r, call) \<Rightarrow>
             if r = Ingest_Applied \<or> call \<noteq> None then [sequence] else [])
      | _ \<Rightarrow> []) @ taken (pipeline_apply p c) calls"

lemma ingest_next:
  assumes "pipe_inv p" "ingest strategy session sequence message sz p = (p', r, call)"
  shows "if r = Ingest_Applied \<or> call \<noteq> None then sequence = pl_next p \<and> unat (pl_next p') = unat sequence + 1 else pl_next p' = pl_next p"
proof (cases "accepts session sequence message sz p")
  case True
  let ?p = "run_adapter (the message) sz p"
  have core: "pipe_core p" using assms(1) by (simp add: pipe_inv_def)
  note ra = run_adapter_core [OF True core]
  have "unat (pl_next (advance ?p)) = unat sequence + 1" using ra(2) unat_inc [OF ra(3)] by (simp add: advance_def Let_def)
  moreover have "sequence = pl_next p" using True by (simp add: accepts_def)
  ultimately show ?thesis
    using assms(2) ra(2) unfolding ingest_accepts [OF True]
    by (cases "pl_state ?p = Feed_Faulted") (auto simp: Let_def reenters split: if_splits)
next
  case False
  then show ?thesis
    by (cases rule: ingest_refuses [where strategy = strategy, case_names refused duplicate gap]) (use assms(2) in auto)
qed

lemma taken_consecutive:
  assumes "pipe_inv p"
  shows "map unat (taken p calls) = [unat (pl_next p)..<unat (pl_next (foldl pipeline_apply p calls))] \<and>
    unat (pl_next p) \<le> unat (pl_next (foldl pipeline_apply p calls))"
  using assms
proof (induction calls arbitrary: p)
  case (Cons c calls)
  note ih = Cons.IH [OF pipeline_apply_inv [OF Cons.prems, of c]]
  show ?case
  proof (cases c)
    case (Pl_ingest strategy session sequence message sz)
    obtain p' r call where i: "ingest strategy session sequence message sz p = (p', r, call)" by (metis prod_cases3)
    have p': "pipeline_apply p c = p'" using i Pl_ingest by simp
    show ?thesis using ih ingest_next [OF Cons.prems i] i Pl_ingest unfolding p'
      by (auto simp: upt_conv_Cons)
  next
    case (Pl_start a b)
    have "pl_next (pipeline_apply p c) = pl_next p" using Pl_start by (simp add: pipeline_start_def split: prod.split)
    then show ?thesis using ih Pl_start by (simp del: pipeline_apply.simps)
  next
    case (Pl_note_gap h)
    have "pl_next (note_gap h p) = pl_next p" by (simp add: note_gap_def)
    then show ?thesis using ih Pl_note_gap by simp
  next
    case Pl_invalidate
    have "pl_next (invalidate p) = pl_next p" by (simp add: invalidate_def)
    then show ?thesis using ih Pl_invalidate by simp
  qed
qed simp

text \<open>
  C19. Messages are taken exactly once and in transport order: whatever sequence numbers arrive,
  the numbers of the messages that a new pipeline takes are the consecutive numbers from the first
  sequence number up to, but not including, the next expected one; duplicates and messages beyond a
  gap are never taken, and the counter does not wrap.
\<close>

theorem pipeline_takes_in_order:
  assumes "UftOrderBookPipeline_new session first_sequence locator max_orders max_matches minimum maximum tick = Inr p"
  shows "map unat (taken p calls) = [unat first_sequence..<unat (pl_next (foldl pipeline_apply p calls))]"
proof -
  have "pl_next p = first_sequence"
    using assms by (auto simp: UftOrderBookPipeline_new_def Let_def split: sum.splits prod.splits if_splits)
  then show ?thesis using taken_consecutive [OF pipeline_new_inv [OF assms], of calls] by simp
qed

theorem pipeline_takes_in_order_witness:
  "\<exists>p. sample_new = Inr p \<and> taken p sample_calls = [1] \<and> pl_next (foldl pipeline_apply p sample_calls) = 2"
proof -
  obtain p q c where p: "sample_new = Inr p"
    "ingest (\<lambda>_. []) sample_session 1 (Some sample_add) 36 (foldl pipeline_apply p [Pl_start True True]) = (q, Ingest_Applied, Some c)"
    by (rule sample_live) blast
  have t: "taken p sample_calls = [1]" using p(2) by simp
  then have "[1] = [1..<unat (pl_next (foldl pipeline_apply p sample_calls))]"
    using pipeline_takes_in_order [OF p(1), of sample_calls] by simp
  then have "length [1 :: nat] = unat (pl_next (foldl pipeline_apply p sample_calls)) - 1" by (metis length_upt)
  then have "unat (pl_next (foldl pipeline_apply p sample_calls)) = 2" by simp
  then have "pl_next (foldl pipeline_apply p sample_calls) = 2" by (simp add: word_unat_eq_iff)
  then show ?thesis using p(1) t by blast
qed

lemma faulted_apply:
  assumes "pl_state p = Feed_Faulted"
  shows "pl_state (pipeline_apply p c) = Feed_Faulted" "pl_book (pipeline_apply p c) = pl_book p" "pl_adapter (pipeline_apply p c) = pl_adapter p"
    "pl_net_volume (pipeline_apply p c) = pl_net_volume p" "pl_next (pipeline_apply p c) = pl_next p"
    "pl_callbacks (pipeline_apply p c) = pl_callbacks p" "pl_error p = Some e \<Longrightarrow> pl_error (pipeline_apply p c) = Some e"
  using assms by (cases c; simp add: pipeline_start_def ingest_def note_gap_def invalidate_def fault_def split: prod.split)+

lemma faulted_run:
  assumes "pl_state p = Feed_Faulted" "pl_error p = Some e"
  shows "pl_state (foldl pipeline_apply p calls) = Feed_Faulted \<and> pl_book (foldl pipeline_apply p calls) = pl_book p \<and>
    pl_adapter (foldl pipeline_apply p calls) = pl_adapter p \<and> pl_net_volume (foldl pipeline_apply p calls) = pl_net_volume p \<and>
    pl_next (foldl pipeline_apply p calls) = pl_next p \<and> pl_callbacks (foldl pipeline_apply p calls) = pl_callbacks p \<and>
    pl_error (foldl pipeline_apply p calls) = Some e"
  using assms
proof (induction calls arbitrary: p)
  case (Cons c calls)
  then show ?case using faulted_apply [OF Cons.prems(1), where c = c] by simp
qed simp

text \<open>
  C39. A fault is final: once faulted, no sequence of calls changes the state, the book, the adapter,
  the printed volume, the expected sequence number, the number of notifications or the recorded
  first error, and every message is answered with \<open>Faulted\<close> and notifies nobody.
\<close>

theorem pipeline_fault_final:
  assumes "pl_state p = Feed_Faulted" "pl_error p = Some e" "p' = foldl pipeline_apply p calls"
  shows "pl_state p' = Feed_Faulted \<and> pl_book p' = pl_book p \<and> pl_adapter p' = pl_adapter p \<and> pl_net_volume p' = pl_net_volume p \<and>
    pl_next p' = pl_next p \<and> pl_callbacks p' = pl_callbacks p \<and> pl_error p' = Some e \<and>
    snd (ingest strategy session sequence message sz p') = (Ingest_Faulted, None)"
  using faulted_run [OF assms(1,2), of calls] assms(3) by (simp add: ingest_def)

theorem pipeline_fault_final_witness:
  "\<exists>p. sample_new = Inr p \<and> pl_state (foldl pipeline_apply (invalidate p) sample_calls) = Feed_Faulted \<and>
     pl_error (foldl pipeline_apply (invalidate p) sample_calls) = Some ''external feed/session failure''"
proof -
  obtain p where p: "sample_new = Inr p" by (rule sample_pipeline)
  then have "pl_error p = None" by (auto simp: UftOrderBookPipeline_new_def Let_def split: sum.splits prod.splits if_splits)
  then have "pl_state (invalidate p) = Feed_Faulted" "pl_error (invalidate p) = Some ''external feed/session failure''"
    by (simp_all add: invalidate_def fault_def)
  from pipeline_fault_final [OF this refl, of sample_calls] show ?thesis using p by blast
qed

text \<open>
  C22. Recovery completes: when a reachable pipeline is recovering and the missing messages, from the
  next expected one up to the highest known one, are handed over and applied, none of them but the
  last notifies the strategy, the last one does, with its sequence number, and unless the strategy
  then reports a new gap or failure the pipeline is live again.
\<close>

theorem pipeline_recovers:
  assumes "UftOrderBookPipeline_new session first_sequence locator max_orders max_matches minimum maximum tick = Inr p\<^sub>0"
    "p = foldl pipeline_apply p\<^sub>0 calls" "pl_state p = Feed_Recovering"
    "length msgs = unat (pl_high_water p) - unat (pl_next p) + 1"
    "replay_gap strategy msgs p = (p', results)" "list_all (\<lambda>x. fst x = Ingest_Applied) results"
  shows "\<exists>c. map snd results = replicate (length msgs - 1) None @ [Some c] \<and> sc_sequence c = pl_high_water p \<and>
    (strategy c = [] \<longrightarrow> pl_state p' = Feed_Live)"
  using replay_recovers [of p msgs strategy] reached_inv [OF assms(1), of calls] assms by (simp add: list_all_iff)

definition sample_foreign :: bytes where
  "sample_foreign = [83, 0, 9, 0, 0, 0, 0, 0, 0, 0, 0, 79]"

theorem pipeline_recovers_witness:
  "\<exists>p\<^sub>0. sample_new = Inr p\<^sub>0 \<and> pl_state (foldl pipeline_apply p\<^sub>0 [Pl_start True True, Pl_note_gap 1]) = Feed_Recovering \<and>
     pl_state (fst (replay_gap (\<lambda>_. []) [(sample_foreign, 12)] (foldl pipeline_apply p\<^sub>0 [Pl_start True True, Pl_note_gap 1]))) = Feed_Live"
proof -
  obtain p where new: "sample_new = Inr p" "pl_session p = sample_session" "pl_next p = 1" "pl_state p = Feed_Live" "pl_high_water p = 0"
    "ua_locator (pl_adapter p) = 7" "\<not> pl_started p" "\<not> pl_in_ingest p" "snd (start (be_engine (pl_engine p)))"
    by (rule sample_pipeline)
  note s = sample_started [OF new(9,7)]
  define q where "q = foldl pipeline_apply p [Pl_start True True, Pl_note_gap 1]"
  have q: "pl_state q = Feed_Recovering" "pl_next q = 1" "pl_high_water q = 1" "pl_session q = sample_session" "pl_started q" "\<not> pl_in_ingest q"
    "ua_locator (pl_adapter q) = 7"
    using s new by (simp_all add: q_def note_gap_def)
  have inv: "pipe_inv q" unfolding q_def by (rule reached_inv [OF new(1)])
  have f: "read_u16 sample_foreign 1 = 9" "expected_message_size (sample_foreign ! 0) = 12"
    by (simp_all add: sample_foreign_def read_u16_def expected_message_size_def)
  have "accepts sample_session 1 (Some sample_foreign) 12 q" using q f by (simp add: accepts_def)
  moreover have "read_u16 sample_foreign 1 \<noteq> ua_locator (pl_adapter q)" unfolding f q(7) by simp
  ultimately have r: "fst (snd (ingest (\<lambda>_. []) sample_session 1 (Some sample_foreign) 12 q)) = Ingest_Applied"
    using inv by (intro foreign_applied)
  obtain q' rs where g: "replay_gap (\<lambda>_. []) [(sample_foreign, 12)] q = (q', rs)" by fastforce
  have "list_all (\<lambda>x. fst x = Ingest_Applied) rs" using g r q by (auto simp: case_prod_unfold)
  then have "pl_state q' = Feed_Live" using pipeline_recovers [OF new(1) q_def q(1) _ g] q by auto
  then show ?thesis using new(1) q(1) g unfolding q_def by (intro exI [of _ p]) simp
qed

text \<open>
  Construction succeeds exactly for a valid configuration: a non-empty session, a first sequence
  number that is neither zero nor the maximum, an order capacity below \<open>UINT32_MAX\<close>, a match
  capacity whose table fits in memory, and a price grid with a positive minimum that the tick
  divides into at most \<open>UINT32_MAX - 63\<close> levels. Every other configuration throws.
\<close>

lemma pipeline_new_iff:
  "(\<exists>p. UftOrderBookPipeline_new session first_sequence locator max_orders max_matches minimum maximum tick = Inr p) \<longleftrightarrow>
     session \<noteq> [] \<and> first_sequence \<noteq> 0 \<and> first_sequence \<noteq> UINT64_MAX \<and> 0 < max_orders \<and> max_orders < UINT32_MAX \<and>
     0 < max_matches \<and> max_matches \<le> 2 ^ 62 \<and> 0 < minimum \<and> minimum \<le> maximum \<and> 0 < tick \<and>
     (maximum - minimum) mod tick = 0 \<and> (maximum - minimum) div tick + 1 \<le> int UINT32_MAX - 63"
proof
  assume "\<exists>p. UftOrderBookPipeline_new session first_sequence locator max_orders max_matches minimum maximum tick = Inr p"
  then obtain p where p: "UftOrderBookPipeline_new session first_sequence locator max_orders max_matches minimum maximum tick = Inr p" ..
  have "\<exists>t. FixedHashTable_new pipeline_match_default max_matches = Inr t"
    using p by (auto simp: UftOrderBookPipeline_new_def split: sum.splits)
  then have mm: "0 < max_matches" "max_matches \<le> 2 ^ 62" by (simp_all add: table_new_ok)
  have "0 < max_orders" "max_orders < UINT32_MAX" using p
    by (auto simp: UftOrderBookPipeline_new_def checked_orders_def split: if_splits)
  moreover have "\<exists>n. levels minimum maximum tick = Inr n" using p by (auto simp: UftOrderBookPipeline_new_def split: sum.splits)
  moreover have "session \<noteq> []" "first_sequence \<noteq> 0" "first_sequence \<noteq> UINT64_MAX"
    using p by (auto simp: UftOrderBookPipeline_new_def Let_def split: sum.splits prod.splits if_splits)
  ultimately show "session \<noteq> [] \<and> first_sequence \<noteq> 0 \<and> first_sequence \<noteq> UINT64_MAX \<and> 0 < max_orders \<and> max_orders < UINT32_MAX \<and>
     0 < max_matches \<and> max_matches \<le> 2 ^ 62 \<and> 0 < minimum \<and> minimum \<le> maximum \<and> 0 < tick \<and>
     (maximum - minimum) mod tick = 0 \<and> (maximum - minimum) div tick + 1 \<le> int UINT32_MAX - 63"
    using mm by (auto simp: levels_def split: if_splits)
qed (rule pipeline_new_ok [of max_orders max_matches minimum maximum tick session first_sequence locator]; auto)

end
