(* ===== verification/WtsAdapter.thy ===== *)
theory WtsAdapter
  imports ItchWire "HOL-Library.Mapping"
begin

text \<open>
  \<open>PsxWtsAdapter\<close> (\<open>include/qtrader/NasdaqItchWtsAdapter.hpp\<close>): one instrument's ITCH messages as
  WonderTrader order details and transactions, with unbounded tables (\<open>std::unordered_map\<close>, a
  \<open>mapping\<close> here). The sink only receives, so the adapter returns the events in order. Signed 64-bit
  members are kept as words; the \<open>double\<close> price of an event is its bit pattern, and the
  conversion of a \<open>uint32_t\<close> price divided by 10000 to that pattern is the argument \<open>price_bits\<close>.
\<close>

section \<open>Events and state\<close>

abbreviation BDT_Buy :: u32 where "BDT_Buy \<equiv> 66"
abbreviation BDT_Sell :: u32 where "BDT_Sell \<equiv> 83"
abbreviation BDT_Unknown :: u32 where "BDT_Unknown \<equiv> 32"
abbreviation TT_Match :: u32 where "TT_Match \<equiv> 77"
abbreviation TT_Cancel :: u32 where "TT_Cancel \<equiv> 67"
abbreviation ODT_LimitPrice :: u32 where "ODT_LimitPrice \<equiv> 50"

definition kWtsTradeBust :: u32 where
  "kWtsTradeBust = 66"

definition INT64_MAX :: u64 where
  "INT64_MAX = 0x7fffffffffffffff"

record WTSOrdDtlStruct =
  wo_exchg :: bytes
  wo_code :: bytes
  wo_trading_date :: u32
  wo_action_date :: u32
  wo_action_time :: u32
  wo_index :: u64
  wo_price :: u64
  wo_volume :: u32
  wo_side :: u32
  wo_otype :: u32

record WTSTransStruct =
  wt_exchg :: bytes
  wt_code :: bytes
  wt_trading_date :: u32
  wt_action_date :: u32
  wt_action_time :: u32
  wt_index :: u64
  wt_ttype :: u32
  wt_side :: u32
  wt_price :: u64
  wt_volume :: u32
  wt_askorder :: u64
  wt_bidorder :: u64

datatype wts_event = On_order_detail WTSOrdDtlStruct | On_transaction WTSTransStruct

record WtsAdapterStats =
  ws_order_details :: u64
  ws_transactions :: u64
  ws_matches :: u64
  ws_cancels :: u64
  ws_trade_busts :: u64
  ws_duplicate_matches_suppressed :: u64
  ws_non_printable_suppressed :: u64
  ws_broken_trades_without_output :: u64
  ws_unknown_broken_trades :: u64
  ws_errors :: u64
  ws_peak_active_orders :: u64

definition WtsAdapterStats_zero :: WtsAdapterStats where
  "WtsAdapterStats_zero = \<lparr>ws_order_details = 0, ws_transactions = 0, ws_matches = 0, ws_cancels = 0, ws_trade_busts = 0,
     ws_duplicate_matches_suppressed = 0, ws_non_printable_suppressed = 0, ws_broken_trades_without_output = 0,
     ws_unknown_broken_trades = 0, ws_errors = 0, ws_peak_active_orders = 0\<rparr>"

record WtsOrder =
  wor_price :: u32
  wor_remaining :: u32
  wor_side :: u32

record WtsMatch =
  wm_price :: u32
  wm_volume :: u32
  wm_order_id :: u64
  wm_side :: u32
  wm_emitted :: bool

record PsxWtsAdapter =
  wa_trading_date :: u32
  wa_locator :: u16
  wa_symbol :: bytes
  wa_event_sequence :: u64
  wa_orders :: "(u64, WtsOrder) mapping"
  wa_matches :: "(u64, WtsMatch) mapping"
  wa_stats :: WtsAdapterStats

type_synonym wts_state = "PsxWtsAdapter \<times> wts_event list"

text \<open>The destination of \<open>Size\<close> bytes is zero-filled, then the first \<open>Size - 1\<close> bytes at most are copied.\<close>

definition copy_text :: "nat \<Rightarrow> bytes \<Rightarrow> bytes" where
  "copy_text sz source = (let count = min (length source) (sz - 1) in take count source @ replicate (sz - count) 0)"

definition PsxWtsAdapter_new :: "u32 \<Rightarrow> u16 \<Rightarrow> bytes \<Rightarrow> PsxWtsAdapter" where
  "PsxWtsAdapter_new trading_date locator symbol =
     \<lparr>wa_trading_date = trading_date, wa_locator = locator, wa_symbol = copy_text 9 symbol, wa_event_sequence = 0,
      wa_orders = Mapping.empty, wa_matches = Mapping.empty, wa_stats = WtsAdapterStats_zero\<rparr>"

definition wts_active_orders :: "PsxWtsAdapter \<Rightarrow> nat" where
  "wts_active_orders a = Mapping.size (wa_orders a)"

section \<open>Output\<close>

definition action_time :: "u64 \<Rightarrow> u32" where
  "action_time timestamp_ns =
     (let milliseconds = timestamp_ns div 1000000;
          hours = milliseconds div 3600000;
          minutes = (milliseconds div 60000) mod 60;
          seconds = (milliseconds div 1000) mod 60;
          millis = milliseconds mod 1000
      in ucast (hours * 10000000 + minutes * 100000 + seconds * 1000 + millis))"

text \<open>The symbol is read back as a C string.\<close>

definition fill_code :: "PsxWtsAdapter \<Rightarrow> bytes" where
  "fill_code a = copy_text 32 (takeWhile (\<lambda>c. c \<noteq> 0) (wa_symbol a))"

definition fill_exchg :: bytes where
  "fill_exchg = copy_text 16 (map ascii ''PSX'')"

definition wts_stats :: "(WtsAdapterStats \<Rightarrow> WtsAdapterStats) \<Rightarrow> wts_state \<Rightarrow> wts_state" where
  "wts_stats f = (\<lambda>(a, out). (a\<lparr>wa_stats := f (wa_stats a)\<rparr>, out))"

definition wts_error :: "wts_state \<Rightarrow> wts_state" where
  "wts_error = wts_stats (\<lambda>s. s\<lparr>ws_errors := ws_errors s + 1\<rparr>)"

definition wts_duplicate :: "wts_state \<Rightarrow> wts_state" where
  "wts_duplicate = wts_stats (\<lambda>s. s\<lparr>ws_duplicate_matches_suppressed := ws_duplicate_matches_suppressed s + 1\<rparr>)"

definition wts_sink :: "wts_event \<Rightarrow> wts_state \<Rightarrow> wts_state" where
  "wts_sink ev = (\<lambda>(a, out). (a, out @ [ev]))"

definition wts_emit_order :: "(u32 \<Rightarrow> u64) \<Rightarrow> bytes \<Rightarrow> u64 \<Rightarrow> WtsOrder \<Rightarrow> wts_state \<Rightarrow> wts_state" where
  "wts_emit_order price_bits message order_id order st =
     (let a = fst st;
          output = \<lparr>wo_exchg = fill_exchg, wo_code = fill_code a, wo_trading_date = wa_trading_date a,
            wo_action_date = wa_trading_date a, wo_action_time = action_time (read_u48 message 5),
            wo_index = order_id, wo_price = price_bits (wor_price order), wo_volume = wor_remaining order,
            wo_side = wor_side order, wo_otype = ODT_LimitPrice\<rparr>
      in wts_stats (\<lambda>s. s\<lparr>ws_order_details := ws_order_details s + 1\<rparr>) (wts_sink (On_order_detail output) st))"

definition wts_emit_transaction :: "(u32 \<Rightarrow> u64) \<Rightarrow> bytes \<Rightarrow> u64 \<Rightarrow> u32 \<Rightarrow> u32 \<Rightarrow> u32 \<Rightarrow> u32 \<Rightarrow> u64 \<Rightarrow> wts_state \<Rightarrow> wts_state" where
  "wts_emit_transaction price_bits message index type side price volume order_id st =
     (if volume = 0 \<or> order_id > INT64_MAX then wts_error st
      else
        let a = fst st;
            output = \<lparr>wt_exchg = fill_exchg, wt_code = fill_code a, wt_trading_date = wa_trading_date a,
              wt_action_date = wa_trading_date a, wt_action_time = action_time (read_u48 message 5),
              wt_index = index, wt_ttype = type, wt_side = side, wt_price = price_bits price, wt_volume = volume,
              wt_askorder = (if side = BDT_Sell then order_id else 0),
              wt_bidorder = (if side = BDT_Buy then order_id else 0)\<rparr>;
            st = wts_sink (On_transaction output) st
        in wts_stats (\<lambda>s.
             let s = s\<lparr>ws_transactions := ws_transactions s + 1\<rparr> in
             if type = TT_Cancel then s\<lparr>ws_cancels := ws_cancels s + 1\<rparr>
             else if type = TT_Match then s\<lparr>ws_matches := ws_matches s + 1\<rparr>
             else if type = kWtsTradeBust then s\<lparr>ws_trade_busts := ws_trade_busts s + 1\<rparr>
             else s) st)"

section \<open>Messages\<close>

definition wts_set_orders :: "(u64, WtsOrder) mapping \<Rightarrow> wts_state \<Rightarrow> wts_state" where
  "wts_set_orders t = (\<lambda>(a, out). (a\<lparr>wa_orders := t\<rparr>, out))"

definition wts_set_matches :: "(u64, WtsMatch) mapping \<Rightarrow> wts_state \<Rightarrow> wts_state" where
  "wts_set_matches t = (\<lambda>(a, out). (a\<lparr>wa_matches := t\<rparr>, out))"

text \<open>\<open>emplace\<close> inserts only a new key and says whether it did.\<close>

definition emplace :: "'k \<Rightarrow> 'v \<Rightarrow> ('k, 'v) mapping \<Rightarrow> ('k, 'v) mapping \<times> bool" where
  "emplace k v m = (if Mapping.lookup m k = None then (Mapping.update k v m, True) else (m, False))"

definition wts_add :: "(u32 \<Rightarrow> u64) \<Rightarrow> bytes \<Rightarrow> wts_state \<Rightarrow> wts_state" where
  "wts_add price_bits message st =
     (let order_id = read_u64 message 11; shares = read_u32 message 20; price = read_u32 message 32;
          side = ucast (message ! 19) :: u32 in
      if order_id = 0 \<or> shares = 0 \<or> price = 0 \<or> (side \<noteq> BDT_Buy \<and> side \<noteq> BDT_Sell) then wts_error st
      else
        let order = \<lparr>wor_price = price, wor_remaining = shares, wor_side = side\<rparr>;
            (orders, inserted) = emplace order_id order (wa_orders (fst st)) in
        if \<not> inserted then wts_error st
        else
          let st = wts_set_orders orders st;
              st = wts_stats (\<lambda>s. s\<lparr>ws_peak_active_orders := max (ws_peak_active_orders s) (of_nat (Mapping.size orders))\<rparr>) st
          in wts_emit_order price_bits message order_id order st)"

text \<open>The end of \<open>execute\<close> and \<open>cancel_partial\<close>: the reduction through the iterator.\<close>

definition wts_reduce :: "u64 \<Rightarrow> u32 \<Rightarrow> wts_state \<Rightarrow> wts_state" where
  "wts_reduce order_id shares st =
     (case Mapping.lookup (wa_orders (fst st)) order_id of
        None \<Rightarrow> st
      | Some order \<Rightarrow>
          let order = order\<lparr>wor_remaining := wor_remaining order - shares\<rparr> in
          wts_set_orders (if wor_remaining order = 0 then Mapping.delete order_id (wa_orders (fst st))
                          else Mapping.update order_id order (wa_orders (fst st))) st)"

definition wts_execute :: "(u32 \<Rightarrow> u64) \<Rightarrow> bytes \<Rightarrow> wts_state \<Rightarrow> wts_state" where
  "wts_execute price_bits message st =
     (let order_id = read_u64 message 11; shares = read_u32 message 19 in
      case Mapping.lookup (wa_orders (fst st)) order_id of
        None \<Rightarrow> wts_error st
      | Some order \<Rightarrow>
          if shares = 0 \<or> shares > wor_remaining order then wts_error st
          else
            let match_number = read_u64 message 23;
                execution_price = (if message ! 0 = ascii CHR ''C'' then read_u32 message 32 else wor_price order);
                printable = (message ! 0 \<noteq> ascii CHR ''C'' \<or> message ! 31 = ascii CHR ''Y'');
                match = \<lparr>wm_price = execution_price, wm_volume = shares, wm_order_id = order_id,
                  wm_side = wor_side order, wm_emitted = printable\<rparr>;
                (matches, first_match) = emplace match_number match (wa_matches (fst st));
                st = wts_set_matches matches st;
                st = (if \<not> printable then
                        wts_stats (\<lambda>s. s\<lparr>ws_non_printable_suppressed := ws_non_printable_suppressed s + 1\<rparr>) st
                      else if first_match then
                        (if match_number > INT64_MAX then wts_error st
                         else wts_emit_transaction price_bits message match_number TT_Match (wor_side order)
                                execution_price shares order_id st)
                      else wts_duplicate st)
            in wts_reduce order_id shares st)"

definition wts_cancel_partial :: "(u32 \<Rightarrow> u64) \<Rightarrow> bytes \<Rightarrow> wts_state \<Rightarrow> wts_state" where
  "wts_cancel_partial price_bits message st =
     (let order_id = read_u64 message 11; shares = read_u32 message 19 in
      case Mapping.lookup (wa_orders (fst st)) order_id of
        None \<Rightarrow> wts_error st
      | Some order \<Rightarrow>
          if shares = 0 \<or> shares > wor_remaining order then wts_error st
          else
            let st = wts_emit_transaction price_bits message (wa_event_sequence (fst st)) TT_Cancel (wor_side order)
                       (wor_price order) shares order_id st
            in wts_reduce order_id shares st)"

definition wts_cancel_all :: "(u32 \<Rightarrow> u64) \<Rightarrow> bytes \<Rightarrow> wts_state \<Rightarrow> wts_state" where
  "wts_cancel_all price_bits message st =
     (let order_id = read_u64 message 11 in
      case Mapping.lookup (wa_orders (fst st)) order_id of
        None \<Rightarrow> wts_error st
      | Some order \<Rightarrow>
          let st = wts_emit_transaction price_bits message (wa_event_sequence (fst st)) TT_Cancel (wor_side order)
                     (wor_price order) (wor_remaining order) order_id st
          in wts_set_orders (Mapping.delete order_id (wa_orders (fst st))) st)"

definition wts_replace :: "(u32 \<Rightarrow> u64) \<Rightarrow> bytes \<Rightarrow> wts_state \<Rightarrow> wts_state" where
  "wts_replace price_bits message st =
     (let old_order_id = read_u64 message 11; new_order_id = read_u64 message 19;
          shares = read_u32 message 27; price = read_u32 message 31 in
      case Mapping.lookup (wa_orders (fst st)) old_order_id of
        None \<Rightarrow> wts_error st
      | Some old_order \<Rightarrow>
          if new_order_id = 0 \<or> shares = 0 \<or> price = 0 \<or> Mapping.lookup (wa_orders (fst st)) new_order_id \<noteq> None
          then wts_error st
          else
            let st = wts_emit_transaction price_bits message (wa_event_sequence (fst st)) TT_Cancel (wor_side old_order)
                       (wor_price old_order) (wor_remaining old_order) old_order_id st;
                replacement = \<lparr>wor_price = price, wor_remaining = shares, wor_side = wor_side old_order\<rparr>;
                (orders, inserted) = emplace new_order_id replacement (Mapping.delete old_order_id (wa_orders (fst st)));
                st = wts_set_orders orders st in
            if \<not> inserted then wts_error st
            else wts_emit_order price_bits message new_order_id replacement st)"

definition wts_non_cross_trade :: "(u32 \<Rightarrow> u64) \<Rightarrow> bytes \<Rightarrow> wts_state \<Rightarrow> wts_state" where
  "wts_non_cross_trade price_bits message st =
     (let match_number = read_u64 message 36;
          match = \<lparr>wm_price = read_u32 message 32, wm_volume = read_u32 message 20, wm_order_id = read_u64 message 11,
            wm_side = ucast (message ! 19), wm_emitted = True\<rparr>;
          (matches, first_match) = emplace match_number match (wa_matches (fst st));
          st = wts_set_matches matches st in
      if \<not> first_match then wts_duplicate st
      else if match_number > INT64_MAX then wts_error st
      else wts_emit_transaction price_bits message match_number TT_Match (wm_side match) (wm_price match)
             (wm_volume match) (wm_order_id match) st)"

definition wts_cross_trade :: "(u32 \<Rightarrow> u64) \<Rightarrow> bytes \<Rightarrow> wts_state \<Rightarrow> wts_state" where
  "wts_cross_trade price_bits message st =
     (let shares64 = read_u64 message 11; match_number = read_u64 message 31 in
      if shares64 = 0 \<or> shares64 > 0xffffffff \<or> match_number > INT64_MAX then wts_error st
      else
        let match = \<lparr>wm_price = read_u32 message 27, wm_volume = ucast shares64, wm_order_id = 0,
              wm_side = BDT_Unknown, wm_emitted = True\<rparr>;
            (matches, first_match) = emplace match_number match (wa_matches (fst st));
            st = wts_set_matches matches st in
        if \<not> first_match then wts_duplicate st
        else wts_emit_transaction price_bits message match_number TT_Match (wm_side match) (wm_price match)
               (wm_volume match) (wm_order_id match) st)"

definition wts_broken_trade :: "(u32 \<Rightarrow> u64) \<Rightarrow> bytes \<Rightarrow> wts_state \<Rightarrow> wts_state" where
  "wts_broken_trade price_bits message st =
     (let match_number = read_u64 message 11 in
      case Mapping.lookup (wa_matches (fst st)) match_number of
        None \<Rightarrow> wts_stats (\<lambda>s. s\<lparr>ws_unknown_broken_trades := ws_unknown_broken_trades s + 1\<rparr>) st
      | Some match \<Rightarrow>
          let st = (if wm_emitted match then
                      wts_emit_transaction price_bits message match_number kWtsTradeBust (wm_side match) (wm_price match)
                        (wm_volume match) (wm_order_id match) st
                    else wts_stats (\<lambda>s. s\<lparr>ws_broken_trades_without_output := ws_broken_trades_without_output s + 1\<rparr>) st)
          in wts_set_matches (Mapping.delete match_number (wa_matches (fst st))) st)"

definition wts_dispatch :: "(u32 \<Rightarrow> u64) \<Rightarrow> bytes \<Rightarrow> wts_state \<Rightarrow> wts_state" where
  "wts_dispatch price_bits message st =
     (let type = message ! 0 in
      if type = ascii CHR ''A'' \<or> type = ascii CHR ''F'' then wts_add price_bits message st
      else if type = ascii CHR ''E'' \<or> type = ascii CHR ''C'' then wts_execute price_bits message st
      else if type = ascii CHR ''X'' then wts_cancel_partial price_bits message st
      else if type = ascii CHR ''D'' then wts_cancel_all price_bits message st
      else if type = ascii CHR ''U'' then wts_replace price_bits message st
      else if type = ascii CHR ''P'' then wts_non_cross_trade price_bits message st
      else if type = ascii CHR ''Q'' then wts_cross_trade price_bits message st
      else if type = ascii CHR ''B'' then wts_broken_trade price_bits message st
      else st)"

definition wts_on_message :: "(u32 \<Rightarrow> u64) \<Rightarrow> bytes \<Rightarrow> nat \<Rightarrow> wts_state \<Rightarrow> wts_state" where
  "wts_on_message price_bits message sz st =
     (if sz < 11 \<or> read_u16 message 1 \<noteq> wa_locator (fst st) then st
      else
        let st = (case st of (a, out) \<Rightarrow> (a\<lparr>wa_event_sequence := wa_event_sequence a + 1\<rparr>, out));
            expected = expected_message_size (message ! 0) in
        if expected = 0 \<or> sz \<noteq> expected then wts_error st
        else wts_dispatch price_bits message st)"

section \<open>The time of an event\<close>

definition clock_digits :: "nat \<Rightarrow> nat" where
  "clock_digits ms = (ms div 3600000) * 10000000 + (ms div 60000) mod 60 * 100000 + (ms div 1000) mod 60 * 1000 + ms mod 1000"

lemma clock_digits_bound: "ms < 86400000 \<Longrightarrow> clock_digits ms < 240000000"
proof -
  assume "ms < 86400000"
  then have "ms div 3600000 \<le> 23" by (simp add: div_less_iff_less_mult less_Suc_eq_le [symmetric])
  moreover have "(ms div 60000) mod 60 \<le> 59" "(ms div 1000) mod 60 \<le> 59" "ms mod 1000 \<le> 999"
    by (simp_all add: less_Suc_eq_le [symmetric])
  ultimately show ?thesis unfolding clock_digits_def by linarith
qed

lemma unat_digits:
  fixes a b c d :: u64
  assumes "unat a < 24" "unat b < 60" "unat c < 60" "unat d < 1000"
  shows "unat (a * 10000000 + b * 100000 + c * 1000 + d) = unat a * 10000000 + unat b * 100000 + unat c * 1000 + unat d"
proof -
  have m: "unat (a * 10000000) = unat a * 10000000" "unat (b * 100000) = unat b * 100000" "unat (c * 1000) = unat c * 1000"
    using assms by (simp_all add: unat_word_ariths)
  have "unat (a * 10000000 + b * 100000) = unat a * 10000000 + unat b * 100000"
    using assms m by (simp add: unat_word_ariths(1))
  then have "unat (a * 10000000 + b * 100000 + c * 1000) = unat a * 10000000 + unat b * 100000 + unat c * 1000"
    using assms m by (simp add: unat_word_ariths(1) [of "a * 10000000 + b * 100000"])
  then show ?thesis using assms by (simp add: unat_word_ariths(1) [of _ d])
qed

lemma action_time_digits:
  assumes "unat ts < 86400000000000"
  shows "unat (action_time ts) = clock_digits (unat ts div 1000000)"
proof -
  define ms where "ms = unat ts div 1000000"
  have ms: "ms < 86400000" using assms by (simp add: ms_def div_less_iff_less_mult)
  let ?m = "ts div 1000000"
  have u: "unat ?m = ms" by (simp add: unat_div ms_def)
  have h: "unat (?m div 3600000) = ms div 3600000" "unat (?m div 60000 mod 60) = ms div 60000 mod 60"
    "unat (?m div 1000 mod 60) = ms div 1000 mod 60" "unat (?m mod 1000) = ms mod 1000"
    by (simp_all add: unat_div unat_mod ms_def)
  have "unat (?m div 3600000 * 10000000 + ?m div 60000 mod 60 * 100000 + ?m div 1000 mod 60 * 1000 + ?m mod 1000) =
      clock_digits ms"
    unfolding clock_digits_def h [symmetric]
    by (rule unat_digits) (unfold h, use ms in \<open>simp_all add: div_less_iff_less_mult\<close>)
  then show ?thesis using clock_digits_bound [OF ms]
    by (simp add: action_time_def Let_def unsigned_ucast_eq take_bit_nat_eq_self ms_def)
qed

lemma quot_unique: "r < c \<Longrightarrow> (c * q + r) div c = q" for q r c :: nat
  by simp

lemma clock_parts:
  "clock_digits ms div 10000000 = ms div 3600000" "clock_digits ms div 100000 mod 100 = ms div 60000 mod 60"
  "clock_digits ms div 1000 mod 100 = ms div 1000 mod 60" "clock_digits ms mod 1000 = ms mod 1000"
proof -
  define h m s k where "h = ms div 3600000" and "m = ms div 60000 mod 60" and "s = ms div 1000 mod 60" and "k = ms mod 1000"
  have le: "m < 60" "s < 60" "k < 1000" by (simp_all add: m_def s_def k_def)
  have t: "clock_digits ms = 10000000 * h + (100000 * m + (1000 * s + k))"
    "clock_digits ms = 100000 * (100 * h + m) + (1000 * s + k)"
    "clock_digits ms = 1000 * (100 * (100 * h + m) + s) + k"
    by (simp_all add: clock_digits_def h_def m_def s_def k_def)
  have q: "clock_digits ms div 10000000 = h" unfolding t(1) by (rule quot_unique) (use le in linarith)
  have r: "clock_digits ms div 100000 = 100 * h + m" unfolding t(2) by (rule quot_unique) (use le in linarith)
  have u: "clock_digits ms div 1000 = 100 * (100 * h + m) + s" unfolding t(3) by (rule quot_unique) (use le in linarith)
  show "clock_digits ms div 10000000 = ms div 3600000" using q by (simp add: h_def)
  show "clock_digits ms div 100000 mod 100 = ms div 60000 mod 60" using r le by (simp flip: m_def)
  show "clock_digits ms div 1000 mod 100 = ms div 1000 mod 60" unfolding u mod_mult_self4 using le by (simp flip: s_def)
  show "clock_digits ms mod 1000 = ms mod 1000" unfolding t(3) mod_mult_self4 using le by (simp flip: k_def)
qed

lemma clock_whole: "((ms div 3600000 * 60 + ms div 60000 mod 60) * 60 + ms div 1000 mod 60) * 1000 + ms mod 1000 = (ms :: nat)"
proof -
  have a: "ms div 3600000 * 60 + ms div 60000 mod 60 = ms div 60000"
    using div_mult_mod_eq [of "ms div 60000" 60] by (simp add: div_mult2_eq [symmetric])
  have b: "ms div 60000 * 60 + ms div 1000 mod 60 = ms div 1000"
    using div_mult_mod_eq [of "ms div 1000" 60] by (simp add: div_mult2_eq [symmetric])
  show ?thesis unfolding a b by simp
qed

text \<open>
  The time of a WonderTrader event reads back: for a timestamp within the day the number
  \<open>HHMMSSmmm\<close> fits its 32 bits, its hours, minutes and seconds are in range, and together with the
  milliseconds they are the timestamp in milliseconds.
\<close>

lemma action_time_reads_back:
  assumes "unat ts < 86400000000000" "t = unat (action_time ts)"
  shows "t div 10000000 < 24 \<and> t div 100000 mod 100 < 60 \<and> t div 1000 mod 100 < 60 \<and>
    ((t div 10000000 * 60 + t div 100000 mod 100) * 60 + t div 1000 mod 100) * 1000 + t mod 1000 = unat ts div 1000000"
proof -
  have "unat ts div 1000000 div 3600000 < 24" using assms(1) by (simp add: div_less_iff_less_mult)
  then show ?thesis unfolding assms(2) action_time_digits [OF assms(1)] clock_parts clock_whole by simp
qed

end
