(* ===== verification/OrderLifecycle.thy ===== *)
theory OrderLifecycle
  imports WtsAdapter
begin

text \<open>
  \<open>OrderLifecycle\<close> (\<open>include/qtrader/NasdaqItchOrderLifecycle.hpp\<close>): the order census of the
  inspection tool, over the messages of all instruments. The constructor only reserves memory.
\<close>

section \<open>State\<close>

record OrderRecord =
  or_price :: u32
  or_remaining :: u32
  or_stock_locate :: u16
  or_side :: u8

record LifecycleStats =
  ls_adds :: u64
  ls_executions :: u64
  ls_executed_shares :: u64
  ls_cancels :: u64
  ls_canceled_shares :: u64
  ls_deletes :: u64
  ls_replaces :: u64
  ls_duplicate_order_ids :: u64
  ls_missing_order_ids :: u64
  ls_over_reductions :: u64
  ls_stock_locate_mismatches :: u64
  ls_invalid_adds :: u64
  ls_peak_active_orders :: u64

definition LifecycleStats_zero :: LifecycleStats where
  "LifecycleStats_zero = \<lparr>ls_adds = 0, ls_executions = 0, ls_executed_shares = 0, ls_cancels = 0, ls_canceled_shares = 0,
     ls_deletes = 0, ls_replaces = 0, ls_duplicate_order_ids = 0, ls_missing_order_ids = 0, ls_over_reductions = 0,
     ls_stock_locate_mismatches = 0, ls_invalid_adds = 0, ls_peak_active_orders = 0\<rparr>"

record OrderLifecycle =
  lc_orders :: "(u64, OrderRecord) mapping"
  lc_stats :: LifecycleStats

definition OrderLifecycle_new :: OrderLifecycle where
  "OrderLifecycle_new = \<lparr>lc_orders = Mapping.empty, lc_stats = LifecycleStats_zero\<rparr>"

datatype Reduction = Reduction_Execution | Reduction_Cancel

definition lc_active_orders :: "OrderLifecycle \<Rightarrow> nat" where
  "lc_active_orders l = Mapping.size (lc_orders l)"

section \<open>Operations\<close>

definition lc_count :: "(LifecycleStats \<Rightarrow> LifecycleStats) \<Rightarrow> OrderLifecycle \<Rightarrow> OrderLifecycle" where
  "lc_count f l = l\<lparr>lc_stats := f (lc_stats l)\<rparr>"

definition lc_update_peak :: "OrderLifecycle \<Rightarrow> OrderLifecycle" where
  "lc_update_peak l = lc_count (\<lambda>s. s\<lparr>ls_peak_active_orders :=
     max (ls_peak_active_orders s) (of_nat (Mapping.size (lc_orders l)))\<rparr>) l"

definition lc_missing :: "OrderLifecycle \<Rightarrow> OrderLifecycle" where
  "lc_missing = lc_count (\<lambda>s. s\<lparr>ls_missing_order_ids := ls_missing_order_ids s + 1\<rparr>)"

definition lc_invalid :: "OrderLifecycle \<Rightarrow> OrderLifecycle" where
  "lc_invalid = lc_count (\<lambda>s. s\<lparr>ls_invalid_adds := ls_invalid_adds s + 1\<rparr>)"

definition lc_duplicate :: "OrderLifecycle \<Rightarrow> OrderLifecycle" where
  "lc_duplicate = lc_count (\<lambda>s. s\<lparr>ls_duplicate_order_ids := ls_duplicate_order_ids s + 1\<rparr>)"

definition lc_check_locate :: "OrderRecord \<Rightarrow> bytes \<Rightarrow> OrderLifecycle \<Rightarrow> OrderLifecycle" where
  "lc_check_locate order message l =
     (if or_stock_locate order \<noteq> read_u16 message 1
      then lc_count (\<lambda>s. s\<lparr>ls_stock_locate_mismatches := ls_stock_locate_mismatches s + 1\<rparr>) l else l)"

definition lc_add :: "bytes \<Rightarrow> OrderLifecycle \<Rightarrow> OrderLifecycle" where
  "lc_add message l =
     (let l = lc_count (\<lambda>s. s\<lparr>ls_adds := ls_adds s + 1\<rparr>) l;
          order_id = read_u64 message 11; side = message ! 19; shares = read_u32 message 20;
          price = read_u32 message 32; stock_locate = read_u16 message 1 in
      if order_id = 0 \<or> shares = 0 \<or> price = 0 \<or> (side \<noteq> ascii CHR ''B'' \<and> side \<noteq> ascii CHR ''S'') then lc_invalid l
      else
        let (orders, inserted) = emplace order_id \<lparr>or_price = price, or_remaining = shares,
              or_stock_locate = stock_locate, or_side = side\<rparr> (lc_orders l) in
        if \<not> inserted then lc_duplicate l
        else lc_update_peak (l\<lparr>lc_orders := orders\<rparr>))"

definition lc_reduce :: "bytes \<Rightarrow> u32 \<Rightarrow> Reduction \<Rightarrow> OrderLifecycle \<Rightarrow> OrderLifecycle" where
  "lc_reduce message shares kind l =
     (let l = (case kind of
            Reduction_Execution \<Rightarrow> lc_count (\<lambda>s. s\<lparr>ls_executions := ls_executions s + 1,
              ls_executed_shares := ls_executed_shares s + ucast shares\<rparr>) l
          | Reduction_Cancel \<Rightarrow> lc_count (\<lambda>s. s\<lparr>ls_cancels := ls_cancels s + 1,
              ls_canceled_shares := ls_canceled_shares s + ucast shares\<rparr>) l);
          order_id = read_u64 message 11 in
      case Mapping.lookup (lc_orders l) order_id of
        None \<Rightarrow> lc_missing l
      | Some order \<Rightarrow>
          let l = lc_check_locate order message l in
          if shares = 0 \<or> shares > or_remaining order then
            lc_count (\<lambda>s. s\<lparr>ls_over_reductions := ls_over_reductions s + 1\<rparr>) l
          else
            let order = order\<lparr>or_remaining := or_remaining order - shares\<rparr> in
            l\<lparr>lc_orders := (if or_remaining order = 0 then Mapping.delete order_id (lc_orders l)
                            else Mapping.update order_id order (lc_orders l))\<rparr>)"

definition lc_erase :: "bytes \<Rightarrow> OrderLifecycle \<Rightarrow> OrderLifecycle" where
  "lc_erase message l =
     (let l = lc_count (\<lambda>s. s\<lparr>ls_deletes := ls_deletes s + 1\<rparr>) l;
          order_id = read_u64 message 11 in
      case Mapping.lookup (lc_orders l) order_id of
        None \<Rightarrow> lc_missing l
      | Some order \<Rightarrow>
          let l = lc_check_locate order message l in l\<lparr>lc_orders := Mapping.delete order_id (lc_orders l)\<rparr>)"

definition lc_replace :: "bytes \<Rightarrow> OrderLifecycle \<Rightarrow> OrderLifecycle" where
  "lc_replace message l =
     (let l = lc_count (\<lambda>s. s\<lparr>ls_replaces := ls_replaces s + 1\<rparr>) l;
          old_order_id = read_u64 message 11; new_order_id = read_u64 message 19;
          shares = read_u32 message 27; price = read_u32 message 31 in
      case Mapping.lookup (lc_orders l) old_order_id of
        None \<Rightarrow> lc_missing l
      | Some order \<Rightarrow>
          let l = lc_check_locate order message l in
          if new_order_id = 0 \<or> shares = 0 \<or> price = 0 then lc_invalid l
          else if Mapping.lookup (lc_orders l) new_order_id \<noteq> None then lc_duplicate l
          else
            let replacement = order\<lparr>or_price := price, or_remaining := shares\<rparr>;
                orders = fst (emplace new_order_id replacement (Mapping.delete old_order_id (lc_orders l)))
            in lc_update_peak (l\<lparr>lc_orders := orders\<rparr>))"

definition lc_on_message :: "bytes \<Rightarrow> nat \<Rightarrow> OrderLifecycle \<Rightarrow> OrderLifecycle" where
  "lc_on_message message sz l =
     (if sz = 0 then l
      else
        let type = message ! 0 in
        if type = ascii CHR ''A'' \<or> type = ascii CHR ''F'' then
          (if sz = expected_message_size type then lc_add message l else l)
        else if type = ascii CHR ''E'' \<or> type = ascii CHR ''C'' then
          (if sz = expected_message_size type then lc_reduce message (read_u32 message 19) Reduction_Execution l else l)
        else if type = ascii CHR ''X'' then
          (if sz = expected_message_size (ascii CHR ''X'') then lc_reduce message (read_u32 message 19) Reduction_Cancel l else l)
        else if type = ascii CHR ''D'' then
          (if sz = expected_message_size (ascii CHR ''D'') then lc_erase message l else l)
        else if type = ascii CHR ''U'' then
          (if sz = expected_message_size (ascii CHR ''U'') then lc_replace message l else l)
        else l)"

section \<open>Agreement with the WonderTrader adapter\<close>

lemma lookup_simps [simp]:
  "Mapping.lookup (Mapping.update k v m) = (Mapping.lookup m)(k \<mapsto> v)" "Mapping.lookup (Mapping.delete k m) = (Mapping.lookup m)(k := None)"
  "Mapping.lookup Mapping.empty = Map.empty"
  by (transfer; simp add: fun_eq_iff)+

lemma emplace_simps [simp]:
  "Mapping.lookup m k = None \<Longrightarrow> emplace k v m = (Mapping.update k v m, True)"
  "Mapping.lookup m k = Some w \<Longrightarrow> emplace k v m = (m, False)"
  by (simp_all add: emplace_def)

text \<open>An order of the census as the WonderTrader adapter keeps it.\<close>

definition wts_view :: "OrderRecord \<Rightarrow> WtsOrder" where
  "wts_view r = \<lparr>wor_price = or_price r, wor_remaining = or_remaining r, wor_side = ucast (or_side r)\<rparr>"

definition agree :: "PsxWtsAdapter \<Rightarrow> OrderLifecycle \<Rightarrow> bool" where
  "agree a l \<longleftrightarrow> (\<forall>k. Mapping.lookup (wa_orders a) k = map_option wts_view (Mapping.lookup (lc_orders l) k))"

lemma wts_sel [simp]:
  "wa_orders (fst (wts_stats f st)) = wa_orders (fst st)" "wa_orders (fst (wts_error st)) = wa_orders (fst st)"
  "wa_orders (fst (wts_duplicate st)) = wa_orders (fst st)" "wa_orders (fst (wts_sink ev st)) = wa_orders (fst st)"
  "wa_orders (fst (wts_set_orders t st)) = t" "wa_orders (fst (wts_set_matches t' st)) = wa_orders (fst st)"
  by (cases st; simp add: wts_stats_def wts_error_def wts_duplicate_def wts_sink_def wts_set_orders_def wts_set_matches_def)+

lemma wts_emit_sel [simp]:
  "wa_orders (fst (wts_emit_order pb m k ord st)) = wa_orders (fst st)"
  "wa_orders (fst (wts_emit_transaction pb m i ty s p v k st)) = wa_orders (fst st)"
  by (simp_all add: wts_emit_order_def wts_emit_transaction_def Let_def)

lemma lc_sel [simp]:
  "lc_orders (lc_count f l) = lc_orders l" "lc_orders (lc_missing l) = lc_orders l" "lc_orders (lc_invalid l) = lc_orders l"
  "lc_orders (lc_duplicate l) = lc_orders l" "lc_orders (lc_check_locate r m l) = lc_orders l" "lc_orders (lc_update_peak l) = lc_orders l"
  by (simp_all add: lc_count_def lc_missing_def lc_invalid_def lc_duplicate_def lc_check_locate_def lc_update_peak_def)

lemma side_cast: "(ucast (b :: u8) :: u32) = 66 \<longleftrightarrow> b = 66" "(ucast (b :: u8) :: u32) = 83 \<longleftrightarrow> b = 83"
proof -
  have "unat (ucast b :: u32) = unat b"
    using unsigned_less [of b, where ?'a = nat] by (simp add: unsigned_ucast_eq take_bit_nat_eq_self)
  then show "(ucast b :: u32) = 66 \<longleftrightarrow> b = 66" "(ucast b :: u32) = 83 \<longleftrightarrow> b = 83"
    by (simp_all add: word_unat_eq_iff)
qed

lemma agreeI: "(\<And>k. Mapping.lookup (wa_orders a) k = map_option wts_view (Mapping.lookup (lc_orders l) k)) \<Longrightarrow> agree a l"
  by (simp add: agree_def)

lemma agreeD: "agree a l \<Longrightarrow> Mapping.lookup (wa_orders a) k = map_option wts_view (Mapping.lookup (lc_orders l) k)"
  by (simp add: agree_def)

lemma wts_view_sel [simp]:
  "wor_price (wts_view r) = or_price r" "wor_remaining (wts_view r) = or_remaining r" "wor_side (wts_view r) = ucast (or_side r)"
  by (simp_all add: wts_view_def)

lemma agree_add: "agree (fst st) l \<Longrightarrow> agree (fst (wts_add pb m st)) (lc_add m l)"
  by (cases "Mapping.lookup (lc_orders l) (read_u64 m 11)")
    (auto simp: wts_add_def lc_add_def Let_def agree_def side_cast wts_view_def)

lemma agree_reduce:
  assumes "agree (fst st) l" "Mapping.lookup (lc_orders l) (read_u64 m 11) = Some r" "\<not> (s = 0 \<or> s > or_remaining r)"
  shows "agree (fst (wts_reduce (read_u64 m 11) s st)) (lc_reduce m s k l)"
  using assms agreeD [OF assms(1), of "read_u64 m 11"]
  by (cases k) (auto simp: wts_reduce_def lc_reduce_def Let_def agree_def wts_view_def)

lemma lc_reduce_refused:
  assumes "Mapping.lookup (lc_orders l) (read_u64 m 11) = None \<or> (\<exists>r. Mapping.lookup (lc_orders l) (read_u64 m 11) = Some r \<and> (s = 0 \<or> s > or_remaining r))"
  shows "lc_orders (lc_reduce m s k l) = lc_orders l"
  using assms by (cases k) (auto simp: lc_reduce_def Let_def)

lemma agree_execute:
  assumes "agree (fst st) l"
  shows "agree (fst (wts_execute pb m st)) (lc_reduce m (read_u32 m 19) k l)"
    "agree (fst (wts_cancel_partial pb m st)) (lc_reduce m (read_u32 m 19) k l)"
proof -
  let ?i = "read_u64 m 11" and ?s = "read_u32 m 19"
  have a: "Mapping.lookup (wa_orders (fst st)) ?i = map_option wts_view (Mapping.lookup (lc_orders l) ?i)" by (rule agreeD [OF assms])
  have refuse: "agree (fst (wts_error st)) (lc_reduce m ?s k l)"
    if "Mapping.lookup (lc_orders l) ?i = None \<or> (\<exists>r. Mapping.lookup (lc_orders l) ?i = Some r \<and> (?s = 0 \<or> ?s > or_remaining r))"
    using lc_reduce_refused [OF that, of k] assms by (simp add: agree_def)
  have keep: "agree (fst st') l" if "wa_orders (fst st') = wa_orders (fst st)" for st' :: wts_state
    using assms that by (simp add: agree_def)
  show "agree (fst (wts_execute pb m st)) (lc_reduce m ?s k l)" "agree (fst (wts_cancel_partial pb m st)) (lc_reduce m ?s k l)"
    using a refuse
    by (cases "Mapping.lookup (lc_orders l) ?i";
        force simp: wts_execute_def wts_cancel_partial_def Let_def case_prod_unfold intro!: agree_reduce keep)+
qed

lemma agree_erase: "agree (fst st) l \<Longrightarrow> agree (fst (wts_cancel_all pb m st)) (lc_erase m l)"
  by (cases "Mapping.lookup (lc_orders l) (read_u64 m 11)")
    (auto simp: wts_cancel_all_def lc_erase_def Let_def agree_def)

lemma agree_replace: "agree (fst st) l \<Longrightarrow> agree (fst (wts_replace pb m st)) (lc_replace m l)"
  by (cases "Mapping.lookup (lc_orders l) (read_u64 m 11)"; cases "Mapping.lookup (lc_orders l) (read_u64 m 19)")
    (auto simp: wts_replace_def lc_replace_def Let_def agree_def wts_view_def)

lemma wts_trades_orders [simp]:
  "wa_orders (fst (wts_non_cross_trade pb m st)) = wa_orders (fst st)" "wa_orders (fst (wts_cross_trade pb m st)) = wa_orders (fst st)"
  "wa_orders (fst (wts_broken_trade pb m st)) = wa_orders (fst st)"
  by (simp_all add: wts_non_cross_trade_def wts_cross_trade_def wts_broken_trade_def Let_def case_prod_unfold split: option.split)

lemma agree_dispatch:
  assumes "agree (fst st) l" "sz = expected_message_size (m ! 0)" "sz \<noteq> 0"
  shows "agree (fst (wts_dispatch pb m st)) (lc_on_message m sz l)"
proof -
  have same: "agree (fst st') l" if "wa_orders (fst st') = wa_orders (fst st)" for st' :: wts_state
    using assms(1) that by (simp add: agree_def)
  note steps = agree_add [OF assms(1)] agree_execute [OF assms(1)] agree_erase [OF assms(1)] agree_replace [OF assms(1)]
  show ?thesis
    unfolding wts_dispatch_def lc_on_message_def Let_def if_not_P [OF assms(3)]
    using assms(2) by (cases "m ! 0 = ascii CHR ''A'' \<or> m ! 0 = ascii CHR ''F''";
        cases "m ! 0 = ascii CHR ''E'' \<or> m ! 0 = ascii CHR ''C''"; cases "m ! 0 = ascii CHR ''X''"; cases "m ! 0 = ascii CHR ''D''";
        cases "m ! 0 = ascii CHR ''U''") (simp_all add: steps same)
qed

lemma lc_on_message_other:
  assumes "sz \<noteq> expected_message_size (m ! 0)"
  shows "lc_on_message m sz l = l"
  using assms by (auto simp: lc_on_message_def Let_def)

lemma lc_on_message_short:
  assumes "sz < 11"
  shows "lc_on_message m sz l = l"
proof -
  have "sz \<noteq> expected_message_size (ascii CHR ''A'')" "sz \<noteq> expected_message_size (ascii CHR ''F'')"
    "sz \<noteq> expected_message_size (ascii CHR ''E'')" "sz \<noteq> expected_message_size (ascii CHR ''C'')"
    "sz \<noteq> expected_message_size (ascii CHR ''X'')" "sz \<noteq> expected_message_size (ascii CHR ''D'')"
    "sz \<noteq> expected_message_size (ascii CHR ''U'')"
    using assms by (simp_all add: expected_message_size_def)
  then show ?thesis unfolding lc_on_message_def Let_def by auto
qed

lemma agree_on_message:
  assumes "agree (fst st) l" "read_u16 m 1 = wa_locator (fst st)"
  shows "agree (fst (wts_on_message pb m sz st)) (lc_on_message m sz l)"
proof -
  obtain a out where st: "st = (a, out)" by (cases st)
  let ?st = "(a\<lparr>wa_event_sequence := wa_event_sequence a + 1\<rparr>, out)"
  have a: "agree (fst ?st) l" "agree (fst (wts_error ?st)) l" using assms(1) by (simp_all add: st agree_def)
  show ?thesis
  proof (cases "sz < 11 \<or> sz \<noteq> expected_message_size (m ! 0)")
    case True
    then show ?thesis using lc_on_message_short lc_on_message_other a assms
      by (auto simp: wts_on_message_def st Let_def)
  next
    case False
    then show ?thesis using agree_dispatch [OF a(1), of sz m pb] assms(2)
      by (simp add: wts_on_message_def st Let_def)
  qed
qed

section \<open>Counting the events\<close>

fun is_order :: "wts_event \<Rightarrow> bool" where
  "is_order (On_order_detail _) = True"
| "is_order (On_transaction _) = False"

definition wts_balanced :: "wts_state \<Rightarrow> bool" where
  "wts_balanced st \<longleftrightarrow> (let s = wa_stats (fst st) in
     ws_order_details s = of_nat (length (filter is_order (snd st))) \<and>
     ws_transactions s = of_nat (length (filter (\<lambda>ev. \<not> is_order ev) (snd st))) \<and>
     ws_transactions s = ws_matches s + ws_cancels s + ws_trade_busts s)"

lemma wts_balanced_frame [simp]:
  "wts_balanced (wts_error st) = wts_balanced st" "wts_balanced (wts_duplicate st) = wts_balanced st"
  "wts_balanced (wts_set_orders t st) = wts_balanced st" "wts_balanced (wts_set_matches t' st) = wts_balanced st"
  "wts_balanced (wts_stats (\<lambda>s. s\<lparr>ws_peak_active_orders := f s\<rparr>) st) = wts_balanced st"
  "wts_balanced (wts_stats (\<lambda>s. s\<lparr>ws_non_printable_suppressed := f s\<rparr>) st) = wts_balanced st"
  "wts_balanced (wts_stats (\<lambda>s. s\<lparr>ws_unknown_broken_trades := f s\<rparr>) st) = wts_balanced st"
  "wts_balanced (wts_stats (\<lambda>s. s\<lparr>ws_broken_trades_without_output := f s\<rparr>) st) = wts_balanced st"
  by (cases st; simp add: wts_balanced_def wts_error_def wts_duplicate_def wts_set_orders_def wts_set_matches_def wts_stats_def Let_def)+

lemma wts_balanced_emit:
  assumes "wts_balanced st"
  shows "wts_balanced (wts_emit_order pb m k ord st)"
    "ty = TT_Cancel \<or> ty = TT_Match \<or> ty = kWtsTradeBust \<Longrightarrow> wts_balanced (wts_emit_transaction pb m i ty s p v k st)"
proof -
  obtain a out where st: "st = (a, out)" by (cases st)
  show "wts_balanced (wts_emit_order pb m k ord st)"
    using assms by (auto simp: st wts_balanced_def wts_emit_order_def wts_sink_def wts_stats_def Let_def)
  show "wts_balanced (wts_emit_transaction pb m i ty s p v k st)" if "ty = TT_Cancel \<or> ty = TT_Match \<or> ty = kWtsTradeBust"
  proof (cases "v = 0 \<or> k > INT64_MAX")
    case True
    then show ?thesis using assms by (auto simp: wts_emit_transaction_def)
  next
    case False
    then show ?thesis using assms that
      by (auto simp: st wts_balanced_def wts_emit_transaction_def wts_sink_def wts_stats_def Let_def kWtsTradeBust_def algebra_simps)
  qed
qed

lemma wts_balanced_reduce: "wts_balanced st \<Longrightarrow> wts_balanced (wts_reduce k s st)"
  by (simp add: wts_reduce_def Let_def split: option.split)

lemmas wts_steps = wts_balanced_emit wts_balanced_reduce

lemma wts_balanced_messages:
  assumes "wts_balanced st"
  shows "wts_balanced (wts_add pb m st)" "wts_balanced (wts_execute pb m st)" "wts_balanced (wts_cancel_partial pb m st)"
    "wts_balanced (wts_cancel_all pb m st)" "wts_balanced (wts_replace pb m st)" "wts_balanced (wts_non_cross_trade pb m st)"
    "wts_balanced (wts_cross_trade pb m st)" "wts_balanced (wts_broken_trade pb m st)"
  using assms
  by (auto simp: wts_add_def wts_execute_def wts_cancel_partial_def wts_cancel_all_def wts_replace_def wts_non_cross_trade_def
      wts_cross_trade_def wts_broken_trade_def Let_def case_prod_unfold intro!: wts_steps split: option.split)

lemma wts_balanced_on_message: "wts_balanced st \<Longrightarrow> wts_balanced (wts_on_message pb m sz st)"
proof -
  assume "wts_balanced st"
  moreover obtain a out where st: "st = (a, out)" by (cases st)
  ultimately have b: "wts_balanced (a\<lparr>wa_event_sequence := wa_event_sequence a + 1\<rparr>, out)" by (auto simp: wts_balanced_def Let_def)
  show ?thesis using \<open>wts_balanced st\<close> wts_balanced_messages [OF b] b
    by (simp add: wts_on_message_def st wts_dispatch_def Let_def)
qed

section \<open>Properties\<close>

lemma wts_locator [simp]:
  "wa_locator (fst (wts_stats f st)) = wa_locator (fst st)" "wa_locator (fst (wts_error st)) = wa_locator (fst st)"
  "wa_locator (fst (wts_duplicate st)) = wa_locator (fst st)" "wa_locator (fst (wts_sink ev st)) = wa_locator (fst st)"
  "wa_locator (fst (wts_set_orders t st)) = wa_locator (fst st)" "wa_locator (fst (wts_set_matches t' st)) = wa_locator (fst st)"
  by (cases st; simp add: wts_stats_def wts_error_def wts_duplicate_def wts_sink_def wts_set_orders_def wts_set_matches_def)+

lemma wts_emit_locator [simp]:
  "wa_locator (fst (wts_emit_order pb m k ord st)) = wa_locator (fst st)"
  "wa_locator (fst (wts_emit_transaction pb m i ty s p v k st)) = wa_locator (fst st)"
  "wa_locator (fst (wts_reduce k s' st)) = wa_locator (fst st)"
  by (simp_all add: wts_emit_order_def wts_emit_transaction_def wts_reduce_def Let_def split: option.split)

lemma wts_message_locator:
  "wa_locator (fst (wts_add pb m st)) = wa_locator (fst st)" "wa_locator (fst (wts_execute pb m st)) = wa_locator (fst st)"
  "wa_locator (fst (wts_cancel_partial pb m st)) = wa_locator (fst st)" "wa_locator (fst (wts_cancel_all pb m st)) = wa_locator (fst st)"
  "wa_locator (fst (wts_replace pb m st)) = wa_locator (fst st)" "wa_locator (fst (wts_non_cross_trade pb m st)) = wa_locator (fst st)"
  "wa_locator (fst (wts_cross_trade pb m st)) = wa_locator (fst st)" "wa_locator (fst (wts_broken_trade pb m st)) = wa_locator (fst st)"
  by (simp_all add: wts_add_def wts_execute_def wts_cancel_partial_def wts_cancel_all_def wts_replace_def
        wts_non_cross_trade_def wts_cross_trade_def wts_broken_trade_def Let_def case_prod_unfold split: option.split)

lemma wts_on_message_locator [simp]: "wa_locator (fst (wts_on_message pb m sz st)) = wa_locator (fst st)"
  by (cases st) (simp add: wts_on_message_def wts_dispatch_def Let_def wts_message_locator)

definition wts_run :: "(u32 \<Rightarrow> u64) \<Rightarrow> (bytes \<times> nat) list \<Rightarrow> wts_state \<Rightarrow> wts_state" where
  "wts_run pb msgs st = foldl (\<lambda>st (m, n). wts_on_message pb m n st) st msgs"

definition lc_run :: "(bytes \<times> nat) list \<Rightarrow> OrderLifecycle \<Rightarrow> OrderLifecycle" where
  "lc_run msgs l = foldl (\<lambda>l (m, n). lc_on_message m n l) l msgs"

lemma agree_run:
  assumes "agree (fst st) l" "\<forall>x\<in>set msgs. read_u16 (fst x) 1 = wa_locator (fst st)"
  shows "agree (fst (wts_run pb msgs st)) (lc_run msgs l)"
  using assms
proof (induction msgs arbitrary: st l)
  case (Cons x msgs)
  then show ?case using agree_on_message [OF Cons.prems(1), of "fst x" pb "snd x"]
    by (simp add: wts_run_def lc_run_def case_prod_unfold)
qed (simp add: wts_run_def lc_run_def)

lemma mapping_size: "Mapping.size m = card (dom (Mapping.lookup m))"
  by (simp add: Mapping.size_def keys_dom_lookup)

text \<open>
  C13. The order census and the WonderTrader adapter agree: fed the same messages of one instrument,
  of any content and any size, both start to finish hold the same live orders with the same side,
  price and remaining shares, and report the same number of them.
\<close>

theorem lifecycle_agrees_with_wts:
  assumes "\<forall>x\<in>set msgs. read_u16 (fst x) 1 = locator"
    "wts_run price_bits msgs (PsxWtsAdapter_new date locator symbol, []) = (a, out)" "l = lc_run msgs OrderLifecycle_new"
  shows "(\<forall>k. Mapping.lookup (wa_orders a) k = map_option (\<lambda>r. \<lparr>wor_price = or_price r, wor_remaining = or_remaining r,
      wor_side = ucast (or_side r)\<rparr>) (Mapping.lookup (lc_orders l) k)) \<and> wts_active_orders a = lc_active_orders l"
proof -
  have "agree (PsxWtsAdapter_new date locator symbol) OrderLifecycle_new"
    by (simp add: agree_def PsxWtsAdapter_new_def OrderLifecycle_new_def)
  then have ag: "agree a l"
    using agree_run [of "(PsxWtsAdapter_new date locator symbol, [])" OrderLifecycle_new msgs price_bits] assms
    by (simp add: assms(2), simp add: PsxWtsAdapter_new_def)
  then have "Mapping.lookup (wa_orders a) = (\<lambda>k. map_option wts_view (Mapping.lookup (lc_orders l) k))" by (simp add: agree_def fun_eq_iff)
  then have "dom (Mapping.lookup (wa_orders a)) = dom (Mapping.lookup (lc_orders l))" by (auto simp: dom_def)
  moreover have "wts_view = (\<lambda>r. \<lparr>wor_price = or_price r, wor_remaining = or_remaining r, wor_side = ucast (or_side r)\<rparr>)"
    by (simp add: fun_eq_iff wts_view_def)
  ultimately show ?thesis using ag by (simp add: agree_def wts_active_orders_def lc_active_orders_def mapping_size)
qed

definition itch_add :: bytes where
  "itch_add = [65, 0, 7, 0, 0, 0, 0, 0, 0, 0, 0, 0, 0, 0, 0, 0, 0, 0, 1, 66, 0, 0, 0, 5,
     65, 65, 65, 65, 32, 32, 32, 32, 0, 0, 0, 9]"

theorem lifecycle_agrees_with_wts_witness:
  "wts_active_orders (fst (wts_run (\<lambda>p. ucast p) [(itch_add, 36)] (PsxWtsAdapter_new 20240102 7 [65], []))) =
     lc_active_orders (lc_run [(itch_add, 36)] OrderLifecycle_new) \<and>
   Mapping.lookup (lc_orders (lc_run [(itch_add, 36)] OrderLifecycle_new)) 1 =
     Some \<lparr>or_price = 9, or_remaining = 5, or_stock_locate = 7, or_side = 66\<rparr>"
proof -
  have f: "read_u16 itch_add 1 = 7" "read_u64 itch_add 11 = 1" "itch_add ! 19 = 66" "read_u32 itch_add 20 = 5"
    "read_u32 itch_add 32 = 9" "itch_add ! 0 = 65" "expected_message_size 65 = 36"
    by (simp_all add: itch_add_def read_u16_def read_u64_def read_u32_def expected_message_size_def)
  have "\<forall>x\<in>set [(itch_add, 36)]. read_u16 (fst x) 1 = 7" using f(1) by simp
  from lifecycle_agrees_with_wts [OF this prod.collapse [symmetric] refl] f show ?thesis
    by (simp add: lc_run_def lc_on_message_def lc_add_def OrderLifecycle_new_def Let_def emplace_def)
qed

text \<open>
  The WonderTrader adapter accounts for every event: after any messages the counters of order
  details and of transactions are the numbers of such events handed to the sink, modulo \<open>2 ^ 64\<close>,
  and every transaction is a match, a cancel or a trade bust.
\<close>

lemma wts_accounting:
  assumes "wts_run price_bits msgs (PsxWtsAdapter_new date locator symbol, []) = (a, out)"
  shows "ws_order_details (wa_stats a) = of_nat (length (filter is_order out)) \<and>
    ws_transactions (wa_stats a) = of_nat (length (filter (\<lambda>ev. \<not> is_order ev) out)) \<and>
    ws_transactions (wa_stats a) = ws_matches (wa_stats a) + ws_cancels (wa_stats a) + ws_trade_busts (wa_stats a)"
proof -
  have run: "wts_balanced (wts_run price_bits msgs st)" if "wts_balanced st" for st
    using that
  proof (induction msgs arbitrary: st)
    case (Cons x msgs)
    then show ?case using wts_balanced_on_message [OF Cons.prems, of price_bits "fst x" "snd x"] by (simp add: wts_run_def case_prod_unfold)
  qed (simp add: wts_run_def)
  have "wts_balanced (PsxWtsAdapter_new date locator symbol, [])"
    by (simp add: wts_balanced_def PsxWtsAdapter_new_def WtsAdapterStats_zero_def)
  from run [OF this] show ?thesis unfolding assms wts_balanced_def Let_def fst_conv snd_conv .
qed

end
