(* ===== verification/AdapterMirror.thy ===== *)
theory AdapterMirror
  imports OrderLifecycle UftAdapterThms
begin

text \<open>
  The UFT adapter against the WonderTrader adapter it replaces: one has bounded tables and publishes to an
  engine, the other has unbounded ones and calls a sink. On a feed whose messages obey the ITCH
  specification, with capacity for it, both emit the same events in the same order and count alike. The
  differential replay tool checks this on files. A price of a WonderTrader event is the bit pattern of
  a \<open>double\<close>; the argument \<open>ticks\<close> is its conversion back, \<open>llround(price * 10000.0)\<close>.
\<close>

section \<open>Tables\<close>

definition table_mirror :: "(u64 \<Rightarrow> 'w \<Rightarrow> 'u \<Rightarrow> bool) \<Rightarrow> nat \<Rightarrow> (u64, 'w) mapping \<Rightarrow> 'u FixedHashTable \<Rightarrow> bool" where
  "table_mirror R n mp t \<longleftrightarrow> fht_wf t \<and> (\<forall>k. rel_option (R k) (Mapping.lookup mp k) (fht_map t k)) \<and> fh_size t + n \<le> fh_maximum t"

lemma table_mirrorD:
  assumes "table_mirror R n mp t"
  shows "fht_wf t" "rel_option (R k) (Mapping.lookup mp k) (fht_map t k)" "fh_size t + n \<le> fh_maximum t"
  using assms by (simp_all add: table_mirror_def)

lemma table_mirror_find: "table_mirror R n mp t \<Longrightarrow> rel_option (R k) (Mapping.lookup mp k) (fht_find t k)"
  using table_mirrorD(2) by (simp add: fh.find_map table_mirror_def)

lemma table_mirror_less: "table_mirror R (Suc n) mp t \<Longrightarrow> table_mirror R n mp t"
  by (simp add: table_mirror_def)

lemma lookup_delete_all: "Mapping.lookup (Mapping.delete k mp) j = (if j = k then None else Mapping.lookup mp j)"
  by (cases "j = k") (auto simp: lookup_delete lookup_delete_neq)

lemma lookup_update_all: "Mapping.lookup (Mapping.update k w mp) j = (if j = k then Some w else Mapping.lookup mp j)"
  by (cases "j = k") (auto simp: lookup_update lookup_update_neq)

lemma fht_size_update:
  assumes "fht_wf t" "fht_wf t'" "fht_map t' = (fht_map t)(k \<mapsto> v)"
  shows "fh_size t' = (if fht_map t k = None then Suc (fh_size t) else fh_size t)"
  using fh.size_card [OF assms(1)] fh.size_card [OF assms(2)] fh.dom_finite [OF assms(1)] assms(3)
  by (auto simp: card_insert_if domIff)

lemma table_mirror_duplicate:
  assumes "table_mirror R n mp t" "Mapping.lookup mp k \<noteq> None"
  shows "fht_insert t k v = (t, Duplicate)"
  using table_mirrorD(2) [OF assms(1), of k] assms(2) fh.insert_duplicate [OF table_mirrorD(1) [OF assms(1)], of k]
  by (auto elim: option.rel_cases)

lemma table_mirror_insert:
  assumes "table_mirror R (Suc n) mp t" "k \<noteq> 0" "R k w u" "Mapping.lookup mp k = None"
  obtains t' where "fht_insert t k u = (t', Inserted)" "table_mirror R n (Mapping.update k w mp) t'"
proof -
  note wf = table_mirrorD(1) [OF assms(1)]
  have none: "fht_map t k = None" using table_mirrorD(2) [OF assms(1), of k] assms(4) by simp
  have "fh_size t \<noteq> fh_maximum t" using table_mirrorD(3) [OF assms(1)] by simp
  then obtain t' where t': "fht_insert t k u = (t', Inserted)" "fht_wf t'" "fht_map t' = (fht_map t)(k \<mapsto> u)" "fh_maximum t' = fh_maximum t"
    using fh.insert_fresh [OF wf assms(2) none] by blast
  have "table_mirror R n (Mapping.update k w mp) t'"
    using table_mirrorD [OF assms(1)] t' fht_size_update [OF wf t'(2,3)] none assms(3)
    by (simp add: table_mirror_def lookup_update_all)
  then show thesis using t'(1) that by blast
qed

lemma table_mirror_erase:
  assumes "table_mirror R n mp t"
  shows "table_mirror R n (Mapping.delete k mp) (fst (fht_erase t k))"
proof -
  note wf = table_mirrorD(1) [OF assms]
  have "dom ((fht_map t)(k := None)) \<subseteq> dom (fht_map t)" by auto
  then have "fh_size (fst (fht_erase t k)) \<le> fh_size t"
    using card_mono [OF fh.dom_finite [OF wf]] fh.erase_wf [OF wf] fh.erase_map [OF wf] by (simp add: fh.size_card wf)
  then show ?thesis
    using table_mirrorD [OF assms] by (simp add: table_mirror_def lookup_delete_all fh.erase_wf fh.erase_map fh.erase_max)
qed

lemma table_mirror_store:
  assumes "table_mirror R n mp t" "Mapping.lookup mp k \<noteq> None" "R k w u"
  shows "table_mirror R n (Mapping.update k w mp) (fht_store t k u)"
proof -
  note wf = table_mirrorD(1) [OF assms(1)]
  have some: "fht_map t k \<noteq> None" using table_mirrorD(2) [OF assms(1), of k] assms(2) by (auto elim: option.rel_cases)
  show ?thesis
    using table_mirrorD [OF assms(1)] fht_store_map [OF wf some, of u] assms(3) by (simp add: table_mirror_def lookup_update_all)
qed

section \<open>Events\<close>

definition uft_side :: "u32 \<Rightarrow> UftSide" where
  "uft_side side = (if side = BDT_Buy then UftSide_Buy else if side = BDT_Sell then UftSide_Sell else UftSide_Unknown)"

datatype uft_event = Uft_order UftOrderDetail | Uft_transaction UftTransaction

text \<open>An engine that keeps the events published to it.\<close>

definition event_log :: "uft_event list engine_ops" where
  "event_log = \<lparr>eo_publish_order_detail = (\<lambda>ev evs. (evs @ [Uft_order ev], 1)),
     eo_publish_transaction = (\<lambda>ev evs. (evs @ [Uft_transaction ev], 1)), eo_publish_book_update = None\<rparr>"

definition transaction_type :: "u32 \<Rightarrow> UftTransactionType" where
  "transaction_type ttype = (if ttype = TT_Match then Tx_Trade else if ttype = kWtsTradeBust then Tx_TradeBust else Tx_Cancel)"

fun event_mirror :: "(u64 \<Rightarrow> PriceTicks) \<Rightarrow> wts_event \<Rightarrow> uft_event \<Rightarrow> bool" where
  "event_mirror ticks (On_order_detail w) (Uft_order u) \<longleftrightarrow> od_order_id u = wo_index w \<and> od_price_ticks u = ticks (wo_price w) \<and>
     od_quantity u = ucast (wo_volume w) \<and> od_side u = uft_side (wo_side w) \<and> od_order_type u = UftOrderType_Limit \<and>
     action_time (od_exchange_time_ns u) = wo_action_time w"
| "event_mirror ticks (On_transaction w) (Uft_transaction u) \<longleftrightarrow> tx_transaction_id u = wt_index w \<and> tx_price_ticks u = ticks (wt_price w) \<and>
     tx_quantity u = ucast (wt_volume w) \<and> tx_side u = uft_side (wt_side w) \<and> tx_transaction_type u = transaction_type (wt_ttype w) \<and>
     tx_ask_order_id u = wt_askorder w \<and> tx_bid_order_id u = wt_bidorder w \<and> action_time (tx_exchange_time_ns u) = wt_action_time w"
| "event_mirror ticks _ _ \<longleftrightarrow> False"

definition counters_mirror :: "WtsAdapterStats \<Rightarrow> UftAdapterStats \<Rightarrow> bool" where
  "counters_mirror w u \<longleftrightarrow> ws_order_details w = us_order_details u \<and> ws_transactions w = us_transactions u \<and> ws_matches w = us_matches u \<and>
     ws_cancels w = us_cancels u \<and> ws_trade_busts w = us_trade_busts u \<and>
     ws_duplicate_matches_suppressed w = us_duplicate_matches_suppressed u \<and> ws_non_printable_suppressed w = us_non_printable_suppressed u \<and>
     ws_broken_trades_without_output w = us_broken_trades_without_output u \<and> ws_unknown_broken_trades w = us_unknown_broken_trades u \<and>
     ws_errors w = us_malformed_or_missing_orders u \<and> us_capacity_exhaustions u = 0"

definition output_mirror :: "(u64 \<Rightarrow> PriceTicks) \<Rightarrow> wts_state \<Rightarrow> uft_event list adapter_state \<Rightarrow> bool" where
  "output_mirror ticks w u \<longleftrightarrow> list_all2 (event_mirror ticks) (snd w) (snd u) \<and> counters_mirror (wa_stats (fst w)) (ua_stats (fst u))"

definition order_mirror :: "u64 \<Rightarrow> WtsOrder \<Rightarrow> UftOrder \<Rightarrow> bool" where
  "order_mirror k w u \<longleftrightarrow> k \<le> INT64_MAX \<and> uo_price_ticks u = uint (wor_price w) \<and> uo_remaining u = ucast (wor_remaining w) \<and>
     uo_side u = uft_side (wor_side w) \<and> wor_price w \<noteq> 0 \<and> wor_remaining w \<noteq> 0"

definition match_mirror :: "u64 \<Rightarrow> WtsMatch \<Rightarrow> UftMatch \<Rightarrow> bool" where
  "match_mirror k w u \<longleftrightarrow> um_price_ticks u = uint (wm_price w) \<and> um_quantity u = ucast (wm_volume w) \<and> um_side u = uft_side (wm_side w) \<and>
     um_order_id u = wm_order_id w \<and> um_emitted u = wm_emitted w \<and> wm_volume w \<noteq> 0 \<and> wm_order_id w \<le> INT64_MAX"

definition state_mirror :: "nat \<Rightarrow> wts_state \<Rightarrow> 'e adapter_state \<Rightarrow> bool" where
  "state_mirror n w u \<longleftrightarrow> wa_event_sequence (fst w) = ua_source_sequence (fst u) \<and> wa_locator (fst w) = ua_locator (fst u) \<and>
     table_mirror order_mirror n (wa_orders (fst w)) (ua_orders (fst u)) \<and> table_mirror match_mirror n (wa_matches (fst w)) (ua_matches (fst u))"

section \<open>Counters and output\<close>

lemma emit_book_log [simp]: "emit_book event_log m act oid nid mid p q s pr st = st"
  by (cases st) (simp add: emit_book_def book_publish_def event_log_def)

lemma output_set [simp]:
  "output_mirror ticks (wts_set_orders t1 w) u = output_mirror ticks w u" "output_mirror ticks (wts_set_matches t2 w) u = output_mirror ticks w u"
  "output_mirror ticks w (set_orders t3 u) = output_mirror ticks w u" "output_mirror ticks w (set_matches t4 u) = output_mirror ticks w u"
  "output_mirror ticks (wts_stats (\<lambda>s. s\<lparr>ws_peak_active_orders := f s\<rparr>) w) u = output_mirror ticks w u"
  "output_mirror ticks w (upd_stats (\<lambda>s. s\<lparr>us_peak_active_orders := g s\<rparr>) u) = output_mirror ticks w u"
  by (cases w; cases u; simp add: output_mirror_def counters_mirror_def wts_set_orders_def wts_set_matches_def set_orders_def set_matches_def
      wts_stats_def upd_stats_def)+

lemma output_count:
  assumes "output_mirror ticks w u"
  shows "output_mirror ticks (wts_error w) (count_malformed u)" "output_mirror ticks (wts_duplicate w) (count_duplicate u)"
    "output_mirror ticks (wts_stats (\<lambda>s. s\<lparr>ws_non_printable_suppressed := ws_non_printable_suppressed s + 1\<rparr>) w)
      (upd_stats (\<lambda>s. s\<lparr>us_non_printable_suppressed := us_non_printable_suppressed s + 1\<rparr>) u)"
    "output_mirror ticks (wts_stats (\<lambda>s. s\<lparr>ws_unknown_broken_trades := ws_unknown_broken_trades s + 1\<rparr>) w)
      (upd_stats (\<lambda>s. s\<lparr>us_unknown_broken_trades := us_unknown_broken_trades s + 1\<rparr>) u)"
    "output_mirror ticks (wts_stats (\<lambda>s. s\<lparr>ws_broken_trades_without_output := ws_broken_trades_without_output s + 1\<rparr>) w)
      (upd_stats (\<lambda>s. s\<lparr>us_broken_trades_without_output := us_broken_trades_without_output s + 1\<rparr>) u)"
  using assms
  by (cases w; cases u; simp add: output_mirror_def counters_mirror_def wts_error_def count_malformed_def wts_duplicate_def count_duplicate_def
      wts_stats_def upd_stats_def)+

lemma list_all2_snoc: "list_all2 P (xs @ [x]) (ys @ [y]) \<longleftrightarrow> list_all2 P xs ys \<and> P x y"
  by (cases "length xs = length ys") (auto simp: list_all2_append dest: list_all2_lengthD)

lemma output_order:
  assumes "output_mirror ticks w u" "order_mirror k wo uo" "\<forall>p. ticks (pb p) = uint p"
  shows "output_mirror ticks (wts_emit_order pb m k wo w) (emit_order event_log m k uo u)"
  using assms
  by (cases w; cases u; simp add: output_mirror_def counters_mirror_def order_mirror_def wts_emit_order_def emit_order_def event_log_def
      wts_sink_def wts_stats_def upd_stats_def Let_def list_all2_snoc)

lemma output_transaction:
  assumes "output_mirror ticks w u" "\<forall>p. ticks (pb p) = uint p" "v \<noteq> 0" "k \<le> INT64_MAX" "s' = uft_side s" "p' = uint p" "q = ucast v"
    "ty \<in> {TT_Match, TT_Cancel, kWtsTradeBust}" "ty' = transaction_type ty"
  shows "output_mirror ticks (wts_emit_transaction pb m i ty s p v k w) (emit_transaction event_log m i ty' s' p' q k u)"
proof -
  obtain a out b out' where w: "w = (a, out)" and u: "u = (b, out')" by (cases w; cases u)
  have q: "q \<noteq> 0" using assms(3,7) by simp
  have side: "s' = UftSide_Sell \<longleftrightarrow> s = BDT_Sell" "s' = UftSide_Buy \<longleftrightarrow> s = BDT_Buy" using assms(5) by (auto simp: uft_side_def)
  consider "ty = TT_Match" "ty' = Tx_Trade" | "ty = TT_Cancel" "ty' = Tx_Cancel" | "ty = kWtsTradeBust" "ty' = Tx_TradeBust"
    using assms(8,9) by (auto simp: transaction_type_def kWtsTradeBust_def)
  then show ?thesis
    using assms(1-7) q side
    by cases (simp_all add: w u output_mirror_def counters_mirror_def wts_emit_transaction_def emit_transaction_def event_log_def
        wts_sink_def wts_stats_def upd_stats_def Let_def list_all2_snoc transaction_type_def kWtsTradeBust_def leD)
qed

section \<open>State\<close>

lemma wts_sel_rest [simp]:
  "wa_matches (fst (wts_stats f st)) = wa_matches (fst st)" "wa_matches (fst (wts_error st)) = wa_matches (fst st)"
  "wa_matches (fst (wts_duplicate st)) = wa_matches (fst st)" "wa_matches (fst (wts_sink ev st)) = wa_matches (fst st)"
  "wa_matches (fst (wts_set_orders t st)) = wa_matches (fst st)" "wa_matches (fst (wts_set_matches t' st)) = t'"
  "wa_event_sequence (fst (wts_stats f st)) = wa_event_sequence (fst st)" "wa_event_sequence (fst (wts_error st)) = wa_event_sequence (fst st)"
  "wa_event_sequence (fst (wts_duplicate st)) = wa_event_sequence (fst st)" "wa_event_sequence (fst (wts_sink ev st)) = wa_event_sequence (fst st)"
  "wa_event_sequence (fst (wts_set_orders t st)) = wa_event_sequence (fst st)"
  "wa_event_sequence (fst (wts_set_matches t' st)) = wa_event_sequence (fst st)"
  by (cases st; simp add: wts_stats_def wts_error_def wts_duplicate_def wts_sink_def wts_set_orders_def wts_set_matches_def)+

lemma wts_emit_sel_rest [simp]:
  "wa_matches (fst (wts_emit_order pb m k ord st)) = wa_matches (fst st)"
  "wa_matches (fst (wts_emit_transaction pb m i ty s p v k st)) = wa_matches (fst st)"
  "wa_event_sequence (fst (wts_emit_order pb m k ord st)) = wa_event_sequence (fst st)"
  "wa_event_sequence (fst (wts_emit_transaction pb m i ty s p v k st)) = wa_event_sequence (fst st)"
  by (simp_all add: wts_emit_order_def wts_emit_transaction_def Let_def)

lemma uft_sequence [simp]:
  "ua_source_sequence (fst (upd_stats f st)) = ua_source_sequence (fst st)"
  "ua_source_sequence (fst (count_malformed st)) = ua_source_sequence (fst st)"
  "ua_source_sequence (fst (count_duplicate st)) = ua_source_sequence (fst st)"
  "ua_source_sequence (fst (emit_order en m oid ord st)) = ua_source_sequence (fst st)"
  "ua_source_sequence (fst (emit_transaction en m tid ty s p q oid st)) = ua_source_sequence (fst st)"
  by (rule frameD(3); simp)+

definition mirrors :: "(u64 \<Rightarrow> PriceTicks) \<Rightarrow> nat \<Rightarrow> wts_state \<Rightarrow> uft_event list adapter_state \<Rightarrow> bool" where
  "mirrors ticks n w u \<longleftrightarrow> state_mirror n w u \<and> output_mirror ticks w u"

lemma mirrors_less: "mirrors ticks (Suc n) w u \<Longrightarrow> mirrors ticks n w u"
  by (auto simp: mirrors_def state_mirror_def intro: table_mirror_less)

lemma mirrors_error: "mirrors ticks (Suc n) w u \<Longrightarrow> mirrors ticks n (wts_error w) (count_malformed u)"
  by (drule mirrors_less) (simp add: mirrors_def state_mirror_def output_count)

section \<open>Messages\<close>

lemma set_same [simp]: "set_orders (ua_orders (fst st)) st = st" "set_matches (ua_matches (fst st)) st = st"
  by (cases st; simp add: set_orders_def set_matches_def)+

lemma insert_failure [simp]:
  "count_insert_failure InvalidKey = count_malformed" "count_insert_failure Duplicate = count_malformed"
  by (simp_all add: count_insert_failure_def)

lemma side_of_uft: "side_of b = uft_side (ucast b)" "side_of b = UftSide_Unknown \<longleftrightarrow> (ucast b :: u32) \<noteq> BDT_Buy \<and> (ucast b :: u32) \<noteq> BDT_Sell"
  by (simp_all add: side_of_def uft_side_def side_cast)

lemma mirrorsD:
  assumes "mirrors ticks n w u"
  shows "table_mirror order_mirror n (wa_orders (fst w)) (ua_orders (fst u))" "table_mirror match_mirror n (wa_matches (fst w)) (ua_matches (fst u))"
    "output_mirror ticks w u" "wa_event_sequence (fst w) = ua_source_sequence (fst u)" "wa_locator (fst w) = ua_locator (fst u)"
  using assms by (simp_all add: mirrors_def state_mirror_def)

lemma mirror_add:
  assumes "mirrors ticks (Suc n) w u" "read_u64 m 11 \<le> INT64_MAX" "\<forall>p. ticks (pb p) = uint p"
  shows "mirrors ticks n (wts_add pb m w) (add event_log m u)"
proof -
  note D = mirrorsD [OF assms(1)]
  let ?k = "read_u64 m 11" and ?s = "ucast (m ! 19) :: u32"
  let ?wo = "\<lparr>wor_price = read_u32 m 32, wor_remaining = read_u32 m 20, wor_side = ?s\<rparr>"
  let ?uo = "\<lparr>uo_price_ticks = uint (read_u32 m 32), uo_remaining = ucast (read_u32 m 20), uo_side = side_of (m ! 19)\<rparr>"
  let ?bad = "read_u32 m 20 = 0 \<or> read_u32 m 32 = 0 \<or> ?s \<noteq> BDT_Buy \<and> ?s \<noteq> BDT_Sell"
  consider "?bad" | "\<not> ?bad" "?k = 0" | "\<not> ?bad" "?k \<noteq> 0" "Mapping.lookup (wa_orders (fst w)) ?k \<noteq> None"
    | "\<not> ?bad" "?k \<noteq> 0" "Mapping.lookup (wa_orders (fst w)) ?k = None" by blast
  then show ?thesis
  proof cases
    case 1
    then have "wts_add pb m w = wts_error w" "add event_log m u = count_malformed u"
      by (auto simp: wts_add_def add_def Let_def side_of_uft(2))
    then show ?thesis using mirrors_error [OF assms(1)] by simp
  next
    case 2
    then have "wts_add pb m w = wts_error w" "add event_log m u = count_malformed u"
      by (auto simp: wts_add_def add_def Let_def side_of_uft(2) fh.insert_invalid [OF table_mirrorD(1) [OF D(1)]])
    then show ?thesis using mirrors_error [OF assms(1)] by simp
  next
    case 3
    then have "wts_add pb m w = wts_error w" "add event_log m u = count_malformed u"
      using table_mirror_duplicate [OF D(1) 3(3)] by (auto simp: wts_add_def add_def Let_def side_of_uft(2) emplace_def)
    then show ?thesis using mirrors_error [OF assms(1)] by simp
  next
    case 4
    have om: "order_mirror ?k ?wo ?uo" using 4 assms(2) by (auto simp: order_mirror_def side_of_uft)
    obtain t' where t': "fht_insert (ua_orders (fst u)) ?k ?uo = (t', Inserted)"
      "table_mirror order_mirror n (Mapping.update ?k ?wo (wa_orders (fst w))) t'"
      by (rule table_mirror_insert [OF D(1) 4(2) om 4(3)])
    show ?thesis
      using 4 t' D table_mirror_less [OF D(2)] output_order [OF _ om assms(3)]
      by (auto simp: wts_add_def add_def Let_def side_of_uft(2) emplace_def mirrors_def state_mirror_def)
  qed
qed

lemma unat_ucast_u32: "unat (ucast (x :: u32) :: u64) = unat x"
  using unsigned_less [of x, where ?'a = nat] by (simp add: unsigned_ucast_eq take_bit_nat_eq_self)

lemma ucast_less_u32: "(ucast (x :: u32) :: u64) < ucast (y :: u32) \<longleftrightarrow> x < y" "(ucast x :: u64) = ucast y \<longleftrightarrow> x = y"
  by (simp_all add: word_less_nat_alt unat_ucast_u32 word_unat_eq_iff)

lemma ucast_diff_u32: "y \<le> x \<Longrightarrow> (ucast (x :: u32) :: u64) - ucast y = ucast (x - y)"
  by (rule word_unat_eq_iff [THEN iffD2]) (simp add: unat_sub unat_ucast_u32 word_le_nat_alt)

lemma mirror_lookup:
  assumes "mirrors ticks n w u" "Mapping.lookup (wa_orders (fst w)) k = Some wo"
  obtains uo where "fht_find (ua_orders (fst u)) k = Some uo" "order_mirror k wo uo"
  using table_mirror_find [OF mirrorsD(1) [OF assms(1)], of k] assms(2) by (auto simp: option_rel_Some1)

lemma mirror_missing:
  assumes "mirrors ticks n w u" "Mapping.lookup (wa_orders (fst w)) k = None"
  shows "fht_find (ua_orders (fst u)) k = None"
  using table_mirror_find [OF mirrorsD(1) [OF assms(1)], of k] assms(2) by simp

lemma adapter_reduce:
  assumes "mirrors ticks n w u" "Mapping.lookup (wa_orders (fst w)) k = Some wo" "v \<le> wor_remaining wo"
  shows "mirrors ticks n (wts_reduce k v w) (reduce_order k (ucast v) u)"
proof -
  note D = mirrorsD [OF assms(1)]
  obtain uo where uo: "fht_find (ua_orders (fst u)) k = Some uo" "order_mirror k wo uo" by (rule mirror_lookup [OF assms(1,2)])
  let ?wo = "wo\<lparr>wor_remaining := wor_remaining wo - v\<rparr>" and ?uo = "uo\<lparr>uo_remaining := uo_remaining uo - ucast v\<rparr>"
  have rem: "uo_remaining ?uo = ucast (wor_remaining ?wo)" using uo(2) assms(3) by (simp add: order_mirror_def ucast_diff_u32)
  have "table_mirror order_mirror n (if wor_remaining ?wo = 0 then Mapping.delete k (wa_orders (fst w)) else Mapping.update k ?wo (wa_orders (fst w)))
      (if uo_remaining ?uo = 0 then fst (fht_erase (fht_store (ua_orders (fst u)) k ?uo) k) else fht_store (ua_orders (fst u)) k ?uo)"
  proof (cases "wor_remaining ?wo = 0")
    case True
    have some: "fht_map (ua_orders (fst u)) k \<noteq> None" using uo(1) table_mirrorD(1) [OF D(1)] by (simp add: fh.find_map)
    have st: "fht_wf (fht_store (ua_orders (fst u)) k ?uo)" "fht_map (fht_store (ua_orders (fst u)) k ?uo) = (fht_map (ua_orders (fst u)))(k \<mapsto> ?uo)"
      "fh_size (fht_store (ua_orders (fst u)) k ?uo) = fh_size (ua_orders (fst u))"
      "fh_maximum (fht_store (ua_orders (fst u)) k ?uo) = fh_maximum (ua_orders (fst u))"
      using fht_store_map [OF table_mirrorD(1) [OF D(1)] some] by blast+
    have "table_mirror (\<lambda>j a b. j = k \<or> order_mirror j a b) n (wa_orders (fst w)) (fht_store (ua_orders (fst u)) k ?uo)"
      using table_mirrorD [OF D(1)] st assms(2) by (auto simp: table_mirror_def option.rel_mono_strong)
    from table_mirror_erase [OF this, of k] have "table_mirror order_mirror n (Mapping.delete k (wa_orders (fst w))) (fst (fht_erase (fht_store (ua_orders (fst u)) k ?uo) k))"
      by (auto simp: table_mirror_def lookup_delete_all fh.erase_map st(1) split: if_splits)
    then show ?thesis using True rem by simp
  next
    case False
    then have "order_mirror k ?wo ?uo" using uo(2) rem by (simp add: order_mirror_def)
    then show ?thesis using False rem table_mirror_store [OF D(1)] assms(2) by simp
  qed
  then show ?thesis
    using D assms(2) uo(1) by (simp add: mirrors_def state_mirror_def wts_reduce_def reduce_order_def Let_def)
qed

lemma mirror_transaction:
  assumes "mirrors ticks n w u" "\<forall>p. ticks (pb p) = uint p" "v \<noteq> 0" "k \<le> INT64_MAX" "s' = uft_side s" "p' = uint p" "q = ucast v"
    "ty \<in> {TT_Match, TT_Cancel, kWtsTradeBust}" "ty' = transaction_type ty"
  shows "mirrors ticks n (wts_emit_transaction pb m i ty s p v k w) (emit_transaction event_log m i ty' s' p' q k u)"
  using mirrorsD [OF assms(1)] output_transaction [OF _ assms(2-9)] by (simp add: mirrors_def state_mirror_def)

lemma mirror_cancel:
  assumes "mirrors ticks n w u" "\<forall>p. ticks (pb p) = uint p" "order_mirror k wo uo" "v \<noteq> 0"
  shows "mirrors ticks n (wts_emit_transaction pb m (wa_event_sequence (fst w)) TT_Cancel (wor_side wo) (wor_price wo) v k w)
    (emit_transaction event_log m (ua_source_sequence (fst u)) Tx_Cancel (uo_side uo) (uo_price_ticks uo) (ucast v) k u)"
  unfolding mirrorsD(4) [OF assms(1)]
  by (rule mirror_transaction [OF assms(1,2,4)]) (use assms(3) in \<open>simp_all add: order_mirror_def transaction_type_def kWtsTradeBust_def\<close>)

lemma mirror_cancel_partial:
  assumes "mirrors ticks (Suc n) w u" "\<forall>p. ticks (pb p) = uint p"
  shows "mirrors ticks n (wts_cancel_partial pb m w) (cancel_partial event_log m u)"
proof (cases "Mapping.lookup (wa_orders (fst w)) (read_u64 m 11)")
  case None
  then show ?thesis using mirror_missing [OF assms(1) None] mirrors_error [OF assms(1)] by (simp add: wts_cancel_partial_def cancel_partial_def)
next
  case (Some wo)
  let ?v = "read_u32 m 19"
  obtain uo where uo: "fht_find (ua_orders (fst u)) (read_u64 m 11) = Some uo" "order_mirror (read_u64 m 11) wo uo"
    by (rule mirror_lookup [OF assms(1) Some])
  have range: "(ucast ?v = (0 :: u64) \<or> ucast ?v > uo_remaining uo) \<longleftrightarrow> (?v = 0 \<or> ?v > wor_remaining wo)"
    using uo(2) by (simp add: order_mirror_def ucast_less_u32)
  show ?thesis
  proof (cases "?v = 0 \<or> ?v > wor_remaining wo")
    case True
    then show ?thesis using Some uo(1) range mirrors_error [OF assms(1)] by (simp add: wts_cancel_partial_def cancel_partial_def Let_def)
  next
    case False
    note tx = mirror_cancel [OF mirrors_less [OF assms(1)] assms(2) uo(2), of ?v m]
    have "mirrors ticks n (wts_cancel_partial pb m w) (reduce_order (read_u64 m 11) (ucast ?v)
        (emit_transaction event_log m (ua_source_sequence (fst u)) Tx_Cancel (uo_side uo) (uo_price_ticks uo) (ucast ?v) (read_u64 m 11) u))"
      using False Some tx adapter_reduce [OF tx] by (auto simp: wts_cancel_partial_def Let_def not_less)
    then show ?thesis using False uo(1) range by (simp add: cancel_partial_def Let_def)
  qed
qed

lemma mirror_cancel_all:
  assumes "mirrors ticks (Suc n) w u" "\<forall>p. ticks (pb p) = uint p"
  shows "mirrors ticks n (wts_cancel_all pb m w) (cancel_all event_log m u)"
proof (cases "Mapping.lookup (wa_orders (fst w)) (read_u64 m 11)")
  case None
  then show ?thesis using mirror_missing [OF assms(1) None] mirrors_error [OF assms(1)] by (simp add: wts_cancel_all_def cancel_all_def)
next
  case (Some wo)
  obtain uo where uo: "fht_find (ua_orders (fst u)) (read_u64 m 11) = Some uo" "order_mirror (read_u64 m 11) wo uo"
    by (rule mirror_lookup [OF assms(1) Some])
  have tx: "mirrors ticks n (wts_emit_transaction pb m (wa_event_sequence (fst w)) TT_Cancel (wor_side wo) (wor_price wo) (wor_remaining wo) (read_u64 m 11) w)
      (emit_transaction event_log m (ua_source_sequence (fst u)) Tx_Cancel (uo_side uo) (uo_price_ticks uo) (uo_remaining uo) (read_u64 m 11) u)"
    using mirror_cancel [OF mirrors_less [OF assms(1)] assms(2) uo(2), of "wor_remaining wo" m] uo(2) by (simp add: order_mirror_def)
  show ?thesis
    using mirrorsD [OF tx] table_mirror_erase [OF mirrorsD(1) [OF tx], of "read_u64 m 11"] Some uo(1)
    by (simp add: mirrors_def state_mirror_def wts_cancel_all_def cancel_all_def Let_def)
qed

lemma mirror_replace:
  assumes "mirrors ticks (Suc n) w u" "\<forall>p. ticks (pb p) = uint p" "read_u64 m 19 \<le> INT64_MAX"
  shows "mirrors ticks n (wts_replace pb m w) (replace event_log m u)"
proof (cases "Mapping.lookup (wa_orders (fst w)) (read_u64 m 11)")
  case None
  then show ?thesis using mirror_missing [OF assms(1) None] mirrors_error [OF assms(1)] by (simp add: wts_replace_def replace_def)
next
  case (Some wo)
  let ?k = "read_u64 m 19" and ?old = "read_u64 m 11"
  note D = mirrorsD [OF assms(1)]
  obtain uo where uo: "fht_find (ua_orders (fst u)) ?old = Some uo" "order_mirror ?old wo uo" by (rule mirror_lookup [OF assms(1) Some])
  have new: "fht_find (ua_orders (fst u)) ?k = None \<longleftrightarrow> Mapping.lookup (wa_orders (fst w)) ?k = None"
    using table_mirror_find [OF D(1), of ?k] by (auto simp: option_rel_Some1 elim: option.rel_cases)
  let ?bad = "?k = 0 \<or> read_u32 m 27 = 0 \<or> read_u32 m 31 = 0 \<or> Mapping.lookup (wa_orders (fst w)) ?k \<noteq> None"
  show ?thesis
  proof (cases ?bad)
    case True
    then show ?thesis using Some uo(1) new mirrors_error [OF assms(1)] by (auto simp: wts_replace_def replace_def Let_def)
  next
    case False
    let ?wo = "\<lparr>wor_price = read_u32 m 31, wor_remaining = read_u32 m 27, wor_side = wor_side wo\<rparr>"
    let ?uo = "\<lparr>uo_price_ticks = uint (read_u32 m 31), uo_remaining = ucast (read_u32 m 27), uo_side = uo_side uo\<rparr>"
    have om: "order_mirror ?k ?wo ?uo" using False assms(3) uo(2) by (simp add: order_mirror_def)
    have free: "Mapping.lookup (Mapping.delete ?old (wa_orders (fst w))) ?k = None" using False by (simp add: lookup_delete_all)
    obtain t' where t': "fht_insert (fst (fht_erase (ua_orders (fst u)) ?old)) ?k ?uo = (t', Inserted)"
      "table_mirror order_mirror n (Mapping.update ?k ?wo (Mapping.delete ?old (wa_orders (fst w)))) t'"
      by (rule table_mirror_insert [OF table_mirror_erase [OF D(1), of ?old] _ om free]) (use False in simp)
    have tx: "output_mirror ticks (wts_emit_transaction pb m (wa_event_sequence (fst w)) TT_Cancel (wor_side wo) (wor_price wo) (wor_remaining wo) ?old w)
        (emit_transaction event_log m (ua_source_sequence (fst u)) Tx_Cancel (uo_side uo) (uo_price_ticks uo) (uo_remaining uo) ?old (set_orders t' u))"
      unfolding D(4)
      by (rule output_transaction) (use D(3) assms(2) uo(2) in \<open>simp_all add: order_mirror_def transaction_type_def kWtsTradeBust_def\<close>)
    have wr: "wts_replace pb m w = wts_emit_order pb m ?k ?wo (wts_set_orders (Mapping.update ?k ?wo (Mapping.delete ?old (wa_orders (fst w))))
        (wts_emit_transaction pb m (wa_event_sequence (fst w)) TT_Cancel (wor_side wo) (wor_price wo) (wor_remaining wo) ?old w))"
      using False Some free by (simp add: wts_replace_def Let_def emplace_def)
    have ur: "replace event_log m u = emit_order event_log m ?k ?uo
        (emit_transaction event_log m (ua_source_sequence (fst u)) Tx_Cancel (uo_side uo) (uo_price_ticks uo) (uo_remaining uo) ?old (set_orders t' u))"
      using False uo(1) new t'(1) by (simp add: replace_def Let_def)
    show ?thesis
      unfolding wr ur using output_order [OF _ om assms(2)] tx t'(2) D table_mirror_less [OF D(2)]
      by (simp add: mirrors_def state_mirror_def)
  qed
qed

text \<open>What the ITCH specification promises of a message, beyond its size.\<close>

definition is_id :: "u64 \<Rightarrow> bool" where
  "is_id k \<longleftrightarrow> k \<noteq> 0 \<and> k \<le> INT64_MAX"

definition conforming :: "bytes \<Rightarrow> bool" where
  "conforming m \<longleftrightarrow> (let type = m ! 0 in
     (type = ascii CHR ''A'' \<or> type = ascii CHR ''F'' \<longrightarrow> read_u64 m 11 \<le> INT64_MAX) \<and>
     (type = ascii CHR ''E'' \<or> type = ascii CHR ''C'' \<longrightarrow> is_id (read_u64 m 23)) \<and>
     (type = ascii CHR ''C'' \<longrightarrow> m ! 31 \<in> {ascii CHR ''Y'', ascii CHR ''N''} \<and> read_u32 m 32 \<noteq> 0) \<and>
     (type = ascii CHR ''U'' \<longrightarrow> read_u64 m 19 \<le> INT64_MAX) \<and>
     (type = ascii CHR ''P'' \<longrightarrow> m ! 19 \<in> {ascii CHR ''B'', ascii CHR ''S''} \<and> read_u32 m 20 \<noteq> 0 \<and> read_u32 m 32 \<noteq> 0 \<and>
        read_u64 m 11 \<le> INT64_MAX \<and> is_id (read_u64 m 36)) \<and>
     (type = ascii CHR ''Q'' \<longrightarrow> read_u64 m 11 \<noteq> 0 \<and> read_u64 m 11 \<le> 0xffffffff \<and> read_u32 m 27 \<noteq> 0 \<and> is_id (read_u64 m 31)))"

lemma mirror_match:
  assumes "mirrors ticks (Suc n) w u" "is_id i" "match_mirror i wm um" "Mapping.lookup (wa_matches (fst w)) i = None"
  obtains t' where "fht_insert (ua_matches (fst u)) i um = (t', Inserted)"
    "mirrors ticks n (wts_set_matches (Mapping.update i wm (wa_matches (fst w))) w) (set_matches t' u)"
proof -
  note D = mirrorsD [OF assms(1)]
  obtain t' where t': "fht_insert (ua_matches (fst u)) i um = (t', Inserted)" "table_mirror match_mirror n (Mapping.update i wm (wa_matches (fst w))) t'"
    by (rule table_mirror_insert [OF D(2) _ assms(3,4)]) (use assms(2) in \<open>simp add: is_id_def\<close>)
  then show thesis using that [of t'] D table_mirror_less [OF D(1)] by (simp add: mirrors_def state_mirror_def)
qed

lemma mirror_known_match:
  assumes "mirrors ticks (Suc n) w u" "Mapping.lookup (wa_matches (fst w)) i \<noteq> None"
  shows "fht_insert (ua_matches (fst u)) i um = (ua_matches (fst u), Duplicate)"
  using table_mirror_duplicate [OF mirrorsD(2) [OF assms(1)] assms(2)] .

lemma mirrors_count:
  assumes "mirrors ticks n w u"
  shows "mirrors ticks n (wts_duplicate w) (count_duplicate u)"
    "mirrors ticks n (wts_stats (\<lambda>s. s\<lparr>ws_non_printable_suppressed := ws_non_printable_suppressed s + 1\<rparr>) w)
      (upd_stats (\<lambda>s. s\<lparr>us_non_printable_suppressed := us_non_printable_suppressed s + 1\<rparr>) u)"
    "mirrors ticks n (wts_stats (\<lambda>s. s\<lparr>ws_unknown_broken_trades := ws_unknown_broken_trades s + 1\<rparr>) w)
      (upd_stats (\<lambda>s. s\<lparr>us_unknown_broken_trades := us_unknown_broken_trades s + 1\<rparr>) u)"
    "mirrors ticks n (wts_stats (\<lambda>s. s\<lparr>ws_broken_trades_without_output := ws_broken_trades_without_output s + 1\<rparr>) w)
      (upd_stats (\<lambda>s. s\<lparr>us_broken_trades_without_output := us_broken_trades_without_output s + 1\<rparr>) u)"
  using assms by (simp_all add: mirrors_def state_mirror_def output_count)

lemma mirror_set_same: "wts_set_matches (wa_matches (fst w)) w = w"
  by (cases w) (simp add: wts_set_matches_def)

lemma mirror_trade:
  assumes "mirrors ticks (Suc n) w u" "\<forall>p. ticks (pb p) = uint p" "is_id i" "match_mirror i wm um"
  shows "mirrors ticks n (case emplace i wm (wa_matches (fst w)) of (matches, first_match) \<Rightarrow>
      if \<not> first_match then wts_duplicate (wts_set_matches matches w)
      else wts_emit_transaction pb m i TT_Match (wm_side wm) (wm_price wm) (wm_volume wm) (wm_order_id wm) (wts_set_matches matches w))
    (record_trade event_log m i um u)"
proof (cases "Mapping.lookup (wa_matches (fst w)) i")
  case None
  obtain t' where t': "fht_insert (ua_matches (fst u)) i um = (t', Inserted)"
    "mirrors ticks n (wts_set_matches (Mapping.update i wm (wa_matches (fst w))) w) (set_matches t' u)"
    by (rule mirror_match [OF assms(1,3,4) None])
  have "mirrors ticks n (wts_emit_transaction pb m i TT_Match (wm_side wm) (wm_price wm) (wm_volume wm) (wm_order_id wm)
      (wts_set_matches (Mapping.update i wm (wa_matches (fst w))) w))
    (emit_transaction event_log m i Tx_Trade (um_side um) (um_price_ticks um) (um_quantity um) (wm_order_id wm) (set_matches t' u))"
    by (rule mirror_transaction [OF t'(2) assms(2)]) (use assms(4) in \<open>simp_all add: match_mirror_def transaction_type_def\<close>)
  then show ?thesis using t'(1) None assms(4) by (simp add: record_trade_def emplace_def match_mirror_def)
next
  case (Some x)
  then show ?thesis using mirror_known_match [OF assms(1), of i um] mirrors_count(1) [OF mirrors_less [OF assms(1)]]
    by (simp add: record_trade_def emplace_def mirror_set_same)
qed

lemma mirror_non_cross:
  assumes "mirrors ticks (Suc n) w u" "\<forall>p. ticks (pb p) = uint p" "conforming m" "m ! 0 = ascii CHR ''P''"
  shows "mirrors ticks n (wts_non_cross_trade pb m w) (non_cross_trade event_log m u)"
proof -
  let ?wm = "\<lparr>wm_price = read_u32 m 32, wm_volume = read_u32 m 20, wm_order_id = read_u64 m 11, wm_side = ucast (m ! 19), wm_emitted = True\<rparr>"
  let ?um = "\<lparr>um_price_ticks = uint (read_u32 m 32), um_quantity = ucast (read_u32 m 20), um_order_id = read_u64 m 11, um_side = side_of (m ! 19), um_emitted = True\<rparr>"
  have c: "m ! 19 = 66 \<or> m ! 19 = 83" "read_u32 m 20 \<noteq> 0" "read_u32 m 32 \<noteq> 0" "read_u64 m 11 \<le> INT64_MAX" "is_id (read_u64 m 36)"
    using assms(3,4) by (auto simp: conforming_def Let_def)
  have mm: "match_mirror (read_u64 m 36) ?wm ?um" using c by (simp add: match_mirror_def side_of_uft)
  have "um_side ?um \<noteq> UftSide_Unknown" using c(1) by (auto simp: side_of_def)
  then have "non_cross_trade event_log m u = record_trade event_log m (read_u64 m 36) ?um u"
    using c(2,3) by (simp add: non_cross_trade_def Let_def uint_0_iff)
  then show ?thesis using mirror_trade [OF assms(1,2) c(5) mm, of m] c(5)
    by (simp add: wts_non_cross_trade_def Let_def is_id_def case_prod_unfold leD cong: if_cong)
qed

lemma mirror_cross:
  assumes "mirrors ticks (Suc n) w u" "\<forall>p. ticks (pb p) = uint p" "conforming m" "m ! 0 = ascii CHR ''Q''"
  shows "mirrors ticks n (wts_cross_trade pb m w) (cross_trade event_log m u)"
proof -
  let ?wm = "\<lparr>wm_price = read_u32 m 27, wm_volume = ucast (read_u64 m 11), wm_order_id = 0, wm_side = BDT_Unknown, wm_emitted = True\<rparr>"
  let ?um = "\<lparr>um_price_ticks = uint (read_u32 m 27), um_quantity = read_u64 m 11, um_order_id = 0, um_side = UftSide_Unknown, um_emitted = True\<rparr>"
  have c: "read_u64 m 11 \<noteq> 0" "read_u64 m 11 \<le> 0xffffffff" "read_u32 m 27 \<noteq> 0" "is_id (read_u64 m 31)"
    using assms(3,4) by (auto simp: conforming_def Let_def)
  have "unat (read_u64 m 11) < 2 ^ 32" using c(2) by (simp add: word_le_nat_alt)
  then have v: "ucast (ucast (read_u64 m 11) :: u32) = read_u64 m 11"
    by (intro word_unat_eq_iff [THEN iffD2]) (simp add: unat_ucast_u32, simp add: unsigned_ucast_eq take_bit_nat_eq_self)
  then have nz: "(ucast (read_u64 m 11) :: u32) \<noteq> 0" using c(1) by (metis unsigned_0)
  have mm: "match_mirror (read_u64 m 31) ?wm ?um" using v nz by (simp add: match_mirror_def uft_side_def)
  have "cross_trade event_log m u = record_trade event_log m (read_u64 m 31) ?um u"
    using c(1,3) by (simp add: cross_trade_def Let_def uint_0_iff)
  then show ?thesis using mirror_trade [OF assms(1,2) c(4) mm, of m] c
    by (simp add: wts_cross_trade_def Let_def is_id_def case_prod_unfold leD cong: if_cong)
qed

lemma mirror_broken:
  assumes "mirrors ticks (Suc n) w u" "\<forall>p. ticks (pb p) = uint p"
  shows "mirrors ticks n (wts_broken_trade pb m w) (broken_trade event_log m u)"
proof (cases "Mapping.lookup (wa_matches (fst w)) (read_u64 m 11)")
  case None
  then have "fht_find (ua_matches (fst u)) (read_u64 m 11) = None" using table_mirror_find [OF mirrorsD(2) [OF assms(1)], of "read_u64 m 11"] by simp
  then show ?thesis using None mirrors_count(3) [OF mirrors_less [OF assms(1)]] by (simp add: wts_broken_trade_def broken_trade_def)
next
  case (Some wm)
  then obtain um where um: "fht_find (ua_matches (fst u)) (read_u64 m 11) = Some um" "match_mirror (read_u64 m 11) wm um"
    using table_mirror_find [OF mirrorsD(2) [OF assms(1)], of "read_u64 m 11"] by (auto simp: option_rel_Some1)
  let ?w = "if wm_emitted wm then wts_emit_transaction pb m (read_u64 m 11) kWtsTradeBust (wm_side wm) (wm_price wm) (wm_volume wm) (wm_order_id wm) w
    else wts_stats (\<lambda>s. s\<lparr>ws_broken_trades_without_output := ws_broken_trades_without_output s + 1\<rparr>) w"
  let ?u = "if um_emitted um then emit_transaction event_log m (read_u64 m 11) Tx_TradeBust (um_side um) (um_price_ticks um) (um_quantity um) (um_order_id um) u
    else upd_stats (\<lambda>s. s\<lparr>us_broken_trades_without_output := us_broken_trades_without_output s + 1\<rparr>) u"
  have "mirrors ticks n (wts_emit_transaction pb m (read_u64 m 11) kWtsTradeBust (wm_side wm) (wm_price wm) (wm_volume wm) (wm_order_id wm) w)
      (emit_transaction event_log m (read_u64 m 11) Tx_TradeBust (um_side um) (um_price_ticks um) (um_quantity um) (wm_order_id wm) u)"
    by (rule mirror_transaction [OF mirrors_less [OF assms(1)] assms(2)])
      (use um(2) in \<open>simp_all add: match_mirror_def transaction_type_def kWtsTradeBust_def\<close>)
  then have st: "mirrors ticks n ?w ?u" using um(2) mirrors_count(4) [OF mirrors_less [OF assms(1)]] by (simp add: match_mirror_def)
  have "mirrors ticks n (wts_set_matches (Mapping.delete (read_u64 m 11) (wa_matches (fst ?w))) ?w) (set_matches (fst (fht_erase (ua_matches (fst ?u)) (read_u64 m 11))) ?u)"
    using mirrorsD [OF st] table_mirror_erase [OF mirrorsD(2) [OF st], of "read_u64 m 11"] unfolding mirrors_def state_mirror_def
    by (simp only: wts_sel wts_sel_rest sel_set output_set wts_locator)
  then show ?thesis using Some um(1) by (simp add: wts_broken_trade_def broken_trade_def Let_def)
qed

lemma mirror_execute:
  assumes "mirrors ticks (Suc n) w u" "\<forall>p. ticks (pb p) = uint p" "conforming m" "m ! 0 = ascii CHR ''E'' \<or> m ! 0 = ascii CHR ''C''"
  shows "mirrors ticks n (wts_execute pb m w) (execute event_log m u)"
proof (cases "Mapping.lookup (wa_orders (fst w)) (read_u64 m 11)")
  case None
  then show ?thesis using mirror_missing [OF assms(1) None] mirrors_error [OF assms(1)] by (simp add: wts_execute_def execute_def)
next
  case (Some wo)
  let ?k = "read_u64 m 11" and ?v = "read_u32 m 19" and ?i = "read_u64 m 23" and ?C = "m ! 0 = ascii CHR ''C''"
  define price where "price = (if ?C then read_u32 m 32 else wor_price wo)"
  define printable where "printable \<longleftrightarrow> \<not> ?C \<or> m ! 31 = ascii CHR ''Y''"
  obtain uo where uo: "fht_find (ua_orders (fst u)) ?k = Some uo" "order_mirror ?k wo uo" by (rule mirror_lookup [OF assms(1) Some])
  have c: "is_id ?i" "?C \<Longrightarrow> m ! 31 = ascii CHR ''Y'' \<or> m ! 31 = ascii CHR ''N''" "price \<noteq> 0"
    using assms(3,4) uo(2) by (auto simp: conforming_def Let_def price_def order_mirror_def)
  have range: "(ucast ?v = (0 :: u64) \<or> ucast ?v > uo_remaining uo) \<longleftrightarrow> (?v = 0 \<or> ?v > wor_remaining wo)"
    using uo(2) by (simp add: order_mirror_def ucast_less_u32)
  have price: "(if ?C then uint (read_u32 m 32) else uo_price_ticks uo) = uint price"
    using uo(2) by (simp add: price_def order_mirror_def)
  let ?wm = "\<lparr>wm_price = price, wm_volume = ?v, wm_order_id = ?k, wm_side = wor_side wo, wm_emitted = printable\<rparr>"
  let ?um = "\<lparr>um_price_ticks = uint price, um_quantity = ucast ?v, um_order_id = ?k, um_side = uo_side uo, um_emitted = printable\<rparr>"
  define W where "W matches first = (if \<not> printable then
      wts_stats (\<lambda>s. s\<lparr>ws_non_printable_suppressed := ws_non_printable_suppressed s + 1\<rparr>) (wts_set_matches matches w)
    else if first then wts_emit_transaction pb m ?i TT_Match (wor_side wo) price ?v ?k (wts_set_matches matches w)
    else wts_duplicate (wts_set_matches matches w))" for matches first
  define U where "U matches first = (if \<not> printable then
      upd_stats (\<lambda>s. s\<lparr>us_non_printable_suppressed := us_non_printable_suppressed s + 1\<rparr>) (set_matches matches u)
    else if first = Inserted then emit_transaction event_log m ?i Tx_Trade (uo_side uo) (uint price) (ucast ?v) ?k (set_matches matches u)
    else count_duplicate (set_matches matches u))" for matches first
  show ?thesis
  proof (cases "?v = 0 \<or> ?v > wor_remaining wo")
    case True
    then show ?thesis using Some uo(1) range mirrors_error [OF assms(1)] by (simp add: wts_execute_def execute_def Let_def)
  next
    case False
    have mm: "match_mirror ?i ?wm ?um" using False uo(2) by (simp add: match_mirror_def order_mirror_def)
    have wr: "wts_execute pb m w = (case emplace ?i ?wm (wa_matches (fst w)) of (matches, first) \<Rightarrow> wts_reduce ?k ?v (W matches first))"
      using False Some c(1) unfolding wts_execute_def Let_def printable_def price_def W_def
      by (simp add: is_id_def leD case_prod_unfold cong: if_cong)
    have ur: "execute event_log m u = (case fht_insert (ua_matches (fst u)) ?i ?um of (matches, first) \<Rightarrow>
        if first = Full \<or> first = InvalidKey then count_insert_failure first (set_matches matches u)
        else reduce_order ?k (ucast ?v) (U matches first))"
      unfolding execute_def Let_def uo(1) option.case price range if_not_P [OF False] printable_def [symmetric] U_def emit_book_log
      using c(2,3) by (auto simp: uint_0_iff not_le order_less_le split: prod.split) (metis FixedHashInsertResult.exhaust)+
    have reduce: "mirrors ticks n (wts_reduce ?k ?v w') (reduce_order ?k (ucast ?v) u')"
      if "mirrors ticks n w' u'" "wa_orders (fst w') = wa_orders (fst w)" for w' u'
      by (rule adapter_reduce [OF that(1)]) (use that(2) Some False in \<open>auto simp: not_less\<close>)
    show ?thesis
    proof (cases "Mapping.lookup (wa_matches (fst w)) ?i")
      case None
      obtain t' where t': "fht_insert (ua_matches (fst u)) ?i ?um = (t', Inserted)"
        "mirrors ticks n (wts_set_matches (Mapping.update ?i ?wm (wa_matches (fst w))) w) (set_matches t' u)"
        by (rule mirror_match [OF assms(1) c(1) mm None])
      have "mirrors ticks n (wts_emit_transaction pb m ?i TT_Match (wor_side wo) price ?v ?k (wts_set_matches (Mapping.update ?i ?wm (wa_matches (fst w))) w))
          (emit_transaction event_log m ?i Tx_Trade (uo_side uo) (uint price) (ucast ?v) ?k (set_matches t' u))"
        by (rule mirror_transaction [OF t'(2) assms(2)]) (use uo(2) False in \<open>simp_all add: order_mirror_def transaction_type_def\<close>)
      then have "mirrors ticks n (W (Mapping.update ?i ?wm (wa_matches (fst w))) True) (U t' Inserted)"
        using mirrors_count(2) [OF t'(2)] by (cases printable) (simp_all add: W_def U_def)
      then have "mirrors ticks n (wts_reduce ?k ?v (W (Mapping.update ?i ?wm (wa_matches (fst w))) True)) (reduce_order ?k (ucast ?v) (U t' Inserted))"
        by (rule reduce) (simp add: W_def)
      then show ?thesis unfolding wr ur using None t'(1) by (simp add: emplace_def)
    next
      case (Some x)
      have "mirrors ticks n (W (wa_matches (fst w)) False) (U (ua_matches (fst u)) Duplicate)"
        using mirrors_count(1,2) [OF mirrors_less [OF assms(1)]] by (simp add: W_def U_def mirror_set_same)
      then have "mirrors ticks n (wts_reduce ?k ?v (W (wa_matches (fst w)) False)) (reduce_order ?k (ucast ?v) (U (ua_matches (fst u)) Duplicate))"
        by (rule reduce) (simp add: W_def)
      then show ?thesis unfolding wr ur using Some mirror_known_match [OF assms(1), of ?i ?um] by (simp add: emplace_def)
    qed
  qed
qed

lemma mirror_dispatch:
  assumes "mirrors ticks (Suc n) w u" "\<forall>p. ticks (pb p) = uint p" "conforming m"
  shows "mirrors ticks n (wts_dispatch pb m w) (dispatch event_log m u)"
proof -
  have "m ! 0 = ascii CHR ''A'' \<or> m ! 0 = ascii CHR ''F'' \<Longrightarrow> read_u64 m 11 \<le> INT64_MAX" "m ! 0 = ascii CHR ''U'' \<Longrightarrow> read_u64 m 19 \<le> INT64_MAX"
    using assms(3) unfolding conforming_def Let_def by blast+
  then show ?thesis
    unfolding wts_dispatch_def dispatch_def Let_def
    using mirror_add [OF assms(1) _ assms(2), of m] mirror_execute [OF assms] mirror_cancel_partial [OF assms(1,2), of m] mirror_cancel_all [OF assms(1,2), of m]
      mirror_replace [OF assms(1,2), of m] mirror_non_cross [OF assms] mirror_cross [OF assms] mirror_broken [OF assms(1,2), of m] mirrors_less [OF assms(1)]
    by presburger
qed

lemma mirror_on_message:
  assumes "mirrors ticks (Suc n) w u" "\<forall>p. ticks (pb p) = uint p" "conforming m"
  shows "mirrors ticks n (wts_on_message pb m sz w) (on_message event_log (Some m) sz u)"
proof -
  obtain a out b out' where w: "w = (a, out)" and u: "u = (b, out')" by (cases w; cases u)
  let ?w = "(a\<lparr>wa_event_sequence := wa_event_sequence a + 1\<rparr>, out)" and ?u = "(b\<lparr>ua_source_sequence := ua_source_sequence b + 1\<rparr>, out')"
  have bump: "mirrors ticks (Suc n) ?w ?u" using assms(1) by (simp add: w u mirrors_def state_mirror_def output_mirror_def)
  have "wa_locator a = ua_locator b" using mirrorsD(5) [OF assms(1)] by (simp add: w u)
  then show ?thesis
    using mirror_dispatch [OF bump assms(2,3)] mirrors_error [OF bump] mirrors_less [OF assms(1)]
    by (auto simp: wts_on_message_def on_message_def w u Let_def)
qed

lemma mirror_run:
  assumes "mirrors ticks (n + length msgs) w u" "\<forall>p. ticks (pb p) = uint p" "\<forall>x\<in>set msgs. conforming (fst x)"
  shows "mirrors ticks n (wts_run pb msgs w) (adapter_run event_log (map (\<lambda>(m, sz). (Some m, sz)) msgs) u)"
  using assms(1,3)
proof (induction msgs arbitrary: w u)
  case (Cons x msgs)
  then show ?case using mirror_on_message [of ticks "n + length msgs" w u pb "fst x" "snd x"] assms(2)
    by (cases x) (simp add: wts_run_def)
qed (simp add: wts_run_def)

section \<open>The adapters agree\<close>

lemma mirror_start:
  assumes "NasdaqItchUftAdapter_new i l mo mm = Inr a" "n \<le> mo" "n \<le> mm"
  shows "mirrors ticks n (PsxWtsAdapter_new date l symbol, []) (a, [])"
proof -
  have "ua_locator a = l" "ua_source_sequence a = 0" "fh_maximum (ua_orders a) = mo" "fh_size (ua_orders a) = 0"
    "fh_maximum (ua_matches a) = mm" "fh_size (ua_matches a) = 0" "fht_wf (ua_orders a)" "fht_wf (ua_matches a)"
    using assms(1) by (auto simp: NasdaqItchUftAdapter_new_def FixedHashTable_new_wf split: sum.splits)
  then show ?thesis using assms(2,3) adapter_new [OF assms(1)]
    by (simp add: mirrors_def state_mirror_def table_mirror_def output_mirror_def counters_mirror_def PsxWtsAdapter_new_def
        WtsAdapterStats_zero_def UftAdapterStats_zero_def)
qed

lemma mirror_active_orders:
  assumes "mirrors ticks n w u"
  shows "wts_active_orders (fst w) = adapter_active_orders (fst u)"
proof -
  note D = mirrorsD(1) [OF assms]
  have "dom (Mapping.lookup (wa_orders (fst w))) = dom (fht_map (ua_orders (fst u)))"
    using table_mirrorD(2) [OF D] by (auto simp: dom_def) (metis option.rel_distinct option.exhaust not_None_eq)+
  then show ?thesis
    by (simp add: wts_active_orders_def adapter_active_orders_def fht_size_def mapping_size fh.size_card [OF table_mirrorD(1) [OF D]])
qed

text \<open>
  C9. Equivalence of the two adapters: fed the same messages of any length and locate code that obey the ITCH
  specification, with capacity for their number, the UFT adapter with its hash tables publishes exactly
  the events the WonderTrader adapter hands to its sink, in the same order and with the same ids,
  prices, quantities, sides, types and times; all their counters agree, no capacity is exhausted and
  both hold the same number of live orders. Only the conversion of prices to \<open>double\<close> and back is
  assumed to be exact.
\<close>

theorem adapters_emit_same_events:
  assumes "NasdaqItchUftAdapter_new i l mo mm = Inr a" "length msgs \<le> mo" "length msgs \<le> mm"
    "\<forall>p. ticks (price_bits p) = uint p" "\<forall>x\<in>set msgs. conforming (fst x)"
    "wts_run price_bits msgs (PsxWtsAdapter_new date l symbol, []) = (w, events)"
    "adapter_run event_log (map (\<lambda>(m, sz). (Some m, sz)) msgs) (a, []) = (u, published)"
  shows "list_all2 (event_mirror ticks) events published \<and> counters_mirror (wa_stats w) (ua_stats u) \<and>
    wts_active_orders w = adapter_active_orders u"
proof -
  have "mirrors ticks (0 + length msgs) (PsxWtsAdapter_new date l symbol, []) (a, [])"
    using mirror_start [OF assms(1-3)] by simp
  from mirror_run [OF this assms(4,5)] have "mirrors ticks 0 (w, events) (u, published)" using assms(6,7) by simp
  then show ?thesis using mirror_active_orders [of ticks 0 "(w, events)"] mirrorsD(3) by (fastforce simp: output_mirror_def)
qed

theorem adapters_emit_same_events_witness:
  "\<exists>a w u. NasdaqItchUftAdapter_new 0 7 4 4 = Inr a \<and>
    wts_run (\<lambda>p. ucast p) [(sample_add, 36)] (PsxWtsAdapter_new 20240102 7 [65], []) = w \<and>
    adapter_run event_log [(Some sample_add, 36)] (a, []) = u \<and> length (snd w) = 1 \<and> list_all2 (event_mirror uint) (snd w) (snd u)"
proof -
  obtain a where a: "NasdaqItchUftAdapter_new 0 7 4 4 = Inr a" by (rule sample_adapter)
  have ticks: "\<forall>p :: u32. uint (ucast p :: u64) = uint p" by (simp add: uint_up_ucast is_up)
  have ok: "\<forall>x\<in>set [(sample_add, 36 :: nat)]. conforming (fst x)" using sample_fields by (simp add: conforming_def INT64_MAX_def)
  have "length (snd (wts_run (\<lambda>p. ucast p) [(sample_add, 36)] (PsxWtsAdapter_new 20240102 7 [65], []))) = 1"
    using sample_fields
    by (simp add: wts_run_def wts_on_message_def wts_dispatch_def wts_add_def wts_emit_order_def wts_sink_def wts_stats_def wts_set_orders_def
        PsxWtsAdapter_new_def emplace_def Let_def)
  then show ?thesis
    using a adapters_emit_same_events [OF a _ _ ticks ok prod.collapse [symmetric] prod.collapse [symmetric], of 20240102 "[65]"] by simp
qed

end
