(* ===== verification/HistoricalFile.thy ===== *)
theory HistoricalFile
  imports ItchWire
begin

text \<open>
  The reader of historical ITCH files (\<open>include/qtrader/NasdaqItchFile.hpp\<close>): \<open>BufferedFile\<close> with its
  fixed buffer, and \<open>scan_historical_file\<close>, which hands every length-prefixed record to a callback.
  The kernel is a parameter: \<open>rd fd n\<close> is the system call \<open>read\<close> on the open file \<open>fd\<close> with room for \<open>n\<close>
  bytes. The callback may throw, so it returns its state and
  perhaps an exception; \<^const>\<open>None\<close> stands for a callback that does not return. The theory proves
  that the result depends only on the bytes of the file and not on how \<open>read\<close> cuts them.
\<close>

section \<open>State\<close>

text \<open>A positive count with the bytes stored (none is the end of the file), a failure with \<open>EINTR\<close>, another failure.\<close>

datatype read_result = Data bytes | Eintr | Errno

datatype 'e scan_exception =
    Open_failed
  | Read_failed
  | Larger_than_buffer
  | Zero_length u64
  | Truncated u64 nat nat
  | Trailing_byte
  | Raised 'e

record FileScanResult =
  fs_messages :: u64
  fs_framed_bytes :: u64

record 'f BufferedFile =
  bf_fd :: 'f
  bf_buffer :: bytes
  bf_begin :: nat
  bf_end :: nat
  bf_eof :: bool

definition kBufferBytes :: nat where
  "kBufferBytes = 8 * 1024 * 1024"

text \<open>\<open>open\<close> succeeded with a file, or failed.\<close>

definition BufferedFile_new :: "'f option \<Rightarrow> 'e scan_exception + 'f BufferedFile" where
  "BufferedFile_new opened =
     (case opened of None \<Rightarrow> Inl Open_failed
      | Some fd \<Rightarrow> Inr \<lparr>bf_fd = fd, bf_buffer = replicate kBufferBytes 0, bf_begin = 0, bf_end = 0, bf_eof = False\<rparr>)"

section \<open>Operations\<close>

text \<open>Bytes stored into a buffer from an offset on.\<close>

definition store_at :: "nat \<Rightarrow> bytes \<Rightarrow> bytes \<Rightarrow> bytes" where
  "store_at k d buffer = take k buffer @ d @ drop (k + length d) buffer"

definition bf_available :: "'f BufferedFile \<Rightarrow> nat" where
  "bf_available b = bf_end b - bf_begin b"

definition bf_consume :: "nat \<Rightarrow> 'f BufferedFile \<Rightarrow> 'f BufferedFile" where
  "bf_consume count b = b\<lparr>bf_begin := bf_begin b + count\<rparr>"

definition bf_data :: "'f BufferedFile \<Rightarrow> bytes" where
  "bf_data b = drop (bf_begin b) (bf_buffer b)"

text \<open>What \<open>ensure\<close> does before it reads: the unread bytes go to the front.\<close>

definition compact :: "'f BufferedFile \<Rightarrow> 'f BufferedFile" where
  "compact b =
     (if bf_begin b \<noteq> 0 \<and> bf_begin b \<noteq> bf_end b then
        b\<lparr>bf_buffer := store_at 0 (take (bf_end b - bf_begin b) (drop (bf_begin b) (bf_buffer b))) (bf_buffer b),
          bf_end := bf_end b - bf_begin b, bf_begin := 0\<rparr>
      else if bf_begin b = bf_end b then b\<lparr>bf_begin := 0, bf_end := 0\<rparr>
      else b)"

partial_function (option) fill :: "('f \<Rightarrow> nat \<Rightarrow> 'f \<times> read_result) \<Rightarrow> nat \<Rightarrow> 'f BufferedFile \<Rightarrow> ('f BufferedFile \<times> bool) option" where
  "fill rd requested b =
     (if bf_end b < requested \<and> \<not> bf_eof b then
        let capacity = length (bf_buffer b) - bf_end b in
        case rd (bf_fd b) capacity of (fd, count) \<Rightarrow>
          let b = b\<lparr>bf_fd := fd\<rparr> in
          (case count of
             Data d \<Rightarrow>
               if d \<noteq> [] then
                 fill rd requested (b\<lparr>bf_buffer := store_at (bf_end b) d (bf_buffer b), bf_end := bf_end b + length d\<rparr>)
               else fill rd requested (b\<lparr>bf_eof := True\<rparr>)
           | Eintr \<Rightarrow> fill rd requested b
           | Errno \<Rightarrow> Some (b, False))
      else Some (b, True))"

definition bf_ensure :: "('f \<Rightarrow> nat \<Rightarrow> 'f \<times> read_result) \<Rightarrow> nat \<Rightarrow> 'f BufferedFile \<Rightarrow>
    ('f BufferedFile \<times> ('e scan_exception + bool)) option" where
  "bf_ensure rd requested b =
     (if requested > length (bf_buffer b) then Some (b, Inl Larger_than_buffer)
      else if bf_end b - bf_begin b \<ge> requested then Some (b, Inr True)
      else Option.bind (fill rd requested (compact b)) (\<lambda>(b, ok).
        if \<not> ok then Some (b, Inl Read_failed)
        else Some (b, Inr (bf_end b - bf_begin b \<ge> requested))))"

partial_function (option) scan_records :: "('f \<Rightarrow> nat \<Rightarrow> 'f \<times> read_result) \<Rightarrow> ('s \<Rightarrow> bytes \<Rightarrow> ('s \<times> 'e option) option) \<Rightarrow>
    'f BufferedFile \<Rightarrow> 's \<Rightarrow> FileScanResult \<Rightarrow> ('s \<times> ('e scan_exception + FileScanResult)) option" where
  "scan_records rd callback input s result =
     Option.bind (bf_ensure rd 2 input) (\<lambda>(input, two).
       case two of
         Inl e \<Rightarrow> Some (s, Inl e)
       | Inr two \<Rightarrow>
           if \<not> two then Some (s, if bf_available input \<noteq> 0 then Inl Trailing_byte else Inr result)
           else
             let record_offset = fs_framed_bytes result;
                 record_size = read_u16 (bf_data input) 0;
                 input = bf_consume 2 input;
                 result = result\<lparr>fs_framed_bytes := fs_framed_bytes result + 2\<rparr> in
             if record_size = 0 then Some (s, Inl (Zero_length record_offset))
             else Option.bind (bf_ensure rd (unat record_size) input) (\<lambda>(input, whole).
               case whole of
                 Inl e \<Rightarrow> Some (s, Inl e)
               | Inr whole \<Rightarrow>
                   if \<not> whole then Some (s, Inl (Truncated record_offset (unat record_size) (bf_available input)))
                   else Option.bind (callback s (take (unat record_size) (bf_data input))) (\<lambda>(s, thrown).
                     if thrown \<noteq> None then Some (s, Inl (Raised (the thrown)))
                     else scan_records rd callback (bf_consume (unat record_size) input) s
                         (result\<lparr>fs_framed_bytes := fs_framed_bytes result + ucast record_size,
                                 fs_messages := fs_messages result + 1\<rparr>))))"

definition scan_historical_file :: "('f \<Rightarrow> nat \<Rightarrow> 'f \<times> read_result) \<Rightarrow> 'f option \<Rightarrow> ('s \<Rightarrow> bytes \<Rightarrow> ('s \<times> 'e option) option) \<Rightarrow> 's \<Rightarrow>
    ('s \<times> ('e scan_exception + FileScanResult)) option" where
  "scan_historical_file rd opened callback s =
     (case BufferedFile_new opened of
        Inl e \<Rightarrow> Some (s, Inl e)
      | Inr input \<Rightarrow> scan_records rd callback input s \<lparr>fs_messages = 0, fs_framed_bytes = 0\<rparr>)"

section \<open>Specification\<close>

text \<open>
  What \<open>read\<close> promises for a regular file: successive pieces of its contents, at most as many bytes as
  there is room for, none only at the end; it does not fail, and signals interrupt it finitely often.
\<close>

definition reads_file :: "('f \<Rightarrow> nat \<Rightarrow> 'f \<times> read_result) \<Rightarrow> ('f \<Rightarrow> bytes) \<Rightarrow> ('f \<Rightarrow> nat) \<Rightarrow> bool" where
  "reads_file rd contents signals \<longleftrightarrow>
     (\<forall>fd n. 0 < n \<longrightarrow> (case rd fd n of
        (fd', Data d) \<Rightarrow> contents fd = d @ contents fd' \<and> length d \<le> n \<and> (d = [] \<longrightarrow> contents fd = [])
      | (fd', Eintr) \<Rightarrow> contents fd' = contents fd \<and> signals fd' < signals fd
      | (fd', Errno) \<Rightarrow> False))"

text \<open>The records of a file as its bytes determine them.\<close>

function scan_spec :: "('s \<Rightarrow> bytes \<Rightarrow> ('s \<times> 'e option) option) \<Rightarrow> bytes \<Rightarrow> 's \<Rightarrow> FileScanResult \<Rightarrow>
    ('s \<times> ('e scan_exception + FileScanResult)) option" where
  "scan_spec callback bs s result =
     (if length bs < 2 then Some (s, if bs = [] then Inr result else Inl Trailing_byte)
      else
        let size = unat (read_u16 bs 0); body = drop 2 bs in
        if size = 0 then Some (s, Inl (Zero_length (fs_framed_bytes result)))
        else if length body < size then Some (s, Inl (Truncated (fs_framed_bytes result) size (length body)))
        else case callback s (take size body) of
          None \<Rightarrow> None
        | Some (s, Some e) \<Rightarrow> Some (s, Inl (Raised e))
        | Some (s, None) \<Rightarrow> scan_spec callback (drop size body) s
            (result\<lparr>fs_framed_bytes := fs_framed_bytes result + 2 + of_nat size, fs_messages := fs_messages result + 1\<rparr>))"
  by pat_completeness auto
termination
  by (relation "measure (\<lambda>(callback, bs, s, result). length bs)") auto

declare scan_spec.simps [simp del]

section \<open>The buffer\<close>

definition unread :: "'f BufferedFile \<Rightarrow> bytes" where
  "unread b = take (bf_end b - bf_begin b) (drop (bf_begin b) (bf_buffer b))"

definition pending :: "('f \<Rightarrow> bytes) \<Rightarrow> 'f BufferedFile \<Rightarrow> bytes" where
  "pending contents b = unread b @ contents (bf_fd b)"

definition bf_ok :: "('f \<Rightarrow> bytes) \<Rightarrow> 'f BufferedFile \<Rightarrow> bool" where
  "bf_ok contents b \<longleftrightarrow> bf_begin b \<le> bf_end b \<and> bf_end b \<le> length (bf_buffer b) \<and> length (bf_buffer b) = kBufferBytes \<and>
     (bf_eof b \<longrightarrow> contents (bf_fd b) = [])"

lemma bf_okD:
  assumes "bf_ok contents b"
  shows "bf_begin b \<le> bf_end b" "bf_end b \<le> length (bf_buffer b)" "length (bf_buffer b) = kBufferBytes"
    "bf_eof b \<Longrightarrow> contents (bf_fd b) = []"
  using assms by (auto simp: bf_ok_def)

lemma length_unread: "bf_ok contents b \<Longrightarrow> length (unread b) = bf_available b"
  by (auto simp: bf_ok_def unread_def bf_available_def)

lemma store_at_take:
  assumes "k + length d \<le> length buffer"
  shows "length (store_at k d buffer) = length buffer" "take (k + length d) (store_at k d buffer) = take k buffer @ d"
  using assms by (simp_all add: store_at_def)

lemma compact_ok:
  assumes "bf_ok contents b"
  shows "bf_ok contents (compact b)" "bf_begin (compact b) = 0" "unread (compact b) = unread b" "bf_fd (compact b) = bf_fd b"
proof -
  note B = bf_okD [OF assms]
  let ?d = "take (bf_end b - bf_begin b) (drop (bf_begin b) (bf_buffer b))"
  have d: "length ?d = bf_end b - bf_begin b" using B by simp
  note st = store_at_take [of 0 ?d "bf_buffer b"]
  show "bf_begin (compact b) = 0" "bf_fd (compact b) = bf_fd b" using B(1) by (auto simp: compact_def)
  show "bf_ok contents (compact b)" using B st(1) d by (auto simp: compact_def bf_ok_def)
  show "unread (compact b) = unread b" using B st(2) d by (auto simp: compact_def unread_def)
qed

lemma reads_fileD:
  assumes "reads_file rd contents signals" "0 < n" "rd fd n = (fd', r)"
  obtains (data) d where "r = Data d" "d \<noteq> []" "contents fd = d @ contents fd'" "length d \<le> n"
  | (eof) "r = Data []" "contents fd = []" "contents fd' = []"
  | (interrupted) "r = Eintr" "contents fd' = contents fd" "signals fd' < signals fd"
proof -
  have "case (fd', r) of (fd', Data d) \<Rightarrow> contents fd = d @ contents fd' \<and> length d \<le> n \<and> (d = [] \<longrightarrow> contents fd = [])
      | (fd', Eintr) \<Rightarrow> contents fd' = contents fd \<and> signals fd' < signals fd | (fd', Errno) \<Rightarrow> False"
    using assms unfolding reads_file_def by (metis (no_types, lifting))
  then show thesis using data eof interrupted by (cases r) force+
qed

abbreviation fill_order :: "('f \<Rightarrow> bytes) \<Rightarrow> ('f \<Rightarrow> nat) \<Rightarrow> ('f BufferedFile \<times> 'f BufferedFile) set" where
  "fill_order contents signals \<equiv>
     measures [\<lambda>b. length (contents (bf_fd b)), \<lambda>b. of_bool (\<not> bf_eof b), \<lambda>b. signals (bf_fd b)]"

lemma fill_step:
  assumes rf: "reads_file rd contents signals" and ok: "bf_ok contents b" "bf_begin b = 0" "requested \<le> kBufferBytes"
    and go: "bf_end b < requested \<and> \<not> bf_eof b"
  obtains b' where "fill rd requested b = fill rd requested b'" "bf_ok contents b'" "bf_begin b' = 0"
    "pending contents b' = pending contents b" "(b', b) \<in> fill_order contents signals"
proof -
  note B = bf_okD [OF ok(1)]
  let ?n = "length (bf_buffer b) - bf_end b"
  have n: "0 < ?n" using go ok(3) B(3) by simp
  obtain fd' r where rd: "rd (bf_fd b) ?n = (fd', r)" by (cases "rd (bf_fd b) ?n")
  note unfold = fill.simps [of rd requested b]
  show thesis
  proof (cases rule: reads_fileD [OF rf n rd])
    case (1 d)
    let ?b = "b\<lparr>bf_fd := fd', bf_buffer := store_at (bf_end b) d (bf_buffer b), bf_end := bf_end b + length d\<rparr>"
    have fit: "bf_end b + length d \<le> length (bf_buffer b)" using 1(4) B(2) by simp
    have "bf_ok contents ?b" using B go store_at_take(1) [OF fit] fit by (simp add: bf_ok_def)
    moreover have "pending contents ?b = pending contents b"
      using store_at_take(2) [OF fit] 1(3) ok(2) by (simp add: pending_def unread_def)
    ultimately show thesis using unfold go rd 1 ok(2) by (intro that [of ?b]) (simp_all add: Let_def)
  next
    case 2
    then show thesis using unfold go rd ok(2) B
      by (intro that [of "b\<lparr>bf_fd := fd', bf_eof := True\<rparr>"]) (simp_all add: Let_def bf_ok_def pending_def unread_def)
  next
    case 3
    then show thesis using unfold go rd ok(2) B
      by (intro that [of "b\<lparr>bf_fd := fd'\<rparr>"]) (simp_all add: Let_def bf_ok_def pending_def unread_def)
  qed
qed

lemma fill_returns:
  fixes b :: "'f BufferedFile"
  assumes rf: "reads_file rd contents signals" and r: "requested \<le> kBufferBytes"
  shows "bf_ok contents b \<Longrightarrow> bf_begin b = 0 \<Longrightarrow>
    \<exists>b'. fill rd requested b = Some (b', True) \<and> bf_ok contents b' \<and> bf_begin b' = 0 \<and> pending contents b' = pending contents b \<and>
      (requested \<le> bf_end b' \<or> contents (bf_fd b') = [])"
proof (induction b rule: wf_induct_rule [OF wf_measures [of "[\<lambda>b. length (contents (bf_fd b)), \<lambda>b. of_bool (\<not> bf_eof b), \<lambda>b. signals (bf_fd b)]"]])
  case (1 b)
  show ?case
  proof (cases "bf_end b < requested \<and> \<not> bf_eof b")
    case False
    then show ?thesis using "1.prems" bf_okD(4) [OF "1.prems"(1)] by (subst fill.simps) auto
  next
    case True
    obtain b' where "fill rd requested b = fill rd requested b'" "bf_ok contents b'" "bf_begin b' = 0"
      "pending contents b' = pending contents b" "(b', b) \<in> fill_order contents signals"
      by (rule fill_step [OF rf "1.prems" r True])
    then show ?thesis using "1.IH" [of b'] by simp
  qed
qed

lemma ensure_returns:
  assumes rf: "reads_file rd contents signals" and ok: "bf_ok contents b" and r: "requested \<le> kBufferBytes"
  obtains b' where "bf_ensure rd requested b = Some (b', Inr (requested \<le> length (pending contents b)))" "bf_ok contents b'"
    "pending contents b' = pending contents b" "requested \<le> bf_available b' \<or> unread b' = pending contents b'"
proof (cases "requested \<le> bf_available b")
  case True
  then have "requested \<le> length (pending contents b)" using length_unread [OF ok] by (simp add: pending_def)
  then show thesis using that [of b] True r bf_okD(3) [OF ok] ok by (simp add: bf_ensure_def bf_available_def)
next
  case False
  note C = compact_ok [OF ok]
  obtain b' where b': "fill rd requested (compact b) = Some (b', True)" "bf_ok contents b'" "bf_begin b' = 0"
    "pending contents b' = pending contents b" "requested \<le> bf_end b' \<or> contents (bf_fd b') = []"
    using fill_returns [OF rf r C(1,2)] C(3,4) by (auto simp: pending_def)
  have len: "length (unread b') = bf_end b'" using length_unread [OF b'(2)] b'(3) by (simp add: bf_available_def)
  have enough: "requested \<le> bf_end b' \<longleftrightarrow> requested \<le> length (pending contents b)"
    using b'(5) len unfolding b'(4) [symmetric] by (auto simp: pending_def)
  have "bf_ensure rd requested b = Some (b', Inr (requested \<le> length (pending contents b)))"
    using False r bf_okD(3) [OF ok] b'(1,3) enough by (simp add: bf_ensure_def bf_available_def)
  moreover have "requested \<le> bf_available b' \<or> unread b' = pending contents b'"
    using b'(3,5) by (auto simp: pending_def bf_available_def)
  ultimately show thesis using that b'(2,4) by blast
qed

lemma scan_consume:
  assumes "bf_ok contents b" "n \<le> bf_available b"
  shows "bf_ok contents (bf_consume n b)" "pending contents (bf_consume n b) = drop n (pending contents b)"
    "take n (bf_data b) = take n (pending contents b)"
proof -
  have len: "n \<le> length (unread b)" using assms length_unread by metis
  have cut: "drop n (unread b) = unread (bf_consume n b)" "take n (unread b) = take n (bf_data b)"
    using assms(2) by (auto simp: unread_def bf_consume_def bf_available_def bf_data_def drop_take add.commute)
  show "bf_ok contents (bf_consume n b)" using assms by (auto simp: bf_ok_def bf_consume_def bf_available_def)
  show "pending contents (bf_consume n b) = drop n (pending contents b)" "take n (bf_data b) = take n (pending contents b)"
    using len cut by (simp_all add: pending_def) (simp add: bf_consume_def)
qed

lemma scan_records_spec:
  fixes callback :: "'s \<Rightarrow> bytes \<Rightarrow> ('s \<times> 'e option) option"
  assumes rf: "reads_file rd contents signals"
  shows "bf_ok contents b \<Longrightarrow> scan_records rd callback b s result = scan_spec callback (pending contents b) s result"
proof (induction "length (pending contents b)" arbitrary: b s result rule: less_induct)
  case less
  let ?bs = "pending contents b"
  note unfold = scan_records.simps [of rd callback b s result] scan_spec.simps [of callback ?bs s result]
  have "(2::nat) \<le> kBufferBytes" by (simp add: kBufferBytes_def)
  then obtain b1 where b1: "bf_ensure rd 2 b = Some (b1, Inr (2 \<le> length ?bs) :: 'e scan_exception + bool)" "bf_ok contents b1"
    "pending contents b1 = ?bs" "2 \<le> bf_available b1 \<or> unread b1 = ?bs"
    using ensure_returns [OF rf less.prems] by metis
  note len1 = length_unread [OF b1(2)]
  show ?case
  proof (cases "2 \<le> length ?bs")
    case False
    moreover have "bf_available b1 = length ?bs"
      using b1(4) False len1 unfolding b1(3) [symmetric] by (auto simp: pending_def)
    ultimately show ?thesis using unfold b1(1) by (auto simp: Let_def)
  next
    case True
    then have av: "2 \<le> bf_available b1" using b1(4) len1 by auto
    note c1 = scan_consume [OF b1(2) av, unfolded b1(3)]
    let ?size = "read_u16 ?bs 0" and ?b1 = "bf_consume 2 b1"
    have size: "read_u16 (bf_data b1) 0 = ?size"
      using c1(3) read_take(1) [of 0 2 "bf_data b1"] read_take(1) [of 0 2 ?bs] by simp
    have le: "unat ?size \<le> kBufferBytes" using unat_u16_less [of ?size] by (simp add: kBufferBytes_def)
    obtain b2 where b2: "bf_ensure rd (unat ?size) ?b1 = Some (b2, Inr (unat ?size \<le> length (drop 2 ?bs)) :: 'e scan_exception + bool)"
      "bf_ok contents b2" "pending contents b2 = drop 2 ?bs" "unat ?size \<le> bf_available b2 \<or> unread b2 = drop 2 ?bs"
      using ensure_returns [OF rf c1(1) le] unfolding c1(2) by metis
    note len2 = length_unread [OF b2(2)]
    consider "?size = 0" | "?size \<noteq> 0" "\<not> unat ?size \<le> length (drop 2 ?bs)" | "?size \<noteq> 0" "unat ?size \<le> length (drop 2 ?bs)" by blast
    then show ?thesis
    proof cases
      case 1
      then show ?thesis using unfold b1(1) True size by (simp add: Let_def)
    next
      case 2
      have "bf_available b2 = length (drop 2 ?bs)"
        using b2(4) 2(2) len2 unfolding b2(3) [symmetric] by (auto simp: pending_def)
      then show ?thesis using unfold b1(1) b2(1) True size 2 by (simp add: Let_def unat_eq_0)
    next
      case 3
      then have av2: "unat ?size \<le> bf_available b2" using b2(4) len2 by auto
      note c2 = scan_consume [OF b2(2) av2, unfolded b2(3)]
      have "length (pending contents (bf_consume (unat ?size) b2)) < length ?bs" using 3(1) True by (simp add: c2(2))
      note IH = less.hyps [OF this c2(1)]
      let ?m = "take (unat ?size) (drop 2 ?bs)"
      have nz: "unat ?size \<noteq> 0" "\<not> length (drop 2 ?bs) < unat ?size" "\<not> length ?bs < 2" using 3 True by (auto simp: unat_eq_0)
      have "scan_records rd callback b s result = Option.bind (callback s ?m) (\<lambda>(s', thrown).
          if thrown \<noteq> None then Some (s', Inl (Raised (the thrown))) else scan_records rd callback (bf_consume (unat ?size) b2) s'
            (result\<lparr>fs_framed_bytes := fs_framed_bytes result + 2 + of_nat (unat ?size), fs_messages := fs_messages result + 1\<rparr>))"
        unfolding unfold(1) b1(1) using True 3 by (cases "callback s ?m") (auto simp: Let_def size b2(1) c2(3))
      also have "\<dots> = scan_spec callback ?bs s result"
        unfolding unfold(2) IH c2(2) if_not_P [OF nz(3)] Let_def if_not_P [OF nz(1)] if_not_P [OF nz(2)]
        by (auto split: option.split)
      finally show ?thesis .
    qed
  qed
qed

lemma scan_open:
  assumes "reads_file rd contents signals"
  shows "scan_historical_file rd (Some fd) callback s = scan_spec callback (contents fd) s \<lparr>fs_messages = 0, fs_framed_bytes = 0\<rparr>"
proof -
  let ?b = "\<lparr>bf_fd = fd, bf_buffer = replicate kBufferBytes 0, bf_begin = 0, bf_end = 0, bf_eof = False\<rparr>"
  have "bf_ok contents ?b" "pending contents ?b = contents fd" by (simp_all add: bf_ok_def pending_def unread_def)
  then show ?thesis using scan_records_spec [OF assms, of ?b callback s]
    by (simp add: scan_historical_file_def BufferedFile_new_def)
qed

section \<open>Properties\<close>

text \<open>
  C14. Refinement: whatever pieces \<open>read\<close> delivers the file in and however often signals interrupt it,
  the scan of an open file returns what the framing of its bytes prescribes: every record handed to
  the callback once and in order, the counts, and the exception for a zero length, a truncated record
  or a trailing byte with its offset. The buffer of eight megabytes is never too small.
\<close>

theorem scan_depends_on_bytes:
  fixes callback :: "'s \<Rightarrow> bytes \<Rightarrow> ('s \<times> 'e option) option"
  assumes "reads_file rd contents signals"
  shows "scan_historical_file rd (Some fd) callback s = scan_spec callback (contents fd) s \<lparr>fs_messages = 0, fs_framed_bytes = 0\<rparr>"
  by (rule scan_open [OF assms])

text \<open>A file that \<open>read\<close> delivers in pieces of at most three bytes, after an interruption.\<close>

fun slow_read :: "nat \<times> bytes \<Rightarrow> nat \<Rightarrow> (nat \<times> bytes) \<times> read_result" where
  "slow_read (Suc k, bs) n = ((k, bs), Eintr)"
| "slow_read (0, bs) n = (let m = min n 3 in ((0, drop m bs), Data (take m bs)))"

lemma slow_read_reads: "reads_file slow_read snd fst"
  unfolding reads_file_def
proof (intro allI impI)
  fix fd :: "nat \<times> bytes" and n :: nat
  assume "0 < n"
  then show "case slow_read fd n of
        (fd', Data d) \<Rightarrow> snd fd = d @ snd fd' \<and> length d \<le> n \<and> (d = [] \<longrightarrow> snd fd = [])
      | (fd', Eintr) \<Rightarrow> snd fd' = snd fd \<and> fst fd' < fst fd
      | (fd', Errno) \<Rightarrow> False"
    by (cases "(fd, n)" rule: slow_read.cases) (auto simp: Let_def)
qed

theorem scan_depends_on_bytes_witness:
  "scan_historical_file slow_read (Some (2, [0, 1, 65, 0, 2, 66, 67, 0, 9, 1])) (\<lambda>ms m. Some (ms @ [m], None :: unit option)) [] =
     Some ([[65], [66, 67]], Inl (Truncated 7 9 1))"
  unfolding scan_depends_on_bytes [OF slow_read_reads] by code_simp

end
