(* ===== verification/Loopback.thy ===== *)
theory Loopback
  imports HistoricalFile MoldUdp64
begin

text \<open>
  The loopback tool (\<open>tools/NasdaqMoldUdpLoopback.cpp\<close>): a sender that packs the records of a
  historical file into MoldUDP64 datagrams, and a receiver that parses, sequences and counts them.
  The sockets are parameters: \<open>net n d\<close> is the system call \<open>sendto\<close> with the datagram \<open>d\<close>, and the receiver
  gets the outcomes of its calls of \<open>recv\<close> as a list; of a datagram, \<open>recv\<close> copies what fits into the
  receiver's buffer. The theory proves the round trip over a network that loses nothing: the receiver
  counts exactly what the sender packed, as long as every record fits into a UDP datagram, and the
  sender fails if one does not.
\<close>

section \<open>The sender\<close>

definition kDatagramBytes :: nat where
  "kDatagramBytes = 1400"

datatype send_result = Sent nat | Send_eintr | Send_errno

datatype loop_exception = MessageLimitReached | Sendto_failed | End_sendto_failed

record 'n Sender =
  sd_net :: 'n
  sd_datagram :: bytes
  sd_first_sequence :: u64
  sd_count :: u16
  sd_sent_messages :: u64
  sd_sent_datagrams :: u64

definition Sender_new :: "bytes \<Rightarrow> 'n \<Rightarrow> 'n Sender" where
  "Sender_new session n = \<lparr>sd_net = n, sd_datagram = store_at 0 session (replicate kHeaderBytes 0), sd_first_sequence = 1,
     sd_count = 0, sd_sent_messages = 0, sd_sent_datagrams = 0\<rparr>"

partial_function (option) send_retry :: "('n \<Rightarrow> bytes \<Rightarrow> 'n \<times> send_result) \<Rightarrow> 'n \<Rightarrow> bytes \<Rightarrow> ('n \<times> send_result) option" where
  "send_retry net n d = (case net n d of (n, sent) \<Rightarrow> if sent = Send_eintr then send_retry net n d else Some (n, sent))"

definition send_datagram :: "('n \<Rightarrow> bytes \<Rightarrow> 'n \<times> send_result) \<Rightarrow> 'n Sender \<Rightarrow> ('n Sender \<times> loop_exception option) option" where
  "send_datagram net s =
     (if sd_count s = 0 then Some (s, None)
      else
        let datagram = store_at 10 (encode_u64 (sd_first_sequence s)) (sd_datagram s);
            datagram = store_at 18 (encode_u16 (sd_count s)) datagram;
            s = s\<lparr>sd_datagram := datagram\<rparr> in
        Option.bind (send_retry net (sd_net s) datagram) (\<lambda>(n, sent).
          let s = s\<lparr>sd_net := n\<rparr> in
          if sent \<noteq> Sent (length datagram) then Some (s, Some Sendto_failed)
          else Some (s\<lparr>sd_first_sequence := sd_first_sequence s + ucast (sd_count s),
                       sd_sent_datagrams := sd_sent_datagrams s + 1,
                       sd_count := 0, sd_datagram := take kHeaderBytes datagram\<rparr>, None)))"

text \<open>The callback of the scan.\<close>

definition packetize :: "('n \<Rightarrow> bytes \<Rightarrow> 'n \<times> send_result) \<Rightarrow> u64 \<Rightarrow> 'n Sender \<Rightarrow> bytes \<Rightarrow> ('n Sender \<times> loop_exception option) option" where
  "packetize net limit s message =
     (if sd_sent_messages s \<ge> limit then Some (s, Some MessageLimitReached)
      else
        let block_size = length message + 2 in
        Option.bind (if length (sd_datagram s) + block_size > kDatagramBytes then send_datagram net s else Some (s, None))
          (\<lambda>(s, thrown).
            if thrown \<noteq> None then Some (s, thrown)
            else Some (s\<lparr>sd_datagram := sd_datagram s @ encode_u16 (of_nat (length message)) @ message,
                         sd_count := sd_count s + 1, sd_sent_messages := sd_sent_messages s + 1\<rparr>, None)))"

definition send_file :: "('f \<Rightarrow> nat \<Rightarrow> 'f \<times> read_result) \<Rightarrow> 'f option \<Rightarrow> ('n \<Rightarrow> bytes \<Rightarrow> 'n \<times> send_result) \<Rightarrow> 'n \<Rightarrow> u64 \<Rightarrow> bytes \<Rightarrow>
    ('n Sender \<times> loop_exception scan_exception option) option" where
  "send_file rd opened net n limit session =
     Option.bind (scan_historical_file rd opened (packetize net limit) (Sender_new session n)) (\<lambda>(s, result).
       if isl result \<and> projl result \<noteq> Raised MessageLimitReached then Some (s, Some (projl result))
       else Option.bind (send_datagram net s) (\<lambda>(s, thrown).
         if thrown \<noteq> None then Some (s, map_option Raised thrown)
         else
           let fin = make_request_packet session (sd_first_sequence s) kEndOfSession in
           case net (sd_net s) fin of (n, sent) \<Rightarrow>
             Some (s\<lparr>sd_net := n\<rparr>, if sent \<noteq> Sent (length fin) then Some (Raised End_sendto_failed) else None)))"

section \<open>The receiver\<close>

record ReceiverStats =
  rc_datagrams :: u64
  rc_messages :: u64
  rc_bytes :: u64
  rc_malformed_packets :: u64
  rc_malformed_itch :: u64
  rc_gaps :: u64
  rc_gap_messages :: u64
  rc_duplicates :: u64
  rc_session_mismatches :: u64
  rc_end_of_session :: bool

definition ReceiverStats_new :: ReceiverStats where
  "ReceiverStats_new = \<lparr>rc_datagrams = 0, rc_messages = 0, rc_bytes = 0, rc_malformed_packets = 0, rc_malformed_itch = 0,
     rc_gaps = 0, rc_gap_messages = 0, rc_duplicates = 0, rc_session_mismatches = 0, rc_end_of_session = False\<rparr>"

definition kReceiveBytes :: nat where
  "kReceiveBytes = 65536"

text \<open>The datagram at the head of the socket's queue, an interruption, a timeout with the value of \<open>sender_done\<close> then, another failure.\<close>

datatype recv_result = Received bytes | Recv_eintr | Recv_timeout bool | Recv_errno

datatype receive_outcome = Waiting | Finished ReceiverStats | Recv_failed

definition count_decision :: "SequenceDecision \<Rightarrow> ReceiverStats \<Rightarrow> ReceiverStats" where
  "count_decision d st =
     (if state d = seq_gap then st\<lparr>rc_gaps := rc_gaps st + 1, rc_gap_messages := rc_gap_messages st + gap_messages d\<rparr>
      else if state d = seq_duplicate then st\<lparr>rc_duplicates := rc_duplicates st + 1\<rparr>
      else if state d = seq_session_mismatch then st\<lparr>rc_session_mismatches := rc_session_mismatches st + 1\<rparr>
      else st)"

definition itch_malformed :: "bytes \<Rightarrow> bool" where
  "itch_malformed message =
     (let expected = (if length message = 0 then 0 else expected_message_size (message ! 0))
      in expected = 0 \<or> expected \<noteq> length message)"

definition count_message :: "SequenceDecision \<Rightarrow> bytes \<Rightarrow> ReceiverStats \<times> u16 \<Rightarrow> ReceiverStats \<times> u16" where
  "count_message d message = (\<lambda>(st, message_index).
     let process = (may_process d \<and> message_index \<ge> skip_messages d); message_index = message_index + 1 in
     if \<not> process then (st, message_index)
     else
       let st = st\<lparr>rc_messages := rc_messages st + 1\<rparr> in
       (if itch_malformed message then st\<lparr>rc_malformed_itch := rc_malformed_itch st + 1\<rparr> else st, message_index))"

text \<open>The rest of the loop body for the bytes that \<open>recv\<close> copied, and whether it leaves the loop.\<close>

definition receive_datagram :: "bytes \<Rightarrow> SequenceTracker \<Rightarrow> ReceiverStats \<Rightarrow> SequenceTracker \<times> ReceiverStats \<times> bool" where
  "receive_datagram buffer tracker st =
     (let st = st\<lparr>rc_datagrams := rc_datagrams st + 1, rc_bytes := rc_bytes st + of_nat (length buffer)\<rparr> in
      case decode_header (Some buffer) (length buffer) of
        None \<Rightarrow> (tracker, st\<lparr>rc_malformed_packets := rc_malformed_packets st + 1\<rparr>, False)
      | Some h \<Rightarrow>
          (case inspect tracker h of (tracker, d) \<Rightarrow>
             let st = count_decision d st in
             case parse_downstream_packet (Some buffer) (length buffer) of (parsed, calls) \<Rightarrow>
               let st = fst (fold (\<lambda>(sequence, message). count_message d message) calls (st, 0)) in
               if error parsed \<noteq> parse_none then (tracker, st\<lparr>rc_malformed_packets := rc_malformed_packets st + 1\<rparr>, False)
               else
                 let tracker = commit tracker h d in
                 if packet_kind h = end_of_session_packet then (tracker, st\<lparr>rc_end_of_session := True\<rparr>, True)
                 else (tracker, st, False)))"

fun receive_loop :: "SequenceTracker \<Rightarrow> ReceiverStats \<Rightarrow> recv_result list \<Rightarrow> receive_outcome" where
  "receive_loop tracker st [] = Waiting"
| "receive_loop tracker st (Recv_eintr # rs) = receive_loop tracker st rs"
| "receive_loop tracker st (Recv_timeout sender_done # rs) =
     (if sender_done then Finished st else receive_loop tracker st rs)"
| "receive_loop tracker st (Recv_errno # rs) = Recv_failed"
| "receive_loop tracker st (Received datagram # rs) =
     (case receive_datagram (take kReceiveBytes datagram) tracker st of (tracker, st, ended) \<Rightarrow>
        if ended then Finished st else receive_loop tracker st rs)"

definition receive_packets :: "recv_result list \<Rightarrow> receive_outcome" where
  "receive_packets rs = receive_loop SequenceTracker_init ReceiverStats_new rs"

definition loopback_status :: "u64 \<Rightarrow> ReceiverStats \<Rightarrow> int" where
  "loopback_status sent_messages st =
     (if rc_messages st = sent_messages \<and> rc_malformed_packets st = 0 \<and> rc_malformed_itch st = 0 \<and> rc_gaps st = 0 \<and>
         rc_end_of_session st then 0 else 1)"

section \<open>The records of a file\<close>

fun feed_messages :: "('s \<Rightarrow> bytes \<Rightarrow> ('s \<times> 'e option) option) \<Rightarrow> bytes list \<Rightarrow> 's \<Rightarrow> ('s \<times> 'e option) option" where
  "feed_messages callback [] s = Some (s, None)"
| "feed_messages callback (m # ms) s =
     (case callback s m of None \<Rightarrow> None
      | Some (s, Some e) \<Rightarrow> Some (s, Some e)
      | Some (s, None) \<Rightarrow> feed_messages callback ms s)"

definition valid_records :: "bytes list \<Rightarrow> bool" where
  "valid_records ms \<longleftrightarrow> (\<forall>m\<in>set ms. m \<noteq> [] \<and> length m < 65536)"

definition scanned :: "bytes list \<Rightarrow> FileScanResult \<Rightarrow> FileScanResult" where
  "scanned ms result = result\<lparr>fs_messages := fs_messages result + of_nat (length ms),
     fs_framed_bytes := fs_framed_bytes result + of_nat (length (concat (map encode_block ms)))\<rparr>"

lemma scan_spec_blocks:
  assumes "valid_records ms"
  shows "scan_spec callback (concat (map encode_block ms)) s result =
    map_option (\<lambda>(s, thrown). (s, case thrown of None \<Rightarrow> Inr (scanned ms result) | Some e \<Rightarrow> Inl (Raised e))) (feed_messages callback ms s)"
  using assms
proof (induction ms arbitrary: s result)
  case Nil
  show ?case by (simp add: scan_spec.simps scanned_def)
next
  case (Cons m ms)
  let ?bs = "concat (map encode_block (m # ms))"
  have m: "m \<noteq> []" "length m < 65536" and ms: "valid_records ms" using Cons.prems by (auto simp: valid_records_def)
  have size: "unat (read_u16 ?bs 0) = length m" by (rule read_u16_block [OF m(2)]) simp
  have body: "drop 2 ?bs = m @ concat (map encode_block ms)" by (simp add: encode_block_def)
  let ?r = "result\<lparr>fs_framed_bytes := fs_framed_bytes result + 2 + of_nat (length m), fs_messages := fs_messages result + 1\<rparr>"
  have rest: "drop (length m) (m @ concat (map encode_block ms)) = concat (map encode_block ms)"
    "take (length m) (m @ concat (map encode_block ms)) = m" by simp_all
  have long: "\<not> length ?bs < 2" by simp
  have eq: "scan_spec callback ?bs s result = (case callback s m of None \<Rightarrow> None
      | Some (s, Some e) \<Rightarrow> Some (s, Inl (Raised e))
      | Some (s, None) \<Rightarrow> scan_spec callback (concat (map encode_block ms)) s ?r)"
    unfolding scan_spec.simps [of callback ?bs s result] if_not_P [OF long] Let_def size body rest using m(1) by simp
  have sc: "scanned ms ?r = scanned (m # ms) result" by (simp add: scanned_def algebra_simps)
  show ?case unfolding eq Cons.IH [OF ms] sc by (auto split: option.split)
qed

section \<open>A network that loses nothing\<close>

text \<open>
  UDP over IPv4 carries at most 65507 bytes; \<open>sendto\<close> refuses more with \<open>EMSGSIZE\<close>. A record takes the
  20 bytes of the header, its length and itself when it is alone in its datagram.
\<close>

definition kMaximumUdpPayload :: nat where
  "kMaximumUdpPayload = 65507"

definition sendable :: "bytes \<Rightarrow> bool" where
  "sendable m \<longleftrightarrow> 20 + (2 + length m) \<le> kMaximumUdpPayload"

definition delivers_all :: "('n \<Rightarrow> bytes \<Rightarrow> 'n \<times> send_result) \<Rightarrow> ('n \<Rightarrow> bytes list) \<Rightarrow> bool" where
  "delivers_all net queue \<longleftrightarrow>
     (\<forall>n d. case net n d of (n', sent) \<Rightarrow>
        if length d \<le> kMaximumUdpPayload then sent = Sent (length d) \<and> queue n' = queue n @ [d]
        else sent = Send_errno \<and> queue n' = queue n)"

fun arrives :: "recv_result list \<Rightarrow> bytes list \<Rightarrow> bool" where
  "arrives [] ds \<longleftrightarrow> ds = []"
| "arrives (Received d # rs) ds \<longleftrightarrow> ds \<noteq> [] \<and> d = hd ds \<and> arrives rs (tl ds)"
| "arrives (Recv_eintr # rs) ds \<longleftrightarrow> arrives rs ds"
| "arrives (Recv_timeout sender_done # rs) ds \<longleftrightarrow> \<not> sender_done \<and> arrives rs ds"
| "arrives (Recv_errno # rs) ds \<longleftrightarrow> False"

text \<open>The datagrams of messages packed in chunks.\<close>

fun packets :: "bytes \<Rightarrow> u64 \<Rightarrow> bytes list list \<Rightarrow> bytes list" where
  "packets session first [] = []"
| "packets session first (c # cs) = encode_packet session first c # packets session (first + of_nat (length c)) cs"

lemma packets_snoc:
  "packets session first (cs @ [c]) = packets session first cs @ [encode_packet session (first + of_nat (length (concat cs))) c]"
  by (induction cs arbitrary: first) (simp_all add: add.assoc)

definition chunk_ok :: "bytes list \<Rightarrow> bool" where
  "chunk_ok c \<longleftrightarrow> 0 < length c \<and> length c < 500 \<and> 20 + length (concat (map encode_block c)) \<le> kMaximumUdpPayload"

definition packed :: "bytes \<Rightarrow> ('n \<Rightarrow> bytes list) \<Rightarrow> bytes list list \<Rightarrow> bytes list \<Rightarrow> 'n Sender \<Rightarrow> bool" where
  "packed session queue cs buf s \<longleftrightarrow>
     queue (sd_net s) = packets session 1 cs \<and> sd_first_sequence s = 1 + of_nat (length (concat cs)) \<and>
     sd_count s = of_nat (length buf) \<and> sd_sent_messages s = of_nat (length (concat cs @ buf)) \<and> sd_sent_datagrams s = of_nat (length cs) \<and>
     20 \<le> length (sd_datagram s) \<and> take 10 (sd_datagram s) = session \<and> drop 20 (sd_datagram s) = concat (map encode_block buf) \<and>
     (length buf \<le> 1 \<or> length (sd_datagram s) \<le> kDatagramBytes) \<and> length (sd_datagram s) \<le> kMaximumUdpPayload \<and>
     valid_records (concat cs @ buf) \<and> (\<forall>c\<in>set cs. chunk_ok c)"

lemma packedD:
  assumes "packed session queue cs buf s"
  shows "queue (sd_net s) = packets session 1 cs" "sd_first_sequence s = 1 + of_nat (length (concat cs))"
    "sd_count s = of_nat (length buf)" "sd_sent_messages s = of_nat (length (concat cs @ buf))" "sd_sent_datagrams s = of_nat (length cs)"
    "20 \<le> length (sd_datagram s)" "take 10 (sd_datagram s) = session" "drop 20 (sd_datagram s) = concat (map encode_block buf)"
    "length buf \<le> 1 \<or> length (sd_datagram s) \<le> kDatagramBytes" "valid_records (concat cs @ buf)"
    "\<forall>c\<in>set cs. chunk_ok c" "length (sd_datagram s) \<le> kMaximumUdpPayload"
  using assms by (auto simp: packed_def)

lemma packed_new: "length session = 10 \<Longrightarrow> queue n = [] \<Longrightarrow> packed session queue [] [] (Sender_new session n)"
  by (simp add: packed_def Sender_new_def store_at_def kHeaderBytes_def kMaximumUdpPayload_def valid_records_def)

lemma blocks_length: "valid_records ms \<Longrightarrow> 3 * length ms \<le> length (concat (map encode_block ms))"
proof (induction ms)
  case (Cons m ms)
  then have "m \<noteq> []" "3 * length ms \<le> length (concat (map encode_block ms))" by (auto simp: valid_records_def)
  then show ?case by (cases m) simp_all
qed simp

lemma packed_short:
  assumes "packed session queue cs buf s"
  shows "length buf < 500"
proof (rule ccontr)
  assume long: "\<not> length buf < 500"
  note P = packedD [OF assms]
  have "length (sd_datagram s) \<le> 1400" using P(9) long by (simp add: kDatagramBytes_def)
  moreover have "length (drop 20 (sd_datagram s)) \<ge> 3 * length buf"
    unfolding P(8) using P(10) by (intro blocks_length) (simp add: valid_records_def)
  ultimately show False using long by simp
qed

lemma send_retry_once:
  assumes "delivers_all net queue" "length d \<le> kMaximumUdpPayload"
  obtains n' where "send_retry net n d = Some (n', Sent (length d))" "net n d = (n', Sent (length d))" "queue n' = queue n @ [d]"
proof -
  obtain n' sent where net: "net n d = (n', sent)" by fastforce
  then have "sent = Sent (length d) \<and> queue n' = queue n @ [d]" using assms unfolding delivers_all_def by (auto split: prod.splits)
  moreover from this have "send_retry net n d = Some (n', Sent (length d))" by (subst send_retry.simps) (simp add: net)
  ultimately show thesis using net that [of n'] by simp
qed

lemma send_retry_refused:
  assumes "delivers_all net queue" "length d > kMaximumUdpPayload"
  obtains n' where "send_retry net n d = Some (n', Send_errno)"
proof -
  obtain n' sent where net: "net n d = (n', sent)" by fastforce
  then have "sent = Send_errno" using assms unfolding delivers_all_def by (auto split: prod.splits)
  then have "send_retry net n d = Some (n', Send_errno)" by (subst send_retry.simps) (simp add: net)
  then show thesis by (rule that)
qed

lemma stamped_packet:
  assumes "20 \<le> length d" "take 10 d = session"
  shows "store_at 18 (encode_u16 c) (store_at 10 (encode_u64 f) d) = session @ encode_u64 f @ encode_u16 c @ drop 20 d"
  using assms by (auto simp: store_at_def)

lemma send_datagram_packed:
  assumes net: "delivers_all net queue" and p: "packed session queue cs buf s"
  obtains s' cs' where "send_datagram net s = Some (s', None)" "packed session queue cs' [] s'" "concat cs' = concat cs @ buf"
proof (cases "buf = []")
  case True
  then show thesis using that [of s cs] p packedD(3) [OF p] by (simp add: send_datagram_def)
next
  case False
  note P = packedD [OF p] note short = packed_short [OF p]
  have count: "unat (sd_count s) = length buf" "sd_count s \<noteq> 0" using data_count(1,2) [of "length buf"] False short P(3) by auto
  let ?d = "store_at 18 (encode_u16 (sd_count s)) (store_at 10 (encode_u64 (sd_first_sequence s)) (sd_datagram s))"
  have d: "?d = encode_packet session (sd_first_sequence s) buf"
    unfolding stamped_packet [OF P(6,7)] by (simp add: encode_packet_def make_request_packet_def P(3,8))
  have len: "length session = 10" "length ?d = length (sd_datagram s)" "length ?d = 20 + length (concat (map encode_block buf))"
    using P(6,7) P(8) [symmetric] by (auto simp: stamped_packet [OF P(6,7)])
  have le: "length ?d \<le> kMaximumUdpPayload" using len(2) P(12) by simp
  obtain n' where n': "send_retry net (sd_net s) ?d = Some (n', Sent (length ?d))" "queue n' = queue (sd_net s) @ [?d]"
    by (rule send_retry_once [OF net le])
  let ?s = "s\<lparr>sd_net := n', sd_first_sequence := sd_first_sequence s + ucast (sd_count s), sd_sent_datagrams := sd_sent_datagrams s + 1,
    sd_count := 0, sd_datagram := take kHeaderBytes ?d\<rparr>"
  have send: "send_datagram net s = Some (?s, None)" using count(2) n'(1) by (simp add: send_datagram_def Let_def)
  have inc: "(ucast (sd_count s) :: u64) = of_nat (length buf)" using count(1) by (metis of_nat_unat)
  have "queue n' = packets session 1 (cs @ [buf])" unfolding packets_snoc n'(2) P(1) unfolding d unfolding P(2) ..
  moreover have "length (take 20 ?d) = 20 \<and> take 10 (take 20 ?d) = session"
    unfolding stamped_packet [OF P(6,7)] using len(1) P(6) by simp
  moreover have "chunk_ok buf" using False short len P(12) by (simp add: chunk_ok_def)
  ultimately have "packed session queue (cs @ [buf]) [] ?s"
    unfolding packed_def using P(2,4,5,10,11) inc
    by (auto simp: kHeaderBytes_def kDatagramBytes_def kMaximumUdpPayload_def algebra_simps)
  then show thesis using that send by simp
qed

lemma packed_append:
  assumes p: "packed session queue cs buf s" and m: "m \<noteq> []" "length m < 65536" "sendable m"
    and fits: "buf = [] \<or> length (sd_datagram s) + (length m + 2) \<le> kDatagramBytes"
  shows "packed session queue cs (buf @ [m]) (s\<lparr>sd_datagram := sd_datagram s @ encode_u16 (of_nat (length m)) @ m,
    sd_count := sd_count s + 1, sd_sent_messages := sd_sent_messages s + 1\<rparr>)"
proof -
  note P = packedD [OF p]
  have "buf = [] \<Longrightarrow> length (sd_datagram s) = 20" using P(6,8) by simp
  then have "length (sd_datagram s) + (length m + 2) \<le> kMaximumUdpPayload"
    using fits m(3) by (auto simp: sendable_def kDatagramBytes_def kMaximumUdpPayload_def)
  moreover have "valid_records (concat cs @ buf @ [m])" using P(10) m by (auto simp: valid_records_def)
  moreover have "length (buf @ [m]) \<le> 1 \<or> length (sd_datagram s) + (length m + 2) \<le> kDatagramBytes" using fits by auto
  moreover have "drop 20 (sd_datagram s @ encode_u16 (of_nat (length m)) @ m) = concat (map encode_block (buf @ [m]))"
    using P(6,8) by (simp add: encode_block_def)
  ultimately show ?thesis unfolding packed_def using P(1-7,11) by simp
qed

lemma packed_room:
  assumes "packed session queue cs buf s" "length (concat cs @ buf) < unat limit"
  shows "\<not> sd_sent_messages s \<ge> limit"
proof -
  have fit: "unat (of_nat k :: u64) = k" if "k < unat limit" for k
    using that unsigned_less [of limit, where 'a = nat] by (simp add: unsigned_of_nat take_bit_nat_eq_self)
  have "unat (sd_sent_messages s) = length (concat cs @ buf)" unfolding packedD(4) [OF assms(1)] by (rule fit [OF assms(2)])
  then show ?thesis using assms(2) by (simp add: word_le_nat_alt)
qed

lemma packetize_packed:
  assumes net: "delivers_all net queue" and p: "packed session queue cs buf s" and m: "m \<noteq> []" "length m < 65536" "sendable m"
    and room: "length (concat cs @ buf) < unat limit"
  obtains s' cs' buf' where "packetize net limit s m = Some (s', None)" "packed session queue cs' buf' s'"
    "concat cs' @ buf' = concat cs @ buf @ [m]"
proof -
  have go: "\<not> sd_sent_messages s \<ge> limit" by (rule packed_room [OF p room])
  let ?add = "\<lambda>s. s\<lparr>sd_datagram := sd_datagram s @ encode_u16 (of_nat (length m)) @ m,
    sd_count := sd_count s + 1, sd_sent_messages := sd_sent_messages s + 1\<rparr>"
  show thesis
  proof (cases "length (sd_datagram s) + (length m + 2) > kDatagramBytes")
    case True
    obtain s1 cs1 where s1: "send_datagram net s = Some (s1, None)" "packed session queue cs1 [] s1" "concat cs1 = concat cs @ buf"
      by (rule send_datagram_packed [OF net p])
    have "packetize net limit s m = Some (?add s1, None)" using go True s1(1) by (simp add: packetize_def)
    moreover have "packed session queue cs1 [m] (?add s1)" using packed_append [OF s1(2) m] by simp
    ultimately show thesis by (rule that) (simp add: s1(3))
  next
    case False
    have "packetize net limit s m = Some (?add s, None)" using go False by (simp add: packetize_def)
    moreover have "packed session queue cs (buf @ [m]) (?add s)" by (rule packed_append [OF p m]) (use False in simp)
    ultimately show thesis by (rule that) simp
  qed
qed

lemma feed_packed:
  assumes net: "delivers_all net queue"
  shows "packed session queue cs buf s \<Longrightarrow> valid_records ms \<Longrightarrow> length (concat cs @ buf) \<le> unat limit \<Longrightarrow>
    \<forall>m\<in>set (take (unat limit - length (concat cs @ buf)) ms). sendable m \<Longrightarrow>
    \<exists>s' thrown cs' buf'. feed_messages (packetize net limit) ms s = Some (s', thrown) \<and> (thrown = None \<or> thrown = Some MessageLimitReached) \<and>
      packed session queue cs' buf' s' \<and> concat cs' @ buf' = (concat cs @ buf) @ take (unat limit - length (concat cs @ buf)) ms"
proof (induction ms arbitrary: cs buf s)
  case (Cons m ms)
  show ?case
  proof (cases "length (concat cs @ buf) < unat limit")
    case True
    have "sendable m" using Cons.prems(4) True by (simp add: take_Cons')
    then have m: "m \<noteq> []" "length m < 65536" "sendable m" and ms: "valid_records ms"
      using Cons.prems(2) by (auto simp: valid_records_def)
    obtain s1 cs1 buf1 where s1: "packetize net limit s m = Some (s1, None)" "packed session queue cs1 buf1 s1"
      "concat cs1 @ buf1 = concat cs @ buf @ [m]" by (rule packetize_packed [OF net Cons.prems(1) m True])
    have len: "length (concat cs1 @ buf1) = length (concat cs @ buf) + 1" unfolding s1(3) by simp
    have split: "take (unat limit - length (concat cs @ buf)) (m # ms) = m # take (unat limit - length (concat cs1 @ buf1)) ms"
      unfolding len using True by (simp add: take_Cons')
    have "length (concat cs1 @ buf1) \<le> unat limit" using len True by simp
    from Cons.IH [OF s1(2) ms this] Cons.prems(4) [unfolded split] show ?thesis unfolding split s1(3) using s1(1) by simp
  next
    case False
    then have full: "length (concat cs @ buf) = unat limit" using Cons.prems(3) by simp
    then have "sd_sent_messages s \<ge> limit" unfolding packedD(4) [OF Cons.prems(1)] by simp
    then have "packetize net limit s m = Some (s, Some MessageLimitReached)" by (simp add: packetize_def)
    then show ?thesis using Cons.prems(1) full by (intro exI [of _ s] exI [of _ "Some MessageLimitReached"] exI [of _ cs] exI [of _ buf]) simp
  qed
qed auto

text \<open>
  A record that no datagram can carry: it is packed alone, so that the next attempt to send fails,
  be it for the next record or at the end of the file.
\<close>

definition stuck :: "'n Sender \<Rightarrow> bool" where
  "stuck s \<longleftrightarrow> sd_count s \<noteq> 0 \<and> length (sd_datagram s) > kMaximumUdpPayload"

lemma send_datagram_stuck:
  assumes "delivers_all net queue" "stuck s"
  obtains s' where "send_datagram net s = Some (s', Some Sendto_failed)"
proof -
  let ?d = "store_at 18 (encode_u16 (sd_count s)) (store_at 10 (encode_u64 (sd_first_sequence s)) (sd_datagram s))"
  have "length ?d > kMaximumUdpPayload" using assms(2) by (auto simp: stuck_def kMaximumUdpPayload_def store_at_def)
  then obtain n' where "send_retry net (sd_net s) ?d = Some (n', Send_errno)" by (rule send_retry_refused [OF assms(1)])
  then have "send_datagram net s = Some (s\<lparr>sd_datagram := ?d, sd_net := n'\<rparr>, Some Sendto_failed)"
    using assms(2) by (simp add: send_datagram_def stuck_def Let_def)
  then show thesis by (rule that)
qed

definition send_fails :: "('n Sender \<times> loop_exception option) option \<Rightarrow> bool" where
  "send_fails r \<longleftrightarrow> (\<exists>s' thrown. r = Some (s', thrown) \<and>
     (thrown = Some Sendto_failed \<or> (thrown = None \<or> thrown = Some MessageLimitReached) \<and> stuck s'))"

lemma feed_stuck:
  assumes "delivers_all net queue" "stuck s"
  shows "send_fails (feed_messages (packetize net limit) ms s)"
proof (cases ms)
  case (Cons m ms')
  obtain s' where "send_datagram net s = Some (s', Some Sendto_failed)" by (rule send_datagram_stuck [OF assms])
  moreover have "length (sd_datagram s) + (length m + 2) > kDatagramBytes"
    using assms(2) by (simp add: stuck_def kMaximumUdpPayload_def kDatagramBytes_def)
  ultimately have "packetize net limit s m = Some (s, Some MessageLimitReached) \<or> packetize net limit s m = Some (s', Some Sendto_failed)"
    by (simp add: packetize_def)
  then show ?thesis using assms(2) by (auto simp: Cons send_fails_def)
qed (use assms in \<open>simp add: send_fails_def\<close>)

lemma packetize_oversize:
  assumes net: "delivers_all net queue" and p: "packed session queue cs buf s" and m: "\<not> sendable m"
    and room: "length (concat cs @ buf) < unat limit"
  obtains s' where "packetize net limit s m = Some (s', None)" "stuck s'"
proof -
  have go: "\<not> sd_sent_messages s \<ge> limit" by (rule packed_room [OF p room])
  have len: "length (sd_datagram s) + (length m + 2) > kDatagramBytes"
    using m by (simp add: sendable_def kMaximumUdpPayload_def kDatagramBytes_def)
  obtain s1 cs1 where s1: "send_datagram net s = Some (s1, None)" "packed session queue cs1 [] s1" by (rule send_datagram_packed [OF net p])
  let ?s = "s1\<lparr>sd_datagram := sd_datagram s1 @ encode_u16 (of_nat (length m)) @ m, sd_count := sd_count s1 + 1,
    sd_sent_messages := sd_sent_messages s1 + 1\<rparr>"
  have "packetize net limit s m = Some (?s, None)" using go len s1(1) by (simp add: packetize_def)
  moreover have "stuck ?s" using packedD(3,6) [OF s1(2)] m by (simp add: stuck_def sendable_def)
  ultimately show thesis by (rule that)
qed

lemma feed_oversize:
  assumes net: "delivers_all net queue"
  shows "packed session queue cs buf s \<Longrightarrow> valid_records ms \<Longrightarrow> length (concat cs @ buf) \<le> unat limit \<Longrightarrow>
    \<exists>m\<in>set (take (unat limit - length (concat cs @ buf)) ms). \<not> sendable m \<Longrightarrow>
    send_fails (feed_messages (packetize net limit) ms s)"
proof (induction ms arbitrary: cs buf s)
  case (Cons m ms)
  have room: "length (concat cs @ buf) < unat limit" using Cons.prems(4) by (auto intro: ccontr)
  have m: "m \<noteq> []" "length m < 65536" and ms: "valid_records ms" using Cons.prems(2) by (auto simp: valid_records_def)
  show ?case
  proof (cases "sendable m")
    case True
    obtain s1 cs1 buf1 where s1: "packetize net limit s m = Some (s1, None)" "packed session queue cs1 buf1 s1"
      "concat cs1 @ buf1 = concat cs @ buf @ [m]" by (rule packetize_packed [OF net Cons.prems(1) m True room])
    have len: "length (concat cs1 @ buf1) = length (concat cs @ buf) + 1" unfolding s1(3) by simp
    have "\<exists>m\<in>set (take (unat limit - length (concat cs1 @ buf1)) ms). \<not> sendable m"
      using Cons.prems(4) True room unfolding len by (auto simp: take_Cons' split: if_splits)
    moreover have "length (concat cs1 @ buf1) \<le> unat limit" using len room by simp
    ultimately show ?thesis using Cons.IH [OF s1(2) ms] s1(1) by simp
  next
    case False
    obtain s1 where "packetize net limit s m = Some (s1, None)" "stuck s1"
      by (rule packetize_oversize [OF net Cons.prems(1) False room])
    then show ?thesis using feed_stuck [OF net, of s1 limit ms] by simp
  qed
qed simp

section \<open>The receiver on such a network\<close>

definition at_sequence :: "bytes \<Rightarrow> u64 \<Rightarrow> SequenceTracker \<Rightarrow> bool" where
  "at_sequence session f t \<longleftrightarrow> (initialized t \<longrightarrow> tr_session t = session \<and> next_sequence t = f)"

lemma inspect_ready:
  assumes "at_sequence session f t" "h = \<lparr>hd_session = session, first_sequence = f, message_count = n\<rparr>"
    "unat f + header_count h < 2 ^ 64"
  shows "inspect t h = (\<lparr>tr_session = session, next_sequence = f, initialized = True\<rparr>, decision seq_in_order 0 f 0)"
proof -
  let ?t = "\<lparr>tr_session = session, next_sequence = f, initialized = True\<rparr>"
  obtain t' d where i: "inspect t h = (t', d)" by fastforce
  have "initialized t \<Longrightarrow> t = ?t" using assms(1) by (cases t) (simp add: at_sequence_def)
  then have t': "t' = ?t" using i assms(2) by (cases "initialized t") (auto simp: inspect_def Let_def split: if_splits)
  have "tr_session t' = hd_session h" using t' assms(2) by simp
  from inspect_decision [OF i this] have "d = decision seq_in_order 0 f 0"
    using assms(2,3) by (simp add: t' Let_def split: if_splits)
  then show ?thesis using i t' by simp
qed

definition tally :: "bytes list \<Rightarrow> ReceiverStats \<Rightarrow> ReceiverStats" where
  "tally c st = st\<lparr>rc_messages := rc_messages st + of_nat (length c),
     rc_malformed_itch := rc_malformed_itch st + of_nat (length (filter itch_malformed c))\<rparr>"

lemma count_fold:
  "fst (fold (\<lambda>(sequence, message). count_message (decision seq_in_order 0 f 0) message) (number_messages g c) (st, i)) = tally c st"
proof (induction c arbitrary: st i g)
  case (Cons m c)
  obtain st' where st': "count_message (decision seq_in_order 0 f 0) m (st, i) = (st', i + 1)" "st' = tally [m] st"
    by (simp add: count_message_def decision_def may_process_def tally_def Let_def)
  have "tally c (tally [m] st) = tally (m # c) st" by (simp add: tally_def algebra_simps)
  then show ?case using st' Cons.IH by simp
qed (simp add: tally_def)

lemma receive_chunk:
  assumes t: "at_sequence session f t" and len: "length session = 10"
    and c: "0 < length c" "length c < 500" "\<forall>m\<in>set c. length m < 65536" "unat f + length c < 2 ^ 64"
  obtains t' st' where "receive_datagram (encode_packet session f c) t st = (t', st', False)" "at_sequence session (f + of_nat (length c)) t'"
    "st' = tally c (st\<lparr>rc_datagrams := rc_datagrams st + 1, rc_bytes := rc_bytes st + of_nat (length (encode_packet session f c))\<rparr>)"
proof -
  let ?p = "encode_packet session f c" and ?n = "of_nat (length c) :: u16"
  let ?h = "\<lparr>hd_session = session, first_sequence = f, message_count = ?n\<rparr>"
  have "length c < 65535" using c(2) by simp
  note n = data_count [OF c(1) this]
  have parse: "parse_downstream_packet (Some ?p) (length ?p) = (\<lparr>header = ?h, error = parse_none, bytes_consumed = length ?p,
      messages_visited = ?n\<rparr>, number_messages f c)"
    by (rule parse_encoding [OF len c(1) \<open>length c < 65535\<close> c(3)]) (use c(4) in simp)
  have dec: "decode_header (Some ?p) (length ?p) = Some ?h"
    using header_of_encoding [OF len, of f ?n "concat (map encode_block c)" "length ?p"] len by (simp add: encode_packet_def)
  have kind: "packet_kind ?h = data_packet" "header_count ?h = length c"
    using n by (simp_all add: packet_kind_def header_count_def)
  have ins: "inspect t ?h = (\<lparr>tr_session = session, next_sequence = f, initialized = True\<rparr>, decision seq_in_order 0 f 0)"
    by (rule inspect_ready [OF t refl]) (use c(4) kind(2) in simp)
  have inc: "(ucast ?n :: u64) = of_nat (length c)" using n(1) by (metis of_nat_unat)
  show thesis
    by (rule that [OF _ _ refl])
      (auto simp: receive_datagram_def dec ins parse Let_def count_decision_def decision_def [of seq_in_order] kind
        count_fold [unfolded decision_def] commit_def may_process_def at_sequence_def inc)
qed

lemma receive_end:
  assumes t: "at_sequence session f t" and len: "length session = 10"
  shows "\<exists>t'. receive_datagram (make_request_packet session f kEndOfSession) t st =
    (t', st\<lparr>rc_datagrams := rc_datagrams st + 1, rc_bytes := rc_bytes st + 20, rc_end_of_session := True\<rparr>, True)"
proof -
  let ?p = "make_request_packet session f kEndOfSession"
  let ?h = "\<lparr>hd_session = session, first_sequence = f, message_count = kEndOfSession\<rparr>"
  have dec: "decode_header (Some ?p) 20 = Some ?h" using header_of_encoding [OF len, of f kEndOfSession "[]" 20] by simp
  have kind: "packet_kind ?h = end_of_session_packet" "header_count ?h = 0"
    by (simp_all add: packet_kind_def header_count_def kEndOfSession_def)
  have parse: "parse_downstream_packet (Some ?p) 20 = (\<lparr>header = ?h, error = parse_none, bytes_consumed = kHeaderBytes,
      messages_visited = 0\<rparr>, [])"
    by (simp add: parse_downstream_packet_def dec Let_def kHeaderBytes_def)
  have ins: "inspect t ?h = (\<lparr>tr_session = session, next_sequence = f, initialized = True\<rparr>, decision seq_in_order 0 f 0)"
    by (rule inspect_ready [OF t refl]) (use kind(2) unsigned_less [of f, where 'a = nat] in simp)
  show ?thesis
    by (simp add: receive_datagram_def len dec ins parse Let_def count_decision_def decision_def kind)
qed

text \<open>Every chunk is counted once, and nothing is missed, repeated or malformed as a packet.\<close>

definition counts :: "bytes list list \<Rightarrow> ReceiverStats \<Rightarrow> ReceiverStats \<Rightarrow> bool" where
  "counts cs st st' \<longleftrightarrow>
     rc_datagrams st' = rc_datagrams st + of_nat (length cs) + 1 \<and> rc_messages st' = rc_messages st + of_nat (length (concat cs)) \<and>
     rc_malformed_itch st' = rc_malformed_itch st + of_nat (length (filter itch_malformed (concat cs))) \<and>
     rc_malformed_packets st' = rc_malformed_packets st \<and> rc_gaps st' = rc_gaps st \<and> rc_gap_messages st' = rc_gap_messages st \<and>
     rc_duplicates st' = rc_duplicates st \<and> rc_session_mismatches st' = rc_session_mismatches st \<and> rc_end_of_session st'"

lemma receive_all:
  assumes len: "length session = 10"
  shows "arrives rs (packets session f cs @ [make_request_packet session (f + of_nat (length (concat cs))) kEndOfSession]) \<Longrightarrow>
    at_sequence session f t \<Longrightarrow> \<forall>c\<in>set cs. chunk_ok c \<Longrightarrow> \<forall>m\<in>set (concat cs). length m < 65536 \<Longrightarrow>
    unat f + length (concat cs) < 2 ^ 64 \<Longrightarrow> \<exists>st'. receive_loop t st rs = Finished st' \<and> counts cs st st'"
proof (induction rs arbitrary: cs f t st)
  case (Cons r rs)
  show ?case
  proof (cases r)
    case (Received d)
    show ?thesis
    proof (cases cs)
      case Nil
      have "take kReceiveBytes (make_request_packet session f kEndOfSession) = make_request_packet session f kEndOfSession"
        using len by (simp add: kReceiveBytes_def)
      then show ?thesis using Nil receive_end [OF Cons.prems(2) len, of st] Cons.prems(1) Received by (auto simp: counts_def)
    next
      case (Cons c cs')
      note C = Cons.prems [unfolded Cons]
      have c: "0 < length c" "length c < 500" "\<forall>m\<in>set c. length m < 65536" "unat f + length c < 2 ^ 64"
        using C(3,4,5) by (auto simp: chunk_ok_def)
      have whole: "take kReceiveBytes (encode_packet session f c) = encode_packet session f c"
        using C(3) len by (simp add: chunk_ok_def kReceiveBytes_def kMaximumUdpPayload_def encode_packet_def)
      obtain t' st' where s: "receive_datagram (encode_packet session f c) t st = (t', st', False)"
        "at_sequence session (f + of_nat (length c)) t'" "st' = tally c (st\<lparr>rc_datagrams := rc_datagrams st + 1,
          rc_bytes := rc_bytes st + of_nat (length (encode_packet session f c))\<rparr>)"
        by (rule receive_chunk [OF Cons.prems(2) len c])
      have "unat (f + of_nat (length c)) = unat f + length c"
        using c(4) by (simp add: unat_word_ariths unsigned_of_nat take_bit_nat_eq_self)
      then obtain st'' where "receive_loop t' st' rs = Finished st''" "counts cs' st' st''"
        using Cons.IH [of "f + of_nat (length c)" cs' t' st'] s(2) C Received by (auto simp: add.assoc)
      moreover have "receive_loop t st (r # rs) = receive_loop t' st' rs" using Received C(1) s(1) whole by simp
      ultimately show ?thesis by (auto simp: Cons counts_def s(3) tally_def algebra_simps)
    qed
  qed (use Cons in auto)
qed simp

section \<open>Properties\<close>

lemma of_nat_eq_0_u64: "k < 2 ^ 64 \<Longrightarrow> (of_nat k :: u64) = 0 \<longleftrightarrow> k = 0"
  by (simp add: word_of_nat_eq_0_iff take_bit_nat_eq_self nat_dvd_not_less) (auto dest: dvd_imp_le)

lemma send_file_packed:
  assumes rd: "reads_file rd contents signals" and net: "delivers_all net queue"
    and start: "length session = 10" "queue n = []" and recs: "contents fd = concat (map encode_block ms)" "valid_records ms"
      "\<forall>m\<in>set (take (unat limit) ms). sendable m"
  obtains s cs where "send_file rd (Some fd) net n limit session = Some (s, None)" "concat cs = take (unat limit) ms"
    "queue (sd_net s) = packets session 1 cs @ [make_request_packet session (1 + of_nat (length (concat cs))) kEndOfSession]"
    "sd_sent_messages s = of_nat (length (concat cs))" "sd_sent_datagrams s = of_nat (length cs)" "\<forall>c\<in>set cs. chunk_ok c"
proof -
  let ?new = "Sender_new session n"
  have new: "packed session queue [] [] ?new" by (rule packed_new) (use start in simp_all)
  obtain s1 thrown cs1 buf where f: "feed_messages (packetize net limit) ms ?new = Some (s1, thrown)"
    "thrown = None \<or> thrown = Some MessageLimitReached" "packed session queue cs1 buf s1" "concat cs1 @ buf = take (unat limit) ms"
    using feed_packed [OF net new recs(2), of limit] recs(3) by auto
  have scan: "scan_historical_file rd (Some fd) (packetize net limit) ?new =
      scan_spec (packetize net limit) (contents fd) ?new \<lparr>fs_messages = 0, fs_framed_bytes = 0\<rparr>" by (rule scan_open [OF rd])
  obtain result where r: "scan_historical_file rd (Some fd) (packetize net limit) ?new = Some (s1, result)"
    "isl result \<Longrightarrow> projl result = Raised MessageLimitReached"
    unfolding scan recs(1) scan_spec_blocks [OF recs(2)] f(1) using f(2) by (auto split: option.splits)
  obtain s2 cs where s2: "send_datagram net s1 = Some (s2, None)" "packed session queue cs [] s2" "concat cs = concat cs1 @ buf"
    by (rule send_datagram_packed [OF net f(3)])
  note P = packedD [OF s2(2)]
  let ?fin = "make_request_packet session (sd_first_sequence s2) kEndOfSession"
  obtain n' where n': "net (sd_net s2) ?fin = (n', Sent (length ?fin))" "queue n' = queue (sd_net s2) @ [?fin]"
    by (rule send_retry_once [OF net, of ?fin]) (use start(1) in \<open>simp_all add: kMaximumUdpPayload_def\<close>)
  have "send_file rd (Some fd) net n limit session = Some (s2\<lparr>sd_net := n'\<rparr>, None)"
    using r s2(1) n'(1) by (auto simp: send_file_def Let_def)
  then show thesis
    by (rule that [of _ cs]) (use s2(3) f(4) n'(2) P in simp_all)
qed

lemma send_file_oversize:
  assumes rd: "reads_file rd contents signals" and net: "delivers_all net queue"
    and start: "length session = 10" "queue n = []" and recs: "contents fd = concat (map encode_block ms)" "valid_records ms"
      "\<exists>m\<in>set (take (unat limit) ms). \<not> sendable m"
  shows "\<exists>s. send_file rd (Some fd) net n limit session = Some (s, Some (Raised Sendto_failed))"
proof -
  let ?new = "Sender_new session n"
  have new: "packed session queue [] [] ?new" by (rule packed_new) (use start in simp_all)
  obtain s1 thrown where f: "feed_messages (packetize net limit) ms ?new = Some (s1, thrown)"
    "thrown = Some Sendto_failed \<or> (thrown = None \<or> thrown = Some MessageLimitReached) \<and> stuck s1"
    using feed_oversize [OF net new recs(2), of limit] recs(3) by (auto simp: send_fails_def)
  have scan: "scan_historical_file rd (Some fd) (packetize net limit) ?new =
      Some (s1, case thrown of None \<Rightarrow> Inr (scanned ms \<lparr>fs_messages = 0, fs_framed_bytes = 0\<rparr>) | Some e \<Rightarrow> Inl (Raised e))"
    unfolding scan_open [OF rd] recs(1) scan_spec_blocks [OF recs(2)] f(1) by simp
  show ?thesis
  proof (cases "thrown = Some Sendto_failed")
    case True
    then show ?thesis using scan by (simp add: send_file_def)
  next
    case False
    then obtain s2 where "send_datagram net s1 = Some (s2, Some Sendto_failed)" using f(2) send_datagram_stuck [OF net] by blast
    then show ?thesis using scan f(2) False by (auto simp: send_file_def)
  qed
qed

text \<open>
  C15. Round trip: over a network that delivers, in order, every datagram UDP can carry, the tool
  packs the records of any well-formed file up to the message limit into datagrams, and the receiver
  ends with the end of the session, has counted every message once, saw no gap, no duplicate, no
  foreign session and no malformed packet, and the exit status is zero exactly if every packed record
  is a well-formed ITCH message. It holds however \<open>read\<close> cuts the file and wherever \<open>recv\<close> is interrupted
  or times out, provided that every packed record leaves room for the header in a UDP datagram of
  65507 bytes; with a larger record the sender fails with the error of \<open>sendto\<close>.
\<close>

theorem loopback_lossless:
  assumes "reads_file rd contents signals" "delivers_all net queue" "length session = 10" "queue n = []"
    "contents fd = concat (map encode_block ms)" "valid_records ms" "length ms + 1 < 2 ^ 64"
  shows "if \<forall>m\<in>set (take (unat limit) ms). length m \<le> 65485
    then \<exists>s. send_file rd (Some fd) net n limit session = Some (s, None) \<and>
      sd_sent_messages s = of_nat (length (take (unat limit) ms)) \<and>
      (\<forall>rs. arrives rs (queue (sd_net s)) \<longrightarrow> (\<exists>st. receive_packets rs = Finished st \<and>
         rc_messages st = sd_sent_messages s \<and> rc_datagrams st = sd_sent_datagrams s + 1 \<and> rc_gaps st = 0 \<and> rc_gap_messages st = 0 \<and>
         rc_duplicates st = 0 \<and> rc_session_mismatches st = 0 \<and> rc_malformed_packets st = 0 \<and> rc_end_of_session st \<and>
         (loopback_status (sd_sent_messages s) st = 0 \<longleftrightarrow> (\<forall>m\<in>set (take (unat limit) ms). \<not> itch_malformed m))))
    else \<exists>s. send_file rd (Some fd) net n limit session = Some (s, Some (Raised Sendto_failed))"
proof (cases "\<forall>m\<in>set (take (unat limit) ms). length m \<le> 65485")
  case False
  then have "\<exists>m\<in>set (take (unat limit) ms). \<not> sendable m" by (auto simp: sendable_def kMaximumUdpPayload_def)
  from send_file_oversize [OF assms(1-6) this] show ?thesis unfolding if_not_P [OF False] .
next
  case True
  then have fits: "\<forall>m\<in>set (take (unat limit) ms). sendable m" by (auto simp: sendable_def kMaximumUdpPayload_def)
  obtain s cs where s: "send_file rd (Some fd) net n limit session = Some (s, None)" "concat cs = take (unat limit) ms"
    "queue (sd_net s) = packets session 1 cs @ [make_request_packet session (1 + of_nat (length (concat cs))) kEndOfSession]"
    "sd_sent_messages s = of_nat (length (concat cs))" "sd_sent_datagrams s = of_nat (length cs)" "\<forall>c\<in>set cs. chunk_ok c"
    by (rule send_file_packed [OF assms(1-6) fits])
  have small: "\<forall>m\<in>set (concat cs). length m < 65536" "unat (1::u64) + length (concat cs) < 2 ^ 64"
    using assms(6,7) s(2) by (auto simp: valid_records_def dest: in_set_takeD)
  let ?bad = "filter itch_malformed (take (unat limit) ms)"
  have "length ?bad \<le> length ms" by (rule order_trans [OF length_filter_le]) simp
  then have bad: "(of_nat (length ?bad) :: u64) = 0 \<longleftrightarrow> (\<forall>m\<in>set (take (unat limit) ms). \<not> itch_malformed m)"
    using assms(7) by (simp add: of_nat_eq_0_u64 filter_empty_conv del: set_take_subset)
  have "\<exists>st. receive_packets rs = Finished st \<and> counts cs ReceiverStats_new st" if "arrives rs (queue (sd_net s))" for rs
    unfolding receive_packets_def
    by (rule receive_all [OF assms(3) that [unfolded s(3)] _ s(6) small]) (simp add: at_sequence_def SequenceTracker_init_def)
  then show ?thesis unfolding if_P [OF True] using s(1,2,4,5) bad
    by (intro exI [of _ s]) (fastforce simp: counts_def ReceiverStats_new_def loopback_status_def)
qed

lemma arrives_all: "arrives (map Received ds) ds"
  by (induction ds) simp_all

text \<open>A network that keeps what it is given and refuses what UDP cannot carry.\<close>

definition udp_queue :: "bytes list \<Rightarrow> bytes \<Rightarrow> bytes list \<times> send_result" where
  "udp_queue ds d = (if length d \<le> 65507 then (ds @ [d], Sent (length d)) else (ds, Send_errno))"

lemma udp_queue_delivers: "delivers_all udp_queue (\<lambda>ds. ds)"
  by (simp add: delivers_all_def udp_queue_def kMaximumUdpPayload_def)

theorem loopback_lossless_witness:
  "(\<exists>s st. send_file slow_read (Some (1, concat (map encode_block [83 # replicate 11 0, [68, 1]]))) udp_queue [] 9
      (replicate 10 65) = Some (s, None) \<and>
    receive_packets (Recv_eintr # Recv_timeout False # map Received (sd_net s)) = Finished st \<and>
    rc_messages st = 2 \<and> rc_gaps st = 0 \<and> rc_end_of_session st \<and> loopback_status 2 st = 1) \<and>
   (\<exists>s. send_file slow_read (Some (1, concat (map encode_block [replicate 65500 83]))) udp_queue [] 9
      (replicate 10 65) = Some (s, Some (Raised Sendto_failed)))"
proof
  let ?ms = "[83 # replicate 11 0, [68, 1]] :: bytes list"
  have bad: "\<not> (\<forall>m\<in>set (take (unat (9 :: u64)) ?ms). \<not> itch_malformed m)" by (simp add: itch_malformed_def expected_message_size_def)
  have "\<forall>m\<in>set (take (unat (9 :: u64)) ?ms). length m \<le> 65485" by simp
  from loopback_lossless [OF slow_read_reads udp_queue_delivers, of "replicate 10 65" "[]" "(1, concat (map encode_block ?ms))" ?ms 9,
      unfolded if_P [OF this]]
  obtain s where s: "send_file slow_read (Some (1, concat (map encode_block ?ms))) udp_queue [] 9 (replicate 10 65) = Some (s, None)"
    "sd_sent_messages s = of_nat (length (take (unat (9 :: u64)) ?ms))"
    "\<forall>rs. arrives rs (sd_net s) \<longrightarrow> (\<exists>st. receive_packets rs = Finished st \<and>
       rc_messages st = sd_sent_messages s \<and> rc_datagrams st = sd_sent_datagrams s + 1 \<and> rc_gaps st = 0 \<and> rc_gap_messages st = 0 \<and>
       rc_duplicates st = 0 \<and> rc_session_mismatches st = 0 \<and> rc_malformed_packets st = 0 \<and> rc_end_of_session st \<and>
       (loopback_status (sd_sent_messages s) st = 0 \<longleftrightarrow> (\<forall>m\<in>set (take (unat (9 :: u64)) ?ms). \<not> itch_malformed m)))"
    by (auto simp: valid_records_def)
  have two: "sd_sent_messages s = 2" using s(2) by simp
  have "arrives (Recv_eintr # Recv_timeout False # map Received (sd_net s)) (sd_net s)" by (simp add: arrives_all)
  from s(3) [rule_format, OF this] obtain st where
    st: "receive_packets (Recv_eintr # Recv_timeout False # map Received (sd_net s)) = Finished st" "rc_messages st = 2" "rc_gaps st = 0"
      "rc_end_of_session st" "loopback_status 2 st \<noteq> 0" unfolding two using bad by blast
  have "loopback_status 2 st = 1" using st(5) by (auto simp: loopback_status_def split: if_splits)
  then show "\<exists>s st. send_file slow_read (Some (1, concat (map encode_block ?ms))) udp_queue [] 9 (replicate 10 65) = Some (s, None) \<and>
    receive_packets (Recv_eintr # Recv_timeout False # map Received (sd_net s)) = Finished st \<and>
    rc_messages st = 2 \<and> rc_gaps st = 0 \<and> rc_end_of_session st \<and> loopback_status 2 st = 1" using s(1) st by blast
next
  define big where "big = replicate 65500 (83 :: 8 word)"
  have len: "length big = 65500" by (simp only: big_def length_replicate)
  then have ne: "big \<noteq> []" by auto
  have "take (unat (9 :: u64)) [big] = [big]" by simp
  then have "\<not> (\<forall>m\<in>set (take (unat (9 :: u64)) [big]). length m \<le> 65485)" using len by simp
  from loopback_lossless [OF slow_read_reads udp_queue_delivers, of "replicate 10 65" "[]" "(1, concat (map encode_block [big]))" "[big]" 9,
      unfolded if_not_P [OF this]]
  show "\<exists>s. send_file slow_read (Some (1, concat (map encode_block [replicate 65500 83]))) udp_queue [] 9 (replicate 10 65) =
      Some (s, Some (Raised Sendto_failed))"
    unfolding big_def [symmetric] using len ne by (auto simp: valid_records_def)
qed

end
