(* ===== verification/Inspect.thy ===== *)
theory Inspect
  imports Loopback OrderLifecycle
begin

text \<open>
  The inspector of a historical file (\<open>tools/NasdaqItchInspect.cpp\<close>), which reads it through
  \<open>scan_historical_file\<close>, and the lemmas on scans whose callback throws nothing. The faults that a record
  has, given the live orders before it, are defined on their own (\<open>order_faults\<close>), and the counters of the census
  are proved to count them. Clocks and printing are left out.
\<close>

section \<open>Symbols\<close>

text \<open>The length of a text of \<open>n\<close> bytes without its trailing blanks.\<close>

fun trimmed_length :: "bytes \<Rightarrow> nat \<Rightarrow> nat" where
  "trimmed_length bs 0 = 0"
| "trimmed_length bs (Suc n) = (if bs ! n = ascii CHR '' '' then trimmed_length bs n else Suc n)"

definition trimmed_symbol :: "bytes \<Rightarrow> bytes" where
  "trimmed_symbol bs = take (trimmed_length bs 8) bs"

section \<open>The inspector\<close>

record InspectStats =
  is_type_counts :: "u8 \<Rightarrow> u64"
  is_locator_counts :: "u16 \<Rightarrow> u64"
  is_symbols :: "u16 \<Rightarrow> bytes"
  is_messages :: u64
  is_framed_bytes :: u64
  is_payload_bytes :: u64
  is_unknown_types :: u64
  is_size_mismatches :: u64
  is_timestamp_regressions :: u64
  is_first_timestamp :: u64
  is_last_timestamp :: u64
  is_previous_timestamp :: u64
  is_have_timestamp :: bool

definition InspectStats_new :: InspectStats where
  "InspectStats_new = \<lparr>is_type_counts = (\<lambda>_. 0), is_locator_counts = (\<lambda>_. 0), is_symbols = (\<lambda>_. []), is_messages = 0,
     is_framed_bytes = 0, is_payload_bytes = 0, is_unknown_types = 0, is_size_mismatches = 0, is_timestamp_regressions = 0,
     is_first_timestamp = UINT64_MAX, is_last_timestamp = 0, is_previous_timestamp = 0, is_have_timestamp = False\<rparr>"

definition account_size :: "u8 \<Rightarrow> nat \<Rightarrow> InspectStats \<Rightarrow> InspectStats" where
  "account_size type sz st =
     (let expected = expected_message_size type in
      if expected = 0 then st\<lparr>is_unknown_types := is_unknown_types st + 1\<rparr>
      else if expected \<noteq> sz then st\<lparr>is_size_mismatches := is_size_mismatches st + 1\<rparr>
      else st)"

definition account_time :: "bytes \<Rightarrow> InspectStats \<Rightarrow> InspectStats" where
  "account_time message st =
     (let locator = read_u16 message 1;
          st = st\<lparr>is_locator_counts := (is_locator_counts st)(locator := is_locator_counts st locator + 1)\<rparr>;
          timestamp = read_u48 message 5;
          st = (if is_have_timestamp st \<and> timestamp < is_previous_timestamp st
            then st\<lparr>is_timestamp_regressions := is_timestamp_regressions st + 1\<rparr> else st);
          st = (if \<not> is_have_timestamp st then st\<lparr>is_first_timestamp := timestamp, is_have_timestamp := True\<rparr> else st)
      in st\<lparr>is_previous_timestamp := timestamp, is_last_timestamp := timestamp\<rparr>)"

definition account_message :: "bytes \<Rightarrow> nat \<Rightarrow> InspectStats \<times> OrderLifecycle option \<Rightarrow> InspectStats \<times> OrderLifecycle option" where
  "account_message message sz = (\<lambda>(st, lifecycle).
     let type = message ! 0;
         st = st\<lparr>is_messages := is_messages st + 1\<rparr>;
         st = st\<lparr>is_type_counts := (is_type_counts st)(type := is_type_counts st type + 1)\<rparr>;
         st = st\<lparr>is_payload_bytes := is_payload_bytes st + of_nat sz\<rparr>;
         st = account_size type sz st;
         st = (if sz \<ge> 11 then account_time message st else st);
         st = (if type = ascii CHR ''R'' \<and> sz = 39 then
             let locator = read_u16 message 1 in st\<lparr>is_symbols := (is_symbols st)(locator := trimmed_symbol (drop 11 message))\<rparr>
           else st)
     in (st, map_option (lc_on_message message sz) lifecycle))"

datatype inspect_exception = Stat_failed | Not_regular | Scan_failed "unit scan_exception"

text \<open>The outcome of \<open>stat\<close> is whether the file is regular and its size.\<close>

definition lifecycle_valid :: "OrderLifecycle option \<Rightarrow> bool" where
  "lifecycle_valid lifecycle = (case lifecycle of None \<Rightarrow> True
     | Some l \<Rightarrow> ls_duplicate_order_ids (lc_stats l) = 0 \<and> ls_missing_order_ids (lc_stats l) = 0 \<and>
         ls_over_reductions (lc_stats l) = 0 \<and> ls_stock_locate_mismatches (lc_stats l) = 0 \<and> ls_invalid_adds (lc_stats l) = 0)"

definition inspect_file :: "('f \<Rightarrow> nat \<Rightarrow> 'f \<times> read_result) \<Rightarrow> (bool \<times> u64) option \<Rightarrow> 'f option \<Rightarrow> bool \<Rightarrow>
    ((InspectStats \<times> OrderLifecycle option) \<times> (inspect_exception + int)) option" where
  "inspect_file rd file_info opened validate_lifecycle =
     (let lifecycle = (if validate_lifecycle then Some OrderLifecycle_new else None) in
      case file_info of
        None \<Rightarrow> Some ((InspectStats_new, None), Inl Stat_failed)
      | Some (regular, st_size) \<Rightarrow>
          if \<not> regular then Some ((InspectStats_new, None), Inl Not_regular)
          else Option.bind (scan_historical_file rd opened (\<lambda>st m. Some (account_message m (length m) st, None :: unit option))
              (InspectStats_new, lifecycle)) (\<lambda>((st, lifecycle), scan).
            case scan of
              Inl e \<Rightarrow> Some ((st, lifecycle), Inl (Scan_failed e))
            | Inr scan \<Rightarrow>
                let st = st\<lparr>is_framed_bytes := fs_framed_bytes scan\<rparr> in
                Some ((st, lifecycle), Inr
                  (if is_framed_bytes st \<noteq> st_size then 2
                   else if is_unknown_types st = 0 \<and> is_size_mismatches st = 0 \<and> lifecycle_valid lifecycle then 0 else 3))))"

section \<open>Scans whose callback does not throw\<close>

lemma feed_total: "feed_messages (\<lambda>s m. Some (g m s, None)) ms s = Some (fold g ms s, None)"
  by (induction ms arbitrary: s) simp_all

lemma scan_total:
  assumes "reads_file rd contents signals" "contents fd = concat (map encode_block ms)" "valid_records ms"
  shows "scan_historical_file rd (Some fd) (\<lambda>s m. Some (g m s, None)) s =
    Some (fold g ms s, Inr (scanned ms \<lparr>fs_messages = 0, fs_framed_bytes = 0\<rparr>))"
  unfolding scan_open [OF assms(1)] assms(2) scan_spec_blocks [OF assms(3)] feed_total by simp

section \<open>What the inspector counts\<close>

definition known :: "bytes \<Rightarrow> bool" where
  "known m \<longleftrightarrow> expected_message_size (m ! 0) \<noteq> 0"

definition sized :: "bytes \<Rightarrow> bool" where
  "sized m \<longleftrightarrow> expected_message_size (m ! 0) = length m"

definition inspected :: "bytes list \<Rightarrow> InspectStats \<Rightarrow> InspectStats \<Rightarrow> bool" where
  "inspected ms st st' \<longleftrightarrow> is_messages st' = is_messages st + of_nat (length ms) \<and>
     is_payload_bytes st' = is_payload_bytes st + of_nat (length (concat ms)) \<and>
     is_unknown_types st' = is_unknown_types st + of_nat (length (filter (\<lambda>m. \<not> known m) ms)) \<and>
     is_size_mismatches st' = is_size_mismatches st + of_nat (length (filter (\<lambda>m. known m \<and> \<not> sized m) ms)) \<and>
     (\<forall>t. is_type_counts st' t = is_type_counts st t + of_nat (length (filter (\<lambda>m. m ! 0 = t) ms)))"

lemma account_time_sel [simp]:
  "is_messages (account_time m st) = is_messages st" "is_payload_bytes (account_time m st) = is_payload_bytes st"
  "is_unknown_types (account_time m st) = is_unknown_types st" "is_size_mismatches (account_time m st) = is_size_mismatches st"
  "is_type_counts (account_time m st) = is_type_counts st"
  by (simp_all add: account_time_def Let_def)

lemma account_size_sel [simp]:
  "is_messages (account_size t n st) = is_messages st" "is_payload_bytes (account_size t n st) = is_payload_bytes st"
  "is_type_counts (account_size t n st) = is_type_counts st"
  "is_unknown_types (account_size t n st) = is_unknown_types st + (if expected_message_size t = 0 then 1 else 0)"
  "is_size_mismatches (account_size t n st) =
     is_size_mismatches st + (if expected_message_size t \<noteq> 0 \<and> expected_message_size t \<noteq> n then 1 else 0)"
  by (simp_all add: account_size_def Let_def)

lemma account_one: "inspected [m] st (fst (account_message m (length m) (st, lc)))"
  by (simp add: inspected_def account_message_def known_def sized_def Let_def)

lemma inspected_trans: "inspected ms st st' \<Longrightarrow> inspected ms' st' st'' \<Longrightarrow> inspected (ms @ ms') st st''"
  by (simp add: inspected_def algebra_simps)

lemma account_all:
  "\<exists>st'. fold (\<lambda>m. account_message m (length m)) ms (st, lc) = (st', map_option (lc_run (map (\<lambda>m. (m, length m)) ms)) lc) \<and> inspected ms st st'"
proof (induction ms arbitrary: st lc)
  case Nil
  show ?case by (simp add: inspected_def lc_run_def option.map_ident)
next
  case (Cons m ms)
  obtain st1 where st1: "account_message m (length m) (st, lc) = (st1, map_option (lc_on_message m (length m)) lc)"
    by (simp add: account_message_def Let_def)
  have one: "inspected [m] st st1" using account_one [of m st lc] st1 by simp
  obtain st' where "fold (\<lambda>m. account_message m (length m)) ms (st1, map_option (lc_on_message m (length m)) lc) =
      (st', map_option (lc_run (map (\<lambda>m. (m, length m)) ms)) (map_option (lc_on_message m (length m)) lc))" "inspected ms st1 st'"
    using Cons.IH by blast
  moreover have "map_option (lc_run (map (\<lambda>m. (m, length m)) ms)) (map_option (lc_on_message m (length m)) lc) =
      map_option (lc_run (map (\<lambda>m. (m, length m)) (m # ms))) lc" by (cases lc) (simp_all add: lc_run_def)
  ultimately show ?case using inspected_trans [OF one] st1 by auto
qed

lemma length_blocks: "length (concat (map encode_block ms)) = length (concat ms) + 2 * length ms"
  by (induction ms) simp_all

lemma count_zero_u64: "length ms < 2 ^ 64 \<Longrightarrow> (of_nat (length (filter P ms)) :: u64) = 0 \<longleftrightarrow> (\<forall>m\<in>set ms. \<not> P m)"
  using of_nat_eq_0_u64 [of "length (filter P ms)"] length_filter_le [of P ms] by (simp add: filter_empty_conv)

section \<open>What the census finds\<close>

text \<open>The faults of a message, given the live orders before it.\<close>

datatype census_fault = Duplicate_id | Missing_id | Over_reduction | Locate_mismatch | Invalid_add

definition add_faults :: "bytes \<Rightarrow> (u64 \<rightharpoonup> OrderRecord) \<Rightarrow> census_fault set" where
  "add_faults m live =
     (if read_u64 m 11 = 0 \<or> read_u32 m 20 = 0 \<or> read_u32 m 32 = 0 \<or> m ! 19 \<notin> {66, 83} then {Invalid_add}
      else if live (read_u64 m 11) \<noteq> None then {Duplicate_id} else {})"

definition reference_faults :: "bytes \<Rightarrow> (u64 \<rightharpoonup> OrderRecord) \<Rightarrow> (OrderRecord \<Rightarrow> census_fault set) \<Rightarrow> census_fault set" where
  "reference_faults m live more_faults =
     (case live (read_u64 m 11) of None \<Rightarrow> {Missing_id}
      | Some order \<Rightarrow> (if or_stock_locate order = read_u16 m 1 then {} else {Locate_mismatch}) \<union> more_faults order)"

definition reduction_faults :: "u32 \<Rightarrow> OrderRecord \<Rightarrow> census_fault set" where
  "reduction_faults shares order = (if 0 < shares \<and> shares \<le> or_remaining order then {} else {Over_reduction})"

definition replacement_faults :: "bytes \<Rightarrow> (u64 \<rightharpoonup> OrderRecord) \<Rightarrow> census_fault set" where
  "replacement_faults m live =
     (if read_u64 m 19 = 0 \<or> read_u32 m 27 = 0 \<or> read_u32 m 31 = 0 then {Invalid_add}
      else if live (read_u64 m 19) \<noteq> None then {Duplicate_id} else {})"

definition order_faults :: "bytes \<Rightarrow> (u64 \<rightharpoonup> OrderRecord) \<Rightarrow> census_fault set" where
  "order_faults m live =
     (let type = m ! 0 in
      if m = [] \<or> length m \<noteq> expected_message_size type then {}
      else if type \<in> {65, 70} then add_faults m live
      else if type \<in> {69, 67, 88} then reference_faults m live (reduction_faults (read_u32 m 19))
      else if type = 68 then reference_faults m live (\<lambda>_. {})
      else if type = 85 then reference_faults m live (\<lambda>_. replacement_faults m live)
      else {})"

text \<open>The counter of a fault.\<close>

fun fault_counter :: "census_fault \<Rightarrow> LifecycleStats \<Rightarrow> u64" where
  "fault_counter Duplicate_id = ls_duplicate_order_ids"
| "fault_counter Missing_id = ls_missing_order_ids"
| "fault_counter Over_reduction = ls_over_reductions"
| "fault_counter Locate_mismatch = ls_stock_locate_mismatches"
| "fault_counter Invalid_add = ls_invalid_adds"

abbreviation live_orders :: "OrderLifecycle \<Rightarrow> u64 \<rightharpoonup> OrderRecord" where
  "live_orders l \<equiv> Mapping.lookup (lc_orders l)"

abbreviation counts_faults :: "census_fault set \<Rightarrow> OrderLifecycle \<Rightarrow> OrderLifecycle \<Rightarrow> bool" where
  "counts_faults fs l l' \<equiv> \<forall>f. fault_counter f (lc_stats l') = fault_counter f (lc_stats l) + of_bool (f \<in> fs)"

lemma all_faults: "(\<forall>f. P f) \<longleftrightarrow>
    P Duplicate_id \<and> P Missing_id \<and> P Over_reduction \<and> P Locate_mismatch \<and> P Invalid_add"
  by (metis census_fault.exhaust)

lemma lc_add_faults: "counts_faults (add_faults m (live_orders l)) l (lc_add m l)"
proof
  fix f
  show "fault_counter f (lc_stats (lc_add m l)) = fault_counter f (lc_stats l) + of_bool (f \<in> add_faults m (live_orders l))"
    by (cases f; cases "live_orders l (read_u64 m 11)")
      (simp_all add: lc_add_def add_faults_def Let_def lc_invalid_def lc_duplicate_def lc_update_peak_def lc_count_def)
qed

lemma lc_reduce_faults:
  "counts_faults (reference_faults m (live_orders l) (reduction_faults shares)) l (lc_reduce m shares kind l)"
proof
  fix f
  show "fault_counter f (lc_stats (lc_reduce m shares kind l)) =
      fault_counter f (lc_stats l) + of_bool (f \<in> reference_faults m (live_orders l) (reduction_faults shares))"
    by (cases f; cases kind; cases "live_orders l (read_u64 m 11)")
      (auto simp: lc_reduce_def reference_faults_def reduction_faults_def Let_def lc_missing_def lc_check_locate_def lc_count_def
        word_gt_0 not_less)
qed

lemma lc_erase_faults: "counts_faults (reference_faults m (live_orders l) (\<lambda>_. {})) l (lc_erase m l)"
proof
  fix f
  show "fault_counter f (lc_stats (lc_erase m l)) =
      fault_counter f (lc_stats l) + of_bool (f \<in> reference_faults m (live_orders l) (\<lambda>_. {}))"
    by (cases f; cases "live_orders l (read_u64 m 11)")
      (simp_all add: lc_erase_def reference_faults_def Let_def lc_missing_def lc_check_locate_def lc_count_def)
qed

lemma lc_replace_faults:
  "counts_faults (reference_faults m (live_orders l) (\<lambda>_. replacement_faults m (live_orders l))) l (lc_replace m l)"
proof
  fix f
  show "fault_counter f (lc_stats (lc_replace m l)) =
      fault_counter f (lc_stats l) + of_bool (f \<in> reference_faults m (live_orders l) (\<lambda>_. replacement_faults m (live_orders l)))"
    by (cases f; cases "live_orders l (read_u64 m 11)")
      (simp_all add: lc_replace_def reference_faults_def replacement_faults_def Let_def lc_missing_def lc_invalid_def lc_duplicate_def
        lc_check_locate_def lc_update_peak_def lc_count_def)
qed

lemma lc_message_faults: "counts_faults (order_faults m (live_orders l)) l (lc_on_message m (length m) l)"
proof (cases "m = [] \<or> length m \<noteq> expected_message_size (m ! 0)")
  case True
  then have "lc_on_message m (length m) l = l" by (auto simp: lc_on_message_def Let_def)
  then show ?thesis using True by (simp add: order_faults_def Let_def)
next
  case False
  then have n: "length m = expected_message_size (m ! 0)" "m \<noteq> []" by simp_all
  consider "m ! 0 \<in> {65, 70}" | "m ! 0 \<in> {69, 67, 88}" | "m ! 0 = 68" | "m ! 0 = 85" | "m ! 0 \<notin> {65, 70, 69, 67, 88, 68, 85}" by blast
  then show ?thesis
  proof cases
    case 1
    then show ?thesis using lc_add_faults [of m l] n by (auto simp: lc_on_message_def order_faults_def Let_def)
  next
    case 2
    then show ?thesis using lc_reduce_faults [where m = m and l = l and shares = "read_u32 m 19"] n by (auto simp: lc_on_message_def order_faults_def Let_def)
  next
    case 3
    then show ?thesis using lc_erase_faults [of m l] n by (auto simp: lc_on_message_def order_faults_def Let_def)
  next
    case 4
    then show ?thesis using lc_replace_faults [of m l] n by (auto simp: lc_on_message_def order_faults_def Let_def)
  next
    case 5
    then show ?thesis using n by (auto simp: lc_on_message_def order_faults_def Let_def)
  qed
qed

text \<open>The live orders that the census has before message \<open>i\<close>.\<close>

definition census :: "bytes list \<Rightarrow> OrderLifecycle" where
  "census ms = lc_run (map (\<lambda>m. (m, length m)) ms) OrderLifecycle_new"

definition faults_at :: "bytes list \<Rightarrow> nat \<Rightarrow> census_fault set" where
  "faults_at ms i = order_faults (ms ! i) (live_orders (census (take i ms)))"

lemma census_snoc: "census (ms @ [m]) = lc_on_message m (length m) (census ms)"
  by (simp add: census_def lc_run_def)

lemma census_counts:
  "fault_counter f (lc_stats (census ms)) = of_nat (length (filter (\<lambda>i. f \<in> faults_at ms i) [0..<length ms]))"
proof (induction ms rule: rev_induct)
  case Nil
  show ?case by (cases f) (simp_all add: census_def lc_run_def OrderLifecycle_new_def LifecycleStats_zero_def)
next
  case (snoc m ms)
  have "filter (\<lambda>i. f \<in> faults_at (ms @ [m]) i) [0..<length ms] = filter (\<lambda>i. f \<in> faults_at ms i) [0..<length ms]"
    by (rule filter_cong) (auto simp: faults_at_def nth_append)
  moreover have "faults_at (ms @ [m]) (length ms) = order_faults m (live_orders (census ms))" by (simp add: faults_at_def)
  ultimately show ?case using lc_message_faults [of m "census ms"] snoc by (auto simp: census_snoc)
qed

lemma census_clean:
  assumes "length ms < 2 ^ 64"
  shows "lifecycle_valid (Some (census ms)) \<longleftrightarrow> (\<forall>i<length ms. faults_at ms i = {})"
proof -
  have zero: "fault_counter f (lc_stats (census ms)) = 0 \<longleftrightarrow> (\<forall>i<length ms. f \<notin> faults_at ms i)" for f
    unfolding census_counts using of_nat_eq_0_u64 [of "length (filter (\<lambda>i. f \<in> faults_at ms i) [0..<length ms])"] assms
      order_trans [OF length_filter_le, of "[0..<length ms]" "length ms" "\<lambda>i. f \<in> faults_at ms i"]
    by (auto simp: filter_empty_conv)
  have "lifecycle_valid (Some (census ms)) \<longleftrightarrow> (\<forall>f. fault_counter f (lc_stats (census ms)) = 0)"
    by (simp add: lifecycle_valid_def all_faults)
  then show ?thesis unfolding zero by blast
qed

text \<open>
  C30. The inspector on a well-formed file, however \<open>read\<close> cuts it: it counts every record once, in all
  and by type; the framing is two bytes for each; each of the five fault counters of the census is the
  number of records with that fault (a new order with the id of a live one, a reference to an order that is not
  live, a reduction by nothing or by more than what remains, a reference with another stock locate, a new order or
  replacement with a missing id, quantity, price or side); and the exit status is zero exactly if every record is of a
  known type and has the size of its type and, when the census is asked for, no record has a fault.
\<close>

theorem inspector_verdict:
  assumes "reads_file rd contents signals" "contents fd = concat (map encode_block ms)" "valid_records ms" "length ms < 2 ^ 64"
  shows "\<exists>st. inspect_file rd (Some (True, of_nat (length (contents fd)))) (Some fd) validate =
      Some ((st, if validate then Some (census ms) else None),
        Inr (if (\<forall>m\<in>set ms. expected_message_size (m ! 0) \<noteq> 0 \<and> expected_message_size (m ! 0) = length m) \<and>
               (validate \<longrightarrow> (\<forall>i<length ms. faults_at ms i = {})) then 0 else 3)) \<and>
    is_messages st = of_nat (length ms) \<and> (\<forall>t. is_type_counts st t = of_nat (length (filter (\<lambda>m. m ! 0 = t) ms))) \<and>
    is_framed_bytes st - is_payload_bytes st = 2 * of_nat (length ms) \<and>
    (\<forall>f. fault_counter f (lc_stats (census ms)) = of_nat (length (filter (\<lambda>i. f \<in> faults_at ms i) [0..<length ms])))"
proof -
  let ?lc = "if validate then Some OrderLifecycle_new else None" and ?census = "if validate then Some (census ms) else None"
  have lc: "map_option (lc_run (map (\<lambda>m. (m, length m)) ms)) ?lc = ?census" by (simp add: census_def)
  obtain st where st: "fold (\<lambda>m. account_message m (length m)) ms (InspectStats_new, ?lc) = (st, ?census)" "inspected ms InspectStats_new st"
    using account_all unfolding lc [symmetric] by blast
  let ?st = "st\<lparr>is_framed_bytes := of_nat (length (concat (map encode_block ms)))\<rparr>"
  have "is_unknown_types st = of_nat (length (filter (\<lambda>m. \<not> known m) ms))"
    "is_size_mismatches st = of_nat (length (filter (\<lambda>m. known m \<and> \<not> sized m) ms))"
    using st(2) by (simp_all add: inspected_def InspectStats_new_def)
  then have zero: "is_unknown_types st = 0 \<and> is_size_mismatches st = 0 \<longleftrightarrow>
      (\<forall>m\<in>set ms. expected_message_size (m ! 0) \<noteq> 0 \<and> expected_message_size (m ! 0) = length m)"
    unfolding known_def [symmetric] sized_def [symmetric] using count_zero_u64 [OF assms(4)] by (simp only:) blast
  have valid: "lifecycle_valid ?census \<longleftrightarrow> (validate \<longrightarrow> (\<forall>i<length ms. faults_at ms i = {}))"
    using census_clean [OF assms(4)] by (simp add: lifecycle_valid_def)
  have run: "inspect_file rd (Some (True, of_nat (length (contents fd)))) (Some fd) validate =
      Some ((?st, ?census), Inr (if (is_unknown_types st = 0 \<and> is_size_mismatches st = 0) \<and> lifecycle_valid ?census then 0 else 3))"
    unfolding inspect_file_def Let_def using assms(2)
    by (simp add: scan_total [OF assms(1-3), of "\<lambda>m. account_message m (length m)"] st(1) scanned_def)
  have "is_framed_bytes ?st - is_payload_bytes ?st = 2 * of_nat (length ms)"
    using st(2) unfolding length_blocks by (simp add: inspected_def InspectStats_new_def)
  moreover have "is_messages ?st = of_nat (length ms)" "\<forall>t. is_type_counts ?st t = of_nat (length (filter (\<lambda>m. m ! 0 = t) ms))"
    using st(2) by (simp_all add: inspected_def InspectStats_new_def)
  ultimately show ?thesis using run [unfolded zero valid] census_counts by blast
qed

text \<open>The second record deletes an order that nobody has added.\<close>

theorem inspector_verdict_witness:
  "\<exists>st. inspect_file slow_read (Some (True, 35)) (Some (1, concat (map encode_block [83 # replicate 11 0, 68 # replicate 18 0]))) True =
      Some (st, Inr 3) \<and> is_messages (fst st) = 2 \<and> is_type_counts (fst st) 68 = 1 \<and>
      faults_at [83 # replicate 11 0, 68 # replicate 18 0] 1 = {Missing_id}"
proof -
  define ms where "ms = [83 # replicate 11 0, 68 # replicate 18 0 :: bytes]"
  have "census [83 # replicate 11 0] = OrderLifecycle_new" by (simp add: census_def lc_run_def lc_on_message_def)
  moreover have "take 1 ms = [83 # replicate 11 0]" "ms ! 1 = 68 # replicate 18 0" by (simp_all add: ms_def)
  ultimately have missing: "faults_at ms 1 = {Missing_id}"
    by (simp add: faults_at_def order_faults_def expected_message_size_def reference_faults_def OrderLifecycle_new_def del: One_nat_def)
  have two: "length ms = 2" "length (filter (\<lambda>m. m ! 0 = 68) ms) = 1" by (simp_all add: ms_def)
  have len: "length (snd (1 :: nat, concat (map encode_block ms))) = 35" by (simp add: ms_def)
  have "valid_records ms" "length ms < 2 ^ 64" by (simp_all add: ms_def valid_records_def)
  from inspector_verdict [OF slow_read_reads _ this, of "(1, concat (map encode_block ms))" True, unfolded len]
  obtain st where st: "inspect_file slow_read (Some (True, of_nat 35)) (Some (1, concat (map encode_block ms))) True =
      Some ((st, if True then Some (census ms) else None),
        Inr (if (\<forall>m\<in>set ms. expected_message_size (m ! 0) \<noteq> 0 \<and> expected_message_size (m ! 0) = length m) \<and>
               (True \<longrightarrow> (\<forall>i<length ms. faults_at ms i = {})) then 0 else 3))" "is_messages st = of_nat (length ms)"
      "\<forall>t. is_type_counts st t = of_nat (length (filter (\<lambda>m. m ! 0 = t) ms))"
    by auto
  have "1 < length ms" "faults_at ms 1 \<noteq> {}" unfolding missing two(1) by simp_all
  then have bad: "\<not> (\<forall>i<length ms. faults_at ms i = {})" by blast
  have "inspect_file slow_read (Some (True, 35)) (Some (1, concat (map encode_block ms))) True = Some ((st, Some (census ms)), Inr 3)"
    using st(1) bad by (simp only: if_False simp_thms of_nat_numeral if_True)
  moreover have "is_messages st = 2" "is_type_counts st 68 = 1" using st(2,3) two by simp_all
  ultimately show ?thesis using missing unfolding ms_def [symmetric] by (intro exI [of _ "(st, Some (census ms))"]) simp
qed

end
