(* ===== verification/WtsReplay.thy ===== *)
theory WtsReplay
  imports Inspect
begin

text \<open>
  The WonderTrader replay of one symbol with its auditing sink (\<open>tools/NasdaqItchWtsReplay.cpp\<close>). The
  callback of the scan waits for the stock directory record of the symbol, makes the adapter for its
  locate code and hands it every later record with that code. Clocks and printing are left out.
\<close>

section \<open>The auditing sink\<close>

record AuditSink =
  au_order_details :: u64
  au_transactions :: u64
  au_cancel_transactions :: u64
  au_match_transactions :: u64
  au_trade_bust_transactions :: u64
  au_volume :: u64
  au_checksum :: u64
  au_errors :: u64

definition AuditSink_new :: AuditSink where
  "AuditSink_new = \<lparr>au_order_details = 0, au_transactions = 0, au_cancel_transactions = 0, au_match_transactions = 0,
     au_trade_bust_transactions = 0, au_volume = 0, au_checksum = 0, au_errors = 0\<rparr>"

text \<open>A C string compared with \<open>"PSX"\<close>.\<close>

definition is_psx :: "bytes \<Rightarrow> bool" where
  "is_psx exchg \<longleftrightarrow> takeWhile (\<lambda>c. c \<noteq> 0) exchg = map ascii ''PSX''"

text \<open>Whether a price, given by its bit pattern, is not positive, is the argument \<open>nonpositive\<close>.\<close>

definition audit_order_detail :: "(u64 \<Rightarrow> bool) \<Rightarrow> WTSOrdDtlStruct \<Rightarrow> AuditSink \<Rightarrow> AuditSink" where
  "audit_order_detail nonpositive order s =
     (let s = s\<lparr>au_order_details := au_order_details s + 1\<rparr>;
          s = (if \<not> is_psx (wo_exchg order) \<or> wo_code order ! 0 = 0 \<or> wo_trading_date order = 0 \<or> wo_action_date order = 0 \<or>
                 wo_action_time order > 235959999 \<or> wo_index order = 0 \<or> nonpositive (wo_price order) \<or> wo_volume order = 0 \<or>
                 (wo_side order \<noteq> BDT_Buy \<and> wo_side order \<noteq> BDT_Sell) \<or> wo_otype order \<noteq> ODT_LimitPrice
               then s\<lparr>au_errors := au_errors s + 1\<rparr> else s)
      in s\<lparr>au_checksum := au_checksum s XOR (wo_index order + ucast (wo_volume order) + ucast (wo_action_time order))\<rparr>)"

definition audit_transaction :: "(u64 \<Rightarrow> bool) \<Rightarrow> WTSTransStruct \<Rightarrow> AuditSink \<Rightarrow> AuditSink" where
  "audit_transaction nonpositive transaction s =
     (let s = s\<lparr>au_transactions := au_transactions s + 1\<rparr>;
          s = (if wt_ttype transaction = TT_Cancel then s\<lparr>au_cancel_transactions := au_cancel_transactions s + 1\<rparr>
               else if wt_ttype transaction = TT_Match then s\<lparr>au_match_transactions := au_match_transactions s + 1\<rparr>
               else if wt_ttype transaction = kWtsTradeBust then s\<lparr>au_trade_bust_transactions := au_trade_bust_transactions s + 1\<rparr>
               else s\<lparr>au_errors := au_errors s + 1\<rparr>);
          s = (if \<not> is_psx (wt_exchg transaction) \<or> wt_code transaction ! 0 = 0 \<or> wt_trading_date transaction = 0 \<or>
                 wt_action_date transaction = 0 \<or> wt_action_time transaction > 235959999 \<or> wt_index transaction = 0 \<or>
                 nonpositive (wt_price transaction) \<or> wt_volume transaction = 0
               then s\<lparr>au_errors := au_errors s + 1\<rparr> else s);
          s = s\<lparr>au_volume := au_volume s + ucast (wt_volume transaction)\<rparr>
      in s\<lparr>au_checksum := au_checksum s XOR (wt_index transaction + ucast (wt_volume transaction) + ucast (wt_action_time transaction))\<rparr>)"

fun audit_event :: "(u64 \<Rightarrow> bool) \<Rightarrow> wts_event \<Rightarrow> AuditSink \<Rightarrow> AuditSink" where
  "audit_event nonpositive (On_order_detail order) s = audit_order_detail nonpositive order s"
| "audit_event nonpositive (On_transaction transaction) s = audit_transaction nonpositive transaction s"

section \<open>The WonderTrader replay\<close>

text \<open>What the callback of the scan keeps; the sink differs between the programs.\<close>

record 'o Replay =
  rp_adapter :: "PsxWtsAdapter option"
  rp_locator :: u16
  rp_target_messages :: u64
  rp_sink :: 'o

definition Replay_new :: "'o \<Rightarrow> 'o Replay" where
  "Replay_new sink = \<lparr>rp_adapter = None, rp_locator = 0, rp_target_messages = 0, rp_sink = sink\<rparr>"

definition is_directory :: "bytes \<Rightarrow> bytes \<Rightarrow> bool" where
  "is_directory symbol message \<longleftrightarrow> message ! 0 = ascii CHR ''R'' \<and>
     length message = expected_message_size (ascii CHR ''R'') \<and> trimmed_symbol (drop 11 message) = symbol"

definition replay_directory :: "u32 \<Rightarrow> bytes \<Rightarrow> bytes \<Rightarrow> 'o Replay \<Rightarrow> 'o Replay" where
  "replay_directory trading_date symbol message r =
     (if is_directory symbol message then
        let locator = read_u16 message 1 in
        r\<lparr>rp_locator := locator, rp_adapter := Some (PsxWtsAdapter_new trading_date locator symbol)\<rparr>
      else r)"

definition is_target :: "bytes \<Rightarrow> 'o Replay \<Rightarrow> bool" where
  "is_target message r \<longleftrightarrow> rp_adapter r \<noteq> None \<and> length message \<ge> 11 \<and> read_u16 message 1 = rp_locator r"

definition replay_on_message :: "(u32 \<Rightarrow> u64) \<Rightarrow> (wts_event \<Rightarrow> 'o \<Rightarrow> 'o) \<Rightarrow> bytes \<Rightarrow> 'o Replay \<Rightarrow> 'o Replay" where
  "replay_on_message price_bits deliver message r =
     (case wts_on_message price_bits message (length message) (the (rp_adapter r), []) of
        (adapter, events) \<Rightarrow> r\<lparr>rp_adapter := Some adapter, rp_sink := fold deliver events (rp_sink r)\<rparr>)"

definition replay_record :: "(u32 \<Rightarrow> u64) \<Rightarrow> (wts_event \<Rightarrow> 'o \<Rightarrow> 'o) \<Rightarrow> u32 \<Rightarrow> bytes \<Rightarrow> bytes \<Rightarrow> 'o Replay \<Rightarrow> 'o Replay" where
  "replay_record price_bits deliver trading_date symbol message r =
     (let r = replay_directory trading_date symbol message r in
      if is_target message r then
        let r = r\<lparr>rp_target_messages := rp_target_messages r + 1\<rparr> in
        replay_on_message price_bits deliver message r
      else r)"

datatype replay_exception = Replay_scan_failed "unit scan_exception" | Symbol_not_found

definition replay_status :: "PsxWtsAdapter \<Rightarrow> AuditSink \<Rightarrow> int" where
  "replay_status adapter sink =
     (let stats = wa_stats adapter in
      if ws_errors stats = 0 \<and> au_errors sink = 0 \<and> wts_active_orders adapter = 0 \<and>
        ws_order_details stats = au_order_details sink \<and> ws_transactions stats = au_transactions sink then 0 else 3)"

definition wts_replay :: "('f \<Rightarrow> nat \<Rightarrow> 'f \<times> read_result) \<Rightarrow> 'f option \<Rightarrow> (u32 \<Rightarrow> u64) \<Rightarrow> (u64 \<Rightarrow> bool) \<Rightarrow> u32 \<Rightarrow> bytes \<Rightarrow>
    (AuditSink Replay \<times> (replay_exception + int)) option" where
  "wts_replay rd opened price_bits nonpositive trading_date symbol =
     Option.bind (scan_historical_file rd opened
         (\<lambda>r m. Some (replay_record price_bits (audit_event nonpositive) trading_date symbol m r, None :: unit option)) (Replay_new AuditSink_new)) (\<lambda>(r, scan).
       case scan of
         Inl e \<Rightarrow> Some (r, Inl (Replay_scan_failed e))
       | Inr scan \<Rightarrow>
           (case rp_adapter r of
              None \<Rightarrow> Some (r, Inl Symbol_not_found)
            | Some adapter \<Rightarrow> Some (r, Inr (replay_status adapter (rp_sink r)))))"

section \<open>The adapter only appends to its output\<close>

definition wts_after :: "wts_event list \<Rightarrow> wts_state \<Rightarrow> wts_state" where
  "wts_after pre st = (fst st, pre @ snd st)"

lemma wts_after_fst [simp]: "fst (wts_after pre st) = fst st" "wts_after pre (a, out) = (a, pre @ out)"
  by (simp_all add: wts_after_def)

lemma wts_after_frame [simp]:
  "wts_stats f (wts_after pre st) = wts_after pre (wts_stats f st)" "wts_error (wts_after pre st) = wts_after pre (wts_error st)"
  "wts_duplicate (wts_after pre st) = wts_after pre (wts_duplicate st)" "wts_sink ev (wts_after pre st) = wts_after pre (wts_sink ev st)"
  "wts_set_orders t (wts_after pre st) = wts_after pre (wts_set_orders t st)"
  "wts_set_matches t' (wts_after pre st) = wts_after pre (wts_set_matches t' st)"
  by (cases st; simp add: wts_after_def wts_stats_def wts_error_def wts_duplicate_def wts_sink_def wts_set_orders_def wts_set_matches_def)+

lemma wts_after_emit [simp]:
  "wts_emit_order pb m k ord (wts_after pre st) = wts_after pre (wts_emit_order pb m k ord st)"
  "wts_emit_transaction pb m i ty s p v k (wts_after pre st) = wts_after pre (wts_emit_transaction pb m i ty s p v k st)"
  "wts_reduce k s' (wts_after pre st) = wts_after pre (wts_reduce k s' st)"
  by (simp_all add: wts_emit_order_def wts_emit_transaction_def wts_reduce_def Let_def split: option.split)

lemma wts_after_messages:
  "wts_add pb m (wts_after pre st) = wts_after pre (wts_add pb m st)"
  "wts_execute pb m (wts_after pre st) = wts_after pre (wts_execute pb m st)"
  "wts_cancel_partial pb m (wts_after pre st) = wts_after pre (wts_cancel_partial pb m st)"
  "wts_cancel_all pb m (wts_after pre st) = wts_after pre (wts_cancel_all pb m st)"
  "wts_replace pb m (wts_after pre st) = wts_after pre (wts_replace pb m st)"
  "wts_non_cross_trade pb m (wts_after pre st) = wts_after pre (wts_non_cross_trade pb m st)"
  "wts_cross_trade pb m (wts_after pre st) = wts_after pre (wts_cross_trade pb m st)"
  "wts_broken_trade pb m (wts_after pre st) = wts_after pre (wts_broken_trade pb m st)"
  by (simp_all add: wts_add_def wts_execute_def wts_cancel_partial_def wts_cancel_all_def wts_replace_def
        wts_non_cross_trade_def wts_cross_trade_def wts_broken_trade_def Let_def case_prod_unfold split: option.split)

lemma wts_after_on_message: "wts_on_message pb m sz (wts_after pre st) = wts_after pre (wts_on_message pb m sz st)"
proof -
  obtain a out where st: "st = (a, out)" by (cases st)
  let ?st = "(a\<lparr>wa_event_sequence := wa_event_sequence a + 1\<rparr>, out)"
  have seq: "(a\<lparr>wa_event_sequence := wa_event_sequence a + 1\<rparr>, pre @ out) = wts_after pre ?st" by simp
  show ?thesis
    unfolding wts_on_message_def Let_def st wts_after_fst fst_conv prod.case
    unfolding seq wts_dispatch_def Let_def wts_after_messages wts_after_frame
    by (simp del: wts_after_fst(2)) (simp add: wts_after_def)
qed

lemma wts_run_Cons: "wts_run pb ((m, n) # msgs) st = wts_run pb msgs (wts_on_message pb m n st)"
  by (simp add: wts_run_def)

lemma wts_after_run: "wts_run pb msgs (wts_after pre st) = wts_after pre (wts_run pb msgs st)"
  by (induction msgs arbitrary: st) (simp add: wts_run_def, simp add: wts_run_def case_prod_unfold wts_after_on_message)

lemma wts_run_split: "wts_run pb msgs (a, out) = wts_after out (wts_run pb msgs (a, []))"
  using wts_after_run [of pb msgs out "(a, [])"] by simp

section \<open>One directory record\<close>

definition target_records :: "u16 \<Rightarrow> bytes list \<Rightarrow> (bytes \<times> nat) list" where
  "target_records locator ms = map (\<lambda>m. (m, length m)) (filter (\<lambda>m. length m \<ge> 11 \<and> read_u16 m 1 = locator) ms)"

lemma target_records_simps [simp]:
  "target_records l [] = []"
  "target_records l (m # ms) = (if length m \<ge> 11 \<and> read_u16 m 1 = l then (m, length m) # target_records l ms else target_records l ms)"
  by (simp_all add: target_records_def)

lemma target_records_locator: "\<forall>x\<in>set (target_records l ms). read_u16 (fst x) 1 = l"
  by (auto simp: target_records_def)

lemma replay_before:
  "\<forall>m\<in>set ms. \<not> is_directory symbol m \<Longrightarrow> rp_adapter r = None \<Longrightarrow> fold (replay_record pb deliver date symbol) ms r = r"
  by (induction ms) (simp_all add: replay_record_def replay_directory_def is_target_def)

lemma replay_following:
  assumes "\<forall>m\<in>set ms. \<not> is_directory symbol m" "rp_adapter r = Some a"
  shows "fold (replay_record pb deliver date symbol) ms r =
    (let msgs = target_records (rp_locator r) ms; st = wts_run pb msgs (a, []) in
     r\<lparr>rp_adapter := Some (fst st), rp_target_messages := rp_target_messages r + of_nat (length msgs),
       rp_sink := fold deliver (snd st) (rp_sink r)\<rparr>)"
  using assms
proof (induction ms arbitrary: r a)
  case Nil
  then show ?case by (cases r) (simp add: wts_run_def)
next
  case (Cons m ms)
  show ?case
  proof (cases "length m \<ge> 11 \<and> read_u16 m 1 = rp_locator r")
    case False
    then have "replay_record pb deliver date symbol m r = r" using Cons.prems
      by (auto simp: replay_record_def replay_directory_def is_target_def)
    then show ?thesis using False Cons.IH [of r a] Cons.prems by auto
  next
    case True
    obtain a1 out1 where on: "wts_on_message pb m (length m) (a, []) = (a1, out1)" by (cases "wts_on_message pb m (length m) (a, [])")
    have step: "replay_record pb deliver date symbol m r =
        r\<lparr>rp_target_messages := rp_target_messages r + 1, rp_adapter := Some a1, rp_sink := fold deliver out1 (rp_sink r)\<rparr>"
      using True Cons.prems on by (simp add: replay_record_def replay_directory_def is_target_def replay_on_message_def)
    show ?thesis
      using True Cons.IH [of "replay_record pb deliver date symbol m r" a1] Cons.prems
      by (simp add: step wts_run_Cons on wts_run_split [of pb _ a1 out1] wts_after_def Let_def)
  qed
qed

lemma audit_counts:
  "au_order_details (fold (audit_event np) evs s) = au_order_details s + of_nat (length (filter is_order evs)) \<and>
   au_transactions (fold (audit_event np) evs s) = au_transactions s + of_nat (length (filter (\<lambda>ev. \<not> is_order ev) evs))"
proof (induction evs arbitrary: s)
  case (Cons ev evs)
  have "au_order_details (audit_event np ev s) = au_order_details s + of_nat (length (filter is_order [ev]))"
    "au_transactions (audit_event np ev s) = au_transactions s + of_nat (length (filter (\<lambda>ev. \<not> is_order ev) [ev]))"
    by (cases ev; simp add: audit_order_detail_def audit_transaction_def Let_def)+
  then show ?case using Cons.IH [of "audit_event np ev s"] by (simp add: algebra_simps)
qed simp

lemma run_active_orders:
  "wts_active_orders (fst (wts_run pb (target_records l ms) (PsxWtsAdapter_new date l symbol, []))) =
   lc_active_orders (lc_run (target_records l ms) OrderLifecycle_new)"
proof -
  let ?new = "(PsxWtsAdapter_new date l symbol, []) :: wts_state"
  have "agree (fst ?new) OrderLifecycle_new" "wa_locator (fst ?new) = l"
    by (simp_all add: agree_def PsxWtsAdapter_new_def OrderLifecycle_new_def)
  then have "agree (fst (wts_run pb (target_records l ms) ?new)) (lc_run (target_records l ms) OrderLifecycle_new)"
    using agree_run target_records_locator by metis
  then show ?thesis by (simp add: agree_def wts_active_orders_def lc_active_orders_def mapping_size dom_def)
qed

lemma directory_only:
  assumes "is_directory symbol d" "\<forall>m\<in>set pre. \<not> is_directory symbol m" "\<forall>m\<in>set post. \<not> is_directory symbol m"
  shows "fold (replay_record pb deliver date symbol) (pre @ d # post) (Replay_new o0) =
    (let l = read_u16 d 1; msgs = target_records l (d # post); st = wts_run pb msgs (PsxWtsAdapter_new date l symbol, []) in
     \<lparr>rp_adapter = Some (fst st), rp_locator = l, rp_target_messages = of_nat (length msgs),
       rp_sink = fold deliver (snd st) o0\<rparr>)"
proof -
  let ?new = "Replay_new o0" and ?a = "PsxWtsAdapter_new date (read_u16 d 1) symbol"
  obtain a1 out1 where on: "wts_on_message pb d (length d) (?a, []) = (a1, out1)" by (cases "wts_on_message pb d (length d) (?a, [])")
  have d: "length d \<ge> 11" using assms(1) by (simp add: is_directory_def expected_message_size_def)
  have before: "fold (replay_record pb deliver date symbol) pre ?new = ?new"
    by (rule replay_before [OF assms(2)]) (simp add: Replay_new_def)
  have step: "replay_record pb deliver date symbol d ?new =
      \<lparr>rp_adapter = Some a1, rp_locator = read_u16 d 1, rp_target_messages = 1, rp_sink = fold deliver out1 o0\<rparr>"
    using assms(1) d on by (simp add: replay_record_def replay_directory_def is_target_def Replay_new_def replay_on_message_def Let_def)
  show ?thesis
    using replay_following [OF assms(3), of "replay_record pb deliver date symbol d ?new" a1 pb deliver date] d
    by (simp add: before step wts_run_Cons on wts_run_split [of pb _ a1 out1] wts_after_def Let_def del: One_nat_def)
qed

text \<open>
  C27. The WonderTrader replay of a well-formed file with one directory record for the symbol: the
  adapter is fed exactly the records of that locate code from the directory record on, in order, the
  sink audits every event the adapter emits, and the exit status is zero exactly if the adapter reports
  no error, the audit none, and the order census of the same records ends empty; the adapter's counts
  of order details and transactions never disagree with the sink's.
\<close>

theorem wts_replay_verdict:
  assumes "reads_file rd contents signals" "contents fd = concat (map encode_block (pre @ d # post))" "valid_records (pre @ d # post)"
    "is_directory symbol d" "\<forall>m\<in>set pre. \<not> is_directory symbol m" "\<forall>m\<in>set post. \<not> is_directory symbol m"
    "l = read_u16 d 1" "msgs = target_records l (d # post)" "wts_run price_bits msgs (PsxWtsAdapter_new date l symbol, []) = (a, events)"
    "sink = fold (audit_event nonpositive) events AuditSink_new"
  shows "wts_replay rd (Some fd) price_bits nonpositive date symbol =
    Some (\<lparr>rp_adapter = Some a, rp_locator = l, rp_target_messages = of_nat (length msgs), rp_sink = sink\<rparr>,
      Inr (if ws_errors (wa_stats a) = 0 \<and> au_errors sink = 0 \<and> lc_active_orders (lc_run msgs OrderLifecycle_new) = 0 then 0 else 3))"
proof -
  have "ws_order_details (wa_stats a) = au_order_details sink" "ws_transactions (wa_stats a) = au_transactions sink"
    using wts_accounting [OF assms(9)] audit_counts [of nonpositive events AuditSink_new] unfolding assms(10) by (simp_all add: AuditSink_new_def)
  moreover have "wts_active_orders a = lc_active_orders (lc_run msgs OrderLifecycle_new)"
    using run_active_orders [of price_bits l "d # post" date symbol] assms(9) unfolding assms(8) by simp
  moreover have "fold (replay_record price_bits (audit_event nonpositive) date symbol) (pre @ d # post) (Replay_new AuditSink_new) =
      \<lparr>rp_adapter = Some a, rp_locator = l, rp_target_messages = of_nat (length msgs), rp_sink = sink\<rparr>"
    using assms(9) unfolding directory_only [OF assms(4-6)] Let_def assms(7) [symmetric] assms(8) [symmetric] assms(10) by simp
  ultimately show ?thesis
    unfolding wts_replay_def scan_total [OF assms(1-3), of "replay_record price_bits (audit_event nonpositive) date symbol"] by (simp add: replay_status_def Let_def)
qed

definition itch_directory :: bytes where
  "itch_directory = [82, 0, 7, 0, 0, 0, 0, 0, 0, 0, 0, 65, 65, 32, 32, 32, 32, 32, 32] @ replicate 20 0"

lemma itch_directory_facts:
  "is_directory [65, 65] itch_directory" "read_u16 itch_directory 1 = 7" "length itch_directory = 39" "itch_directory ! 0 = 82"
  "\<not> is_directory [65, 65] (83 # replicate 11 0)" "target_records 7 [itch_directory] = [(itch_directory, 39)]" "itch_directory \<noteq> []"
  by code_simp+

theorem wts_replay_verdict_witness:
  "\<exists>r. wts_replay slow_read (Some (1, concat (map encode_block [83 # replicate 11 0, itch_directory]))) (\<lambda>p. ucast p) (\<lambda>b. b = 0) 20240102 [65, 65] =
     Some (r, Inr 0) \<and> rp_target_messages r = 1"
proof -
  let ?pre = "[83 # replicate 11 0] :: bytes list"
  let ?new = "(PsxWtsAdapter_new 20240102 7 [65, 65], []) :: wts_state"
  have sizes: "valid_records (?pre @ [itch_directory])" using itch_directory_facts(3,7) by (simp add: valid_records_def)
  have run: "wts_run (\<lambda>p. ucast p) [(itch_directory, 39)] ?new = (fst (wts_run (\<lambda>p. ucast p) [(itch_directory, 39)] ?new), [])"
    "ws_errors (wa_stats (fst (wts_run (\<lambda>p. ucast p) [(itch_directory, 39)] ?new))) = 0"
    using itch_directory_facts(2,4)
    by (simp_all add: wts_run_def wts_on_message_def wts_dispatch_def PsxWtsAdapter_new_def WtsAdapterStats_zero_def expected_message_size_def Let_def)
  have census: "lc_active_orders (lc_run [(itch_directory, 39)] OrderLifecycle_new) = 0"
    using itch_directory_facts(4) by (simp add: lc_run_def lc_on_message_def lc_active_orders_def OrderLifecycle_new_def Let_def)
  show ?thesis
    using wts_replay_verdict [OF slow_read_reads _ sizes itch_directory_facts(1), of "(1, concat (map encode_block (?pre @ [itch_directory])))"
        7 _ "\<lambda>p. ucast p" 20240102 _ "[]" _ "\<lambda>b. b = 0"] itch_directory_facts run census
    by (simp add: AuditSink_new_def)
qed

end
