(* ===== verification/DifferentialReplay.thy ===== *)
theory DifferentialReplay
  imports AdapterMirror WtsReplay UftEngine
begin

text \<open>
  The differential replay tool (\<open>tools/NasdaqItchUftDifferentialReplay.cpp\<close>): it feeds the records of one symbol to
  the WonderTrader adapter and to the UFT adapter, whose engine calls a strategy, and compares the
  events one by one. A comparison is the state of the tool's one strategy; the conversion of a
  \<open>double\<close> price to ticks is the argument \<open>ticks\<close>. Printing is left out.
\<close>

section \<open>Comparison\<close>

record Comparison =
  cm_expected_order :: "WTSOrdDtlStruct option"
  cm_expected_transaction :: "WTSTransStruct option"
  cm_compared_orders :: u64
  cm_compared_transactions :: u64
  cm_mismatches :: u64
  cm_ordering_errors :: u64

text \<open>The flags \<open>have_order\<close> and \<open>have_transaction\<close> say whether the expected event is present.\<close>

definition Comparison_new :: Comparison where
  "Comparison_new = \<lparr>cm_expected_order = None, cm_expected_transaction = None, cm_compared_orders = 0, cm_compared_transactions = 0,
     cm_mismatches = 0, cm_ordering_errors = 0\<rparr>"

definition ordering_error :: "bool \<Rightarrow> Comparison \<Rightarrow> Comparison" where
  "ordering_error b c = (if b then c\<lparr>cm_ordering_errors := cm_ordering_errors c + 1\<rparr> else c)"

fun expect_event :: "wts_event \<Rightarrow> Comparison \<Rightarrow> Comparison" where
  "expect_event (On_order_detail event) c = (ordering_error (cm_expected_order c \<noteq> None) c)\<lparr>cm_expected_order := Some event\<rparr>"
| "expect_event (On_transaction event) c = (ordering_error (cm_expected_transaction c \<noteq> None) c)\<lparr>cm_expected_transaction := Some event\<rparr>"

definition compare_order :: "(u64 \<Rightarrow> PriceTicks) \<Rightarrow> UftOrderDetail \<Rightarrow> Comparison \<Rightarrow> Comparison" where
  "compare_order ticks event c =
     (let c = c\<lparr>cm_compared_orders := cm_compared_orders c + 1\<rparr> in
      case cm_expected_order c of
        None \<Rightarrow> ordering_error True c
      | Some expected \<Rightarrow>
          let c = (if od_order_id event \<noteq> wo_index expected \<or> od_price_ticks event \<noteq> ticks (wo_price expected) \<or>
                     od_quantity event \<noteq> ucast (wo_volume expected) \<or> od_side event \<noteq> uft_side (wo_side expected) \<or>
                     od_order_type event \<noteq> UftOrderType_Limit \<or> action_time (od_exchange_time_ns event) \<noteq> wo_action_time expected
                   then c\<lparr>cm_mismatches := cm_mismatches c + 1\<rparr> else c)
          in c\<lparr>cm_expected_order := None\<rparr>)"

definition compare_transaction :: "(u64 \<Rightarrow> PriceTicks) \<Rightarrow> UftTransaction \<Rightarrow> Comparison \<Rightarrow> Comparison" where
  "compare_transaction ticks event c =
     (let c = c\<lparr>cm_compared_transactions := cm_compared_transactions c + 1\<rparr> in
      case cm_expected_transaction c of
        None \<Rightarrow> ordering_error True c
      | Some expected \<Rightarrow>
          let expected_type = transaction_type (wt_ttype expected);
              c = (if tx_transaction_id event \<noteq> wt_index expected \<or> tx_price_ticks event \<noteq> ticks (wt_price expected) \<or>
                     tx_quantity event \<noteq> ucast (wt_volume expected) \<or> tx_side event \<noteq> uft_side (wt_side expected) \<or>
                     tx_transaction_type event \<noteq> expected_type \<or> tx_ask_order_id event \<noteq> wt_askorder expected \<or>
                     tx_bid_order_id event \<noteq> wt_bidorder expected \<or> action_time (tx_exchange_time_ns event) \<noteq> wt_action_time expected
                   then c\<lparr>cm_mismatches := cm_mismatches c + 1\<rparr> else c)
          in c\<lparr>cm_expected_transaction := None\<rparr>)"

fun compare_event :: "(u64 \<Rightarrow> PriceTicks) \<Rightarrow> uft_event \<Rightarrow> Comparison \<Rightarrow> Comparison" where
  "compare_event ticks (Uft_order event) = compare_order ticks event"
| "compare_event ticks (Uft_transaction event) = compare_transaction ticks event"

definition finish_message :: "Comparison \<Rightarrow> Comparison" where
  "finish_message c = (ordering_error (cm_expected_order c \<noteq> None \<or> cm_expected_transaction c \<noteq> None) c)
     \<lparr>cm_expected_order := None, cm_expected_transaction := None\<rparr>"

section \<open>The tool\<close>

text \<open>The strategy subscribes to both channels of instrument 1.\<close>

definition strategy_init :: init_prog where
  "strategy_init = Init_subscribe Channel_OrderDetail 1 (\<lambda>_. Init_subscribe Channel_Transaction 1 (\<lambda>_. Init_done))"

datatype differential_exception = Instrument_failed | Start_failed
  | Differential_scan_failed "table_error scan_exception" | Target_not_found

definition differential_setup :: "differential_exception + UftMarketDataEngine" where
  "differential_setup =
     (case register_instrument (UftMarketDataEngine_new 2 2 1) 1 (Some ''PSX.TARGET'') 1 20000000 1 of (engine, ok) \<Rightarrow>
        if \<not> ok then Inl Instrument_failed
        else
          let callbacks = UftStrategyCallbacks_default\<lparr>cb_on_init := Some strategy_init, cb_on_order_detail := True, cb_on_transaction := True\<rparr> in
          case register_strategy engine 1 True callbacks of (engine, ok) \<Rightarrow>
            if \<not> ok then Inl Start_failed
            else case start engine of (engine, ok) \<Rightarrow> if \<not> ok then Inl Start_failed else Inr engine)"

text \<open>Every call of the engine runs the strategy, which compares the event.\<close>

definition comparison_engine :: "(u64 \<Rightarrow> PriceTicks) \<Rightarrow> UftMarketDataEngine \<Rightarrow> Comparison engine_ops" where
  "comparison_engine ticks engine =
     \<lparr>eo_publish_order_detail = (\<lambda>event c. case publish_order_detail engine event of (calls, n) \<Rightarrow> (fold (\<lambda>_. compare_order ticks event) calls c, n)),
      eo_publish_transaction = (\<lambda>event c. case publish_transaction engine event of (calls, n) \<Rightarrow> (fold (\<lambda>_. compare_transaction ticks event) calls c, n)),
      eo_publish_book_update = None\<rparr>"

record Differential =
  df_reference :: "PsxWtsAdapter option"
  df_candidate :: "NasdaqItchUftAdapter option"
  df_locator :: u16
  df_target_messages :: u64
  df_comparison :: Comparison

definition Differential_new :: Differential where
  "Differential_new = \<lparr>df_reference = None, df_candidate = None, df_locator = 0, df_target_messages = 0, df_comparison = Comparison_new\<rparr>"

definition differential_directory :: "u32 \<Rightarrow> bytes \<Rightarrow> nat \<Rightarrow> nat \<Rightarrow> bytes \<Rightarrow> Differential \<Rightarrow> Differential \<times> table_error option" where
  "differential_directory trading_date symbol order_capacity match_capacity message r =
     (if message ! 0 = ascii CHR ''R'' \<and> length message = 39 \<and> trimmed_symbol (drop 11 message) = symbol then
        let locator = read_u16 message 1;
            r = r\<lparr>df_locator := locator, df_reference := Some (PsxWtsAdapter_new trading_date locator symbol)\<rparr> in
        case NasdaqItchUftAdapter_new 1 locator order_capacity match_capacity of
          Inl e \<Rightarrow> (r, Some e)
        | Inr candidate \<Rightarrow> (r\<lparr>df_candidate := Some candidate\<rparr>, None)
      else (r, None))"

definition differential_target :: "(u32 \<Rightarrow> u64) \<Rightarrow> Comparison engine_ops \<Rightarrow> bytes \<Rightarrow> Differential \<Rightarrow> Differential" where
  "differential_target price_bits engine message r =
     (let r = r\<lparr>df_target_messages := df_target_messages r + 1\<rparr>;
          (reference, events) = wts_on_message price_bits message (length message) (the (df_reference r), []);
          comparison = fold expect_event events (df_comparison r);
          (candidate, comparison) = on_message engine (Some message) (length message) (the (df_candidate r), comparison)
      in r\<lparr>df_reference := Some reference, df_candidate := Some candidate, df_comparison := finish_message comparison\<rparr>)"

definition differential_record :: "(u32 \<Rightarrow> u64) \<Rightarrow> Comparison engine_ops \<Rightarrow> u32 \<Rightarrow> bytes \<Rightarrow> nat \<Rightarrow> nat \<Rightarrow> Differential \<Rightarrow> bytes \<Rightarrow>
    (Differential \<times> table_error option) option" where
  "differential_record price_bits engine trading_date symbol order_capacity match_capacity r message =
     Some (case differential_directory trading_date symbol order_capacity match_capacity message r of
         (r, Some e) \<Rightarrow> (r, Some e)
       | (r, None) \<Rightarrow>
           (if df_candidate r \<noteq> None \<and> length message \<ge> 11 \<and> read_u16 message 1 = df_locator r
            then differential_target price_bits engine message r else r, None))"

definition counts_equal :: "WtsAdapterStats \<Rightarrow> UftAdapterStats \<Rightarrow> bool" where
  "counts_equal old_stats new_stats \<longleftrightarrow>
     ws_order_details old_stats = us_order_details new_stats \<and> ws_transactions old_stats = us_transactions new_stats \<and>
     ws_matches old_stats = us_matches new_stats \<and> ws_cancels old_stats = us_cancels new_stats \<and>
     ws_trade_busts old_stats = us_trade_busts new_stats \<and>
     ws_duplicate_matches_suppressed old_stats = us_duplicate_matches_suppressed new_stats \<and>
     ws_non_printable_suppressed old_stats = us_non_printable_suppressed new_stats \<and>
     ws_broken_trades_without_output old_stats = us_broken_trades_without_output new_stats \<and>
     ws_unknown_broken_trades old_stats = us_unknown_broken_trades new_stats \<and>
     ws_errors old_stats = us_malformed_or_missing_orders new_stats"

definition differential_status :: "WtsAdapterStats \<Rightarrow> NasdaqItchUftAdapter \<Rightarrow> Comparison \<Rightarrow> int" where
  "differential_status old_stats candidate comparison =
     (let new_stats = ua_stats candidate in
      if counts_equal old_stats new_stats \<and> cm_mismatches comparison = 0 \<and> cm_ordering_errors comparison = 0 \<and>
        us_capacity_exhaustions new_stats = 0 \<and> adapter_active_orders candidate = 0 then 0 else 3)"

definition differential_replay :: "('f \<Rightarrow> nat \<Rightarrow> 'f \<times> read_result) \<Rightarrow> 'f option \<Rightarrow> (u32 \<Rightarrow> u64) \<Rightarrow> (u64 \<Rightarrow> PriceTicks) \<Rightarrow> u32 \<Rightarrow> bytes \<Rightarrow>
    nat \<Rightarrow> nat \<Rightarrow> (Differential \<times> (differential_exception + int)) option" where
  "differential_replay rd opened price_bits ticks trading_date symbol order_capacity match_capacity =
     (case differential_setup of
        Inl e \<Rightarrow> Some (Differential_new, Inl e)
      | Inr engine \<Rightarrow>
          Option.bind (scan_historical_file rd opened
            (differential_record price_bits (comparison_engine ticks engine) trading_date symbol order_capacity match_capacity) Differential_new) (\<lambda>(r, scan).
            case scan of
              Inl e \<Rightarrow> Some (r, Inl (Differential_scan_failed e))
            | Inr _ \<Rightarrow>
                (case df_candidate r of
                   None \<Rightarrow> Some (r, Inl Target_not_found)
                 | Some candidate \<Rightarrow> Some (r, Inr (differential_status (wa_stats (the (df_reference r))) candidate (df_comparison r))))))"

section \<open>The engine delivers every event once\<close>

definition started_engine :: UftMarketDataEngine where
  "started_engine = projr differential_setup"

lemma started_engine_facts:
  "\<not> isl differential_setup" "ue_running started_engine" "length (ue_instruments started_engine) = 2"
  "is_registered (ue_instruments started_engine ! 1)" "is_order_details (ue_instruments started_engine ! 1) = [Some 1]"
  "is_order_detail_count (ue_instruments started_engine ! 1) = 1" "is_transactions (ue_instruments started_engine ! 1) = [Some 1]"
  "is_transaction_count (ue_instruments started_engine ! 1) = 1"
  by code_simp+

lemma differential_setup_started: "differential_setup = Inr started_engine"
  using started_engine_facts(1) by (cases differential_setup) (simp_all add: started_engine_def)

lemma started_engine_publishes:
  "od_instrument_id ev = 1 \<Longrightarrow> publish_order_detail started_engine ev = ([Some 1], 1)"
  "tx_instrument_id tx = 1 \<Longrightarrow> publish_transaction started_engine tx = ([Some 1], 1)"
  using started_engine_facts(2-8) by (simp_all add: publish_order_detail_def publish_transaction_def)

section \<open>Engines that relay the events\<close>

definition relays :: "'e engine_ops \<Rightarrow> InstrumentId \<Rightarrow> (uft_event \<Rightarrow> 'e \<Rightarrow> 'e) \<Rightarrow> bool" where
  "relays en i deliver \<longleftrightarrow> eo_publish_book_update en = None \<and>
     (\<forall>ev e. od_instrument_id ev = i \<longrightarrow> eo_publish_order_detail en ev e = (deliver (Uft_order ev) e, 1)) \<and>
     (\<forall>ev e. tx_instrument_id ev = i \<longrightarrow> eo_publish_transaction en ev e = (deliver (Uft_transaction ev) e, 1))"

lemma comparison_relays: "relays (comparison_engine ticks started_engine) 1 (compare_event ticks)"
  by (simp add: relays_def comparison_engine_def started_engine_publishes)

definition relayed :: "(uft_event \<Rightarrow> 'e \<Rightarrow> 'e) \<Rightarrow> 'e \<Rightarrow> uft_event list adapter_state \<Rightarrow> 'e adapter_state" where
  "relayed deliver e st = (fst st, fold deliver (snd st) e)"

lemma relayed_fst [simp]: "fst (relayed deliver e st) = fst st"
  by (simp add: relayed_def)

lemma relayed_frame [simp]:
  "upd_stats f (relayed deliver e st) = relayed deliver e (upd_stats f st)"
  "count_malformed (relayed deliver e st) = relayed deliver e (count_malformed st)"
  "count_duplicate (relayed deliver e st) = relayed deliver e (count_duplicate st)"
  "count_insert_failure r (relayed deliver e st) = relayed deliver e (count_insert_failure r st)"
  "set_orders t (relayed deliver e st) = relayed deliver e (set_orders t st)"
  "set_matches t' (relayed deliver e st) = relayed deliver e (set_matches t' st)"
  "reduce_order k q (relayed deliver e st) = relayed deliver e (reduce_order k q st)"
  by (cases st; simp add: relayed_def upd_stats_def count_malformed_def count_duplicate_def count_insert_failure_def set_orders_def set_matches_def
      reduce_order_def Let_def split: option.split)+

lemma relayed_emit:
  assumes "relays en (ua_instrument_id (fst st)) deliver"
  shows "emit_book en m act oid nid mid p q s pr (relayed deliver e st) = relayed deliver e st"
    "emit_order en m oid ord (relayed deliver e st) = relayed deliver e (emit_order event_log m oid ord st)"
    "emit_transaction en m tid ty s p q oid (relayed deliver e st) = relayed deliver e (emit_transaction event_log m tid ty s p q oid st)"
proof -
  obtain a log where st: "st = (a, log)" by (cases st)
  note r = assms [unfolded relays_def st fst_conv]
  show "emit_book en m act oid nid mid p q s pr (relayed deliver e st) = relayed deliver e st"
    using r by (simp add: st relayed_def emit_book_def book_publish_def)
  show "emit_order en m oid ord (relayed deliver e st) = relayed deliver e (emit_order event_log m oid ord st)"
    using r by (simp add: st relayed_def emit_order_def event_log_def upd_stats_def Let_def)
  show "emit_transaction en m tid ty s p q oid (relayed deliver e st) = relayed deliver e (emit_transaction event_log m tid ty s p q oid st)"
    using r by (simp add: st relayed_def emit_transaction_def event_log_def upd_stats_def count_malformed_def Let_def)
qed

lemma relayed_messages:
  assumes "relays en (ua_instrument_id (fst st)) deliver"
  shows "add en m (relayed deliver e st) = relayed deliver e (add event_log m st)"
    "cancel_partial en m (relayed deliver e st) = relayed deliver e (cancel_partial event_log m st)"
    "cancel_all en m (relayed deliver e st) = relayed deliver e (cancel_all event_log m st)"
    "replace en m (relayed deliver e st) = relayed deliver e (replace event_log m st)"
    "record_trade en m mid mt (relayed deliver e st) = relayed deliver e (record_trade event_log m mid mt st)"
    "broken_trade en m (relayed deliver e st) = relayed deliver e (broken_trade event_log m st)"
  using assms
  by (auto simp: add_def cancel_partial_def cancel_all_def replace_def record_trade_def broken_trade_def Let_def case_prod_unfold relayed_emit
      split: option.split)

lemma relayed_execute:
  assumes "relays en (ua_instrument_id (fst st)) deliver"
  shows "execute en m (relayed deliver e st) = relayed deliver e (execute event_log m st)"
  using assms by (cases "fht_find (ua_orders (fst st)) (read_u64 m 11)") (simp_all add: execute_def Let_def case_prod_unfold relayed_emit)

lemma relayed_trades:
  assumes "relays en (ua_instrument_id (fst st)) deliver"
  shows "non_cross_trade en m (relayed deliver e st) = relayed deliver e (non_cross_trade event_log m st)"
    "cross_trade en m (relayed deliver e st) = relayed deliver e (cross_trade event_log m st)"
  unfolding non_cross_trade_def cross_trade_def Let_def relayed_messages [OF assms] by simp_all

lemma relayed_on_message:
  assumes "relays en (ua_instrument_id (fst st)) deliver"
  shows "on_message en (Some m) sz (relayed deliver e st) = relayed deliver e (on_message event_log (Some m) sz st)"
proof -
  obtain a log where st: "st = (a, log)" by (cases st)
  let ?st = "(a\<lparr>ua_source_sequence := ua_source_sequence a + 1\<rparr>, log)"
  have r: "relays en (ua_instrument_id (fst ?st)) deliver" using assms by (simp add: st)
  have bump: "(a\<lparr>ua_source_sequence := ua_source_sequence a + 1\<rparr>, fold deliver log e) = relayed deliver e ?st" by (simp add: relayed_def)
  have "dispatch en m (relayed deliver e ?st) = relayed deliver e (dispatch event_log m ?st)"
    unfolding dispatch_def Let_def relayed_messages [OF r] relayed_execute [OF r] relayed_trades [OF r] by (simp only: if_distrib [of "relayed deliver e"])
  then show ?thesis using bump by (simp add: on_message_def st relayed_def [of _ _ "(a, log)"] Let_def)
qed

lemma relays_message:
  assumes "relays en (ua_instrument_id a) deliver" "on_message event_log (Some m) sz (a, []) = (a', evs)"
  shows "on_message en (Some m) sz (a, e) = (a', fold deliver evs e)"
  using relayed_on_message [of en "(a, [])" deliver m sz e] assms by (simp add: relayed_def)

section \<open>At most one event of a kind\<close>

definition single_events :: "wts_event list \<Rightarrow> bool" where
  "single_events evs \<longleftrightarrow> evs = [] \<or> (\<exists>t. evs = [On_transaction t]) \<or> (\<exists>d. evs = [On_order_detail d]) \<or>
     (\<exists>t d. evs = [On_transaction t, On_order_detail d])"

lemma wts_out [simp]:
  "snd (wts_stats f st) = snd st" "snd (wts_error st) = snd st" "snd (wts_duplicate st) = snd st" "snd (wts_set_orders t st) = snd st"
  "snd (wts_set_matches t' st) = snd st" "snd (wts_reduce k v st) = snd st"
  by (cases st; simp add: wts_stats_def wts_error_def wts_duplicate_def wts_set_orders_def wts_set_matches_def wts_reduce_def Let_def split: option.split)+

lemma wts_out_emit:
  "\<exists>d. snd (wts_emit_order pb m k ord st) = snd st @ [On_order_detail d]"
  "snd (wts_emit_transaction pb m i ty s p v k st) = snd st \<or> (\<exists>t. snd (wts_emit_transaction pb m i ty s p v k st) = snd st @ [On_transaction t])"
  by (cases st; auto simp: wts_emit_order_def wts_emit_transaction_def wts_sink_def Let_def)+

lemma single_emits:
  assumes "snd st = []"
  shows "single_events (snd (wts_emit_order pb m k ord st))" "single_events (snd (wts_emit_transaction pb m i ty s p v k st))"
    "single_events (snd (wts_emit_order pb m' k' ord' (wts_set_orders t (wts_emit_transaction pb m i ty s p v k st))))" "single_events (snd st)"
  using assms wts_out_emit(1) [of pb m k ord st] wts_out_emit(2) [of pb m i ty s p v k st]
    wts_out_emit(1) [of pb m' k' ord' "wts_set_orders t (wts_emit_transaction pb m i ty s p v k st)"]
  by (auto simp: single_events_def)

lemma single_messages:
  assumes "snd st = []"
  shows "single_events (snd (wts_add pb m st))" "single_events (snd (wts_execute pb m st))" "single_events (snd (wts_cancel_partial pb m st))"
    "single_events (snd (wts_cancel_all pb m st))" "single_events (snd (wts_replace pb m st))" "single_events (snd (wts_non_cross_trade pb m st))"
    "single_events (snd (wts_cross_trade pb m st))" "single_events (snd (wts_broken_trade pb m st))"
  using assms single_emits(4) [OF assms]
  by (simp_all add: wts_add_def wts_execute_def wts_cancel_partial_def wts_cancel_all_def wts_replace_def wts_non_cross_trade_def
      wts_cross_trade_def wts_broken_trade_def Let_def case_prod_unfold single_emits split: option.split)

lemma single_on_message: "single_events (snd (wts_on_message pb m sz (a, [])))"
proof -
  have "single_events []" by (simp add: single_events_def)
  then show ?thesis by (simp add: wts_on_message_def wts_dispatch_def Let_def single_messages)
qed

section \<open>The comparison finds nothing\<close>

definition settled :: "Comparison \<Rightarrow> bool" where
  "settled c \<longleftrightarrow> cm_expected_order c = None \<and> cm_expected_transaction c = None \<and> cm_mismatches c = 0 \<and> cm_ordering_errors c = 0"

lemma mirror_transactionE:
  assumes "event_mirror ticks (On_transaction t) x"
  obtains u where "x = Uft_transaction u" "\<And>c. cm_expected_transaction c = Some t \<Longrightarrow> compare_transaction ticks u c =
    c\<lparr>cm_compared_transactions := cm_compared_transactions c + 1, cm_expected_transaction := None\<rparr>"
  using assms by (cases x) (auto simp: compare_transaction_def Let_def)

lemma mirror_orderE:
  assumes "event_mirror ticks (On_order_detail d) x"
  obtains u where "x = Uft_order u" "\<And>c. cm_expected_order c = Some d \<Longrightarrow> compare_order ticks u c =
    c\<lparr>cm_compared_orders := cm_compared_orders c + 1, cm_expected_order := None\<rparr>"
  using assms by (cases x) (auto simp: compare_order_def Let_def)

lemma comparison_settled:
  assumes "single_events ws" "list_all2 (event_mirror ticks) ws us" "settled c"
  shows "settled (finish_message (fold (compare_event ticks) us (fold expect_event ws c)))"
proof -
  note S = settled_def finish_message_def ordering_error_def
  consider "ws = []" | t where "ws = [On_transaction t]" | d where "ws = [On_order_detail d]" | t d where "ws = [On_transaction t, On_order_detail d]"
    using assms(1) by (auto simp: single_events_def)
  then show ?thesis
  proof cases
    case 1
    then show ?thesis using assms(2,3) by (simp add: S)
  next
    case 2
    then obtain x where x: "us = [x]" "event_mirror ticks (On_transaction t) x" using assms(2) by (auto simp: list_all2_Cons1)
    show ?thesis by (rule mirror_transactionE [OF x(2)]) (use assms(3) in \<open>simp add: 2 x(1) S\<close>)
  next
    case 3
    then obtain x where x: "us = [x]" "event_mirror ticks (On_order_detail d) x" using assms(2) by (auto simp: list_all2_Cons1)
    show ?thesis by (rule mirror_orderE [OF x(2)]) (use assms(3) in \<open>simp add: 3 x(1) S\<close>)
  next
    case 4
    then obtain x y where x: "us = [x, y]" "event_mirror ticks (On_transaction t) x" "event_mirror ticks (On_order_detail d) y"
      using assms(2) by (auto simp: list_all2_Cons1)
    obtain u where u: "x = Uft_transaction u" "\<And>c. cm_expected_transaction c = Some t \<Longrightarrow> compare_transaction ticks u c =
        c\<lparr>cm_compared_transactions := cm_compared_transactions c + 1, cm_expected_transaction := None\<rparr>" by (rule mirror_transactionE [OF x(2)]) blast
    obtain v where v: "y = Uft_order v" "\<And>c. cm_expected_order c = Some d \<Longrightarrow> compare_order ticks v c =
        c\<lparr>cm_compared_orders := cm_compared_orders c + 1, cm_expected_order := None\<rparr>" by (rule mirror_orderE [OF x(3)]) blast
    show ?thesis using assms(3) by (simp add: 4 x(1) u v S)
  qed
qed

definition tracked :: "(u64 \<Rightarrow> PriceTicks) \<Rightarrow> nat \<Rightarrow> PsxWtsAdapter \<Rightarrow> Differential \<Rightarrow> bool" where
  "tracked ticks n a r \<longleftrightarrow> df_reference r = Some a \<and> settled (df_comparison r) \<and>
     (\<exists>u. df_candidate r = Some u \<and> ua_instrument_id u = 1 \<and> mirrors ticks n (a, []) (u, []))"

lemma mirrors_silent: "mirrors ticks n (a, out) (u, out') \<Longrightarrow> mirrors ticks n (a, []) (u, [])"
  by (simp add: mirrors_def state_mirror_def output_mirror_def)

lemma target_tracked:
  assumes "tracked ticks (Suc n) a r" "conforming m" "\<forall>p. ticks (pb p) = uint p"
  shows "tracked ticks n (fst (wts_on_message pb m (length m) (a, []))) (differential_target pb (comparison_engine ticks started_engine) m r)"
    "df_locator (differential_target pb (comparison_engine ticks started_engine) m r) = df_locator r"
proof -
  obtain u where u: "df_reference r = Some a" "settled (df_comparison r)" "df_candidate r = Some u" "ua_instrument_id u = 1"
    "mirrors ticks (Suc n) (a, []) (u, [])" using assms(1) by (auto simp: tracked_def)
  obtain a' evs where w: "wts_on_message pb m (length m) (a, []) = (a', evs)" by (cases "wts_on_message pb m (length m) (a, [])")
  obtain u' evs' where l: "on_message event_log (Some m) (length m) (u, []) = (u', evs')" by (cases "on_message event_log (Some m) (length m) (u, [])")
  have mir: "mirrors ticks n (a', evs) (u', evs')" using mirror_on_message [OF u(5) assms(3,2), of "length m"] by (simp add: w l)
  have "relays (comparison_engine ticks started_engine) (ua_instrument_id u) (compare_event ticks)" using comparison_relays u(4) by simp
  from relays_message [OF this l] have c: "on_message (comparison_engine ticks started_engine) (Some m) (length m) (u, e) =
      (u', fold (compare_event ticks) evs' e)" for e .
  have i: "ua_instrument_id u' = 1" using instrument_on_message [of event_log "Some m" "length m" "(u, [])"] u(4) by (simp add: l)
  have "single_events evs" using single_on_message [of pb m "length m" a] by (simp add: w)
  then have "settled (finish_message (fold (compare_event ticks) evs' (fold expect_event evs (df_comparison r))))"
    using comparison_settled [OF _ _ u(2)] mirrorsD(3) [OF mir] by (simp add: output_mirror_def)
  then show "tracked ticks n (fst (wts_on_message pb m (length m) (a, []))) (differential_target pb (comparison_engine ticks started_engine) m r)"
    using mirrors_silent [OF mir] i by (simp add: tracked_def differential_target_def u w c Let_def)
  show "df_locator (differential_target pb (comparison_engine ticks started_engine) m r) = df_locator r"
    by (simp add: differential_target_def u w c Let_def)
qed

section \<open>A whole file\<close>

lemma directory_39: "(m ! 0 = ascii CHR ''R'' \<and> length m = 39 \<and> trimmed_symbol (drop 11 m) = symbol) \<longleftrightarrow> is_directory symbol m"
  by (simp add: is_directory_def expected_message_size_def)

lemma record_other:
  assumes "\<not> is_directory symbol m"
  shows "differential_record pb en date symbol oc mc r m =
    Some (if df_candidate r \<noteq> None \<and> length m \<ge> 11 \<and> read_u16 m 1 = df_locator r then differential_target pb en m r else r, None)"
  unfolding differential_record_def differential_directory_def directory_39 if_not_P [OF assms] by simp

lemma differential_before:
  "\<forall>m\<in>set ms. \<not> is_directory symbol m \<Longrightarrow> df_candidate r = None \<Longrightarrow>
   feed_messages (differential_record pb en date symbol oc mc) (ms @ ms') r = feed_messages (differential_record pb en date symbol oc mc) ms' r"
  by (induction ms) (simp_all add: record_other)

lemma differential_following:
  assumes "\<forall>p. ticks (pb p) = uint p" "\<forall>m\<in>set ms. \<not> is_directory symbol m" "\<forall>x\<in>set (target_records (df_locator r) ms). conforming (fst x)"
    "tracked ticks (length (target_records (df_locator r) ms)) a r"
  shows "\<exists>r'. feed_messages (differential_record pb (comparison_engine ticks started_engine) date symbol oc mc) ms r = Some (r', None) \<and>
    tracked ticks 0 (fst (wts_run pb (target_records (df_locator r) ms) (a, []))) r'"
  using assms(2-)
proof (induction ms arbitrary: r a)
  case Nil
  then show ?case by (simp add: wts_run_def)
next
  case (Cons m ms)
  have some: "df_candidate r \<noteq> None" using Cons.prems(3) by (auto simp: tracked_def)
  have nd: "\<not> is_directory symbol m" using Cons.prems(1) by simp
  show ?case
  proof (cases "length m \<ge> 11 \<and> read_u16 m 1 = df_locator r")
    case False
    then show ?thesis using Cons.IH [of r a] Cons.prems by (auto simp: record_other [OF nd])
  next
    case True
    let ?r = "differential_target pb (comparison_engine ticks started_engine) m r"
    have c: "conforming m" "tracked ticks (Suc (length (target_records (df_locator r) ms))) a r" using True Cons.prems(2,3) by simp_all
    note t = target_tracked [OF c(2,1) assms(1)]
    obtain a1 out1 where on: "wts_on_message pb m (length m) (a, []) = (a1, out1)" by (cases "wts_on_message pb m (length m) (a, [])")
    have "\<exists>r'. feed_messages (differential_record pb (comparison_engine ticks started_engine) date symbol oc mc) ms ?r = Some (r', None) \<and>
        tracked ticks 0 (fst (wts_run pb (target_records (df_locator ?r) ms) (a1, []))) r'"
      by (rule Cons.IH) (use True Cons.prems(1,2) t on in simp_all)
    then show ?thesis
      using True some by (simp add: record_other [OF nd] t(2) wts_run_Cons on wts_run_split [of pb _ a1 out1] del: One_nat_def)
  qed
qed

lemma differential_feed:
  assumes ticks: "\<forall>p. ticks (pb p) = uint p"
    and dir: "is_directory symbol d" "\<forall>m\<in>set pre. \<not> is_directory symbol m" "\<forall>m\<in>set post. \<not> is_directory symbol m"
    and ms: "msgs = target_records (read_u16 d 1) (d # post)" "\<forall>x\<in>set msgs. conforming (fst x)"
    and new: "NasdaqItchUftAdapter_new 1 (read_u16 d 1) oc mc = Inr u" "length msgs \<le> oc" "length msgs \<le> mc"
  shows "\<exists>r. feed_messages (differential_record pb (comparison_engine ticks started_engine) date symbol oc mc) (pre @ d # post) Differential_new = Some (r, None) \<and>
    tracked ticks 0 (fst (wts_run pb msgs (PsxWtsAdapter_new date (read_u16 d 1) symbol, []))) r"
proof -
  let ?a = "PsxWtsAdapter_new date (read_u16 d 1) symbol" and ?en = "comparison_engine ticks started_engine"
  let ?r = "Differential_new\<lparr>df_locator := read_u16 d 1, df_reference := Some ?a, df_candidate := Some u\<rparr>"
  have d: "length d \<ge> 11" using dir(1) by (simp add: is_directory_def expected_message_size_def)
  then have msgs: "msgs = (d, length d) # target_records (read_u16 d 1) post" using ms(1) by simp
  have "settled Comparison_new" by (simp add: settled_def Comparison_new_def)
  then have start: "tracked ticks (Suc (length (target_records (read_u16 d 1) post))) ?a ?r"
    using mirror_start [OF new(1), of "length msgs"] new(2,3) adapter_new(5) [OF new(1)] by (simp add: tracked_def Differential_new_def msgs)
  have cd: "conforming d" using ms(2) msgs by simp
  note t = target_tracked [OF start cd ticks]
  obtain a1 out1 where on: "wts_on_message pb d (length d) (?a, []) = (a1, out1)" by (cases "wts_on_message pb d (length d) (?a, [])")
  have rec: "differential_record pb ?en date symbol oc mc Differential_new d = Some (differential_target pb ?en d ?r, None)"
    unfolding differential_record_def differential_directory_def directory_39 if_P [OF dir(1)] using d new(1) by (simp add: Let_def)
  have loc: "df_locator (differential_target pb ?en d ?r) = read_u16 d 1" using t(2) by simp
  have "\<exists>r. feed_messages (differential_record pb ?en date symbol oc mc) post (differential_target pb ?en d ?r) = Some (r, None) \<and>
      tracked ticks 0 (fst (wts_run pb (target_records (df_locator (differential_target pb ?en d ?r)) post) (a1, []))) r"
    by (rule differential_following [OF ticks dir(3)]) (use t(1) ms(2) msgs on loc in simp_all)
  then show ?thesis
    unfolding msgs differential_before [OF dir(2), of Differential_new, unfolded Differential_new_def, simplified, folded Differential_new_def] loc
    by (simp add: rec wts_run_Cons on wts_run_split [of pb _ a1 out1] del: One_nat_def)
qed

text \<open>
  C26. The differential replay passes: on any well-formed file with one directory record for the symbol whose
  later records with its locate code obey the ITCH specification, with capacities for their number, the tool
  finds no mismatch and no ordering error, and its status is zero exactly if the order census of these records
  ends empty, which both adapters then agree on.
\<close>

theorem differential_replay_passes:
  assumes "reads_file rd contents signals" "contents fd = concat (map encode_block (pre @ d # post))" "valid_records (pre @ d # post)"
    "is_directory symbol d" "\<forall>m\<in>set pre. \<not> is_directory symbol m" "\<forall>m\<in>set post. \<not> is_directory symbol m"
    "msgs = target_records (read_u16 d 1) (d # post)" "\<forall>x\<in>set msgs. conforming (fst x)"
    "NasdaqItchUftAdapter_new 1 (read_u16 d 1) order_capacity match_capacity = Inr u" "length msgs \<le> order_capacity" "length msgs \<le> match_capacity"
    "\<forall>p. ticks (price_bits p) = uint p"
  shows "\<exists>r. differential_replay rd (Some fd) price_bits ticks date symbol order_capacity match_capacity =
      Some (r, Inr (if lc_active_orders (lc_run msgs OrderLifecycle_new) = 0 then 0 else 3)) \<and>
    cm_mismatches (df_comparison r) = 0 \<and> cm_ordering_errors (df_comparison r) = 0"
proof -
  let ?a = "fst (wts_run price_bits msgs (PsxWtsAdapter_new date (read_u16 d 1) symbol, []))"
  obtain r where r: "feed_messages (differential_record price_bits (comparison_engine ticks started_engine) date symbol order_capacity match_capacity)
      (pre @ d # post) Differential_new = Some (r, None)" "tracked ticks 0 ?a r"
    using differential_feed [OF assms(12,4-11)] by blast
  then obtain c where c: "df_reference r = Some ?a" "df_candidate r = Some c" "settled (df_comparison r)" "mirrors ticks 0 (?a, []) (c, [])"
    by (auto simp: tracked_def)
  have stats: "counts_equal (wa_stats ?a) (ua_stats c)" "us_capacity_exhaustions (ua_stats c) = 0"
    using mirrorsD(3) [OF c(4)] by (simp_all add: output_mirror_def counters_mirror_def counts_equal_def)
  have "adapter_active_orders c = lc_active_orders (lc_run msgs OrderLifecycle_new)"
    using mirror_active_orders [OF c(4)] run_active_orders [of price_bits "read_u16 d 1" "d # post" date symbol] assms(7) by simp
  moreover have "scan_historical_file rd (Some fd) (differential_record price_bits (comparison_engine ticks started_engine) date symbol order_capacity match_capacity)
      Differential_new = Some (r, Inr (scanned (pre @ d # post) \<lparr>fs_messages = 0, fs_framed_bytes = 0\<rparr>))"
    unfolding scan_open [OF assms(1)] assms(2) scan_spec_blocks [OF assms(3)] r(1) by simp
  ultimately show ?thesis
    using c stats by (simp add: differential_replay_def differential_status_def differential_setup_started settled_def Let_def)
qed

theorem differential_replay_passes_witness:
  "\<exists>r. differential_replay slow_read (Some (1, concat (map encode_block [itch_directory, itch_add]))) (\<lambda>p. ucast p) uint 20240102 [65, 65] 4 4 =
     Some (r, Inr 3) \<and> cm_mismatches (df_comparison r) = 0"
proof -
  let ?msgs = "[(itch_directory, 39), (itch_add, 36)] :: (bytes \<times> nat) list"
  have rounded: "rounded_capacity 4 = Inr 8" by (simp add: rounded_capacity_def SIZE_MAX_def while_unfold)
  obtain u where u: "NasdaqItchUftAdapter_new 1 (read_u16 itch_directory 1) 4 4 = Inr u"
    using rounded by (simp add: NasdaqItchUftAdapter_new_def FixedHashTable_new_def)
  have m: "?msgs = target_records (read_u16 itch_directory 1) [itch_directory, itch_add]" "\<not> is_directory [65, 65] itch_add" "itch_add \<noteq> []" "length itch_add = 36"
    by code_simp+
  have f: "read_u16 itch_add 1 = 7" "read_u64 itch_add 11 = 1" "itch_add ! 19 = 66" "read_u32 itch_add 20 = 5" "read_u32 itch_add 32 = 9"
    "itch_add ! 0 = 65" by code_simp+
  have c: "\<forall>x\<in>set ?msgs. conforming (fst x)" using f itch_directory_facts(4) by (simp add: conforming_def INT64_MAX_def)
  have sizes: "valid_records ([] @ itch_directory # [itch_add])" using itch_directory_facts(3,7) m(3,4) by (simp add: valid_records_def)
  have ticks: "\<forall>p :: u32. uint (ucast p :: u64) = uint p" by (simp add: uint_up_ucast is_up)
  have "lc_orders (lc_run ?msgs OrderLifecycle_new) = Mapping.update 1 \<lparr>or_price = 9, or_remaining = 5, or_stock_locate = 7, or_side = 66\<rparr> Mapping.empty"
    using f itch_directory_facts(4) by (simp add: lc_run_def lc_on_message_def lc_add_def OrderLifecycle_new_def Let_def emplace_def expected_message_size_def)
  then have census: "lc_active_orders (lc_run ?msgs OrderLifecycle_new) \<noteq> 0" by (simp add: lc_active_orders_def mapping_size lookup_update_all dom_def)
  have contents: "snd (1 :: nat, concat (map encode_block [itch_directory, itch_add])) = concat (map encode_block ([] @ itch_directory # [itch_add]))" by simp
  have other: "\<forall>x\<in>set [itch_add]. \<not> is_directory [65, 65] x" "length ?msgs \<le> 4" using m(2) by simp_all
  from differential_replay_passes [OF slow_read_reads contents sizes itch_directory_facts(1) _ other(1) m(1) c u other(2,2) ticks, of 20240102] census
  show ?thesis by auto
qed

end
