(* ===== verification/Fingerprint.thy ===== *)
theory Fingerprint
  imports WtsAdapter
begin

text \<open>
  The digest of an event stream (\<open>include/qtrader/WtsEventFingerprint.hpp\<close>), by which the tools compare
  two decoders. The double price of an event is its bit pattern already, so \<open>double_bits\<close> is the
  identity here. The theory proves that every step is injective, so that streams which differ in one
  word of one event never share a digest.
\<close>

section \<open>Definitions\<close>

record WtsEventFingerprint =
  fp_state :: u64
  fp_count :: u64

definition fp_reset :: WtsEventFingerprint where
  "fp_reset = \<lparr>fp_state = 0x6a09e667f3bcc909, fp_count = 0\<rparr>"

definition rotate_left :: "u64 \<Rightarrow> nat \<Rightarrow> u64" where
  "rotate_left value amount = push_bit amount value OR drop_bit (64 - amount) value"

definition avalanche :: "u64 \<Rightarrow> u64" where
  "avalanche value =
     (let value = value XOR drop_bit 30 value;
          value = value * 0xbf58476d1ce4e5b9;
          value = value XOR drop_bit 27 value;
          value = value * 0x94d049bb133111eb
      in value XOR drop_bit 31 value)"

definition mix :: "u64 \<Rightarrow> WtsEventFingerprint \<Rightarrow> WtsEventFingerprint" where
  "mix value f =
     (let f = f\<lparr>fp_state := fp_state f XOR avalanche (value + 0x9e3779b97f4a7c15 + fp_count f)\<rparr>
      in f\<lparr>fp_state := rotate_left (fp_state f) 27 * 0x3c79ac492ba7b653 + 0x1c69b3f74ac4ae35\<rparr>)"

fun mix_bytes_loop :: "bytes \<Rightarrow> u64 \<Rightarrow> nat \<Rightarrow> WtsEventFingerprint \<Rightarrow> u64 \<times> nat \<times> WtsEventFingerprint" where
  "mix_bytes_loop [] word shift f = (word, shift, f)"
| "mix_bytes_loop (b # bs) word shift f =
     (let word = word OR push_bit shift (ucast b); shift = shift + 8 in
      if shift = 64 then mix_bytes_loop bs 0 0 (mix word f)
      else mix_bytes_loop bs word shift f)"

definition mix_bytes :: "bytes \<Rightarrow> WtsEventFingerprint \<Rightarrow> WtsEventFingerprint" where
  "mix_bytes bs f =
     (case mix_bytes_loop bs 0 0 f of (word, shift, f) \<Rightarrow>
        if shift \<noteq> 0 then mix (word XOR push_bit 56 (of_nat (length bs))) f else f)"

text \<open>\<open>mix(++count_)\<close>: the counter is raised first.\<close>

definition mix_count :: "WtsEventFingerprint \<Rightarrow> WtsEventFingerprint" where
  "mix_count f = (let f = f\<lparr>fp_count := fp_count f + 1\<rparr> in mix (fp_count f) f)"

definition fp_add_order_detail :: "WTSOrdDtlStruct \<Rightarrow> WtsEventFingerprint \<Rightarrow> WtsEventFingerprint" where
  "fp_add_order_detail v f =
     (let f = mix 0x4f524445525f4454 f;
          f = mix_bytes (wo_exchg v) f;
          f = mix_bytes (wo_code v) f;
          f = mix (ucast (wo_trading_date v)) f;
          f = mix (ucast (wo_action_date v)) f;
          f = mix (ucast (wo_action_time v)) f;
          f = mix (wo_index v) f;
          f = mix (wo_price v) f;
          f = mix (ucast (wo_volume v)) f;
          f = mix (ucast (wo_side v)) f;
          f = mix (ucast (wo_otype v)) f
      in mix_count f)"

definition fp_add_transaction :: "WTSTransStruct \<Rightarrow> WtsEventFingerprint \<Rightarrow> WtsEventFingerprint" where
  "fp_add_transaction v f =
     (let f = mix 0x5452414e535f4454 f;
          f = mix_bytes (wt_exchg v) f;
          f = mix_bytes (wt_code v) f;
          f = mix (ucast (wt_trading_date v)) f;
          f = mix (ucast (wt_action_date v)) f;
          f = mix (ucast (wt_action_time v)) f;
          f = mix (wt_index v) f;
          f = mix (ucast (wt_ttype v)) f;
          f = mix (ucast (wt_side v)) f;
          f = mix (wt_price v) f;
          f = mix (ucast (wt_volume v)) f;
          f = mix (wt_askorder v) f;
          f = mix (wt_bidorder v) f
      in mix_count f)"

definition fp_digest :: "WtsEventFingerprint \<Rightarrow> u64" where
  "fp_digest f = avalanche (fp_state f)"

fun fp_add :: "wts_event \<Rightarrow> WtsEventFingerprint \<Rightarrow> WtsEventFingerprint" where
  "fp_add (On_order_detail v) f = fp_add_order_detail v f"
| "fp_add (On_transaction v) f = fp_add_transaction v f"

definition fingerprint :: "wts_event list \<Rightarrow> u64" where
  "fingerprint es = fp_digest (fold fp_add es fp_reset)"

section \<open>Every step is injective\<close>

lemma xorshift_inj:
  assumes eq: "x XOR drop_bit k x = y XOR drop_bit k y" and k: "0 < k"
  shows "x = (y :: u64)"
proof (rule bit_word_eqI)
  fix n
  have "bit x n = bit y n" for n
  proof (induction "64 - n" arbitrary: n rule: less_induct)
    case less
    show ?case
    proof (cases "n < 64")
      case True
      then have "bit x (n + k) = bit y (n + k)" using less [of "n + k"] k by simp
      moreover have "bit (x XOR drop_bit k x) n = bit (y XOR drop_bit k y) n" using eq by simp
      ultimately show ?thesis by (simp add: bit_simps add.commute) blast
    qed (auto dest: bit_imp_le_length)
  qed
  then show "bit x n = bit y n" .
qed

lemma odd_mult_inj:
  assumes "c * c' = (1 :: u64)"
  shows "x * c = y * c \<longleftrightarrow> x = y"
proof
  assume "x * c = y * c"
  then have "x * c * c' = y * c * c'" by simp
  then show "x = y" using assms by (simp only: mult.assoc mult_1_right)
qed simp

lemma avalanche_inj: "avalanche x = avalanche y \<longleftrightarrow> x = y"
proof
  assume eq: "avalanche x = avalanche y"
  have m1: "(0xbf58476d1ce4e5b9 :: u64) * 0x96de1b173f119089 = 1" and m2: "(0x94d049bb133111eb :: u64) * 0x319642b2d24d8ec3 = 1" by simp_all
  let ?a = "\<lambda>x :: u64. x XOR drop_bit 30 x" and ?b = "\<lambda>x :: u64. x XOR drop_bit 27 x"
  have "?b (?a x * 0xbf58476d1ce4e5b9) * 0x94d049bb133111eb = ?b (?a y * 0xbf58476d1ce4e5b9) * 0x94d049bb133111eb"
    by (rule xorshift_inj [of _ 31]) (use eq in \<open>simp_all add: avalanche_def Let_def\<close>)
  then have "?b (?a x * 0xbf58476d1ce4e5b9) = ?b (?a y * 0xbf58476d1ce4e5b9)" by (simp only: odd_mult_inj [OF m2])
  then have "?a x * 0xbf58476d1ce4e5b9 = ?a y * 0xbf58476d1ce4e5b9" by (rule xorshift_inj) simp
  then have "?a x = ?a y" by (simp only: odd_mult_inj [OF m1])
  then show "x = y" by (rule xorshift_inj) simp
qed simp

lemma rotate_left_inj: "rotate_left x 27 = rotate_left y 27 \<longleftrightarrow> x = y"
proof
  assume eq: "rotate_left x 27 = rotate_left y 27"
  show "x = y"
  proof (rule bit_word_eqI)
    fix n assume n: "n < LENGTH(64)"
    let ?j = "if n < 37 then n + 27 else n - 37"
    have "bit (rotate_left x 27) ?j = bit (rotate_left y 27) ?j" using eq by simp
    then show "bit x n = bit y n" using n by (auto simp: rotate_left_def bit_simps dest: bit_imp_le_length split: if_splits)
  qed
qed simp

section \<open>The words of an event\<close>

fun bytes_words :: "bytes \<Rightarrow> u64 \<Rightarrow> nat \<Rightarrow> nat \<Rightarrow> u64 list" where
  "bytes_words [] word shift n = (if shift \<noteq> 0 then [word XOR push_bit 56 (of_nat n)] else [])"
| "bytes_words (b # bs) word shift n =
     (let word = word OR push_bit shift (ucast b) in
      if shift + 8 = 64 then word # bytes_words bs 0 0 n else bytes_words bs word (shift + 8) n)"

fun event_words :: "wts_event \<Rightarrow> u64 list" where
  "event_words (On_order_detail v) =
     [0x4f524445525f4454] @ bytes_words (wo_exchg v) 0 0 (length (wo_exchg v)) @ bytes_words (wo_code v) 0 0 (length (wo_code v)) @
     [ucast (wo_trading_date v), ucast (wo_action_date v), ucast (wo_action_time v), wo_index v, wo_price v, ucast (wo_volume v),
      ucast (wo_side v), ucast (wo_otype v)]"
| "event_words (On_transaction v) =
     [0x5452414e535f4454] @ bytes_words (wt_exchg v) 0 0 (length (wt_exchg v)) @ bytes_words (wt_code v) 0 0 (length (wt_code v)) @
     [ucast (wt_trading_date v), ucast (wt_action_date v), ucast (wt_action_time v), wt_index v, ucast (wt_ttype v), ucast (wt_side v),
      wt_price v, ucast (wt_volume v), wt_askorder v, wt_bidorder v]"

definition one_word_apart :: "wts_event \<Rightarrow> wts_event \<Rightarrow> bool" where
  "one_word_apart e e' \<longleftrightarrow> length (event_words e) = length (event_words e') \<and>
     length (filter (\<lambda>(w, w'). w \<noteq> w') (zip (event_words e) (event_words e'))) = 1"

lemma mix_bytes_words:
  "(case mix_bytes_loop bs word shift f of (word, shift, f) \<Rightarrow> if shift \<noteq> 0 then mix (word XOR push_bit 56 (of_nat n)) f else f) =
     fold mix (bytes_words bs word shift n) f"
  by (induction bs arbitrary: word shift f) (auto simp: Let_def)

lemma mix_bytes_fold: "mix_bytes bs f = fold mix (bytes_words bs 0 0 (length bs)) f"
  unfolding mix_bytes_def by (rule mix_bytes_words)

lemma fp_add_words: "fp_add e f = mix_count (fold mix (event_words e) f)"
  by (cases e) (simp_all add: fp_add_order_detail_def fp_add_transaction_def mix_bytes_fold Let_def)

definition apart :: "WtsEventFingerprint \<Rightarrow> WtsEventFingerprint \<Rightarrow> bool" where
  "apart f f' \<longleftrightarrow> fp_count f = fp_count f' \<and> fp_state f \<noteq> fp_state f'"

lemma final_mult_inj: "x * 0x3c79ac492ba7b653 = y * 0x3c79ac492ba7b653 \<longleftrightarrow> x = (y :: u64)"
  by (rule odd_mult_inj [of _ "0xc09c5fe5bd6dfddb"]) simp

lemma mix_state:
  "fp_state (mix w f) = rotate_left (fp_state f XOR avalanche (w + 0x9e3779b97f4a7c15 + fp_count f)) 27 * 0x3c79ac492ba7b653 + 0x1c69b3f74ac4ae35"
  "fp_count (mix w f) = fp_count f"
  by (simp_all add: mix_def Let_def)

lemma xor_cancel: "x XOR z = y XOR z \<longleftrightarrow> x = (y :: u64)" "z XOR x = z XOR y \<longleftrightarrow> x = (y :: u64)"
  by (metis bit.xor_left_self xor.commute)+

lemma apart_mix: "apart f f' \<Longrightarrow> apart (mix w f) (mix w f')"
  by (auto simp: apart_def mix_state final_mult_inj rotate_left_inj xor_cancel)

lemma apart_words: "w \<noteq> w' \<Longrightarrow> apart (mix w f) (mix w' f)"
  by (auto simp: apart_def mix_state final_mult_inj rotate_left_inj xor_cancel avalanche_inj)

lemma apart_fold: "apart f f' \<Longrightarrow> apart (fold mix ws f) (fold mix ws f')"
  by (induction ws arbitrary: f f') (auto intro: apart_mix)

lemma apart_count: "apart f f' \<Longrightarrow> apart (mix_count f) (mix_count f')"
  using apart_mix [of "f\<lparr>fp_count := fp_count f + 1\<rparr>" "f'\<lparr>fp_count := fp_count f + 1\<rparr>" "fp_count f + 1"]
  by (simp add: mix_count_def Let_def apart_def)

lemma apart_events: "apart f f' \<Longrightarrow> apart (fold fp_add es f) (fold fp_add es f')"
  by (induction es arbitrary: f f') (auto simp: fp_add_words intro: apart_fold apart_count)

lemma apart_one_word:
  "length ws = length ws' \<Longrightarrow> length (filter (\<lambda>(w, w'). w \<noteq> w') (zip ws ws')) = 1 \<Longrightarrow> apart (fold mix ws f) (fold mix ws' f)"
proof (induction ws ws' arbitrary: f rule: list_induct2)
  case (Cons w ws w' ws')
  show ?case
  proof (cases "w = w'")
    case False
    then have "\<forall>(x, y)\<in>set (zip ws ws'). x = y" using Cons.prems by (auto simp: filter_empty_conv)
    then have "map fst (zip ws ws') = map snd (zip ws ws')" by (intro map_cong refl) auto
    then have "ws = ws'" using Cons.hyps by simp
    then show ?thesis using apart_fold [OF apart_words [OF False]] by simp
  qed (use Cons in simp)
qed simp

lemma same_words: "filter (\<lambda>(w, w'). w \<noteq> w') (zip ws ws) = []"
  by (induction ws) simp_all

section \<open>Properties\<close>

text \<open>
  C31. Two event streams of the same length that differ in one 64-bit word of one event (one scalar
  member, or one group of characters) have different digests: no such change is ever masked by
  the events before or after it.
\<close>

theorem fingerprint_detects_change:
  assumes "one_word_apart e e'"
  shows "fingerprint (xs @ e # ys) \<noteq> fingerprint (xs @ e' # ys)"
proof -
  have "apart (fp_add e f) (fp_add e' f)" for f
    unfolding fp_add_words using assms by (intro apart_count apart_one_word) (auto simp: one_word_apart_def)
  from apart_events [OF this] show ?thesis by (simp add: fingerprint_def fp_digest_def avalanche_inj apart_def)
qed

theorem fingerprint_detects_change_witness:
  "fingerprint [On_order_detail \<lparr>wo_exchg = replicate 16 0, wo_code = replicate 32 65, wo_trading_date = 20190730, wo_action_date = 20190730,
      wo_action_time = 93000000, wo_index = 1, wo_price = 0, wo_volume = 100, wo_side = 66, wo_otype = 50\<rparr>] \<noteq>
   fingerprint [On_order_detail \<lparr>wo_exchg = replicate 16 0, wo_code = replicate 32 65, wo_trading_date = 20190730, wo_action_date = 20190730,
      wo_action_time = 93000000, wo_index = 1, wo_price = 0, wo_volume = 101, wo_side = 66, wo_otype = 50\<rparr>]"
  by (rule fingerprint_detects_change [of _ _ "[]" "[]", simplified append_Nil]) (simp add: one_word_apart_def same_words)

end
