(* ===== verification/ParserItch.thy ===== *)
theory ParserItch
  imports WtsReplay
begin

text \<open>
  The WonderTrader parser plug-in \<open>ParserITCH\<close>
  (\<open>integration/wondertrader/ParserITCH/ParserITCH.cpp\<close>): its configuration, the replay loop of its worker
  thread, and the control operations that start, stop and join that thread. The listener only
  receives, so the loop returns the calls made on it in order; the text of a log line is the constructor
  of \<open>parser_text\<close> with the values printed in it. The strings and numbers of the configuration are what the
  host's \<open>WTSVariant\<close> returns. What the loop reads of \<open>_stopped\<close>, which the controlling thread may
  set at any time, is a function of the number of reads.
\<close>

section \<open>State\<close>

datatype worker_thread = Worker_running | Worker_finished

record ParserITCH =
  pi_path :: bytes
  pi_symbol :: bytes
  pi_trading_date :: u32
  pi_gpsize :: u32
  pi_sink :: bool
  pi_stopped :: bool
  pi_connected :: bool
  pi_worker :: "worker_thread option"
  pi_subscriptions :: "bytes set"

definition ParserITCH_new :: ParserITCH where
  "ParserITCH_new = \<lparr>pi_path = [], pi_symbol = [], pi_trading_date = 0, pi_gpsize = 100000, pi_sink = False, pi_stopped = True,
     pi_connected = False, pi_worker = None, pi_subscriptions = {}\<rparr>"

datatype parser_event = WPE_Connect | WPE_Close | WPE_Login | WPE_Logout

datatype log_level = LL_DEBUG | LL_INFO | LL_ERROR

datatype replay_stopped = ReplayStopped

datatype parser_error = Parser_scan_failed "replay_stopped scan_exception" | Configured_symbol_not_found | Validation_failed

datatype parser_text = Required_missing | Replayed u64 | Replay_complete u64 u64 u64 | Replay_stopped_text | Error_text parser_error

datatype spi_call = Handle_event parser_event int | Handle_log log_level parser_text | Handle_data wts_event

definition parser_log :: "ParserITCH \<Rightarrow> log_level \<Rightarrow> parser_text \<Rightarrow> spi_call list \<Rightarrow> spi_call list" where
  "parser_log p level message calls = (if pi_sink p then calls @ [Handle_log level message] else calls)"

definition parser_notify :: "ParserITCH \<Rightarrow> parser_event \<Rightarrow> int \<Rightarrow> spi_call list \<Rightarrow> spi_call list" where
  "parser_notify p event code calls = (if pi_sink p then calls @ [Handle_event event code] else calls)"

text \<open>\<open>WonderTraderSink\<close>: an event is copied into a data object, handed over and released.\<close>

definition spi_sink_event :: "bool \<Rightarrow> wts_event \<Rightarrow> spi_call list \<Rightarrow> spi_call list" where
  "spi_sink_event sink ev calls = (if \<not> sink then calls else calls @ [Handle_data ev])"

section \<open>Configuration\<close>

record ParserConfig =
  pc_path :: bytes
  pc_symbol :: bytes
  pc_date :: u32
  pc_gpsize :: u32

definition parser_init :: "ParserConfig option \<Rightarrow> ParserITCH \<Rightarrow> (ParserITCH \<times> spi_call list) \<times> bool" where
  "parser_init config p =
     (case config of None \<Rightarrow> ((p, []), False)
      | Some c \<Rightarrow>
        let p = p\<lparr>pi_path := pc_path c, pi_symbol := pc_symbol c, pi_trading_date := pc_date c, pi_gpsize := pc_gpsize c\<rparr>;
            p = (if pi_gpsize p = 0 then p\<lparr>pi_gpsize := 100000\<rparr> else p)
        in if pi_path p = [] \<or> pi_symbol p = [] \<or> pi_trading_date p = 0
           then ((p, parser_log p LL_ERROR Required_missing []), False)
           else ((p, []), True))"

definition parser_subscribe :: "bytes set \<Rightarrow> ParserITCH \<Rightarrow> ParserITCH" where
  "parser_subscribe symbols p = p\<lparr>pi_subscriptions := pi_subscriptions p \<union> symbols\<rparr>"

definition parser_unsubscribe :: "bytes set \<Rightarrow> ParserITCH \<Rightarrow> ParserITCH" where
  "parser_unsubscribe symbols p = p\<lparr>pi_subscriptions := pi_subscriptions p - symbols\<rparr>"

definition parser_registerSpi :: "bool \<Rightarrow> ParserITCH \<Rightarrow> ParserITCH" where
  "parser_registerSpi listener p = p\<lparr>pi_sink := listener\<rparr>"

section \<open>The replay loop\<close>

definition parser_record :: "(nat \<Rightarrow> bool) \<Rightarrow> (u32 \<Rightarrow> u64) \<Rightarrow> ParserITCH \<Rightarrow> nat \<times> spi_call list Replay \<Rightarrow> bytes \<Rightarrow>
    ((nat \<times> spi_call list Replay) \<times> replay_stopped option) option" where
  "parser_record stopped price_bits p = (\<lambda>(reads, r) message.
     if stopped reads then Some ((reads + 1, r), Some ReplayStopped)
     else
       let r = replay_directory (pi_trading_date p) (pi_symbol p) message r;
           r = (if is_target message r then
                  let r = replay_on_message price_bits (spi_sink_event (pi_sink p)) message r;
                      r = r\<lparr>rp_target_messages := rp_target_messages r + 1\<rparr> in
                  if rp_target_messages r mod ucast (pi_gpsize p) = 0
                  then r\<lparr>rp_sink := parser_log p LL_DEBUG (Replayed (rp_target_messages r)) (rp_sink r)\<rparr> else r
                else r)
       in Some ((reads + 1, r), None))"

datatype replay_outcome = Completed PsxWtsAdapter | Stopped | Failed parser_error

definition finish_replay :: "'o Replay \<Rightarrow> replay_stopped scan_exception + FileScanResult \<Rightarrow> replay_outcome" where
  "finish_replay r scan =
     (case scan of
        Inl (Raised ReplayStopped) \<Rightarrow> Stopped
      | Inl e \<Rightarrow> Failed (Parser_scan_failed e)
      | Inr _ \<Rightarrow>
          (case rp_adapter r of
             None \<Rightarrow> Failed Configured_symbol_not_found
           | Some adapter \<Rightarrow>
               if ws_errors (wa_stats adapter) \<noteq> 0 \<or> wts_active_orders adapter \<noteq> 0 then Failed Validation_failed
               else Completed adapter))"

definition replay_end :: "ParserITCH \<Rightarrow> spi_call list \<Rightarrow> ParserITCH \<times> spi_call list" where
  "replay_end p calls =
     (let calls = parser_notify p WPE_Logout 0 calls; calls = parser_notify p WPE_Close 0 calls
      in (p\<lparr>pi_connected := False\<rparr>, calls))"

definition replay_loop :: "('f \<Rightarrow> nat \<Rightarrow> 'f \<times> read_result) \<Rightarrow> (bytes \<Rightarrow> 'f option) \<Rightarrow> (nat \<Rightarrow> bool) \<Rightarrow> (u32 \<Rightarrow> u64) \<Rightarrow> ParserITCH \<Rightarrow>
    (ParserITCH \<times> spi_call list) option" where
  "replay_loop rd opens stopped price_bits p =
     (let calls = parser_notify p WPE_Connect 0 []; calls = parser_notify p WPE_Login 0 calls in
      Option.bind (scan_historical_file rd (opens (pi_path p)) (parser_record stopped price_bits p) (0, Replay_new calls)) (\<lambda>((reads, r), scan).
        case finish_replay r scan of
          Completed adapter \<Rightarrow>
            Some (replay_end p (parser_log p LL_INFO (Replay_complete (rp_target_messages r) (ws_order_details (wa_stats adapter))
              (ws_transactions (wa_stats adapter))) (rp_sink r)))
        | Stopped \<Rightarrow> Some (replay_end p (parser_log p LL_INFO Replay_stopped_text (rp_sink r)))
        | Failed e \<Rightarrow>
            let calls = parser_log p LL_ERROR (Error_text e) (rp_sink r); calls = parser_notify p WPE_Close (- 1) calls
            in Some (p\<lparr>pi_connected := False\<rparr>, calls)))"

text \<open>The divisor of the progress report is never zero.\<close>

lemma gpsize_positive:
  "pi_gpsize ParserITCH_new \<noteq> 0" "pi_gpsize p \<noteq> 0 \<Longrightarrow> pi_gpsize (fst (fst (parser_init config p))) \<noteq> 0"
  by (auto simp: ParserITCH_new_def parser_init_def Let_def split: option.split)

section \<open>What the listener sees\<close>

fun is_log :: "spi_call \<Rightarrow> bool" where
  "is_log (Handle_log _ _) = True"
| "is_log _ = False"

abbreviation without_logs :: "spi_call list \<Rightarrow> spi_call list" where
  "without_logs \<equiv> filter (\<lambda>c. \<not> is_log c)"

text \<open>The replay of one symbol as such: the events in order, no listener.\<close>

definition replay_trace :: "(u32 \<Rightarrow> u64) \<Rightarrow> u32 \<Rightarrow> bytes \<Rightarrow> bytes list \<Rightarrow> wts_event list Replay" where
  "replay_trace price_bits trading_date symbol ms =
     fold (replay_record price_bits (\<lambda>ev evs. evs @ [ev]) trading_date symbol) ms (Replay_new [])"

lemma fold_append: "fold (\<lambda>ev evs. evs @ [ev]) evs xs = xs @ evs"
  by (induction evs arbitrary: xs) simp_all

lemma fold_sink_event: "fold (spi_sink_event True) evs calls = calls @ map Handle_data evs"
  by (induction evs arbitrary: calls) (simp_all add: spi_sink_event_def)

lemma no_log_data [simp]: "without_logs (map Handle_data evs) = map Handle_data evs"
  by (induction evs) simp_all

definition traced :: "spi_call list \<Rightarrow> wts_event list Replay \<Rightarrow> spi_call list Replay \<Rightarrow> bool" where
  "traced pre t r \<longleftrightarrow> rp_adapter r = rp_adapter t \<and> rp_locator r = rp_locator t \<and> rp_target_messages r = rp_target_messages t \<and>
     without_logs (rp_sink r) = pre @ map Handle_data (rp_sink t)"

lemma traced_directory: "traced pre t r \<Longrightarrow> traced pre (replay_directory date symbol m t) (replay_directory date symbol m r)"
  by (simp add: traced_def replay_directory_def Let_def)

lemma traced_target: "traced pre t r \<Longrightarrow> is_target m r = is_target m t"
  by (simp add: traced_def is_target_def)

lemma traced_step:
  assumes "traced pre t r" "pi_sink p" "\<not> stopped k"
  obtains r' where "parser_record stopped pb p (k, r) m = Some ((k + 1, r'), None)"
    "traced pre (replay_record pb (\<lambda>ev evs. evs @ [ev]) (pi_trading_date p) (pi_symbol p) m t) r'"
proof -
  let ?r = "replay_directory (pi_trading_date p) (pi_symbol p) m r" and ?t = "replay_directory (pi_trading_date p) (pi_symbol p) m t"
  have tr: "traced pre ?t ?r" by (rule traced_directory [OF assms(1)])
  show thesis
  proof (cases "is_target m ?t")
    case False
    then show thesis using that [of ?r] tr assms(3) by (simp add: parser_record_def replay_record_def traced_target [OF tr])
  next
    case True
    then show thesis
      using that tr assms(2,3)
      by (auto simp: parser_record_def replay_record_def traced_target [OF tr] replay_on_message_def Let_def case_prod_unfold
          fold_append fold_sink_event parser_log_def traced_def)
  qed
qed

lemma traced_feed:
  assumes "traced pre t r" "pi_sink p" "j \<le> length ms" "\<forall>i<j. \<not> stopped (k + i)" "j = length ms \<or> stopped (k + j)"
  shows "\<exists>reads r'. feed_messages (parser_record stopped pb p) ms (k, r) =
      Some ((reads, r'), if j = length ms then None else Some ReplayStopped) \<and>
    traced pre (fold (replay_record pb (\<lambda>ev evs. evs @ [ev]) (pi_trading_date p) (pi_symbol p)) (take j ms) t) r'"
  using assms
proof (induction ms arbitrary: t r k j)
  case Nil
  then show ?case by simp
next
  case (Cons m ms)
  show ?case
  proof (cases j)
    case 0
    then have "parser_record stopped pb p (k, r) m = Some ((k + 1, r), Some ReplayStopped)"
      using Cons.prems(5) by (simp add: parser_record_def)
    then show ?thesis using 0 Cons.prems(1) by simp
  next
    case (Suc j')
    have "\<not> stopped k" using Cons.prems(4) Suc by (metis add_0_right zero_less_Suc)
    then obtain r1 where r1: "parser_record stopped pb p (k, r) m = Some ((k + 1, r1), None)"
      "traced pre (replay_record pb (\<lambda>ev evs. evs @ [ev]) (pi_trading_date p) (pi_symbol p) m t) r1"
      by (rule traced_step [OF Cons.prems(1,2)])
    have rest: "\<forall>i<j'. \<not> stopped (k + 1 + i)" using Cons.prems(4) Suc by (metis add.commute add.left_commute plus_1_eq_Suc Suc_less_eq)
    have "j' = length ms \<or> stopped (k + 1 + j')" "j' \<le> length ms" using Cons.prems(3,5) Suc by auto
    from Cons.IH [OF r1(2) Cons.prems(2) this(2) rest this(1)] show ?thesis using r1(1) Suc by simp
  qed
qed

lemma outcome_end:
  "finish_replay r (Inr scan) = (case rp_adapter r of None \<Rightarrow> Failed Configured_symbol_not_found
     | Some a \<Rightarrow> if ws_errors (wa_stats a) = 0 \<and> wts_active_orders a = 0 then Completed a else Failed Validation_failed)"
  by (simp add: finish_replay_def split: option.split)

lemma replay_loop_trace:
  assumes "reads_file rd contents signals" "opens (pi_path p) = Some fd" "contents fd = concat (map encode_block ms)" "valid_records ms"
    "pi_sink p" "j \<le> length ms" "\<forall>i<j. \<not> stopped i" "j = length ms \<or> stopped j"
    "t = replay_trace price_bits (pi_trading_date p) (pi_symbol p) (take j ms)"
  shows "\<exists>calls. replay_loop rd opens stopped price_bits p = Some (p\<lparr>pi_connected := False\<rparr>, calls) \<and>
    without_logs calls = [Handle_event WPE_Connect 0, Handle_event WPE_Login 0] @ map Handle_data (rp_sink t) @
      (if j < length ms \<or> (\<exists>a. rp_adapter t = Some a \<and> ws_errors (wa_stats a) = 0 \<and> wts_active_orders a = 0)
       then [Handle_event WPE_Logout 0, Handle_event WPE_Close 0] else [Handle_event WPE_Close (- 1)])"
proof -
  let ?pre = "[Handle_event WPE_Connect 0, Handle_event WPE_Login 0]"
  have "traced ?pre (Replay_new []) (Replay_new ?pre)" by (simp add: traced_def Replay_new_def)
  from traced_feed [OF this assms(5,6), of stopped 0 price_bits] assms(7-9)
  obtain reads r where f: "feed_messages (parser_record stopped price_bits p) ms (0, Replay_new ?pre) =
      Some ((reads, r), if j = length ms then None else Some ReplayStopped)" and t: "traced ?pre t r"
    by (auto simp: replay_trace_def)
  obtain scan where scan: "scan_historical_file rd (opens (pi_path p)) (parser_record stopped price_bits p) (0, Replay_new ?pre) = Some ((reads, r), scan)"
    "if j = length ms then \<exists>result. scan = Inr result else scan = Inl (Raised ReplayStopped)"
    unfolding assms(2) scan_open [OF assms(1)] assms(3) scan_spec_blocks [OF assms(4)] f by auto
  show ?thesis
    using scan t assms(5,6)
    by (auto simp: replay_loop_def parser_notify_def parser_log_def replay_end_def Let_def outcome_end traced_def finish_replay_def
        split: if_splits option.splits)
qed

text \<open>Any sink of the replay is fed the events of the trace.\<close>

definition fed :: "(wts_event \<Rightarrow> 'o \<Rightarrow> 'o) \<Rightarrow> 'o \<Rightarrow> wts_event list Replay \<Rightarrow> 'o Replay \<Rightarrow> bool" where
  "fed deliver o0 t r \<longleftrightarrow> rp_adapter r = rp_adapter t \<and> rp_locator r = rp_locator t \<and> rp_target_messages r = rp_target_messages t \<and>
     rp_sink r = fold deliver (rp_sink t) o0"

lemma fed_step:
  assumes "fed deliver o0 t r"
  shows "fed deliver o0 (replay_record pb (\<lambda>ev evs. evs @ [ev]) date symbol m t) (replay_record pb deliver date symbol m r)"
proof -
  have "fed deliver o0 (replay_directory date symbol m t) (replay_directory date symbol m r)"
    using assms by (simp add: fed_def replay_directory_def Let_def)
  then show ?thesis
    by (simp add: replay_record_def Let_def fed_def is_target_def replay_on_message_def fold_append case_prod_unfold)
qed

lemma fed_trace: "fed deliver o0 (replay_trace pb date symbol ms) (fold (replay_record pb deliver date symbol) ms (Replay_new o0))"
proof -
  have "fed deliver o0 (fold (replay_record pb (\<lambda>ev evs. evs @ [ev]) date symbol) ms t) (fold (replay_record pb deliver date symbol) ms r)"
    if "fed deliver o0 t r" for t r
    using that by (induction ms arbitrary: t r) (simp_all add: fed_step)
  then show ?thesis unfolding replay_trace_def by (simp add: fed_def Replay_new_def)
qed

section \<open>Properties of the replay loop\<close>

text \<open>
  C16. The parser plug-in on a well-formed file of which it reads \<open>j\<close> records before a stop request or the
  end: between the connect and login events and the closing ones the listener is handed exactly the
  events the WonderTrader adapter makes of the records with the symbol's locate code from its one
  directory record on, in order; a stopped replay ends with logout and close, and a full one does
  so exactly if the adapter has no error and the order census of these records ends empty, and
  reports the failure by a close with code -1 otherwise.
\<close>

theorem parser_replays_symbol:
  assumes "reads_file rd contents signals" "opens (pi_path p) = Some fd" "contents fd = concat (map encode_block ms)" "valid_records ms"
    "pi_sink p" "j \<le> length ms" "\<forall>i<j. \<not> stopped i" "j = length ms \<or> stopped j"
    "take j ms = pre @ d # post" "is_directory (pi_symbol p) d"
    "\<forall>m\<in>set pre. \<not> is_directory (pi_symbol p) m" "\<forall>m\<in>set post. \<not> is_directory (pi_symbol p) m"
    "l = read_u16 d 1" "msgs = target_records l (d # post)"
    "wts_run price_bits msgs (PsxWtsAdapter_new (pi_trading_date p) l (pi_symbol p), []) = (a, events)"
  shows "\<exists>calls. replay_loop rd opens stopped price_bits p = Some (p\<lparr>pi_connected := False\<rparr>, calls) \<and>
    without_logs calls = [Handle_event WPE_Connect 0, Handle_event WPE_Login 0] @ map Handle_data events @
      (if j < length ms \<or> ws_errors (wa_stats a) = 0 \<and> lc_active_orders (lc_run msgs OrderLifecycle_new) = 0
       then [Handle_event WPE_Logout 0, Handle_event WPE_Close 0] else [Handle_event WPE_Close (- 1)])"
proof -
  let ?t = "replay_trace price_bits (pi_trading_date p) (pi_symbol p) (take j ms)"
  have "?t = \<lparr>rp_adapter = Some a, rp_locator = l, rp_target_messages = of_nat (length msgs), rp_sink = events\<rparr>"
    using assms(15) unfolding replay_trace_def assms(9) directory_only [OF assms(10-12)] Let_def assms(13) [symmetric] assms(14) [symmetric]
    by (simp add: fold_append)
  moreover have "wts_active_orders a = lc_active_orders (lc_run msgs OrderLifecycle_new)"
    using run_active_orders [of price_bits l "d # post" "pi_trading_date p" "pi_symbol p"] assms(15) unfolding assms(14) by simp
  ultimately show ?thesis using replay_loop_trace [where opens = opens and p = p and contents = contents and fd = fd and stopped = stopped and j = j, OF assms(1-8) refl, of price_bits] by simp
qed

theorem parser_replays_symbol_witness:
  "\<exists>p calls. replay_loop slow_read (\<lambda>path. Some (1, concat (map encode_block [itch_directory, [68, 1]]))) (\<lambda>i. i = 1) (\<lambda>pr. ucast pr)
      (ParserITCH_new\<lparr>pi_symbol := [65, 65], pi_sink := True\<rparr>) = Some (p, calls) \<and> \<not> pi_connected p \<and>
    without_logs calls = [Handle_event WPE_Connect 0, Handle_event WPE_Login 0, Handle_event WPE_Logout 0, Handle_event WPE_Close 0]"
proof -
  let ?p = "ParserITCH_new\<lparr>pi_symbol := [65, 65], pi_sink := True\<rparr>"
  let ?new = "(PsxWtsAdapter_new (pi_trading_date ?p) 7 (pi_symbol ?p), []) :: wts_state"
  have p: "pi_sink ?p" "pi_symbol ?p = [65, 65]" "pi_trading_date ?p = 0" by (simp_all add: ParserITCH_new_def)
  have sizes: "valid_records [itch_directory, [68, 1]]" using itch_directory_facts(3,7) by (simp add: valid_records_def)
  obtain a where run: "wts_run (\<lambda>pr. ucast pr) [(itch_directory, 39)] ?new = (a, [])"
    using itch_directory_facts(2,4)
    by (simp add: wts_run_def wts_on_message_def wts_dispatch_def PsxWtsAdapter_new_def expected_message_size_def Let_def)
  have d: "is_directory (pi_symbol ?p) itch_directory" "7 = read_u16 itch_directory 1" "[(itch_directory, 39)] = target_records 7 [itch_directory]"
    using itch_directory_facts(1,2,6) p(2) by (simp_all only:)
  have stop: "\<forall>i<1. \<not> i = (1::nat)" "1 = length [itch_directory, [68, 1]] \<or> 1 = (1::nat)" "1 \<le> length [itch_directory, [68, 1]]"
    "take 1 [itch_directory, [68, 1]] = [] @ itch_directory # []" by simp_all
  have contents: "snd (1 :: nat, concat (map encode_block [itch_directory, [68, 1]])) = concat (map encode_block [itch_directory, [68, 1]])" by simp
  note result = parser_replays_symbol [where opens = "\<lambda>path. Some (1, concat (map encode_block [itch_directory, [68, 1]]))" and p = ?p and contents = snd
        and fd = "(1, concat (map encode_block [itch_directory, [68, 1]]))" and stopped = "\<lambda>i. i = 1" and price_bits = "\<lambda>pr. ucast pr" and events = "[]",
        OF slow_read_reads refl contents sizes p(1) stop(3,1,2,4) d(1) _ _ d(2,3) run]
  have "length [itch_directory, [68, 1]] > 1" by simp
  with result show ?thesis by (auto simp: ParserITCH_new_def)
qed

text \<open>
  C28. The audit tool vouches for the plug-in: if the replay tool accepts a well-formed file for a symbol and
  date with status zero, the plug-in configured with them and not stopped replays the file to the end and
  closes with code 0, and the events it hands to its listener are those the tool audited.
\<close>

theorem audited_file_replays_clean:
  assumes "reads_file rd contents signals" "opens (pi_path p) = Some fd" "contents fd = concat (map encode_block ms)" "valid_records ms"
    "pi_sink p" "\<forall>i. \<not> stopped i"
    "wts_replay rd (Some fd) price_bits nonpositive (pi_trading_date p) (pi_symbol p) = Some (r, Inr 0)"
  shows "\<exists>calls events. replay_loop rd opens stopped price_bits p = Some (p\<lparr>pi_connected := False\<rparr>, calls) \<and>
    without_logs calls = [Handle_event WPE_Connect 0, Handle_event WPE_Login 0] @ map Handle_data events @
      [Handle_event WPE_Logout 0, Handle_event WPE_Close 0] \<and>
    rp_sink r = fold (audit_event nonpositive) events AuditSink_new"
proof -
  let ?t = "replay_trace price_bits (pi_trading_date p) (pi_symbol p) ms"
  let ?r = "fold (replay_record price_bits (audit_event nonpositive) (pi_trading_date p) (pi_symbol p)) ms (Replay_new AuditSink_new)"
  have "fed (audit_event nonpositive) AuditSink_new ?t ?r" by (rule fed_trace)
  moreover have "r = ?r \<and> (\<exists>a. rp_adapter ?r = Some a \<and> ws_errors (wa_stats a) = 0 \<and> wts_active_orders a = 0)"
    using assms(7) unfolding wts_replay_def
      scan_total [OF assms(1,3,4), of "replay_record price_bits (audit_event nonpositive) (pi_trading_date p) (pi_symbol p)"]
    by (auto simp: replay_status_def Let_def split: option.splits if_splits)
  ultimately have "rp_sink r = fold (audit_event nonpositive) (rp_sink ?t) AuditSink_new"
    "\<exists>a. rp_adapter ?t = Some a \<and> ws_errors (wa_stats a) = 0 \<and> wts_active_orders a = 0" by (simp_all add: fed_def)
  then show ?thesis using replay_loop_trace [where opens = opens and p = p and contents = contents and fd = fd and stopped = stopped and j = "length ms",
      OF assms(1-5), of _ price_bits] assms(6) by auto
qed

theorem audited_file_replays_clean_witness:
  "\<exists>p calls. replay_loop slow_read (\<lambda>path. Some (1, concat (map encode_block [itch_directory]))) (\<lambda>i. False) (\<lambda>pr. ucast pr)
      (ParserITCH_new\<lparr>pi_symbol := [65, 65], pi_sink := True\<rparr>) = Some (p, calls) \<and> last (without_logs calls) = Handle_event WPE_Close 0"
proof -
  let ?p = "ParserITCH_new\<lparr>pi_symbol := [65, 65], pi_sink := True\<rparr>" and ?fd = "(1 :: nat, concat (map encode_block [itch_directory]))"
  have p: "pi_sink ?p" "\<forall>i::nat. \<not> False" by (simp_all add: ParserITCH_new_def)
  have recs: "snd ?fd = concat (map encode_block [itch_directory])" "valid_records [itch_directory]"
    using itch_directory_facts(3,7) by (simp_all add: valid_records_def)
  have "\<exists>r. wts_replay slow_read (Some ?fd) (\<lambda>pr. ucast pr) (\<lambda>b. b = 0) (pi_trading_date ?p) (pi_symbol ?p) = Some (r, Inr 0)"
    unfolding wts_replay_def scan_total [OF slow_read_reads recs, of "replay_record (\<lambda>pr. ucast pr) (audit_event (\<lambda>b. b = 0)) (pi_trading_date ?p) (pi_symbol ?p)"]
    using itch_directory_facts(1-4)
    by (simp add: replay_record_def replay_directory_def is_target_def replay_on_message_def Replay_new_def wts_on_message_def wts_dispatch_def
        PsxWtsAdapter_new_def WtsAdapterStats_zero_def AuditSink_new_def wts_active_orders_def replay_status_def expected_message_size_def ParserITCH_new_def Let_def)
  then obtain r where "wts_replay slow_read (Some ?fd) (\<lambda>pr. ucast pr) (\<lambda>b. b = 0) (pi_trading_date ?p) (pi_symbol ?p) = Some (r, Inr 0)" by blast
  from audited_file_replays_clean [where opens = "\<lambda>path. Some ?fd" and p = ?p and contents = snd and fd = ?fd and stopped = "\<lambda>i. False",
      OF slow_read_reads refl recs p this] show ?thesis by fastforce
qed

section \<open>Control of the worker thread\<close>

text \<open>
  The shared accesses of \<open>connect\<close> and \<open>disconnect\<close> in order, as steps of the one controlling thread, interleaved
  with the end of the worker, whose last access is the store to \<open>_connected\<close>. A \<open>std::thread\<close> stays
  joinable until it is joined; replacing a joinable one calls \<open>std::terminate\<close>.
\<close>

datatype control = Idle | Connect_check | Connect_join | Connect_start | Connect_set | Connect_spawn
  | Disconnect_join | Disconnect_clear | Terminated

inductive parser_step :: "ParserITCH \<times> control \<Rightarrow> ParserITCH \<times> control \<Rightarrow> bool" where
  connect: "parser_step (p, Idle) (p, if pi_worker p \<noteq> None then Connect_check else Connect_start)"
| connect_check: "parser_step (p, Connect_check) (p, if pi_connected p then Idle else Connect_join)"
| connect_join: "pi_worker p = Some Worker_finished \<Longrightarrow> parser_step (p, Connect_join) (p\<lparr>pi_worker := None\<rparr>, Connect_start)"
| connect_start: "parser_step (p, Connect_start) (p\<lparr>pi_stopped := False\<rparr>, Connect_set)"
| connect_set: "parser_step (p, Connect_set) (p\<lparr>pi_connected := True\<rparr>, Connect_spawn)"
| connect_spawn: "parser_step (p, Connect_spawn) (if pi_worker p = None then (p\<lparr>pi_worker := Some Worker_running\<rparr>, Idle) else (p, Terminated))"
| disconnect: "parser_step (p, Idle) (p\<lparr>pi_stopped := True\<rparr>, if pi_worker p \<noteq> None then Disconnect_join else Disconnect_clear)"
| disconnect_join: "pi_worker p = Some Worker_finished \<Longrightarrow> parser_step (p, Disconnect_join) (p\<lparr>pi_worker := None\<rparr>, Disconnect_clear)"
| disconnect_clear: "parser_step (p, Disconnect_clear) (p\<lparr>pi_connected := False\<rparr>, Idle)"
| worker_exit: "pi_worker p = Some Worker_running \<Longrightarrow> parser_step (p, c) (p\<lparr>pi_connected := False, pi_worker := Some Worker_finished\<rparr>, c)"

fun control_inv :: "ParserITCH \<times> control \<Rightarrow> bool" where
  "control_inv (p, Idle) \<longleftrightarrow> pi_connected p = (pi_worker p = Some Worker_running) \<and> (pi_stopped p \<longrightarrow> pi_worker p = None)"
| "control_inv (p, Connect_check) \<longleftrightarrow> pi_worker p \<noteq> None \<and> pi_connected p = (pi_worker p = Some Worker_running) \<and> \<not> pi_stopped p"
| "control_inv (p, Connect_join) \<longleftrightarrow> pi_worker p = Some Worker_finished \<and> \<not> pi_connected p"
| "control_inv (p, Connect_start) \<longleftrightarrow> pi_worker p = None \<and> \<not> pi_connected p"
| "control_inv (p, Connect_set) \<longleftrightarrow> pi_worker p = None \<and> \<not> pi_stopped p"
| "control_inv (p, Connect_spawn) \<longleftrightarrow> pi_worker p = None \<and> pi_connected p \<and> \<not> pi_stopped p"
| "control_inv (p, Disconnect_join) \<longleftrightarrow> pi_worker p \<noteq> None \<and> pi_stopped p"
| "control_inv (p, Disconnect_clear) \<longleftrightarrow> pi_worker p = None \<and> pi_stopped p"
| "control_inv (p, Terminated) \<longleftrightarrow> False"

lemma control_step: "parser_step s s' \<Longrightarrow> control_inv s \<Longrightarrow> control_inv s'"
proof (induction rule: parser_step.induct)
  case (worker_exit p c)
  then show ?case by (cases c) auto
next
  case (connect_check p)
  then show ?case by (cases "the (pi_worker p)") auto
qed auto

lemma control_reachable: "parser_step\<^sup>*\<^sup>* s s' \<Longrightarrow> control_inv s \<Longrightarrow> control_inv s'"
  by (induction rule: rtranclp_induct) (auto intro: control_step)

lemma control_progress: "control_inv (p, c) \<Longrightarrow> c \<noteq> Idle \<Longrightarrow> \<exists>s'. parser_step (p, c) s'"
proof (cases c)
  case Disconnect_join
  moreover assume "control_inv (p, c)"
  ultimately obtain w where "pi_worker p = Some w" by auto
  then show ?thesis using Disconnect_join by (cases w) (blast intro: parser_step.intros)+
next
  case Connect_spawn
  then show ?thesis using parser_step.connect_spawn by metis
qed (auto intro: parser_step.intros)

text \<open>
  C29. However the controlling thread's calls of \<open>connect\<close> and \<open>disconnect\<close> interleave with the end of
  a replay: no joinable thread is ever replaced, a call in progress can always proceed or waits for a
  worker that can end, and between the calls \<open>isConnected\<close> tells whether a worker is running, and a parser
  that was asked to stop has none.
\<close>

theorem parser_control_safe:
  assumes "parser_step\<^sup>*\<^sup>* (ParserITCH_new, Idle) (p, c)"
  shows "c \<noteq> Terminated \<and> (c \<noteq> Idle \<longrightarrow> (\<exists>s'. parser_step (p, c) s')) \<and>
    (c = Idle \<longrightarrow> pi_connected p = (pi_worker p = Some Worker_running) \<and> (pi_stopped p \<longrightarrow> pi_worker p = None))"
proof -
  have "control_inv (ParserITCH_new, Idle)" by (simp add: ParserITCH_new_def)
  then have "control_inv (p, c)" by (rule control_reachable [OF assms])
  then show ?thesis using control_progress by (cases c) auto
qed

theorem parser_control_safe_witness:
  "\<exists>p. parser_step\<^sup>*\<^sup>* (ParserITCH_new, Idle) (p, Connect_join) \<and> (\<exists>s'. parser_step (p, Connect_join) s')"
proof -
  let ?p = "ParserITCH_new\<lparr>pi_stopped := False, pi_connected := True, pi_worker := Some Worker_running\<rparr>"
  let ?q = "?p\<lparr>pi_connected := False, pi_worker := Some Worker_finished\<rparr>"
  note steps = parser_step.intros
  have "parser_step\<^sup>*\<^sup>* (ParserITCH_new, Idle) (?p, Idle)"
    using steps(1) [of ParserITCH_new] steps(4) [of ParserITCH_new] steps(5) [of "ParserITCH_new\<lparr>pi_stopped := False\<rparr>"]
      steps(6) [of "ParserITCH_new\<lparr>pi_stopped := False, pi_connected := True\<rparr>"]
    by (auto simp: ParserITCH_new_def intro: converse_rtranclp_into_rtranclp)
  moreover have "parser_step\<^sup>*\<^sup>* (?p, Idle) (?q, Connect_join)"
    using steps(10) [of ?p Idle] steps(1) [of ?q] steps(2) [of ?q] by (auto intro: converse_rtranclp_into_rtranclp)
  ultimately have reach: "parser_step\<^sup>*\<^sup>* (ParserITCH_new, Idle) (?q, Connect_join)" by (rule rtranclp_trans)
  from parser_control_safe [OF this] have "\<exists>s'. parser_step (?q, Connect_join) s'" by simp
  with reach show ?thesis by blast
qed

end
