(* ===== verification/SpscRing.thy ===== *)
theory SpscRing
  imports Prelude
begin

text \<open>
  \<open>SpscRing\<close> (\<open>components/include/qtrader/SpscRing.hpp\<close>): the bounded queue of one producer and
  one consumer. The operations are first given as the code has them, for a thread that runs alone;
  then the two threads run statement by statement in any interleaving. An acquire load of the
  other thread's index may return an old value: each thread reads its own view of that index,
  which a separate step brings up to date. The capacity is the length of the buffer, a power of two.
\<close>

section \<open>The operations\<close>

datatype FullPolicy = Policy_Reject | Policy_Spin | Policy_DropNewest
datatype PushResult = Push_Pushed | Push_Full | Push_Dropped

record 'a SpscRing =
  sp_buffer :: "'a list"
  sp_published :: nat
  sp_head :: nat
  sp_tail :: nat
  sp_local_tail :: nat

definition SpscRing_new :: "nat \<Rightarrow> 'a \<Rightarrow> 'a SpscRing" where
  "SpscRing_new capacity init = \<lparr>sp_buffer = replicate capacity init, sp_published = 0, sp_head = 0, sp_tail = 0, sp_local_tail = 0\<rparr>"

definition next_index :: "'a SpscRing \<Rightarrow> nat \<Rightarrow> nat" where
  "next_index r i = (i + 1) AND (length (sp_buffer r) - 1)"

definition try_push :: "'a \<Rightarrow> 'a SpscRing \<Rightarrow> 'a SpscRing \<times> bool" where
  "try_push v r =
     (let head = sp_head r; next = next_index r head in
      if next = sp_tail r then (r, False)
      else (r\<lparr>sp_buffer := (sp_buffer r)[head := v], sp_head := next, sp_published := next\<rparr>, True))"

definition try_pop :: "'a SpscRing \<Rightarrow> 'a SpscRing \<times> 'a option" where
  "try_pop r =
     (let tail = sp_local_tail r in
      if tail = sp_published r then (r, None)
      else
        let value = sp_buffer r ! tail; next = next_index r tail in
        (r\<lparr>sp_local_tail := next, sp_tail := next\<rparr>, Some value))"

text \<open>
  \<open>push\<close> under \<open>Spin\<close> yields until the consumer has made room; \<open>others i\<close> is what the other
  thread does during the \<open>i\<close>-th yield. A push that never finds room does not return.
\<close>

partial_function (option) spin_push :: "(nat \<Rightarrow> 'a SpscRing \<Rightarrow> 'a SpscRing) \<Rightarrow> nat \<Rightarrow> 'a \<Rightarrow> 'a SpscRing \<Rightarrow> 'a SpscRing option" where
  "spin_push others i v r =
     (case try_push v r of (r', pushed) \<Rightarrow> if pushed then Some r' else spin_push others (Suc i) v (others i r'))"

definition push :: "(nat \<Rightarrow> 'a SpscRing \<Rightarrow> 'a SpscRing) \<Rightarrow> 'a \<Rightarrow> FullPolicy \<Rightarrow> u64 \<Rightarrow> 'a SpscRing \<Rightarrow>
    ('a SpscRing \<times> PushResult \<times> u64) option" where
  "push others v policy dropped r =
     (if policy = Policy_Spin then map_option (\<lambda>r. (r, Push_Pushed, dropped)) (spin_push others 0 v r)
      else case try_push v r of (r, pushed) \<Rightarrow>
        if pushed then Some (r, Push_Pushed, dropped)
        else if policy = Policy_DropNewest then Some (r, Push_Dropped, dropped + 1)
        else Some (r, Push_Full, dropped))"

text \<open>A spinning push returns as soon as the other thread has made room at some yield.\<close>

fun yielded :: "(nat \<Rightarrow> 'a SpscRing \<Rightarrow> 'a SpscRing) \<Rightarrow> nat \<Rightarrow> nat \<Rightarrow> 'a SpscRing \<Rightarrow> 'a SpscRing" where
  "yielded others i 0 r = r"
| "yielded others i (Suc j) r = yielded others (Suc i) j (others i r)"

lemma spin_push_returns:
  assumes "snd (try_push v (yielded others i j r))"
  shows "\<exists>r'. spin_push others i v r = Some r'"
  using assms
proof (induction j arbitrary: i r)
  case 0
  then show ?case by (subst spin_push.simps) (simp add: case_prod_unfold)
next
  case (Suc j)
  have "fst (try_push v r) = r" if "\<not> snd (try_push v r)" using that by (simp add: try_push_def Let_def split: if_splits)
  then show ?case using Suc by (subst spin_push.simps) (simp add: case_prod_unfold)
qed

section \<open>The threads\<close>

text \<open>
  Where a thread is inside \<open>try_push\<close> and \<open>try_pop\<close>: after the test, after the access to the
  buffer, after the update of its private index.
\<close>

datatype 'a producer_pc = P_idle | P_tested 'a nat | P_written nat | P_advanced nat
datatype 'a consumer_pc = C_idle | C_tested nat | C_read 'a nat | C_advanced 'a nat

record 'a spsc_threads =
  th_ring :: "'a SpscRing"
  th_tail_seen :: nat
  th_published_seen :: nat
  th_producer :: "'a producer_pc"
  th_consumer :: "'a consumer_pc"

definition spsc_threads_new :: "nat \<Rightarrow> 'a \<Rightarrow> 'a spsc_threads" where
  "spsc_threads_new capacity init = \<lparr>th_ring = SpscRing_new capacity init, th_tail_seen = 0, th_published_seen = 0,
     th_producer = P_idle, th_consumer = C_idle\<rparr>"

datatype 'a spsc_event = Ev_silent | Ev_full 'a | Ev_pushed | Ev_write 'a nat | Ev_empty | Ev_read nat | Ev_popped 'a

inductive spsc_step :: "'a spsc_threads \<Rightarrow> 'a spsc_event \<Rightarrow> 'a spsc_threads \<Rightarrow> bool" where
  see_tail: "spsc_step s Ev_silent (s\<lparr>th_tail_seen := sp_tail (th_ring s)\<rparr>)"
| see_published: "spsc_step s Ev_silent (s\<lparr>th_published_seen := sp_published (th_ring s)\<rparr>)"
| push_full: "th_producer s = P_idle \<Longrightarrow> next_index (th_ring s) (sp_head (th_ring s)) = th_tail_seen s \<Longrightarrow>
    spsc_step s (Ev_full v) s"
| push_test: "th_producer s = P_idle \<Longrightarrow> next = next_index (th_ring s) (sp_head (th_ring s)) \<Longrightarrow> next \<noteq> th_tail_seen s \<Longrightarrow>
    spsc_step s Ev_silent (s\<lparr>th_producer := P_tested v next\<rparr>)"
| push_write: "th_producer s = P_tested v next \<Longrightarrow> i = sp_head (th_ring s) \<Longrightarrow>
    spsc_step s (Ev_write v i) (s\<lparr>th_ring := (th_ring s)\<lparr>sp_buffer := (sp_buffer (th_ring s))[i := v]\<rparr>, th_producer := P_written next\<rparr>)"
| push_advance: "th_producer s = P_written next \<Longrightarrow>
    spsc_step s Ev_silent (s\<lparr>th_ring := (th_ring s)\<lparr>sp_head := next\<rparr>, th_producer := P_advanced next\<rparr>)"
| push_publish: "th_producer s = P_advanced next \<Longrightarrow>
    spsc_step s Ev_pushed (s\<lparr>th_ring := (th_ring s)\<lparr>sp_published := next\<rparr>, th_producer := P_idle\<rparr>)"
| pop_empty: "th_consumer s = C_idle \<Longrightarrow> sp_local_tail (th_ring s) = th_published_seen s \<Longrightarrow> spsc_step s Ev_empty s"
| pop_test: "th_consumer s = C_idle \<Longrightarrow> t = sp_local_tail (th_ring s) \<Longrightarrow> t \<noteq> th_published_seen s \<Longrightarrow>
    spsc_step s Ev_silent (s\<lparr>th_consumer := C_tested t\<rparr>)"
| pop_read: "th_consumer s = C_tested t \<Longrightarrow>
    spsc_step s (Ev_read t) (s\<lparr>th_consumer := C_read (sp_buffer (th_ring s) ! t) (next_index (th_ring s) t)\<rparr>)"
| pop_advance: "th_consumer s = C_read v next \<Longrightarrow>
    spsc_step s Ev_silent (s\<lparr>th_ring := (th_ring s)\<lparr>sp_local_tail := next\<rparr>, th_consumer := C_advanced v next\<rparr>)"
| pop_release: "th_consumer s = C_advanced v next \<Longrightarrow>
    spsc_step s (Ev_popped v) (s\<lparr>th_ring := (th_ring s)\<lparr>sp_tail := next\<rparr>, th_consumer := C_idle\<rparr>)"

inductive_cases spsc_stepE: "spsc_step s ev s'"

inductive spsc_run :: "'a spsc_threads \<Rightarrow> 'a spsc_event list \<Rightarrow> 'a spsc_threads \<Rightarrow> bool" where
  run_nil: "spsc_run s [] s"
| run_snoc: "spsc_run s evs s' \<Longrightarrow> spsc_step s' ev s'' \<Longrightarrow> spsc_run s (evs @ [ev]) s''"

fun written :: "'a spsc_event list \<Rightarrow> 'a list" where
  "written [] = []"
| "written (Ev_write v i # evs) = v # written evs"
| "written (_ # evs) = written evs"

fun popped :: "'a spsc_event list \<Rightarrow> 'a list" where
  "popped [] = []"
| "popped (Ev_popped v # evs) = v # popped evs"
| "popped (_ # evs) = popped evs"

lemma written_append [simp]: "written (xs @ ys) = written xs @ written ys"
  by (induction xs rule: written.induct) simp_all

lemma popped_append [simp]: "popped (xs @ ys) = popped xs @ popped ys"
  by (induction xs rule: popped.induct) simp_all

section \<open>The invariant\<close>

text \<open>
  With \<open>H\<close> values published and \<open>T\<close> consumed since the start, every index is one of these counts
  modulo the capacity; the views lag behind, but never so far that the difference reaches the
  capacity. \<open>ws\<close> are the values written so far, \<open>ps\<close> the values popped.
\<close>

definition producer_ok :: "nat \<Rightarrow> nat \<Rightarrow> 'a list \<Rightarrow> nat \<Rightarrow> 'a spsc_threads \<Rightarrow> bool" where
  "producer_ok c H ws seen s \<longleftrightarrow> (case th_producer s of
     P_idle \<Rightarrow> length ws = H \<and> sp_head (th_ring s) = H mod c
   | P_tested v next \<Rightarrow> length ws = H \<and> sp_head (th_ring s) = H mod c \<and> next = Suc H mod c \<and> Suc H - seen < c
   | P_written next \<Rightarrow> length ws = Suc H \<and> sp_head (th_ring s) = H mod c \<and> next = Suc H mod c \<and> Suc H - seen < c
   | P_advanced next \<Rightarrow> length ws = Suc H \<and> sp_head (th_ring s) = Suc H mod c \<and> next = Suc H mod c \<and> Suc H - seen < c)"

definition consumer_ok :: "nat \<Rightarrow> nat \<Rightarrow> 'a list \<Rightarrow> nat \<Rightarrow> 'a spsc_threads \<Rightarrow> bool" where
  "consumer_ok c T ws seen s \<longleftrightarrow> (case th_consumer s of
     C_idle \<Rightarrow> sp_local_tail (th_ring s) = T mod c
   | C_tested t \<Rightarrow> sp_local_tail (th_ring s) = T mod c \<and> t = T mod c \<and> T < seen
   | C_read v next \<Rightarrow> sp_local_tail (th_ring s) = T mod c \<and> next = Suc T mod c \<and> T < seen \<and> v = ws ! T
   | C_advanced v next \<Rightarrow> sp_local_tail (th_ring s) = Suc T mod c \<and> next = Suc T mod c \<and> T < seen \<and> v = ws ! T)"

definition spsc_at :: "nat \<Rightarrow> nat \<Rightarrow> nat \<Rightarrow> nat \<Rightarrow> nat \<Rightarrow> 'a list \<Rightarrow> 'a list \<Rightarrow> 'a spsc_threads \<Rightarrow> bool" where
  "spsc_at c H T seenT seenH ws ps s \<longleftrightarrow>
     length (sp_buffer (th_ring s)) = c \<and> seenT \<le> T \<and> T \<le> seenH \<and> seenH \<le> H \<and> H - seenT < c \<and>
     sp_published (th_ring s) = H mod c \<and> sp_tail (th_ring s) = T mod c \<and>
     th_tail_seen s = seenT mod c \<and> th_published_seen s = seenH mod c \<and>
     producer_ok c H ws seenT s \<and> consumer_ok c T ws seenH s \<and> ps = take T ws \<and>
     (\<forall>i. T \<le> i \<and> i < length ws \<longrightarrow> sp_buffer (th_ring s) ! (i mod c) = ws ! i)"

definition spsc_inv :: "nat \<Rightarrow> 'a list \<Rightarrow> 'a list \<Rightarrow> 'a spsc_threads \<Rightarrow> bool" where
  "spsc_inv c ws ps s \<longleftrightarrow> (\<exists>H T seenT seenH. spsc_at c H T seenT seenH ws ps s)"

lemma spsc_invI: "spsc_at c H T seenT seenH ws ps s \<Longrightarrow> spsc_inv c ws ps s"
  by (auto simp: spsc_inv_def)

lemma producer_len: "spsc_at c H T seenT seenH ws ps s \<Longrightarrow> H \<le> length ws \<and> length ws \<le> Suc H"
  by (auto simp: spsc_at_def producer_ok_def split: producer_pc.splits)

lemma next_index_mod:
  assumes "length (sp_buffer r) = 2 ^ k" "i = x mod 2 ^ k"
  shows "next_index r i = Suc x mod 2 ^ k"
  using assms by (simp add: next_index_def masks mod_Suc_eq)

lemma step_inv:
  assumes "spsc_step s ev s'" and at: "spsc_at (2 ^ k) H T seenT seenH ws ps s"
  shows "spsc_inv (2 ^ k) (ws @ written [ev]) (ps @ popped [ev]) s'"
  using assms(1)
proof cases
  case see_tail
  have "spsc_at (2 ^ k) H T T seenH ws ps s'"
    using at see_tail by (auto simp: spsc_at_def producer_ok_def consumer_ok_def split: producer_pc.splits consumer_pc.splits)
  then show ?thesis using see_tail by (auto intro: spsc_invI)
next
  case see_published
  have "spsc_at (2 ^ k) H T seenT H ws ps s'"
    using at see_published by (auto simp: spsc_at_def producer_ok_def consumer_ok_def split: producer_pc.splits consumer_pc.splits)
  then show ?thesis using see_published by (auto intro: spsc_invI)
next
  case (push_full v)
  then show ?thesis using at by (auto intro: spsc_invI)
next
  case (push_test nx v)
  have h: "sp_head (th_ring s) = H mod 2 ^ k" "length ws = H" using at push_test by (simp_all add: spsc_at_def producer_ok_def)
  have "nx = Suc H mod 2 ^ k" using push_test(4) next_index_mod [of "th_ring s" k] h at by (simp add: spsc_at_def)
  moreover have "Suc H - seenT < 2 ^ k"
  proof (rule ccontr)
    assume "\<not> Suc H - seenT < 2 ^ k"
    then have "Suc H = seenT + 2 ^ k" using at by (auto simp: spsc_at_def)
    then show False using push_test(5) \<open>nx = Suc H mod 2 ^ k\<close> at by (simp add: spsc_at_def)
  qed
  ultimately have "spsc_at (2 ^ k) H T seenT seenH ws ps s'"
    using at push_test h by (simp add: spsc_at_def producer_ok_def consumer_ok_def split: consumer_pc.splits)
  then show ?thesis using push_test by (auto intro: spsc_invI)
next
  case (push_write v nx i)
  have h: "i = H mod 2 ^ k" "length ws = H" using at push_write by (simp_all add: spsc_at_def producer_ok_def)
  have ne: "j mod 2 ^ k \<noteq> i" if "T \<le> j" "j < H" for j
  proof -
    have "seenT \<le> T" "H - seenT < 2 ^ k" using at by (simp_all add: spsc_at_def)
    then have "H - j < 2 ^ k" using that by linarith
    then show ?thesis using mod_window [of j H "2 ^ k"] that h(1) by auto
  qed
  have lt: "i < length (sp_buffer (th_ring s))" using at h(1) by (simp add: spsc_at_def)
  have buf: "(sp_buffer (th_ring s))[i := v] ! (j mod 2 ^ k) = (ws @ [v]) ! j" if "T \<le> j" "j < Suc H" for j
  proof (cases "j = H")
    case True
    then show ?thesis using h lt by (simp add: nth_append)
  next
    case False
    then have "j < H" using that by simp
    then show ?thesis using ne [OF that(1)] at h(2) that(1) by (simp add: nth_append spsc_at_def)
  qed
  have "T \<le> H" using at by (simp add: spsc_at_def)
  have con: "consumer_ok (2 ^ k) T (ws @ [v]) seenH s'"
    using at push_write h(2) by (auto simp: spsc_at_def consumer_ok_def nth_append split: consumer_pc.splits)
  have pro: "producer_ok (2 ^ k) H (ws @ [v]) seenT s'" using at push_write h by (simp add: spsc_at_def producer_ok_def)
  have "spsc_at (2 ^ k) H T seenT seenH (ws @ [v]) ps s'"
    unfolding spsc_at_def using at push_write(2) h con pro buf \<open>T \<le> H\<close> by (simp add: spsc_at_def)
  then show ?thesis using push_write by (auto intro: spsc_invI)
next
  case (push_advance nx)
  have "spsc_at (2 ^ k) H T seenT seenH ws ps s'"
    using at push_advance by (simp add: spsc_at_def producer_ok_def consumer_ok_def split: consumer_pc.splits)
  then show ?thesis using push_advance by (auto intro: spsc_invI)
next
  case (push_publish nx)
  have "spsc_at (2 ^ k) (Suc H) T seenT seenH ws ps s'"
    using at push_publish by (simp add: spsc_at_def producer_ok_def consumer_ok_def split: consumer_pc.splits)
  then show ?thesis using push_publish by (auto intro: spsc_invI)
next
  case pop_empty
  then show ?thesis using at by (auto intro: spsc_invI)
next
  case (pop_test t)
  then have "T \<noteq> seenH" using at by (auto simp: spsc_at_def consumer_ok_def)
  then have "spsc_at (2 ^ k) H T seenT seenH ws ps s'"
    using at pop_test by (auto simp: spsc_at_def producer_ok_def consumer_ok_def split: producer_pc.splits)
  then show ?thesis using pop_test by (auto intro: spsc_invI)
next
  case (pop_read t)
  have t: "t = T mod 2 ^ k" "T < seenH" "sp_local_tail (th_ring s) = T mod 2 ^ k" using at pop_read by (simp_all add: spsc_at_def consumer_ok_def)
  have v: "sp_buffer (th_ring s) ! t = ws ! T" "next_index (th_ring s) t = Suc T mod 2 ^ k"
    using at t producer_len [OF at] next_index_mod [of "th_ring s" k t T] by (auto simp: spsc_at_def)
  have "spsc_at (2 ^ k) H T seenT seenH ws ps s'"
    using at pop_read v t by (simp add: spsc_at_def producer_ok_def consumer_ok_def split: producer_pc.splits)
  then show ?thesis using pop_read by (auto intro: spsc_invI)
next
  case (pop_advance v nx)
  have "spsc_at (2 ^ k) H T seenT seenH ws ps s'"
    using at pop_advance by (simp add: spsc_at_def producer_ok_def consumer_ok_def split: producer_pc.splits)
  then show ?thesis using pop_advance by (auto intro: spsc_invI)
next
  case (pop_release v nx)
  have t: "T < seenH" "v = ws ! T" using at pop_release by (simp_all add: spsc_at_def consumer_ok_def)
  then have "take (Suc T) ws = ps @ [v]" using at producer_len [OF at] by (simp add: spsc_at_def take_Suc_conv_app_nth)
  then have "spsc_at (2 ^ k) H (Suc T) seenT seenH ws (ps @ [v]) s'"
    using at pop_release t by (simp add: spsc_at_def producer_ok_def consumer_ok_def split: producer_pc.splits)
  then show ?thesis using pop_release by (auto intro: spsc_invI)
qed

lemma init_at: "spsc_at (2 ^ k) 0 0 0 0 [] [] (spsc_threads_new (2 ^ k) init)"
  by (simp add: spsc_at_def spsc_threads_new_def SpscRing_new_def producer_ok_def consumer_ok_def)

lemma run_inv:
  assumes "spsc_run s\<^sub>0 evs s" "s\<^sub>0 = spsc_threads_new (2 ^ k) init"
  shows "spsc_inv (2 ^ k) (written evs) (popped evs) s"
  using assms
proof (induction rule: spsc_run.induct)
  case (run_nil s)
  then show ?case using init_at spsc_invI by fastforce
next
  case (run_snoc s evs s' ev s'')
  then obtain H T seenT seenH where "spsc_at (2 ^ k) H T seenT seenH (written evs) (popped evs) s'" by (auto simp: spsc_inv_def)
  from step_inv [OF run_snoc(2) this] show ?case by simp
qed

section \<open>A thread alone\<close>

text \<open>The queue the ring holds, oldest value first.\<close>

definition holds :: "nat \<Rightarrow> 'a SpscRing \<Rightarrow> 'a list \<Rightarrow> bool" where
  "holds c r q \<longleftrightarrow> (\<exists>T. length (sp_buffer r) = c \<and> length q < c \<and> sp_tail r = T mod c \<and> sp_local_tail r = T mod c \<and>
     sp_head r = (T + length q) mod c \<and> sp_published r = (T + length q) mod c \<and>
     (\<forall>i<length q. sp_buffer r ! ((T + i) mod c) = q ! i))"

lemma holds_new: "holds (2 ^ k) (SpscRing_new (2 ^ k) init) []"
  by (auto simp: holds_def SpscRing_new_def intro: exI [of _ 0])

lemma try_push_holds:
  assumes "holds (2 ^ k) r q"
  shows "if Suc (length q) = 2 ^ k then try_push v r = (r, False) else (\<exists>r'. try_push v r = (r', True) \<and> holds (2 ^ k) r' (q @ [v]))"
proof -
  let ?c = "2 ^ k :: nat"
  from assms obtain T where T: "length (sp_buffer r) = ?c" "length q < ?c" "sp_tail r = T mod ?c" "sp_local_tail r = T mod ?c"
    "sp_head r = (T + length q) mod ?c" "sp_published r = (T + length q) mod ?c" "\<forall>i<length q. sp_buffer r ! ((T + i) mod ?c) = q ! i"
    by (auto simp: holds_def)
  have n: "next_index r (sp_head r) = Suc (T + length q) mod ?c" using T(1,5) by (rule next_index_mod)
  have full: "next_index r (sp_head r) = sp_tail r \<longleftrightarrow> Suc (length q) = ?c"
  proof (cases "Suc (length q) = ?c")
    case True
    then have "Suc (T + length q) = T + ?c" by simp
    then show ?thesis using n T(3) True by (metis mod_add_self2)
  next
    case False
    then show ?thesis using n T(2,3) mod_window [of T "Suc (T + length q)" ?c] by auto
  qed
  show ?thesis
  proof (cases "Suc (length q) = ?c")
    case True
    then show ?thesis using full by (simp add: try_push_def)
  next
    case False
    let ?r = "r\<lparr>sp_buffer := (sp_buffer r)[sp_head r := v], sp_head := next_index r (sp_head r), sp_published := next_index r (sp_head r)\<rparr>"
    have ne: "(T + i) mod ?c \<noteq> (T + length q) mod ?c" if "i < length q" for i
    proof -
      have "length q - i < ?c" using that T(2) by linarith
      then show ?thesis using mod_window [of "T + i" "T + length q" ?c] that by auto
    qed
    have "(sp_buffer r)[sp_head r := v] ! ((T + i) mod ?c) = (q @ [v]) ! i" if "i < length (q @ [v])" for i
      using that T(1,5,7) ne [of i] by (cases "i = length q") (auto simp: nth_append)
    then have "holds ?c ?r (q @ [v])"
      unfolding holds_def using T False n by (intro exI [of _ T]) auto
    then show ?thesis using False full by (simp add: try_push_def Let_def)
  qed
qed

lemma try_pop_holds:
  assumes "holds (2 ^ k) r q"
  shows "case q of [] \<Rightarrow> try_pop r = (r, None) | v # q' \<Rightarrow> \<exists>r'. try_pop r = (r', Some v) \<and> holds (2 ^ k) r' q'"
proof -
  let ?c = "2 ^ k :: nat"
  from assms obtain T where T: "length (sp_buffer r) = ?c" "length q < ?c" "sp_tail r = T mod ?c" "sp_local_tail r = T mod ?c"
    "sp_head r = (T + length q) mod ?c" "sp_published r = (T + length q) mod ?c" "\<forall>i<length q. sp_buffer r ! ((T + i) mod ?c) = q ! i"
    by (auto simp: holds_def)
  have e: "sp_local_tail r = sp_published r \<longleftrightarrow> q = []" using T mod_window [of T "T + length q" ?c] by auto
  have n: "next_index r (sp_local_tail r) = Suc T mod ?c" using T(1,4) by (rule next_index_mod)
  show ?thesis
  proof (cases q)
    case Nil
    then show ?thesis using e by (simp add: try_pop_def)
  next
    case (Cons v q')
    then have "sp_buffer r ! (T mod ?c) = v" using T(7) by (metis add_0_right length_greater_0_conv list.distinct(1) nth_Cons_0)
    moreover have "holds ?c (r\<lparr>sp_local_tail := next_index r (sp_local_tail r), sp_tail := next_index r (sp_local_tail r)\<rparr>) q'"
      unfolding holds_def using T n Cons by (intro exI [of _ "Suc T"]) fastforce
    ultimately show ?thesis using Cons e T(4) by (simp add: try_pop_def Let_def)
  qed
qed

text \<open>The specification: a list of at most \<open>m\<close> values, and the values dropped.\<close>

datatype 'a ring_call = Ring_push 'a bool | Ring_pop
datatype 'a ring_answer = Ans_push PushResult | Ans_pop "'a option"

text \<open>\<open>Ring_push v dropping\<close> is \<open>push\<close> under \<open>DropNewest\<close> or \<open>Reject\<close>; nobody runs in between.\<close>

fun ring_apply :: "'a SpscRing \<times> u64 \<Rightarrow> 'a ring_call \<Rightarrow> ('a SpscRing \<times> u64) \<times> 'a ring_answer" where
  "ring_apply (r, dropped) (Ring_push v dropping) =
     (case push (\<lambda>_ r. r) v (if dropping then Policy_DropNewest else Policy_Reject) dropped r of
        Some (r, result, dropped) \<Rightarrow> ((r, dropped), Ans_push result)
      | None \<Rightarrow> ((r, dropped), Ans_push Push_Full))"
| "ring_apply (r, dropped) Ring_pop = (case try_pop r of (r, v) \<Rightarrow> ((r, dropped), Ans_pop v))"

fun queue_apply :: "nat \<Rightarrow> 'a list \<times> u64 \<Rightarrow> 'a ring_call \<Rightarrow> ('a list \<times> u64) \<times> 'a ring_answer" where
  "queue_apply m (q, dropped) (Ring_push v dropping) =
     (if length q < m then ((q @ [v], dropped), Ans_push Push_Pushed)
      else if dropping then ((q, dropped + 1), Ans_push Push_Dropped)
      else ((q, dropped), Ans_push Push_Full))"
| "queue_apply m (q, dropped) Ring_pop =
     (case q of [] \<Rightarrow> (([], dropped), Ans_pop None) | v # q' \<Rightarrow> ((q', dropped), Ans_pop (Some v)))"

fun ring_answers :: "('s \<Rightarrow> 'c \<Rightarrow> 's \<times> 'b) \<Rightarrow> 's \<Rightarrow> 'c list \<Rightarrow> 'b list" where
  "ring_answers f s [] = []"
| "ring_answers f s (c # cs) = (case f s c of (s', a) \<Rightarrow> a # ring_answers f s' cs)"

lemma ring_apply_holds:
  assumes "holds (2 ^ k) r q"
  shows "\<exists>r' q' d' a. ring_apply (r, d) c = ((r', d'), a) \<and> queue_apply (2 ^ k - 1) (q, d) c = ((q', d'), a) \<and> holds (2 ^ k) r' q'"
proof (cases c)
  case (Ring_push v dropping)
  have "length q < 2 ^ k - 1 \<longleftrightarrow> Suc (length q) \<noteq> 2 ^ k" using assms by (auto simp: holds_def)
  then show ?thesis using try_push_holds [OF assms, of v] assms Ring_push
    by (cases "Suc (length q) = 2 ^ k") (auto simp: push_def split: prod.splits)
next
  case Ring_pop
  then show ?thesis using try_pop_holds [OF assms] assms by (cases q) auto
qed

lemma ring_answers_holds:
  assumes "holds (2 ^ k) r q"
  shows "ring_answers ring_apply (r, d) cs = ring_answers (queue_apply (2 ^ k - 1)) (q, d) cs"
  using assms
proof (induction cs arbitrary: r q d)
  case (Cons c cs)
  obtain r' q' d' a where "ring_apply (r, d) c = ((r', d'), a)" "queue_apply (2 ^ k - 1) (q, d) c = ((q', d'), a)" "holds (2 ^ k) r' q'"
    using ring_apply_holds [OF Cons.prems, of d c] by blast
  then show ?case using Cons.IH [of r' q' d'] by simp
qed simp

section \<open>Properties\<close>

text \<open>
  C11. The ring is a FIFO queue between its two threads: in every interleaving of their statements,
  with acquire loads that may return old values, the popped values are exactly the first written
  values, in order, none lost, repeated or torn; fewer than the capacity are in flight; and whenever
  the producer is about to write a slot and the consumer about to read one, the slots differ.
\<close>

theorem spsc_fifo:
  assumes "spsc_run (spsc_threads_new (2 ^ k) init) evs s"
  shows "(\<exists>rest. written evs = popped evs @ rest \<and> length rest < 2 ^ k) \<and>
    \<not> (\<exists>v nx t. th_producer s = P_tested v nx \<and> th_consumer s = C_tested t \<and> t = sp_head (th_ring s))"
proof -
  obtain H T seenT seenH where at: "spsc_at (2 ^ k) H T seenT seenH (written evs) (popped evs) s"
    using run_inv [OF assms refl] by (auto simp: spsc_inv_def)
  have pre: "written evs = popped evs @ drop T (written evs)" using at by (simp add: spsc_at_def)
  have "length (written evs) - T < 2 ^ k"
    using at by (auto simp: spsc_at_def producer_ok_def split: producer_pc.splits)
  then have "length (drop T (written evs)) < 2 ^ k" by simp
  moreover have False if a: "th_producer s = P_tested v nx" "th_consumer s = C_tested t" "t = sp_head (th_ring s)" for v nx t
  proof -
    have "T < H" "H - T < 2 ^ k" "T mod 2 ^ k = H mod 2 ^ k" using at a by (auto simp: spsc_at_def producer_ok_def consumer_ok_def)
    then show False using mod_window [of T H "2 ^ k"] by simp
  qed
  ultimately show ?thesis using pre by blast
qed

theorem spsc_fifo_witness:
  "\<exists>evs s. spsc_run (spsc_threads_new (2 ^ 1) (0::nat)) evs s \<and> written evs = [5] \<and> popped evs = [5] \<and>
     (\<exists>rest. written evs = popped evs @ rest \<and> length rest < 2 ^ 1)"
proof -
  let ?s = "spsc_threads_new (2 ^ 1) (0::nat)"
  have n: "next_index (th_ring ?s) 0 = 1" by (simp add: next_index_def spsc_threads_new_def SpscRing_new_def)
  define s1 where "s1 = ?s\<lparr>th_producer := P_tested 5 1\<rparr>"
  define s2 where "s2 = s1\<lparr>th_ring := (th_ring s1)\<lparr>sp_buffer := (sp_buffer (th_ring s1))[0 := 5]\<rparr>, th_producer := P_written 1\<rparr>"
  define s3 where "s3 = s2\<lparr>th_ring := (th_ring s2)\<lparr>sp_head := 1\<rparr>, th_producer := P_advanced 1\<rparr>"
  define s4 where "s4 = s3\<lparr>th_ring := (th_ring s3)\<lparr>sp_published := 1\<rparr>, th_producer := P_idle\<rparr>"
  define s5 where "s5 = s4\<lparr>th_published_seen := sp_published (th_ring s4)\<rparr>"
  define s6 where "s6 = s5\<lparr>th_consumer := C_tested 0\<rparr>"
  define s7 where "s7 = s6\<lparr>th_consumer := C_read (sp_buffer (th_ring s6) ! 0) (next_index (th_ring s6) 0)\<rparr>"
  define s8 where "s8 = s7\<lparr>th_ring := (th_ring s7)\<lparr>sp_local_tail := next_index (th_ring s6) 0\<rparr>, th_consumer := C_advanced (sp_buffer (th_ring s6) ! 0) (next_index (th_ring s6) 0)\<rparr>"
  define s9 where "s9 = s8\<lparr>th_ring := (th_ring s8)\<lparr>sp_tail := next_index (th_ring s6) 0\<rparr>, th_consumer := C_idle\<rparr>"
  note defs = s1_def s2_def s3_def s4_def s5_def s6_def s7_def s8_def s9_def spsc_threads_new_def SpscRing_new_def
  have a1: "spsc_step ?s Ev_silent s1" unfolding s1_def
    by (rule spsc_step.push_test) (use n in \<open>simp_all add: spsc_threads_new_def SpscRing_new_def\<close>)
  have a2: "spsc_step s1 (Ev_write 5 0) s2" unfolding s2_def by (rule spsc_step.push_write) (simp_all add: defs)
  have a3: "spsc_step s2 Ev_silent s3" unfolding s3_def by (rule spsc_step.push_advance) (simp add: defs)
  have a4: "spsc_step s3 Ev_pushed s4" unfolding s4_def by (rule spsc_step.push_publish) (simp add: defs)
  have a5: "spsc_step s4 Ev_silent s5" unfolding s5_def by (rule spsc_step.see_published)
  have a6: "spsc_step s5 Ev_silent s6" unfolding s6_def by (rule spsc_step.pop_test) (simp_all add: defs)
  have a7: "spsc_step s6 (Ev_read 0) s7" unfolding s7_def by (rule spsc_step.pop_read) (simp add: defs)
  have a8: "spsc_step s7 Ev_silent s8" unfolding s8_def by (rule spsc_step.pop_advance) (simp add: s7_def)
  have v: "sp_buffer (th_ring s6) ! 0 = 5" by (simp add: defs)
  have a9: "spsc_step s8 (Ev_popped 5) s9" unfolding s9_def by (rule spsc_step.pop_release) (simp add: s8_def v)
  note go = spsc_run.run_snoc
  note run = go [OF go [OF go [OF go [OF go [OF go [OF go [OF go [OF go [OF spsc_run.run_nil a1] a2] a3] a4] a5] a6] a7] a8] a9]
  let ?evs = "(((((((([] @ [Ev_silent]) @ [Ev_write 5 0]) @ [Ev_silent]) @ [Ev_pushed]) @ [Ev_silent]) @ [Ev_silent]) @ [Ev_read 0]) @
    [Ev_silent]) @ [Ev_popped 5]"
  have "written ?evs = [5]" "popped ?evs = [5]" by simp_all
  then show ?thesis using run conjunct1 [OF spsc_fifo [OF run]] by (intro exI [of _ ?evs] exI [of _ s9] conjI)
qed

text \<open>
  Used by one thread at a time, the ring of capacity \<open>2 ^ k\<close> answers every history of \<open>push\<close> (under
  \<open>Reject\<close> and \<open>DropNewest\<close>) and \<open>try_pop\<close> exactly as a queue of at most \<open>2 ^ k - 1\<close> values with a
  count of dropped values.
\<close>

lemma spsc_refines_queue:
  "ring_answers ring_apply (SpscRing_new (2 ^ k) init, dropped) calls = ring_answers (queue_apply (2 ^ k - 1)) ([], dropped) calls"
  by (rule ring_answers_holds [OF holds_new])

end
