(* ===== verification/ShmRing.thy ===== *)
theory ShmRing
  imports Prelude
begin

text \<open>
  The shared memory ring of \<open>components/include/qtrader/ShmRingProtocol.hpp\<close>: one writer publishes
  numbered items, readers follow without being waited for. The capacity \<open>kCapacity\<close> is the number of
  slots, a power of two; an item is the list of the cells that \<open>memcpy\<close> copies one after the other;
  the sizes that the header records are arguments. The operations are first given for a thread that
  runs alone; then writer and reader run load by load, store by store and cell by cell.
\<close>

section \<open>The queue\<close>

definition kMagic :: u64 where
  "kMagic = 0x575453484D524E47"

definition kVersion :: u32 where
  "kVersion = 1"

abbreviation kNoSequence :: u64 where "kNoSequence \<equiv> - 1"

datatype DataType = DataType_Tick | DataType_OrderQueue | DataType_OrderDetail | DataType_Transaction

record SequenceHeader =
  sh_magic :: u64
  sh_version :: u32
  sh_header_size :: u32
  sh_capacity :: u64
  sh_item_size :: u64
  sh_epoch :: u64
  sh_published :: u64
  sh_pid :: u32

record 'c SequenceSlot =
  sl_sequence :: u64
  sl_item :: "'c list"

record 'c SequenceQueue =
  sq_header :: SequenceHeader
  sq_slots :: "'c SequenceSlot list"

definition SequenceHeader_new :: "u32 \<Rightarrow> u64 \<Rightarrow> nat \<Rightarrow> SequenceHeader" where
  "SequenceHeader_new sizeof_header sizeof_item capacity = \<lparr>sh_magic = kMagic, sh_version = kVersion, sh_header_size = sizeof_header,
     sh_capacity = of_nat capacity, sh_item_size = sizeof_item, sh_epoch = 0, sh_published = kNoSequence, sh_pid = 0\<rparr>"

definition SequenceQueue_new :: "u32 \<Rightarrow> u64 \<Rightarrow> nat \<Rightarrow> 'c list \<Rightarrow> 'c SequenceQueue" where
  "SequenceQueue_new sizeof_header sizeof_item capacity zero_item =
     \<lparr>sq_header = SequenceHeader_new sizeof_header sizeof_item capacity,
      sq_slots = replicate capacity \<lparr>sl_sequence = kNoSequence, sl_item = zero_item\<rparr>\<rparr>"

definition make_epoch :: "u64 \<Rightarrow> u32 \<Rightarrow> u64" where
  "make_epoch ticks pid = ticks XOR push_bit 32 (ucast pid)"

definition valid :: "u32 \<Rightarrow> u64 \<Rightarrow> 'c SequenceQueue \<Rightarrow> bool" where
  "valid sizeof_header sizeof_item q \<longleftrightarrow>
     sh_magic (sq_header q) = kMagic \<and> sh_version (sq_header q) = kVersion \<and> sh_header_size (sq_header q) = sizeof_header \<and>
     sh_capacity (sq_header q) = of_nat (length (sq_slots q)) \<and> sh_item_size (sq_header q) = sizeof_item"

definition slot_index :: "'c SequenceQueue \<Rightarrow> u64 \<Rightarrow> nat" where
  "slot_index q sequence = unat sequence AND (length (sq_slots q) - 1)"

definition store_cell :: "nat \<Rightarrow> nat \<Rightarrow> 'c \<Rightarrow> 'c SequenceQueue \<Rightarrow> 'c SequenceQueue" where
  "store_cell i j v q = q\<lparr>sq_slots := (sq_slots q)[i := (sq_slots q ! i)\<lparr>sl_item := (sl_item (sq_slots q ! i))[j := v]\<rparr>]\<rparr>"

definition store_sequence :: "nat \<Rightarrow> u64 \<Rightarrow> 'c SequenceQueue \<Rightarrow> 'c SequenceQueue" where
  "store_sequence i sequence q = q\<lparr>sq_slots := (sq_slots q)[i := (sq_slots q ! i)\<lparr>sl_sequence := sequence\<rparr>]\<rparr>"

definition store_published :: "u64 \<Rightarrow> 'c SequenceQueue \<Rightarrow> 'c SequenceQueue" where
  "store_published sequence q = q\<lparr>sq_header := (sq_header q)\<lparr>sh_published := sequence\<rparr>\<rparr>"

definition publish :: "u64 \<Rightarrow> 'c list \<Rightarrow> 'c SequenceQueue \<Rightarrow> 'c SequenceQueue" where
  "publish sequence item q =
     (let i = slot_index q sequence;
          q = fold (\<lambda>j. store_cell i j (item ! j)) [0..<length item] q;
          q = store_sequence i sequence q
      in store_published sequence q)"

section \<open>The reader\<close>

record SequenceReader =
  sr_next :: u64
  sr_epoch :: u64
  sr_dropped :: u64
  sr_initialized :: bool

definition SequenceReader_new :: SequenceReader where
  "SequenceReader_new = \<lparr>sr_next = 0, sr_epoch = 0, sr_dropped = 0, sr_initialized = False\<rparr>"

definition oldest :: "'c SequenceQueue \<Rightarrow> u64 \<Rightarrow> u64" where
  "oldest q published = (let c = of_nat (length (sq_slots q)) in if published \<ge> c - 1 then published - (c - 1) else 0)"

definition attach :: "'c SequenceQueue \<Rightarrow> bool \<Rightarrow> SequenceReader \<Rightarrow> SequenceReader" where
  "attach q start_at_latest r =
     (let published = sh_published (sq_header q) in
      r\<lparr>sr_epoch := sh_epoch (sq_header q),
        sr_next := (if published = kNoSequence then 0 else if start_at_latest then published + 1 else oldest q published),
        sr_initialized := True\<rparr>)"

definition restarted :: "'c SequenceQueue \<Rightarrow> SequenceReader \<Rightarrow> bool" where
  "restarted q r \<longleftrightarrow> sr_initialized r \<and> sh_epoch (sq_header q) \<noteq> sr_epoch r"

text \<open>The parts of \<open>try_read\<close> between its loads; \<^const>\<open>None\<close> is an early return of \<open>false\<close>.\<close>

definition read_published :: "'c SequenceQueue \<Rightarrow> u64 \<Rightarrow> SequenceReader \<Rightarrow> SequenceReader \<times> bool" where
  "read_published q published r =
     (if published = kNoSequence \<or> sr_next r > published then (r, False)
      else
        let oldest_available = oldest q published in
        if sr_next r < oldest_available
        then (r\<lparr>sr_dropped := sr_dropped r + (oldest_available - sr_next r), sr_next := oldest_available\<rparr>, True)
        else (r, True))"

definition read_before :: "u64 \<Rightarrow> SequenceReader \<Rightarrow> SequenceReader \<times> bool" where
  "read_before before r =
     (if before \<noteq> sr_next r
      then (if before > sr_next r \<and> before \<noteq> kNoSequence
            then r\<lparr>sr_dropped := sr_dropped r + (before - sr_next r), sr_next := before\<rparr> else r, False)
      else (r, True))"

definition read_after :: "u64 \<Rightarrow> u64 \<Rightarrow> SequenceReader \<Rightarrow> SequenceReader \<times> bool" where
  "read_after before after r =
     (if after \<noteq> before
      then (r\<lparr>sr_dropped := sr_dropped r + (if after > sr_next r then after - sr_next r else 1),
             sr_next := (if after = kNoSequence then sr_next r + 1 else after)\<rparr>, False)
      else (r\<lparr>sr_next := sr_next r + 1\<rparr>, True))"

definition try_read :: "'c SequenceQueue \<Rightarrow> SequenceReader \<Rightarrow> SequenceReader \<times> 'c list option" where
  "try_read q r =
     (let r = (if sr_initialized r then r else attach q True r) in
      case read_published q (sh_published (sq_header q)) r of (r, ok) \<Rightarrow>
        if \<not> ok then (r, None)
        else
          let slot = sq_slots q ! slot_index q (sr_next r); before = sl_sequence slot in
          case read_before before r of (r, ok) \<Rightarrow>
            if \<not> ok then (r, None)
            else case read_after before (sl_sequence slot) r of (r, ok) \<Rightarrow>
              if ok then (r, Some (sl_item slot)) else (r, None))"

section \<open>The threads\<close>

datatype shm_writer = W_idle | W_copying nat | W_slotted
datatype 'c shm_reader = R_idle | R_published | R_copying u64 nat nat "'c list"

record 'c shm_threads =
  st_queue :: "'c SequenceQueue"
  st_consumed :: u64
  st_sequence :: u64
  st_writer :: shm_writer
  st_reader :: SequenceReader
  st_reading :: "'c shm_reader"

text \<open>
  The writer publishes \<open>items 0\<close>, \<open>items 1\<close>, ... below \<open>limit\<close>, each of \<open>n\<close> cells. With \<open>flow\<close> it waits, as
  \<open>Level2Pipeline.cpp\<close> does, until the sequence number is below the consumed count plus \<open>kCapacity - 1\<close>.
\<close>

inductive shm_step :: "bool \<Rightarrow> u64 \<Rightarrow> nat \<Rightarrow> (u64 \<Rightarrow> 'c list) \<Rightarrow> 'c shm_threads \<Rightarrow> 'c list list \<Rightarrow> 'c shm_threads \<Rightarrow> bool"
  for flow limit n items where
  write_begin: "st_writer s = W_idle \<Longrightarrow> st_sequence s < limit \<Longrightarrow>
    flow \<Longrightarrow> st_sequence s < st_consumed s + of_nat (length (sq_slots (st_queue s))) - 1 \<Longrightarrow>
    shm_step flow limit n items s [] (s\<lparr>st_writer := W_copying 0\<rparr>)"
| write_begin_free: "st_writer s = W_idle \<Longrightarrow> st_sequence s < limit \<Longrightarrow> \<not> flow \<Longrightarrow>
    shm_step flow limit n items s [] (s\<lparr>st_writer := W_copying 0\<rparr>)"
| write_cell: "st_writer s = W_copying j \<Longrightarrow> j < n \<Longrightarrow>
    shm_step flow limit n items s []
      (s\<lparr>st_queue := store_cell (slot_index (st_queue s) (st_sequence s)) j (items (st_sequence s) ! j) (st_queue s),
         st_writer := W_copying (Suc j)\<rparr>)"
| write_sequence: "st_writer s = W_copying n \<Longrightarrow>
    shm_step flow limit n items s []
      (s\<lparr>st_queue := store_sequence (slot_index (st_queue s) (st_sequence s)) (st_sequence s) (st_queue s), st_writer := W_slotted\<rparr>)"
| write_published: "st_writer s = W_slotted \<Longrightarrow>
    shm_step flow limit n items s []
      (s\<lparr>st_queue := store_published (st_sequence s) (st_queue s), st_sequence := st_sequence s + 1, st_writer := W_idle\<rparr>)"
| load_published: "st_reading s = R_idle \<Longrightarrow>
    read_published (st_queue s) (sh_published (sq_header (st_queue s))) (st_reader s) = (r, ok) \<Longrightarrow>
    shm_step flow limit n items s [] (s\<lparr>st_reader := r, st_reading := (if ok then R_published else R_idle)\<rparr>)"
| load_before: "st_reading s = R_published \<Longrightarrow> i = slot_index (st_queue s) (sr_next (st_reader s)) \<Longrightarrow>
    before = sl_sequence (sq_slots (st_queue s) ! i) \<Longrightarrow> read_before before (st_reader s) = (r, ok) \<Longrightarrow>
    shm_step flow limit n items s [] (s\<lparr>st_reader := r, st_reading := (if ok then R_copying before i 0 [] else R_idle)\<rparr>)"
| read_cell: "st_reading s = R_copying before i j buf \<Longrightarrow> j < n \<Longrightarrow>
    shm_step flow limit n items s [] (s\<lparr>st_reading := R_copying before i (Suc j) (buf @ [sl_item (sq_slots (st_queue s) ! i) ! j])\<rparr>)"
| load_after: "st_reading s = R_copying before i n buf \<Longrightarrow>
    read_after before (sl_sequence (sq_slots (st_queue s) ! i)) (st_reader s) = (r, ok) \<Longrightarrow>
    shm_step flow limit n items s (if ok then [buf] else []) (s\<lparr>st_reader := r, st_reading := R_idle\<rparr>)"
| consume: "st_reading s = R_idle \<Longrightarrow> shm_step flow limit n items s [] (s\<lparr>st_consumed := sr_next (st_reader s)\<rparr>)"

inductive shm_run :: "bool \<Rightarrow> u64 \<Rightarrow> nat \<Rightarrow> (u64 \<Rightarrow> 'c list) \<Rightarrow> 'c shm_threads \<Rightarrow> 'c list list \<Rightarrow> 'c shm_threads \<Rightarrow> bool"
  for flow limit n items where
  run_nil: "shm_run flow limit n items s [] s"
| run_snoc: "shm_run flow limit n items s out s' \<Longrightarrow> shm_step flow limit n items s' ev s'' \<Longrightarrow> shm_run flow limit n items s (out @ ev) s''"

text \<open>A new queue and a reader attached to it from the start.\<close>

definition shm_threads_new :: "u32 \<Rightarrow> u64 \<Rightarrow> nat \<Rightarrow> 'c list \<Rightarrow> 'c shm_threads" where
  "shm_threads_new sizeof_header sizeof_item capacity zero_item =
     (let q = SequenceQueue_new sizeof_header sizeof_item capacity zero_item in
      \<lparr>st_queue = q, st_consumed = 0, st_sequence = 0, st_writer = W_idle, st_reader = attach q False SequenceReader_new,
       st_reading = R_idle\<rparr>)"

section \<open>The invariant under flow control\<close>

text \<open>\<open>S\<close> messages are published, \<open>R\<close> read, \<open>K\<close> reported as consumed.\<close>

definition writer_ok :: "nat \<Rightarrow> u64 \<Rightarrow> nat \<Rightarrow> (u64 \<Rightarrow> 'c list) \<Rightarrow> nat \<Rightarrow> nat \<Rightarrow> 'c shm_threads \<Rightarrow> bool" where
  "writer_ok c limit n items K S s \<longleftrightarrow> (let slot = sq_slots (st_queue s) ! (S mod c) in case st_writer s of
     W_idle \<Rightarrow> S < K + c
   | W_copying j \<Rightarrow> Suc S < K + c \<and> S < unat limit \<and> j \<le> n \<and> take j (sl_item slot) = take j (items (of_nat S))
   | W_slotted \<Rightarrow> Suc S < K + c \<and> S < unat limit \<and> slot = \<lparr>sl_sequence = of_nat S, sl_item = items (of_nat S)\<rparr>)"

definition reader_ok :: "nat \<Rightarrow> nat \<Rightarrow> (u64 \<Rightarrow> 'c list) \<Rightarrow> nat \<Rightarrow> nat \<Rightarrow> 'c shm_threads \<Rightarrow> bool" where
  "reader_ok c n items R S s \<longleftrightarrow> (case st_reading s of
     R_idle \<Rightarrow> True
   | R_published \<Rightarrow> R < S
   | R_copying before i j buf \<Rightarrow> R < S \<and> before = of_nat R \<and> i = R mod c \<and> j \<le> n \<and> buf = take j (items (of_nat R)))"

definition shm_at :: "nat \<Rightarrow> u64 \<Rightarrow> nat \<Rightarrow> (u64 \<Rightarrow> 'c list) \<Rightarrow> nat \<Rightarrow> nat \<Rightarrow> nat \<Rightarrow> 'c list list \<Rightarrow> 'c shm_threads \<Rightarrow> bool" where
  "shm_at c limit n items K R S out s \<longleftrightarrow>
     length (sq_slots (st_queue s)) = c \<and> (\<forall>slot\<in>set (sq_slots (st_queue s)). length (sl_item slot) = n) \<and>
     st_consumed s = of_nat K \<and> sr_next (st_reader s) = of_nat R \<and> st_sequence s = of_nat S \<and>
     K \<le> R \<and> R \<le> S \<and> S \<le> unat limit \<and> sr_dropped (st_reader s) = 0 \<and>
     sh_published (sq_header (st_queue s)) = (if S = 0 then kNoSequence else of_nat (S - 1)) \<and>
     (\<forall>i. R \<le> i \<and> i < S \<longrightarrow> sq_slots (st_queue s) ! (i mod c) = \<lparr>sl_sequence = of_nat i, sl_item = items (of_nat i)\<rparr>) \<and>
     writer_ok c limit n items K S s \<and> reader_ok c n items R S s \<and> out = map (\<lambda>i. items (of_nat i)) [0..<R]"

lemma slot_index_mod: "length (sq_slots q) = 2 ^ k \<Longrightarrow> slot_index q x = unat x mod 2 ^ k"
  by (simp add: slot_index_def masks)

lemma queue_sel [simp]:
  "sq_header (store_cell i j v q) = sq_header q" "sq_header (store_sequence i x q) = sq_header q" "sq_slots (store_published x q) = sq_slots q"
  "length (sq_slots (store_cell i j v q)) = length (sq_slots q)" "length (sq_slots (store_sequence i x q)) = length (sq_slots q)"
  "sh_published (sq_header (store_published x q)) = x"
  by (simp_all add: store_cell_def store_sequence_def store_published_def)

lemma slots_cell: "m \<noteq> i \<Longrightarrow> sq_slots (store_cell i j v q) ! m = sq_slots q ! m"
  "m \<noteq> i \<Longrightarrow> sq_slots (store_sequence i x q) ! m = sq_slots q ! m"
  by (simp_all add: store_cell_def store_sequence_def)

lemma cell_lengths:
  "\<forall>slot\<in>set (sq_slots q). length (sl_item slot) = n \<Longrightarrow> i < length (sq_slots q) \<Longrightarrow>
     \<forall>slot\<in>set (sq_slots (store_cell i j v q)). length (sl_item slot) = n"
  "\<forall>slot\<in>set (sq_slots q). length (sl_item slot) = n \<Longrightarrow> i < length (sq_slots q) \<Longrightarrow>
     \<forall>slot\<in>set (sq_slots (store_sequence i x q)). length (sl_item slot) = n"
  by (auto simp: store_cell_def store_sequence_def dest!: subsetD [OF set_update_subset_insert])

lemma unat_of_nat_u64: "x < 2 ^ 64 \<Longrightarrow> unat (of_nat x :: u64) = x"
  by (simp add: unsigned_of_nat take_bit_nat_eq_self)

lemma of_nat_less_u64: "x < 2 ^ 64 \<Longrightarrow> y < 2 ^ 64 \<Longrightarrow> (of_nat x :: u64) < of_nat y \<longleftrightarrow> x < y"
  by (simp add: word_less_nat_alt unat_of_nat_u64)

lemma of_nat_eq_u64: "x < 2 ^ 64 \<Longrightarrow> y < 2 ^ 64 \<Longrightarrow> (of_nat x :: u64) = of_nat y \<longleftrightarrow> x = y"
  by (simp add: word_unat_eq_iff unat_of_nat_u64)

lemma of_nat_le_u64: "x < 2 ^ 64 \<Longrightarrow> y < 2 ^ 64 \<Longrightarrow> (of_nat x :: u64) \<le> of_nat y \<longleftrightarrow> x \<le> y"
  by (simp add: word_le_nat_alt unat_of_nat_u64)

lemma none_u64: "x < 2 ^ 64 - 1 \<Longrightarrow> (of_nat x :: u64) \<noteq> kNoSequence"
proof
  assume "x < 2 ^ 64 - 1" "(of_nat x :: u64) = kNoSequence"
  then have "x = unat kNoSequence" using unat_of_nat_u64 [of x] by simp
  then show False using \<open>x < 2 ^ 64 - 1\<close> by (simp add: unsigned_minus_1_eq_mask mask_eq_exp_minus_1)
qed

text \<open>Sequence numbers stay clear of the end of their range, and every item has \<open>n\<close> cells.\<close>

definition flow_ok :: "u64 \<Rightarrow> nat \<Rightarrow> nat \<Rightarrow> (u64 \<Rightarrow> 'c list) \<Rightarrow> bool" where
  "flow_ok limit k n items \<longleftrightarrow> unat limit + 2 ^ k < 2 ^ 64 \<and> (\<forall>x. length (items x) = n)"

lemma flow_okD:
  assumes "flow_ok limit k n items"
  shows "unat limit + 2 ^ k < 2 ^ 64" "length (items x) = n" "S \<le> unat limit \<Longrightarrow> S < 2 ^ 64 - 1"
proof -
  show "unat limit + 2 ^ k < 2 ^ 64" "length (items x) = n" using assms by (simp_all add: flow_ok_def)
  moreover have "1 \<le> (2 :: nat) ^ k" by simp
  ultimately show "S < 2 ^ 64 - 1" if "S \<le> unat limit" using that by linarith
qed

lemma window:
  assumes "shm_at (2 ^ k) limit n items K R S out s" "R \<le> i" "i < S"
  shows "i mod 2 ^ k \<noteq> S mod 2 ^ k"
proof -
  have "S < K + 2 ^ k" "K \<le> R" using assms(1) by (auto simp: shm_at_def writer_ok_def Let_def split: shm_writer.splits)
  then have "S - i < 2 ^ k" using assms(2,3) by linarith
  then show ?thesis using mod_window [of i S "2 ^ k"] assms(2,3) by auto
qed

lemma write_begin_at:
  assumes fo: "flow_ok limit k n items" and at: "shm_at (2 ^ k) limit n items K R S out s" and w: "st_writer s = W_idle" "st_sequence s < limit"
    "st_sequence s < st_consumed s + of_nat (length (sq_slots (st_queue s))) - 1"
  shows "shm_at (2 ^ k) limit n items K R S out (s\<lparr>st_writer := W_copying 0\<rparr>)"
proof -
  have a: "K \<le> unat limit" "S \<le> unat limit" "st_consumed s = of_nat K" "st_sequence s = of_nat S" "length (sq_slots (st_queue s)) = 2 ^ k"
    using at by (auto simp: shm_at_def)
  have "K + 2 ^ k < 2 ^ 64" using a(1) flow_okD(1) [OF fo] by simp
  moreover have "st_consumed s + of_nat (length (sq_slots (st_queue s))) - 1 = of_nat (K + 2 ^ k - 1)"
  proof -
    have "0 < K + 2 ^ k" by simp
    then show ?thesis unfolding a by (subst of_nat_diff) (simp_all add: Suc_leI)
  qed
  ultimately have "S < K + 2 ^ k - 1" using w(3) a(4) of_nat_less_u64 [of S "K + 2 ^ k - 1"] flow_okD(3) [OF fo a(2)] by simp
  moreover have "S < unat limit" using w(2) a(4) flow_okD(3) [OF fo a(2)] by (simp add: word_less_nat_alt unat_of_nat_u64)
  ultimately show ?thesis using at by (simp add: shm_at_def writer_ok_def reader_ok_def)
qed

lemma write_cell_at:
  assumes fo: "flow_ok limit k n items" and at: "shm_at (2 ^ k) limit n items K R S out s" and w: "st_writer s = W_copying j" "j < n"
  shows "shm_at (2 ^ k) limit n items K R S out (s\<lparr>st_queue := store_cell (slot_index (st_queue s) (st_sequence s)) j (items (st_sequence s) ! j) (st_queue s),
    st_writer := W_copying (Suc j)\<rparr>)"
proof -
  let ?q = "st_queue s" and ?c = "2 ^ k :: nat"
  have a: "length (sq_slots ?q) = ?c" "st_sequence s = of_nat S" "S \<le> unat limit" "take j (sl_item (sq_slots ?q ! (S mod ?c))) = take j (items (of_nat S))"
    "\<forall>slot\<in>set (sq_slots ?q). length (sl_item slot) = n"
    using at w by (auto simp: shm_at_def writer_ok_def Let_def)
  have i: "slot_index ?q (of_nat S) = S mod ?c" using a flow_okD(3) [OF fo a(3)] by (simp add: slot_index_mod unat_of_nat_u64)
  have lt: "S mod ?c < length (sq_slots ?q)" using a(1) by simp
  have len: "length (sl_item (sq_slots ?q ! (S mod ?c))) = n" using a(5) lt by simp
  let ?q' = "store_cell (S mod ?c) j (items (of_nat S) ! j) ?q"
  have "take (Suc j) (sl_item (sq_slots ?q' ! (S mod ?c))) = take (Suc j) (items (of_nat S))"
    using a(4) w(2) len lt flow_okD(2) [OF fo] by (simp add: store_cell_def take_Suc_conv_app_nth)
  then show ?thesis
    using at w window [OF at] cell_lengths(1) [OF a(5) lt] unfolding a(2) i
    by (auto simp: shm_at_def writer_ok_def reader_ok_def Let_def slots_cell)
qed

lemma write_sequence_at:
  assumes fo: "flow_ok limit k n items" and at: "shm_at (2 ^ k) limit n items K R S out s" and w: "st_writer s = W_copying n"
  shows "shm_at (2 ^ k) limit n items K R S out (s\<lparr>st_queue := store_sequence (slot_index (st_queue s) (st_sequence s)) (st_sequence s) (st_queue s), st_writer := W_slotted\<rparr>)"
proof -
  let ?q = "st_queue s" and ?c = "2 ^ k :: nat"
  have a: "length (sq_slots ?q) = ?c" "st_sequence s = of_nat S" "S \<le> unat limit" "take n (sl_item (sq_slots ?q ! (S mod ?c))) = take n (items (of_nat S))"
    "\<forall>slot\<in>set (sq_slots ?q). length (sl_item slot) = n"
    using at w by (auto simp: shm_at_def writer_ok_def Let_def)
  have i: "slot_index ?q (of_nat S) = S mod ?c" using a flow_okD(3) [OF fo a(3)] by (simp add: slot_index_mod unat_of_nat_u64)
  have lt: "S mod ?c < length (sq_slots ?q)" using a(1) by simp
  have "sl_item (sq_slots ?q ! (S mod ?c)) = items (of_nat S)" using a(4,5) lt flow_okD(2) [OF fo] by (metis nth_mem take_all order_refl)
  then have "sq_slots (store_sequence (S mod ?c) (of_nat S) ?q) ! (S mod ?c) = \<lparr>sl_sequence = of_nat S, sl_item = items (of_nat S)\<rparr>"
    using lt by (cases "sq_slots ?q ! (S mod ?c)") (simp add: store_sequence_def)
  then show ?thesis
    using at w window [OF at] cell_lengths(2) [OF a(5) lt] unfolding a(2) i
    by (auto simp: shm_at_def writer_ok_def reader_ok_def Let_def slots_cell)
qed

lemma write_published_at:
  assumes fo: "flow_ok limit k n items" and at: "shm_at (2 ^ k) limit n items K R S out s" and w: "st_writer s = W_slotted"
  shows "shm_at (2 ^ k) limit n items K R (Suc S) out (s\<lparr>st_queue := store_published (st_sequence s) (st_queue s), st_sequence := st_sequence s + 1, st_writer := W_idle\<rparr>)"
proof -
  have "sq_slots (st_queue s) ! (i mod 2 ^ k) = \<lparr>sl_sequence = of_nat i, sl_item = items (of_nat i)\<rparr>" if "R \<le> i" "i < Suc S" for i
    using at w that by (cases "i = S") (auto simp: shm_at_def writer_ok_def Let_def)
  then show ?thesis using at w
    by (auto simp: shm_at_def writer_ok_def reader_ok_def Let_def less_Suc_eq_le split: shm_reader.splits)
qed

lemma load_published_at:
  assumes fo: "flow_ok limit k n items" and at: "shm_at (2 ^ k) limit n items K R S out s" and r: "st_reading s = R_idle"
    "read_published (st_queue s) (sh_published (sq_header (st_queue s))) (st_reader s) = (r, ok)"
  shows "shm_at (2 ^ k) limit n items K R S out (s\<lparr>st_reader := r, st_reading := (if ok then R_published else R_idle)\<rparr>)"
proof -
  let ?q = "st_queue s" and ?c = "2 ^ k :: nat"
  have a: "sr_next (st_reader s) = of_nat R" "R \<le> S" "S \<le> unat limit" "length (sq_slots ?q) = ?c" "K \<le> R" "S < K + ?c"
    "sh_published (sq_header ?q) = (if S = 0 then kNoSequence else of_nat (S - 1))"
    using at by (auto simp: shm_at_def writer_ok_def Let_def split: shm_writer.splits)
  have sS: "S < 2 ^ 64 - 1" and sR: "R < 2 ^ 64 - 1" using flow_okD(3) [OF fo] a(2,3) by auto
  have "r = st_reader s \<and> (ok \<longrightarrow> R < S)"
  proof (cases "S = 0 \<or> S \<le> R")
    case True
    moreover have "(of_nat (S - 1) :: u64) < of_nat R" if "S \<noteq> 0" "S \<le> R"
      using of_nat_less_u64 [of "S - 1" R] sS sR that by linarith
    ultimately have "sh_published (sq_header ?q) = kNoSequence \<or> sr_next (st_reader s) > sh_published (sq_header ?q)"
      unfolding a(1,7) by auto
    then show ?thesis using r(2) by (simp add: read_published_def)
  next
    case False
    let ?p = "of_nat (S - 1) :: u64"
    have p: "sh_published (sq_header ?q) = ?p" "?p \<noteq> kNoSequence" "\<not> sr_next (st_reader s) > ?p"
    proof -
      show "sh_published (sq_header ?q) = ?p" using a(7) False by simp
      show "?p \<noteq> kNoSequence" by (rule none_u64) (use sS in linarith)
      show "\<not> sr_next (st_reader s) > ?p" unfolding a(1) using of_nat_less_u64 [of "S - 1" R] sS sR False by linarith
    qed
    have c: "(of_nat ?c :: u64) - 1 = of_nat (?c - 1)" by (simp add: of_nat_diff)
    have c64: "?c - 1 < 2 ^ 64" using flow_okD(1) [OF fo] by linarith
    have "\<not> sr_next (st_reader s) < oldest ?q ?p"
    proof (cases "?p \<ge> of_nat (?c - 1)")
      case True
      then have le: "?c - 1 \<le> S - 1" using of_nat_le_u64 [of "?c - 1" "S - 1"] c64 sS by linarith
      have "oldest ?q ?p = of_nat (S - 1) - of_nat (?c - 1)"
        unfolding oldest_def Let_def a(4) c using True by (simp only: if_True)
      also have "\<dots> = of_nat (S - 1 - (?c - 1))" using le by (rule of_nat_diff [symmetric])
      finally have o: "oldest ?q ?p = of_nat (S - 1 - (?c - 1))" .
      show ?thesis unfolding a(1) o using of_nat_less_u64 [of R "S - 1 - (?c - 1)"] a(5,6) sS sR by linarith
    next
      case f: False
      then have "oldest ?q ?p = 0" unfolding oldest_def Let_def a(4) c by (simp only: if_False)
      then show ?thesis by simp
    qed
    then show ?thesis using r(2) p False by (simp add: read_published_def Let_def)
  qed
  then show ?thesis using at by (auto simp: shm_at_def writer_ok_def reader_ok_def)
qed

lemma load_before_at:
  assumes fo: "flow_ok limit k n items" and at: "shm_at (2 ^ k) limit n items K R S out s" and r: "st_reading s = R_published"
    "i = slot_index (st_queue s) (sr_next (st_reader s))" "before = sl_sequence (sq_slots (st_queue s) ! i)"
    "read_before before (st_reader s) = (r, ok)"
  shows "shm_at (2 ^ k) limit n items K R S out (s\<lparr>st_reader := r, st_reading := (if ok then R_copying before i 0 [] else R_idle)\<rparr>)"
proof -
  have a: "sr_next (st_reader s) = of_nat R" "R < S" "S \<le> unat limit" "length (sq_slots (st_queue s)) = 2 ^ k"
    using at r(1) by (auto simp: shm_at_def reader_ok_def)
  have "R < 2 ^ 64" using flow_okD(3) [OF fo a(3)] a(2) by simp
  then have i: "i = R mod 2 ^ k" using r(2) a by (simp add: slot_index_mod unat_of_nat_u64)
  then have b: "before = of_nat R" using r(3) at a(2) by (simp add: shm_at_def)
  then have "r = st_reader s" ok using r(4) a(1) by (auto simp: read_before_def)
  then show ?thesis using at a i b by (simp add: shm_at_def writer_ok_def reader_ok_def)
qed

lemma read_cell_at:
  assumes fo: "flow_ok limit k n items" and at: "shm_at (2 ^ k) limit n items K R S out s" and r: "st_reading s = R_copying before i j buf" "j < n"
  shows "shm_at (2 ^ k) limit n items K R S out (s\<lparr>st_reading := R_copying before i (Suc j) (buf @ [sl_item (sq_slots (st_queue s) ! i) ! j])\<rparr>)"
proof -
  have a: "i = R mod 2 ^ k" "R < S" "buf = take j (items (of_nat R))" using at r by (auto simp: shm_at_def reader_ok_def)
  then have "sl_item (sq_slots (st_queue s) ! i) = items (of_nat R)" using at by (simp add: shm_at_def)
  then have "buf @ [sl_item (sq_slots (st_queue s) ! i) ! j] = take (Suc j) (items (of_nat R))"
    using a(3) r(2) flow_okD(2) [OF fo] by (simp add: take_Suc_conv_app_nth)
  then show ?thesis using at r by (simp add: shm_at_def writer_ok_def reader_ok_def)
qed

lemma load_after_at:
  assumes fo: "flow_ok limit k n items" and at: "shm_at (2 ^ k) limit n items K R S out s" and r: "st_reading s = R_copying before i n buf"
    "read_after before (sl_sequence (sq_slots (st_queue s) ! i)) (st_reader s) = (r, ok)"
  shows "shm_at (2 ^ k) limit n items K (Suc R) S (out @ (if ok then [buf] else [])) (s\<lparr>st_reader := r, st_reading := R_idle\<rparr>)"
proof -
  have a: "i = R mod 2 ^ k" "R < S" "before = of_nat R" "buf = items (of_nat R)" "sr_next (st_reader s) = of_nat R"
    using at r flow_okD(2) [OF fo] by (auto simp: shm_at_def reader_ok_def)
  then have "sl_sequence (sq_slots (st_queue s) ! i) = before" using at by (simp add: shm_at_def)
  then have "r = (st_reader s)\<lparr>sr_next := of_nat (Suc R)\<rparr>" ok using r(2) a by (auto simp: read_after_def add.commute)
  then show ?thesis using at a by (simp add: shm_at_def writer_ok_def reader_ok_def)
qed

lemma shm_step_at:
  assumes fo: "flow_ok limit k n items" and at: "shm_at (2 ^ k) limit n items K R S out s" and "shm_step True limit n items s ev s'"
  shows "\<exists>K R S. shm_at (2 ^ k) limit n items K R S (out @ ev) s'"
  using assms(3)
proof cases
  case write_begin
  then show ?thesis using write_begin_at [OF fo at] by auto
next
  case (write_cell j)
  then show ?thesis using write_cell_at [OF fo at] by auto
next
  case write_sequence
  then show ?thesis using write_sequence_at [OF fo at] by auto
next
  case write_published
  then show ?thesis using write_published_at [OF fo at] by auto
next
  case (load_published r ok)
  show ?thesis unfolding load_published(1,2) append_Nil2 using load_published_at [OF fo at load_published(3,4)] by blast
next
  case (load_before i before r ok)
  show ?thesis unfolding load_before(1,2) append_Nil2 using load_before_at [OF fo at load_before(3-6)] by blast
next
  case (read_cell before i j buf)
  show ?thesis unfolding read_cell(1,2) append_Nil2 using read_cell_at [OF fo at read_cell(3,4)] by blast
next
  case (load_after before i buf r ok)
  show ?thesis unfolding load_after(1,2) using load_after_at [OF fo at load_after(3,4)] by blast
next
  case consume
  have "shm_at (2 ^ k) limit n items R R S out (s\<lparr>st_consumed := sr_next (st_reader s)\<rparr>)"
    using at by (auto simp: shm_at_def writer_ok_def reader_ok_def Let_def split: shm_writer.splits)
  then show ?thesis using consume by auto
qed simp

lemma shm_new_at:
  assumes "length zero = n"
  shows "shm_at (2 ^ k) limit n items 0 0 0 [] (shm_threads_new hs is (2 ^ k) zero)"
  using assms
  by (auto simp: shm_at_def shm_threads_new_def SequenceQueue_new_def SequenceHeader_new_def attach_def SequenceReader_new_def
      writer_ok_def reader_ok_def Let_def)

lemma shm_run_at:
  assumes "flow_ok limit k n items" "length zero = n" "shm_run True limit n items s\<^sub>0 out s" "s\<^sub>0 = shm_threads_new hs is (2 ^ k) zero"
  shows "\<exists>K R S. shm_at (2 ^ k) limit n items K R S out s"
  using assms(3,4)
proof (induction rule: shm_run.induct)
  case (run_nil s)
  then show ?case using shm_new_at [OF assms(2)] by blast
next
  case (run_snoc s out s' ev s'')
  then show ?case using shm_step_at [OF assms(1)] by blast
qed

section \<open>A writer that does not wait\<close>

text \<open>The ring after \<open>m \<le> kCapacity\<close> items \<open>[x, x]\<close> with nothing read.\<close>

definition filled_slot :: "nat \<Rightarrow> nat \<Rightarrow> u64 SequenceSlot" where
  "filled_slot m i = (if i < m then \<lparr>sl_sequence = of_nat i, sl_item = [of_nat i, of_nat i]\<rparr> else \<lparr>sl_sequence = kNoSequence, sl_item = [0, 0]\<rparr>)"

definition filled :: "u32 \<Rightarrow> u64 \<Rightarrow> nat \<Rightarrow> nat \<Rightarrow> u64 shm_threads" where
  "filled hs is c m = (shm_threads_new hs is c [0, 0])
     \<lparr>st_queue := \<lparr>sq_header = (SequenceHeader_new hs is c)\<lparr>sh_published := (if m = 0 then kNoSequence else of_nat (m - 1))\<rparr>,
                    sq_slots = map (filled_slot m) [0..<c]\<rparr>,
      st_sequence := of_nat m\<rparr>"

lemma shm_run_trans: "shm_run flow limit n items b out' s \<Longrightarrow> shm_run flow limit n items a out b \<Longrightarrow> shm_run flow limit n items a (out @ out') s"
proof (induction rule: shm_run.induct)
  case (run_nil s)
  then show ?case by simp
next
  case (run_snoc s out1 s' ev s'')
  then show ?case using shm_run.run_snoc append_assoc by metis
qed

lemma shm_run_silent: "shm_run flow limit n items a out b \<Longrightarrow> shm_step flow limit n items b [] s \<Longrightarrow> shm_run flow limit n items a out s"
  using shm_run.run_snoc [of flow limit n items a out b "[]" s] by simp

lemma filled_0: "filled hs is c 0 = shm_threads_new hs is c [0, 0]"
proof -
  have "map (filled_slot 0) [0..<c] = replicate c \<lparr>sl_sequence = kNoSequence, sl_item = [0, 0]\<rparr>"
    by (rule nth_equalityI) (simp_all add: filled_slot_def)
  then show ?thesis by (simp add: filled_def shm_threads_new_def SequenceQueue_new_def SequenceHeader_new_def Let_def)
qed

definition write_cells :: "u64 \<Rightarrow> nat \<Rightarrow> u64 SequenceQueue \<Rightarrow> u64 SequenceQueue" where
  "write_cells x i q = store_cell i 1 x (store_cell i 0 x q)"

lemma writer_cells_run:
  assumes "st_writer s = W_idle" "st_sequence s < limit" "\<not> flow \<or> st_sequence s < st_consumed s + of_nat (length (sq_slots (st_queue s))) - 1"
  shows "shm_run flow limit 2 (\<lambda>x. [x, x]) s []
     (s\<lparr>st_queue := write_cells (st_sequence s) (slot_index (st_queue s) (st_sequence s)) (st_queue s), st_writer := W_copying 2\<rparr>)"
proof -
  let ?x = "st_sequence s" and ?q = "st_queue s" and ?it = "\<lambda>x::u64. [x, x]" let ?i = "slot_index ?q ?x"
  let ?s1 = "s\<lparr>st_writer := W_copying 0\<rparr>" and ?s2 = "s\<lparr>st_queue := store_cell ?i 0 ?x ?q, st_writer := W_copying 1\<rparr>"
  have "shm_run flow limit 2 ?it s [] ?s1" using shm_run_silent [OF run_nil write_begin_free] shm_run_silent [OF run_nil write_begin] assms by blast
  moreover have "shm_step flow limit 2 ?it ?s1 [] ?s2" using write_cell [of ?s1 0 2 flow limit ?it] by simp
  moreover have "shm_step flow limit 2 ?it ?s2 [] (s\<lparr>st_queue := write_cells ?x ?i ?q, st_writer := W_copying 2\<rparr>)"
    using write_cell [of ?s2 1 2 flow limit ?it] by (simp add: write_cells_def slot_index_def numeral_2_eq_2)
  ultimately show ?thesis using shm_run_silent by blast
qed

lemma writer_run:
  assumes "st_writer s = W_idle" "st_sequence s < limit" "\<not> flow \<or> st_sequence s < st_consumed s + of_nat (length (sq_slots (st_queue s))) - 1"
  shows "shm_run flow limit 2 (\<lambda>x. [x, x]) s []
     (s\<lparr>st_queue := store_published (st_sequence s) (store_sequence (slot_index (st_queue s) (st_sequence s)) (st_sequence s)
          (write_cells (st_sequence s) (slot_index (st_queue s) (st_sequence s)) (st_queue s))),
        st_sequence := st_sequence s + 1\<rparr>)"
proof -
  let ?x = "st_sequence s" and ?q = "st_queue s" and ?it = "\<lambda>x::u64. [x, x]" let ?i = "slot_index ?q ?x"
  let ?s3 = "s\<lparr>st_queue := write_cells ?x ?i ?q, st_writer := W_copying 2\<rparr>"
    and ?s4 = "s\<lparr>st_queue := store_sequence ?i ?x (write_cells ?x ?i ?q), st_writer := W_slotted\<rparr>"
  have "shm_step flow limit 2 ?it ?s3 [] ?s4" using write_sequence [of ?s3 2 flow limit ?it] by (simp add: slot_index_def write_cells_def)
  moreover have "shm_step flow limit 2 ?it ?s4 [] (s\<lparr>st_queue := store_published ?x (store_sequence ?i ?x (write_cells ?x ?i ?q)), st_sequence := ?x + 1\<rparr>)"
    using write_published [of ?s4 flow limit 2 ?it] assms(1) by (cases s) simp
  ultimately show ?thesis using writer_cells_run [OF assms] shm_run_silent by blast
qed

lemma filled_step:
  assumes "m < 2 ^ k" "k < 64"
  shows "(filled hs is (2 ^ k) m)\<lparr>st_queue := store_published (of_nat m) (store_sequence m (of_nat m) (write_cells (of_nat m) m (st_queue (filled hs is (2 ^ k) m)))),
        st_sequence := of_nat m + 1\<rparr> = filled hs is (2 ^ k) (Suc m)"
proof -
  have "(map (filled_slot m) [0..<2 ^ k])[m := \<lparr>sl_sequence = of_nat m, sl_item = [of_nat m, of_nat m]\<rparr>] = map (filled_slot (Suc m)) [0..<2 ^ k]"
    by (rule nth_equalityI) (auto simp: filled_slot_def nth_list_update less_Suc_eq)
  then show ?thesis using assms
    by (simp add: filled_def write_cells_def store_cell_def store_sequence_def store_published_def filled_slot_def add.commute numeral_2_eq_2)
qed

lemma filled_sel [simp]:
  "st_writer (filled hs is c m) = W_idle" "st_sequence (filled hs is c m) = of_nat m" "length (sq_slots (st_queue (filled hs is c m))) = c"
  "st_reading (filled hs is c m) = R_idle" "sr_next (st_reader (filled hs is c m)) = 0"
  "sh_published (sq_header (st_queue (filled hs is c m))) = (if m = 0 then kNoSequence else of_nat (m - 1))"
  by (simp_all add: filled_def shm_threads_new_def attach_def Let_def SequenceQueue_new_def SequenceHeader_new_def)

lemma fill_run:
  assumes "k < 63" "m \<le> 2 ^ k"
  shows "shm_run False (2 ^ k + 1) 2 (\<lambda>x. [x, x]) (shm_threads_new hs is (2 ^ k) [0, 0]) [] (filled hs is (2 ^ k) m)"
  using assms(2)
proof (induction m)
  case 0
  show ?case unfolding filled_0 by (rule run_nil)
next
  case (Suc m)
  let ?f = "filled hs is (2 ^ k) m"
  have c: "(2::nat) ^ k < 2 ^ 63" using assms(1) by (rule power_strict_increasing) simp
  have lim: "(2 ^ k + 1 :: u64) = of_nat (2 ^ k + 1)" by simp
  have lt: "of_nat m < (2 ^ k + 1 :: u64)" unfolding lim using of_nat_less_u64 [of m "2 ^ k + 1"] Suc.prems c by auto
  have i: "slot_index (st_queue ?f) (of_nat m) = m" using Suc.prems c by (simp add: slot_index_mod unat_of_nat_u64)
  have "shm_run False (2 ^ k + 1) 2 (\<lambda>x. [x, x]) ?f [] (filled hs is (2 ^ k) (Suc m))"
    using writer_run [of ?f "2 ^ k + 1" False] lt filled_step [of m k hs "is"] Suc.prems assms(1) by (simp add: i)
  then show ?case using Suc.IH Suc.prems shm_run_trans by fastforce
qed

lemma shm_delivers:
  "\<exists>s. shm_run True 1 2 (\<lambda>x. [x, x]) (shm_threads_new hs is (2 ^ 1) [0, 0]) [[0, 0]] s"
proof -
  let ?n = "shm_threads_new hs is (2 ^ 1) [0, 0] :: u64 shm_threads" and ?f = "filled hs is (2 ^ 1) 1" and ?it = "\<lambda>x::u64. [x, x]"
  have r: "shm_run True 1 2 ?it ?n [] ?f"
    using writer_run [of ?n 1 True] filled_step [of 0 1 hs "is"] unfolding filled_0
    by (simp add: shm_threads_new_def Let_def SequenceQueue_new_def slot_index_def)
  have sl: "sq_slots (st_queue ?f) ! 0 = \<lparr>sl_sequence = 0, sl_item = [0, 0]\<rparr>" by (simp add: filled_def filled_slot_def)
  let ?g = "\<lambda>j. ?f\<lparr>st_reading := R_copying 0 0 j (take j [0, 0])\<rparr>"
  have "shm_step True 1 2 ?it ?f [] (?f\<lparr>st_reading := R_published\<rparr>)"
    using load_published [of ?f "st_reader ?f" True True 1 2 ?it] by (simp add: read_published_def oldest_def Let_def)
  note r = shm_run_silent [OF r this]
  have "shm_step True 1 2 ?it (?f\<lparr>st_reading := R_published\<rparr>) [] (?g 0)"
    using load_before [of "?f\<lparr>st_reading := R_published\<rparr>" 0 0 "st_reader ?f" True True 1 2 ?it] sl by (simp add: slot_index_def read_before_def)
  note r = shm_run_silent [OF r this]
  have "shm_step True 1 2 ?it (?g 0) [] (?g 1)" using read_cell [of "?g 0" 0 0 0 "[]" 2 True 1 ?it] sl by simp
  note r = shm_run_silent [OF r this]
  have "shm_step True 1 2 ?it (?g 1) [] (?g 2)" using read_cell [of "?g 1" 0 0 1 "[0]" 2 True 1 ?it] sl by (simp add: numeral_2_eq_2)
  note r = shm_run_silent [OF r this]
  have "shm_step True 1 2 ?it (?g 2) [[0, 0]] (?f\<lparr>st_reader := (st_reader ?f)\<lparr>sr_next := 1\<rparr>, st_reading := R_idle\<rparr>)"
    using load_after [of "?g 2" 0 0 2 "[0, 0]" "(st_reader ?f)\<lparr>sr_next := 1\<rparr>" True True 1 ?it] sl by (simp add: read_after_def)
  then show ?thesis using run_snoc [OF r] by auto
qed

lemma shm_torn:
  assumes "k < 63"
  shows "\<exists>s. shm_run False (2 ^ k + 1) 2 (\<lambda>x. [x, x]) (shm_threads_new hs is (2 ^ k) [0, 0]) [[0, 2 ^ k]] s"
proof -
  let ?f = "filled hs is (2 ^ k) (2 ^ k)" and ?it = "\<lambda>x::u64. [x, x]" and ?L = "2 ^ k + 1 :: u64" and ?c = "2 ^ k :: nat"
  let ?q = "st_queue ?f"
  let ?q' = "write_cells (2 ^ k) 0 ?q"
  let ?run = "shm_run False ?L 2 ?it (shm_threads_new hs is ?c [0, 0])"
  have c: "?c < 2 ^ 63" using assms by (rule power_strict_increasing) simp
  have i0: "slot_index q 0 = 0" for q :: "u64 SequenceQueue" by (simp add: slot_index_def)
  have ic: "slot_index ?q (2 ^ k) = 0"
    using slot_index_mod [of ?q k "of_nat ?c"] unat_of_nat_u64 [of ?c] c by simp
  have r: "?run [] ?f" using fill_run [OF assms, of "2 ^ k"] by simp
  have o: "oldest ?q (of_nat (?c - 1)) = 0"
    by (simp add: oldest_def Let_def of_nat_diff)
  have ne: "(of_nat (?c - 1) :: u64) \<noteq> kNoSequence" using none_u64 [of "?c - 1"] c by auto
  have "shm_step False ?L 2 ?it ?f [] (?f\<lparr>st_reading := R_published\<rparr>)"
    using load_published [of ?f "st_reader ?f" True False ?L 2 ?it] o ne by (simp add: read_published_def Let_def)
  note r = shm_run_silent [OF r this]
  have sl: "sq_slots ?q ! 0 = \<lparr>sl_sequence = 0, sl_item = [0, 0]\<rparr>" by (simp add: filled_def filled_slot_def)
  let ?g = "?f\<lparr>st_reading := R_copying 0 0 0 []\<rparr>" and ?g1 = "?f\<lparr>st_reading := R_copying 0 0 1 [0]\<rparr>"
  have "shm_step False ?L 2 ?it (?f\<lparr>st_reading := R_published\<rparr>) [] ?g"
    using load_before [of "?f\<lparr>st_reading := R_published\<rparr>" 0 0 "st_reader ?f" True False ?L 2 ?it] sl by (simp add: i0 read_before_def)
  note r = shm_run_silent [OF r this]
  have "shm_step False ?L 2 ?it ?g [] ?g1"
    using read_cell [of ?g 0 0 0 "[]" 2 False ?L ?it] sl by simp
  note r = shm_run_silent [OF r this]
  have lt: "(2 ^ k :: u64) < 2 ^ k + 1" using of_nat_less_u64 [of ?c "?c + 1"] c by (simp add: add.commute)
  let ?h = "?g1\<lparr>st_queue := ?q', st_writer := W_copying 2\<rparr>"
  have "shm_run False ?L 2 ?it ?g1 [] ?h" using writer_cells_run [of ?g1 ?L False] lt ic by simp
  note r = shm_run_trans [OF this r]
  have sl': "sq_slots ?q' ! 0 = \<lparr>sl_sequence = 0, sl_item = [2 ^ k, 2 ^ k]\<rparr>"
    using sl by (simp add: write_cells_def store_cell_def)
  let ?h2 = "?h\<lparr>st_reading := R_copying 0 0 2 [0, 2 ^ k]\<rparr>"
  have "shm_step False ?L 2 ?it ?h [] ?h2" using read_cell [of ?h 0 0 1 "[0]" 2 False ?L ?it] sl' by (simp add: numeral_2_eq_2)
  note r = shm_run_silent [OF r [unfolded append_Nil] this]
  have "shm_step False ?L 2 ?it ?h2 [[0, 2 ^ k]] (?h2\<lparr>st_reader := (st_reader ?f)\<lparr>sr_next := 1\<rparr>, st_reading := R_idle\<rparr>)"
    using load_after [of ?h2 0 0 2 "[0, 2 ^ k]" "(st_reader ?f)\<lparr>sr_next := 1\<rparr>" True False ?L ?it] sl' by (simp add: read_after_def)
  then show ?thesis using run_snoc [OF r] by auto
qed

section \<open>Threads that run alone\<close>

lemma store_cells:
  assumes "i < length (sq_slots q)" "j \<le> length (sl_item (sq_slots q ! i))" "j \<le> length item"
  shows "fold (\<lambda>j. store_cell i j (item ! j)) [0..<j] q =
    q\<lparr>sq_slots := (sq_slots q)[i := (sq_slots q ! i)\<lparr>sl_item := take j item @ List.drop j (sl_item (sq_slots q ! i))\<rparr>]\<rparr>"
  using assms(2,3)
proof (induction j)
  case 0
  then show ?case using assms(1) by (cases q) simp
next
  case (Suc j)
  have "(take j item @ List.drop j xs)[j := item ! j] = take (Suc j) item @ List.drop (Suc j) xs" if "Suc j \<le> length xs" for xs
    using Suc.prems(2) that by (simp add: list_update_append upd_conv_take_nth_drop take_Suc_conv_app_nth Cons_nth_drop_Suc [symmetric])
  then show ?case using Suc assms(1) by (simp add: store_cell_def)
qed

lemma publish_slots:
  assumes "length (sq_slots q) = 2 ^ k" "\<forall>slot\<in>set (sq_slots q). length (sl_item slot) = length item"
  shows "publish sequence item q = \<lparr>sq_header = (sq_header q)\<lparr>sh_published := sequence\<rparr>,
     sq_slots = (sq_slots q)[unat sequence mod 2 ^ k := \<lparr>sl_sequence = sequence, sl_item = item\<rparr>]\<rparr>"
proof -
  let ?i = "unat sequence mod 2 ^ k"
  have i: "?i < length (sq_slots q)" using assms(1) by simp
  then have l: "length (sl_item (sq_slots q ! ?i)) = length item" using assms(2) by simp
  have s: "slot_index q' x = unat x mod 2 ^ k" if "length (sq_slots q') = 2 ^ k" for q' :: "'a SequenceQueue" and x using that by (rule slot_index_mod)
  show ?thesis using i l store_cells [of ?i q "length item" item] assms(1)
    by (cases q; cases "sq_slots q ! ?i") (simp add: publish_def Let_def s store_sequence_def store_published_def)
qed

text \<open>The ring of a writer that has published the items with the numbers below \<open>m\<close>.\<close>

primrec history :: "(u64 \<Rightarrow> 'c list) \<Rightarrow> nat \<Rightarrow> 'c SequenceQueue \<Rightarrow> 'c SequenceQueue" where
  "history items 0 q = q"
| "history items (Suc m) q = publish (of_nat m) (items (of_nat m)) (history items m q)"

definition history_ok :: "nat \<Rightarrow> nat \<Rightarrow> (u64 \<Rightarrow> 'c list) \<Rightarrow> nat \<Rightarrow> 'c SequenceQueue \<Rightarrow> bool" where
  "history_ok k n items m q \<longleftrightarrow> length (sq_slots q) = 2 ^ k \<and> (\<forall>slot\<in>set (sq_slots q). length (sl_item slot) = n) \<and>
     sh_published (sq_header q) = (if m = 0 then kNoSequence else of_nat (m - 1)) \<and>
     (\<forall>i. m \<le> i + 2 ^ k \<and> i < m \<longrightarrow> sq_slots q ! (i mod 2 ^ k) = \<lparr>sl_sequence = of_nat i, sl_item = items (of_nat i)\<rparr>)"

lemma history_slots:
  assumes "\<forall>x. length (items x) = n" "length zero = n" "m < 2 ^ 64"
  shows "history_ok k n items m (history items m (SequenceQueue_new hs is (2 ^ k) zero))"
  using assms(3)
proof (induction m)
  case 0
  then show ?case using assms(2) by (simp add: history_ok_def SequenceQueue_new_def SequenceHeader_new_def)
next
  case (Suc m)
  let ?q = "history items m (SequenceQueue_new hs is (2 ^ k) zero)"
  have ok: "history_ok k n items m ?q" using Suc by simp
  have p: "publish (of_nat m) (items (of_nat m)) ?q = \<lparr>sq_header = (sq_header ?q)\<lparr>sh_published := of_nat m\<rparr>,
     sq_slots = (sq_slots ?q)[m mod 2 ^ k := \<lparr>sl_sequence = of_nat m, sl_item = items (of_nat m)\<rparr>]\<rparr>"
    using publish_slots [of ?q k "items (of_nat m)" "of_nat m"] ok assms(1) Suc.prems by (simp add: history_ok_def unat_of_nat_u64)
  have "m mod 2 ^ k \<noteq> i mod 2 ^ k" if "Suc m \<le> i + 2 ^ k" "i < m" for i
    using mod_window [of i m "2 ^ k"] that by (metis less_imp_le less_diff_conv2 Suc_le_lessD add.commute order_less_irrefl)
  then show ?case using ok assms(1) unfolding history.simps p
    by (auto simp: history_ok_def nth_list_update less_Suc_eq dest!: subsetD [OF set_update_subset_insert])
qed

lemma oldest_history:
  assumes "length (sq_slots q) = 2 ^ k" "0 < m" "m < 2 ^ 64" "k < 64"
  shows "oldest q (of_nat (m - 1)) = of_nat (m - 2 ^ k)"
proof -
  let ?c = "2 ^ k :: nat"
  have c: "(of_nat ?c :: u64) - 1 = of_nat (?c - 1)" by (simp add: of_nat_diff)
  have "?c < 2 ^ 64" using assms(4) by (rule power_strict_increasing) simp
  then have le: "(of_nat (?c - 1) :: u64) \<le> of_nat (m - 1) \<longleftrightarrow> ?c \<le> m"
    using of_nat_le_u64 [of "?c - 1" "m - 1"] assms(2,3) by auto
  show ?thesis
  proof (cases "?c \<le> m")
    case True
    have "(of_nat (m - 1) :: u64) - of_nat (?c - 1) = of_nat (m - 1 - (?c - 1))" by (rule of_nat_diff [symmetric]) (use True in simp)
    also have "m - 1 - (?c - 1) = m - ?c" using True assms(2) by auto
    finally show ?thesis unfolding oldest_def Let_def assms(1) c using le True by (simp only: if_True)
  next
    case False
    then have "oldest q (of_nat (m - 1)) = 0" unfolding oldest_def Let_def assms(1) c using le by (simp only: if_False)
    then show ?thesis using False by simp
  qed
qed

lemma try_read_slot:
  assumes "sr_initialized r" "read_published q (sh_published (sq_header q)) r = (r', True)"
    "sq_slots q ! slot_index q (sr_next r') = \<lparr>sl_sequence = sr_next r', sl_item = item\<rparr>"
  shows "try_read q r = (r'\<lparr>sr_next := sr_next r' + 1\<rparr>, Some item)"
  using assms by (simp add: try_read_def Let_def read_before_def read_after_def)

lemma read_published_history:
  assumes h: "history_ok k n items m q" and m: "k < 64" "m < 2 ^ 64" "sr_next r = of_nat R" "R < m"
  defines "f \<equiv> max R (m - 2 ^ k)"
  shows "read_published q (sh_published (sq_header q)) r = (r\<lparr>sr_dropped := sr_dropped r + of_nat (f - R), sr_next := of_nat f\<rparr>, True)"
proof -
  have o: "oldest q (of_nat (m - 1)) = of_nat (m - 2 ^ k)" using h m by (intro oldest_history) (auto simp: history_ok_def)
  have a: "\<not> sr_next r > (of_nat (m - 1) :: u64)" "(of_nat (m - 1) :: u64) \<noteq> kNoSequence"
    unfolding m(3) using of_nat_less_u64 [of "m - 1" R] none_u64 [of "m - 1"] m by auto
  have b: "sr_next r < of_nat (m - 2 ^ k) \<longleftrightarrow> R < m - 2 ^ k"
    unfolding m(3) using of_nat_less_u64 [of R "m - 2 ^ k"] m by auto
  have P: "sh_published (sq_header q) = of_nat (m - 1)" using h m(4) by (simp add: history_ok_def)
  show ?thesis
  proof (cases "R < m - 2 ^ k")
    case True
    then have "(of_nat (m - 2 ^ k) :: u64) - of_nat R = of_nat (m - 2 ^ k - R)" by (intro of_nat_diff [symmetric]) simp
    moreover have "f = m - 2 ^ k" using True by (simp add: f_def)
    ultimately show ?thesis using True a b o unfolding P unfolding read_published_def Let_def
      by (simp add: m(3) del: of_nat_diff)
  next
    case f: False
    then have "f = R" by (simp add: f_def)
    then show ?thesis using f a b o m(3) unfolding P unfolding read_published_def Let_def
      by (cases r) (simp del: of_nat_diff)
  qed
qed

section \<open>Properties\<close>

text \<open>
  C12. With the flow control of the pipeline, the shared memory ring delivers every item exactly once
  and in order: in every interleaving of writer and reader, store by store, load by load and cell by
  cell, the items read are the first items published, none torn, and the reader counts none as dropped.
\<close>

theorem shm_flow_control_safe:
  assumes "unat limit + 2 ^ k < 2 ^ 64" "\<forall>x. length (items x) = n" "length zero = n"
    "shm_run True limit n items (shm_threads_new sizeof_header sizeof_item (2 ^ k) zero) out s"
  shows "\<exists>R. out = map (\<lambda>i. items (of_nat i)) [0..<R] \<and> sr_next (st_reader s) = of_nat R \<and> sr_dropped (st_reader s) = 0"
proof -
  have "flow_ok limit k n items" using assms(1,2) by (simp add: flow_ok_def)
  then obtain K R S where "shm_at (2 ^ k) limit n items K R S out s" using shm_run_at assms(3,4) by blast
  then show ?thesis by (auto simp: shm_at_def)
qed

theorem shm_flow_control_safe_witness:
  "\<exists>s. shm_run True 1 2 (\<lambda>x. [x, x]) (shm_threads_new 64 16 (2 ^ 1) [0, 0]) [[0, 0]] s \<and>
     (\<exists>R. [[0, 0]] = map (\<lambda>i. [of_nat i, of_nat i] :: u64 list) [0..<R] \<and> sr_next (st_reader s) = of_nat R \<and> sr_dropped (st_reader s) = 0)"
proof -
  obtain s where "shm_run True 1 2 (\<lambda>x. [x, x]) (shm_threads_new 64 16 (2 ^ 1) [0, 0]) [[0, 0]] s" using shm_delivers by blast
  moreover from this have "\<exists>R. [[0, 0]] = map (\<lambda>i. [of_nat i, of_nat i] :: u64 list) [0..<R] \<and> sr_next (st_reader s) = of_nat R \<and> sr_dropped (st_reader s) = 0"
    using shm_flow_control_safe [of 1 1 "\<lambda>x. [x, x]" 2 "[0, 0]" 64 16 "[[0, 0]]" s] by simp
  ultimately show ?thesis by (intro exI [of _ s] conjI)
qed

text \<open>
  C40. Without the flow control the reader accepts a torn item: for every capacity there is an
  interleaving in which \<open>try_read\<close> returns an item that was never published, half of it the item with
  number 0 and half of it the item that overwrites the slot. \<open>publish\<close> copies the new item while the
  slot still shows the old sequence number, so both loads of the reader see that number.
\<close>

theorem shm_torn_read:
  assumes "k < 63"
  shows "\<exists>s torn. shm_run False (2 ^ k + 1) 2 (\<lambda>x. [x, x]) (shm_threads_new sizeof_header sizeof_item (2 ^ k) [0, 0]) [torn] s \<and>
     torn \<notin> range (\<lambda>x. [x, x])"
proof -
  have "(2::nat) ^ k < 2 ^ 64" using assms by (intro power_strict_increasing) simp_all
  then have "unat (2 ^ k :: u64) = 2 ^ k" using unat_of_nat_u64 [of "2 ^ k"] by simp
  then have "(2 ^ k :: u64) \<noteq> 0" by (metis power_not_zero unat_0 zero_neq_numeral)
  then show ?thesis using shm_torn [OF assms, of sizeof_header sizeof_item] by fastforce
qed

theorem shm_torn_read_witness:
  "\<exists>s torn. shm_run False (2 ^ 13 + 1) 2 (\<lambda>x. [x, x]) (shm_threads_new 64 16 (2 ^ 13) [0, 0]) [torn] s \<and> torn \<notin> range (\<lambda>x. [x, x])"
  using shm_torn_read [of 13 64 16] by simp

text \<open>
  A reader that runs after the writer has published \<open>m\<close> items reads the oldest item that it has not
  read and that the ring still holds, and counts exactly the overwritten items as dropped; a reader
  that has read all of them gets nothing and is not changed.
\<close>

lemma shm_lagging_reader:
  assumes "k < 64" "\<forall>x. length (items x) = n" "length zero = n" "m < 2 ^ 64"
    "sr_initialized r" "sr_next r = of_nat R" "R \<le> m"
  shows "try_read (history items m (SequenceQueue_new sizeof_header sizeof_item (2 ^ k) zero)) r =
    (if R = m then (r, None)
     else let first = max R (m - 2 ^ k)
          in (r\<lparr>sr_dropped := sr_dropped r + of_nat (first - R), sr_next := of_nat (Suc first)\<rparr>, Some (items (of_nat first))))"
proof -
  let ?q = "history items m (SequenceQueue_new sizeof_header sizeof_item (2 ^ k) zero)" and ?f = "max R (m - 2 ^ k)"
  have h: "history_ok k n items m ?q" using assms history_slots by blast
  have p: "sh_published (sq_header ?q) = (if m = 0 then kNoSequence else of_nat (m - 1))" using h by (simp add: history_ok_def)
  show ?thesis
  proof (cases "R = m")
    case True
    have "(of_nat (m - 1) :: u64) < of_nat m" if "m \<noteq> 0"
      by (rule of_nat_less_u64 [THEN iffD2]) (use assms(4) that in linarith)+
    then have "sh_published (sq_header ?q) = kNoSequence \<or> sr_next r > sh_published (sq_header ?q)"
      unfolding p assms(6) using True by auto
    then show ?thesis using True assms(5) by (simp add: try_read_def read_published_def)
  next
    case False
    let ?r = "r\<lparr>sr_dropped := sr_dropped r + of_nat (?f - R), sr_next := of_nat ?f\<rparr>"
    have m: "0 < m" "R < m" "?f < m" using False assms(7) by auto
    have "sq_slots ?q ! (?f mod 2 ^ k) = \<lparr>sl_sequence = of_nat ?f, sl_item = items (of_nat ?f)\<rparr>"
      using h m by (simp add: history_ok_def)
    moreover have "slot_index ?q (of_nat ?f) = ?f mod 2 ^ k"
      using h m(3) assms(4) by (simp add: history_ok_def slot_index_mod unat_of_nat_u64 del: of_nat_max)
    moreover have "read_published ?q (sh_published (sq_header ?q)) r = (?r, True)"
      using read_published_history [OF h assms(1,4,6) m(2)] .
    ultimately have "try_read ?q r = (?r\<lparr>sr_next := of_nat ?f + 1\<rparr>, Some (items (of_nat ?f)))"
      using try_read_slot [OF assms(5), of ?q ?r "items (of_nat ?f)"] by (simp del: of_nat_max)
    then show ?thesis using False by (simp add: Let_def add.commute del: of_nat_max)
  qed
qed

end
