(* ===== verification/MoldFeed.thy ===== *)
theory MoldFeed
  imports MoldRecovery PipelineThms
begin

text \<open>
  \<open>UftBookMoldFeed\<close> (\<open>include/qtrader/UftBookMoldFeed.hpp\<close>): datagrams in, order book out. The feed
  primes a recovery window at the first sequence number of the pipeline, reports gaps to the pipeline,
  hands the messages that the window releases to the pipeline, and makes every transport failure a
  fault. The template arguments \<open>Slots\<close> and \<open>PacketBytes\<close> are arguments; the pipeline, which the
  class holds by reference, is part of the state.
\<close>

section \<open>The feed\<close>

record UftBookMoldFeed =
  mf_pipeline :: UftOrderBookPipeline
  mf_session :: bytes
  mf_recovery :: RecoveryWindow

datatype feed_error = Bad_session

definition UftBookMoldFeed_new :: "nat \<Rightarrow> nat \<Rightarrow> UftOrderBookPipeline \<Rightarrow> bytes \<Rightarrow> feed_error + UftBookMoldFeed" where
  "UftBookMoldFeed_new slots packet_bytes pipeline session =
     (if length session \<noteq> kSessionBytes \<or> session \<noteq> pl_session pipeline then Inl Bad_session
      else
        let seed = make_request_packet session (pl_next pipeline) 0;
            (recovery, _, _) = MoldRecovery.ingest packet_bytes (RecoveryWindow_init slots packet_bytes) (Some seed) (length seed)
        in Inr \<lparr>mf_pipeline = pipeline, mf_session = session, mf_recovery = recovery\<rparr>)"

text \<open>The callbacks that the feed hands to the window; a request goes to the caller.\<close>

fun feed_event :: "(strategy_call \<Rightarrow> reentry list) \<Rightarrow> bytes \<Rightarrow> rec_event \<Rightarrow> UftOrderBookPipeline \<Rightarrow> UftOrderBookPipeline" where
  "feed_event strategy session (On_message seq message) p = fst (Pipeline.ingest strategy session seq (Some message) (length message) p)"
| "feed_event strategy session (On_control kind seq) p = (if kind = end_of_session_packet then invalidate p else p)"
| "feed_event strategy session (On_request _ _ _) p = p"

fun is_request :: "rec_event \<Rightarrow> bool" where
  "is_request (On_request _ _ _) = True"
| "is_request _ = False"

definition note_beyond :: "DownstreamHeader \<Rightarrow> UftOrderBookPipeline \<Rightarrow> UftOrderBookPipeline" where
  "note_beyond h p =
     (if first_sequence h > pl_next p then
        let last = (if packet_kind h = data_packet then first_sequence h + ucast (message_count h) - 1 else first_sequence h - 1)
        in note_gap last p
      else p)"

definition fatal :: "RecoveryStatus \<Rightarrow> bool" where
  "fatal result \<longleftrightarrow> result = rec_malformed \<or> result = rec_session_mismatch \<or> result = rec_datagram_too_large \<or>
     result = rec_reorder_window_full \<or> result = rec_sequence_overflow"

definition feed_ingest :: "nat \<Rightarrow> (strategy_call \<Rightarrow> reentry list) \<Rightarrow> bytes option \<Rightarrow> nat \<Rightarrow> UftBookMoldFeed \<Rightarrow>
    UftBookMoldFeed \<times> RecoveryStatus \<times> rec_event list" where
  "feed_ingest packet_bytes strategy packet sz f =
     (let parsed = fst (parse_downstream_packet packet sz) in
      if error parsed \<noteq> parse_none then (f\<lparr>mf_pipeline := invalidate (mf_pipeline f)\<rparr>, rec_malformed, [])
      else if hd_session (header parsed) \<noteq> take 10 (mf_session f) then
        (f\<lparr>mf_pipeline := invalidate (mf_pipeline f)\<rparr>, rec_session_mismatch, [])
      else
        let p = note_beyond (header parsed) (mf_pipeline f);
            (recovery, result, events) = MoldRecovery.ingest packet_bytes (mf_recovery f) packet sz;
            p = fold (feed_event strategy (mf_session f)) events p;
            p = (if fatal result then invalidate p else p)
        in (f\<lparr>mf_pipeline := p, mf_recovery := recovery\<rparr>, result, filter is_request events))"

text \<open>Datagrams one after the other; the strategy may answer each of them differently.\<close>

fun feed_run :: "nat \<Rightarrow> UftBookMoldFeed \<Rightarrow> ((strategy_call \<Rightarrow> reentry list) \<times> bytes option \<times> nat) list \<Rightarrow> UftBookMoldFeed" where
  "feed_run packet_bytes f [] = f"
| "feed_run packet_bytes f ((strategy, packet, sz) # ds) = feed_run packet_bytes (fst (feed_ingest packet_bytes strategy packet sz f)) ds"

section \<open>Messages into the pipeline\<close>

definition stream_messages :: "(nat \<Rightarrow> bytes) \<Rightarrow> nat \<Rightarrow> nat \<Rightarrow> (bytes option \<times> nat) list" where
  "stream_messages S a b = map (\<lambda>i. (Some (S i), length (S i))) [a..<b]"

definition quiet_engine :: "unit engine_ops" where
  "quiet_engine = \<lparr>eo_publish_order_detail = (\<lambda>_ e. (e, 0)), eo_publish_transaction = (\<lambda>_ e. (e, 0)), eo_publish_book_update = None\<rparr>"

text \<open>The adapter state that the messages \<open>a\<close> to \<open>b - 1\<close> of the stream give on their own.\<close>

definition after_stream :: "(nat \<Rightarrow> bytes) \<Rightarrow> nat \<Rightarrow> nat \<Rightarrow> NasdaqItchUftAdapter \<Rightarrow> NasdaqItchUftAdapter" where
  "after_stream S a b adapter = fst (adapter_run quiet_engine (stream_messages S a b) (adapter, ()))"

definition same_state :: "NasdaqItchUftAdapter \<Rightarrow> NasdaqItchUftAdapter \<Rightarrow> bool" where
  "same_state a a' \<longleftrightarrow> same_tables (a, ()) (a', ())"

lemma same_state_run: "same_state a a' \<Longrightarrow> same_state (fst (adapter_run en msgs (a, e))) (fst (adapter_run en' msgs (a', e')))"
  using same_tables_run [of "(a, e)" "(a', e')" en msgs en'] by (simp add: same_state_def same_tables_def)

lemma same_state_message: "same_state a a' \<Longrightarrow> same_state (fst (on_message en m n (a, e))) (fst (on_message en' m n (a', e')))"
  using same_tables_on_message [of "(a, e)" "(a', e')" en m n en'] by (simp add: same_state_def same_tables_def)

lemma same_state_refl [simp]: "same_state a a"
  by (simp add: same_state_def same_tables_def)

lemma same_state_trans: "same_state a b \<Longrightarrow> same_state b c \<Longrightarrow> same_state a c"
  by (simp add: same_state_def same_tables_def)

lemma same_state_shows: "same_state a a' \<Longrightarrow> shows_live b a = shows_live b a' \<and> printed_volume a = printed_volume a'"
  by (simp add: same_state_def same_tables_def shows_live_def printed_volume_def)

lemma stream_cons: "a < b \<Longrightarrow> stream_messages S a b = (Some (S a), length (S a)) # stream_messages S (Suc a) b"
  by (simp add: stream_messages_def upt_conv_Cons)

lemma stream_append: "a \<le> b \<Longrightarrow> b \<le> c \<Longrightarrow> stream_messages S a c = stream_messages S a b @ stream_messages S b c"
  using upt_add_eq_append [of a b "c - b"] by (simp add: stream_messages_def)

lemma quiet_state: "(fst st, ()) = (st :: unit adapter_state)"
  by (cases st) simp

lemma after_stream_next:
  assumes "a < b" "same_state x (fst (on_message en (Some (S a)) (length (S a)) (adapter, e)))"
  shows "same_state (after_stream S (Suc a) b x) (after_stream S a b adapter)"
proof -
  let ?st = "on_message quiet_engine (Some (S a)) (length (S a)) (adapter, ())"
  have "same_state x (fst ?st)" by (rule same_state_trans [OF assms(2) same_state_message [OF same_state_refl]])
  then have "same_state (after_stream S (Suc a) b x) (fst (adapter_run quiet_engine (stream_messages S (Suc a) b) (fst ?st, ())))"
    unfolding after_stream_def by (rule same_state_run)
  then show ?thesis unfolding quiet_state by (simp only: after_stream_def [of S a b] stream_cons [OF assms(1)] adapter_run_simps)
qed

lemma after_stream_append:
  assumes "a \<le> b" "b \<le> c" "same_state x (after_stream S a b adapter)"
  shows "same_state (after_stream S b c x) (after_stream S a c adapter)"
proof -
  have "after_stream S a c adapter = after_stream S b c (after_stream S a b adapter)"
    unfolding after_stream_def stream_append [OF assms(1,2)] adapter_run_def quiet_state by simp
  then show ?thesis using same_state_run [OF assms(3)] by (simp add: after_stream_def)
qed

text \<open>A message that the pipeline takes without a fault.\<close>

lemma ingest_taken:
  assumes inv: "pipe_inv p" and i: "Pipeline.ingest strategy session sequence (Some m) sz p = (p', r, c)"
    and ok: "pl_state p' \<noteq> Feed_Faulted" "sequence = pl_next p"
  shows "unat (pl_next p') = unat (pl_next p) + 1" "same_state (pl_adapter p') (fst (on_message pipeline_engine (Some m) sz (pl_adapter p, p)))"
    "session = pl_session p"
proof -
  have acc: "accepts session sequence (Some m) sz p"
  proof (rule ccontr)
    assume "\<not> accepts session sequence (Some m) sz p"
    then show False
      by (cases rule: ingest_refuses [where strategy = strategy, case_names refused duplicate gap]) (use i ok in auto)
  qed
  then show "session = pl_session p" by (simp add: accepts_def)
  let ?p = "run_adapter m sz p"
  have run: "pl_state ?p \<noteq> Feed_Faulted" "pl_adapter p' = pl_adapter ?p" "r = Ingest_Applied"
    using i ok(1) unfolding ingest_accepts [OF acc] by (auto simp: Let_def reenters advance_def split: if_splits)
  show "unat (pl_next p') = unat (pl_next p) + 1" using ingest_next [OF inv i] run(3) ok(2) by simp
  have "pl_adapter ?p = fst (on_message pipeline_engine (Some m) sz (pl_adapter p, p\<lparr>pl_in_ingest := True, pl_pending := False\<rparr>))"
    by (simp add: run_adapter_def Let_def case_prod_unfold)
  then show "same_state (pl_adapter p') (fst (on_message pipeline_engine (Some m) sz (pl_adapter p, p)))"
    using run(2) same_state_message [OF same_state_refl] by simp
qed

lemma note_gap_sel [simp]: "pl_adapter (note_gap h p) = pl_adapter p" "pl_next (note_gap h p) = pl_next p" "pl_high_water p \<le> pl_high_water (note_gap h p)"
  by (simp_all add: note_gap_def)

lemma invalidate_sel [simp]: "pl_state (invalidate p) = Feed_Faulted"
  by (simp add: invalidate_def)

lemma feed_event_calls: "\<exists>calls. feed_event strategy session ev p = foldl pipeline_apply p calls"
proof (cases ev)
  case (On_message s m)
  then show ?thesis by (intro exI [of _ "[Pl_ingest strategy session s (Some m) (length m)]"]) simp
next
  case (On_control k s)
  then show ?thesis by (intro exI [of _ "if k = end_of_session_packet then [Pl_invalidate] else []"]) simp
next
  case (On_request a b c)
  then show ?thesis by (intro exI [of _ "[]"]) simp
qed

lemma feed_event_inv: "pipe_inv p \<Longrightarrow> pipe_inv (feed_event strategy session ev p)"
  using feed_event_calls pipeline_run_inv by metis

lemma feed_event_faulted: "pl_state p = Feed_Faulted \<Longrightarrow> pl_state (feed_event strategy session ev p) = Feed_Faulted"
  using faulted_apply(1) by (cases ev) (auto simp del: pipeline_apply.simps simp flip: pipeline_apply.simps)

lemma feed_events_faulted: "pl_state p = Feed_Faulted \<Longrightarrow> pl_state (fold (feed_event strategy session) evs p) = Feed_Faulted"
  by (induction evs arbitrary: p) (simp_all add: feed_event_faulted)

text \<open>The events of a piece of the stream advance the pipeline by exactly that piece.\<close>

lemma feed_events_stream:
  assumes "pipe_inv p" "message_events evs = stream_calls S (unat (pl_next p)) b" "unat (pl_next p) \<le> b"
    "p' = fold (feed_event strategy session) evs p" "pl_state p' \<noteq> Feed_Faulted"
  shows "unat (pl_next p') = b \<and> same_state (pl_adapter p') (after_stream S (unat (pl_next p)) b (pl_adapter p))"
  using assms
proof (induction evs arbitrary: p rule: message_events.induct [case_names Nil Message Request Control])
  case Nil
  then have "unat (pl_next p) = b" by (auto simp: stream_calls_def)
  then show ?case using Nil by (simp add: after_stream_def stream_messages_def)
next
  case (Message s m evs)
  let ?a = "unat (pl_next p)"
  have lt: "?a < b" using Message.prems(2) by (cases "?a < b") (simp_all add: stream_calls_def)
  then have "stream_calls S ?a b = (of_nat ?a, S ?a) # stream_calls S (Suc ?a) b" by (simp add: stream_calls_def upt_conv_Cons)
  then have m: "s = pl_next p" "m = S ?a" "message_events evs = stream_calls S (Suc ?a) b" using Message.prems(2) by simp_all
  obtain q r c where i: "Pipeline.ingest strategy session s (Some m) (length m) p = (q, r, c)" by (metis prod_cases3)
  have p': "p' = fold (feed_event strategy session) evs q" using Message.prems(4) i by simp
  have "pl_state q \<noteq> Feed_Faulted" using Message.prems(5) p' feed_events_faulted by metis
  note t = ingest_taken [OF Message.prems(1) i this m(1)]
  have "pipe_inv q" using ingest_inv [OF Message.prems(1), of strategy session s "Some m" "length m"] i by simp
  from Message.IH [OF this _ _ p' Message.prems(5)] have ih: "unat (pl_next p') = b" "same_state (pl_adapter p') (after_stream S (Suc ?a) b (pl_adapter q))"
    using m(3) t(1) lt by simp_all
  have "same_state (after_stream S (Suc ?a) b (pl_adapter q)) (after_stream S ?a b (pl_adapter p))"
    using after_stream_next [OF lt] t(2) m(2) by simp
  then show ?case using ih same_state_trans by blast
next
  case (Request v va vb evs)
  show ?case by (rule Request.IH) (use Request.prems in simp_all)
next
  case (Control k v evs)
  have "k \<noteq> end_of_session_packet" using Control.prems(4,5) feed_events_faulted [of "invalidate p"] by auto
  then show ?case by (intro Control.IH) (use Control.prems in simp_all)
qed

section \<open>The invariant\<close>

definition feed_ok :: "(bytes \<Rightarrow> nat \<Rightarrow> bytes) \<Rightarrow> nat \<Rightarrow> NasdaqItchUftAdapter \<Rightarrow> UftBookMoldFeed \<Rightarrow> bool" where
  "feed_ok S n a f \<longleftrightarrow> pipe_inv (mf_pipeline f) \<and> rw_inv S (mf_recovery f) \<and> initialized (rw_tracker (mf_recovery f)) \<and>
     tr_session (rw_tracker (mf_recovery f)) = mf_session f \<and> length (mf_session f) = 10 \<and>
     (pl_state (mf_pipeline f) \<noteq> Feed_Faulted \<longrightarrow>
        n \<le> unat (pl_next (mf_pipeline f)) \<and> rw_next_sequence (mf_recovery f) = pl_next (mf_pipeline f) \<and>
        same_state (pl_adapter (mf_pipeline f)) (after_stream (S (mf_session f)) n (unat (pl_next (mf_pipeline f))) a))"

lemma note_beyond_sel [simp]:
  "pl_adapter (note_beyond h p) = pl_adapter p" "pl_next (note_beyond h p) = pl_next p" "pl_high_water p \<le> pl_high_water (note_beyond h p)"
  by (simp_all add: note_beyond_def Let_def)

lemma note_beyond_inv: "pipe_inv p \<Longrightarrow> pipe_inv (note_beyond h p)"
  using pipeline_apply_inv [of p "Pl_note_gap _"] by (simp add: note_beyond_def Let_def)

lemma note_beyond_faulted: "pl_state p = Feed_Faulted \<Longrightarrow> pl_state (note_beyond h p) = Feed_Faulted"
  by (simp add: note_beyond_def note_gap_def Let_def)

lemma events_inv: "pipe_inv p \<Longrightarrow> pipe_inv (fold (feed_event strategy session) evs p)"
  by (induction evs arbitrary: p) (simp_all add: feed_event_inv)

lemma invalidate_inv: "pipe_inv p \<Longrightarrow> pipe_inv (invalidate p)"
  using pipeline_apply_inv [of p Pl_invalidate] by simp

lemma feed_ok_invalidate: "feed_ok S n a f \<Longrightarrow> feed_ok S n a (f\<lparr>mf_pipeline := invalidate (mf_pipeline f)\<rparr>)"
  by (simp add: feed_ok_def invalidate_inv)

lemma feed_ingest_ok:
  assumes ok: "feed_ok S n a f" and d: "valid_view packet sz" "datagram_agrees S packet sz"
  shows "feed_ok S n a (fst (feed_ingest packet_bytes strategy packet sz f))"
proof -
  let ?r = "fst (parse_downstream_packet packet sz)" and ?p = "mf_pipeline f"
  let ?f = "fst (feed_ingest packet_bytes strategy packet sz f)"
  show ?thesis
  proof (cases "error ?r \<noteq> parse_none \<or> hd_session (header ?r) \<noteq> take 10 (mf_session f)")
    case True
    then show ?thesis using feed_ok_invalidate [OF ok] by (auto simp: feed_ingest_def Let_def)
  next
    case False
    obtain w result evs where i: "MoldRecovery.ingest packet_bytes (mf_recovery f) packet sz = (w, result, evs)" using prod_cases3 by blast
    let ?q = "fold (feed_event strategy (mf_session f)) evs (note_beyond (header ?r) ?p)"
    have f': "?f = f\<lparr>mf_pipeline := (if fatal result then invalidate ?q else ?q), mf_recovery := w\<rparr>"
      using False i by (simp add: feed_ingest_def Let_def)
    have inv: "pipe_inv (note_beyond (header ?r) ?p)" "pipe_inv ?q" using ok note_beyond_inv events_inv by (auto simp: feed_ok_def)
    have o: "rw_inv S (mf_recovery f)" "initialized (rw_tracker (mf_recovery f))" using ok by (auto simp: feed_ok_def)
    have del: "delivers S (mf_recovery f) evs w" "rw_inv S w" using ingest_initialized [OF o d i] by auto
    have "unat (pl_next ?q) = unat (rw_next_sequence w) \<and> n \<le> unat (pl_next ?q) \<and>
        same_state (pl_adapter ?q) (after_stream (S (mf_session f)) n (unat (pl_next ?q)) a)" if live: "pl_state ?q \<noteq> Feed_Faulted"
    proof -
      have st: "pl_state ?p \<noteq> Feed_Faulted" using live feed_events_faulted note_beyond_faulted by metis
      then have base: "n \<le> unat (pl_next ?p)" "rw_next_sequence (mf_recovery f) = pl_next ?p"
        "same_state (pl_adapter ?p) (after_stream (S (mf_session f)) n (unat (pl_next ?p)) a)" using ok by (auto simp: feed_ok_def)
      have "message_events evs = stream_calls (S (mf_session f)) (unat (pl_next ?p)) (unat (rw_next_sequence w))"
        "unat (pl_next ?p) \<le> unat (rw_next_sequence w)"
        using del(1) ok base(2) by (auto simp: delivers_def feed_ok_def word_le_nat_alt)
      then have r: "unat (pl_next ?q) = unat (rw_next_sequence w)"
        "same_state (pl_adapter ?q) (after_stream (S (mf_session f)) (unat (pl_next ?p)) (unat (pl_next ?q)) (pl_adapter ?p))"
        "unat (pl_next ?p) \<le> unat (pl_next ?q)"
        using feed_events_stream [OF inv(1) _ _ refl live, of "S (mf_session f)" "unat (rw_next_sequence w)"] by simp_all
      then show ?thesis
        using base(1) same_state_trans [OF r(2) after_stream_append [OF base(1) r(3) base(3)]] by simp
    qed
    then show ?thesis using ok inv(2) del unfolding f'
      by (auto simp: feed_ok_def invalidate_inv delivers_def word_unat_eq_iff)
  qed
qed

lemma feed_run_ok:
  assumes "feed_ok S n a f" "\<forall>(strategy, packet, sz)\<in>set ds. valid_view packet sz \<and> datagram_agrees S packet sz"
  shows "feed_ok S n a (feed_run packet_bytes f ds)"
  using assms
proof (induction ds arbitrary: f)
  case (Cons d ds)
  then show ?case using feed_ingest_ok [OF Cons.prems(1)] by (cases d) auto
qed simp

lemma seed_window:
  assumes "length session = 10"
  shows "MoldRecovery.ingest packet_bytes (RecoveryWindow_init slots packet_bytes) (Some (make_request_packet session next 0)) 20 = (w, r, evs) \<Longrightarrow>
    rw_inv S w \<and> initialized (rw_tracker w) \<and> tr_session (rw_tracker w) = session \<and> rw_next_sequence w = next"
  using header_of_encoding [OF assms, of "next" 0 "[]" 20] rw_inv_init [of S slots packet_bytes]
  by (auto simp: MoldRecovery.ingest_def parse_downstream_packet_def packet_kind_def Let_def inspect_def RecoveryWindow_init_def
      SequenceTracker_init_def kHeaderBytes_def kEndOfSession_def decision_def rw_next_sequence_def rw_inv_def split: if_splits prod.splits)

lemma feed_new_ok:
  assumes "pipe_inv p" "n = unat (pl_next p)" "UftBookMoldFeed_new slots packet_bytes p session = Inr f"
  shows "feed_ok S n (pl_adapter p) f" "mf_session f = session" "mf_pipeline f = p"
proof -
  have l: "length session = 10" "session = pl_session p" using assms(3) by (auto simp: UftBookMoldFeed_new_def kSessionBytes_def split: if_splits)
  obtain w r evs where i: "MoldRecovery.ingest packet_bytes (RecoveryWindow_init slots packet_bytes) (Some (make_request_packet session (pl_next p) 0)) 20 = (w, r, evs)"
    using prod_cases3 by blast
  then have f: "f = \<lparr>mf_pipeline = p, mf_session = session, mf_recovery = w\<rparr>"
    using assms(3) l by (auto simp: UftBookMoldFeed_new_def kSessionBytes_def Let_def)
  then show "mf_session f = session" "mf_pipeline f = p" by simp_all
  show "feed_ok S n (pl_adapter p) f" using seed_window [OF l(1) i] assms(1,2) l f
    by (simp add: feed_ok_def after_stream_def stream_messages_def)
qed

section \<open>Nothing is missed\<close>

definition datagram_end :: "bytes option \<Rightarrow> nat \<Rightarrow> nat" where
  "datagram_end packet sz = (let h = header (fst (parse_downstream_packet packet sz)) in unat (first_sequence h) + header_count h)"

lemma reenter_high_water: "pl_high_water p \<le> pl_high_water (fold reenter cs p)"
proof (induction cs arbitrary: p)
  case (Cons c cs)
  have "pl_high_water p \<le> pl_high_water (reenter c p)" by (cases c) (simp_all add: invalidate_def)
  then show ?case using Cons [of "reenter c p"] by simp
qed simp

lemma ingest_high_water:
  assumes "pipe_inv p"
  shows "pl_high_water p \<le> pl_high_water (fst (Pipeline.ingest strategy session sequence message sz p))"
proof (cases "accepts session sequence message sz p")
  case True
  have "pipe_core p" using assms by (simp add: pipe_inv_def)
  note r = run_adapter_core(4) [OF True this]
  have "pl_high_water (advance q) = pl_high_water q" for q by (simp add: advance_def Let_def)
  then show ?thesis
    using r reenter_high_water [of "(advance (run_adapter (the message) sz p))\<lparr>pl_callbacks := pl_callbacks (run_adapter (the message) sz p) + 1\<rparr>"]
    unfolding ingest_accepts [OF True] by (simp add: Let_def)
next
  case False
  then show ?thesis by (cases rule: ingest_refuses [where strategy = strategy, case_names refused duplicate gap]) simp_all
qed

lemma events_high_water: "pipe_inv p \<Longrightarrow> pl_high_water p \<le> pl_high_water (fold (feed_event strategy session) evs p)"
proof (induction evs arbitrary: p)
  case (Cons ev evs)
  have "pl_high_water p \<le> pl_high_water (feed_event strategy session ev p)"
    using ingest_high_water [OF Cons.prems] by (cases ev) (simp_all add: invalidate_def)
  then show ?case using Cons.IH [OF feed_event_inv [OF Cons.prems]] order_trans by fastforce
qed simp

text \<open>A datagram that begins at or before the next expected message leaves nothing of it missing.\<close>

lemma ingest_reaches:
  assumes inv: "rw_inv S w" "initialized (rw_tracker w)" and ok: "parse_ok packet sz" and d: "valid_view packet sz" "datagram_agrees S packet sz"
    and h: "h = header (fst (parse_downstream_packet packet sz))" "tr_session (rw_tracker w) = hd_session h"
    and fits: "unat (first_sequence h) + header_count h < 2 ^ 64" "first_sequence h \<le> rw_next_sequence w"
    and run: "MoldRecovery.ingest packet_bytes w packet sz = (w', st, ev)"
  shows "unat (first_sequence h) + header_count h \<le> unat (rw_next_sequence w')"
proof -
  let ?t = "rw_tracker w" and ?ws = "w\<lparr>rw_stats := (rw_stats w)\<lparr>rs_datagrams := rs_datagrams (rw_stats w) + 1\<rparr>\<rparr>"
  obtain t dd where td: "inspect ?t h = (t, dd)" by fastforce
  then have insp: "inspect ?t h = (?t, dd)" using inspect_same [OF inv(2)] by metis
  have mono: "unat (rw_next_sequence w) \<le> unat (rw_next_sequence w')"
    using ingest_initialized [OF inv d run] by (simp add: delivers_def word_le_nat_alt)
  show ?thesis
  proof (cases "unat (first_sequence h) + header_count h \<le> unat (rw_next_sequence w)")
    case True
    then show ?thesis using mono by simp
  next
    case False
    then have n: "0 < header_count h" and f: "unat (first_sequence h) \<le> unat (next_sequence ?t)"
      using fits(2) by (auto simp: word_le_nat_alt rw_next_sequence_def)
    then have data: "packet_kind h = data_packet" and may: "may_process dd"
      using inspect_may_process [OF insp h(2)] False fits(1) by (auto simp: header_count_data rw_next_sequence_def)
    obtain w2 e1 where pr: "process ?ws packet sz h dd = (w2, e1)" by fastforce
    have t: "rw_tracker ?ws = ?t" by simp
    note ps = process_stream [OF ok h(1) d(2) insp h(2) data may t pr]
    let ?wp = "w2\<lparr>rw_request_outstanding := False\<rparr>"
    have wp: "rw_slots ?wp = rw_slots w" "rw_occupied ?wp = rw_occupied w" "tr_session (rw_tracker ?wp) = tr_session ?t" "initialized (rw_tracker ?wp)"
      using arg_cong [OF ps(4), of rw_slots] arg_cong [OF ps(4), of rw_occupied] arg_cong [OF ps(4), of rw_tracker] inv(2) by simp_all
    have "rw_inv S ?wp" using inv wp by (simp add: rw_inv_def)
    then have "rw_next_sequence ?wp \<le> rw_next_sequence (fst (drain ?wp))" using drain_delivers(1) [OF _ wp(4)] by (simp add: delivers_def)
    moreover have "w' = fst (drain ?wp)"
      using may ok insp data pr run
      by (cases "state dd") (simp_all add: may_process_def MoldRecovery.ingest_def Let_def h(1) [symmetric] case_prod_unfold)
    ultimately show ?thesis using ps(2) by (simp add: word_le_nat_alt rw_next_sequence_def)
  qed
qed

lemma unat_minus_one_pos: "0 < unat x \<Longrightarrow> unat (x - 1 :: u64) = unat x - 1"
  using unat_inc [of "x - 1"] by (auto simp: unat_gt_0)

lemma note_beyond_reaches:
  assumes "pl_state p \<noteq> Feed_Faulted" "pl_next p < first_sequence h" "unat (first_sequence h) + header_count h < 2 ^ 64"
  shows "unat (first_sequence h) + header_count h \<le> unat (pl_high_water (note_beyond h p)) + 1"
proof -
  let ?last = "if packet_kind h = data_packet then first_sequence h + ucast (message_count h) - 1 else first_sequence h - 1"
  have f: "0 < unat (first_sequence h)" "unat (pl_next p) < unat (first_sequence h)" using assms(2) by (auto simp: word_less_nat_alt)
  have last: "unat ?last + 1 = unat (first_sequence h) + header_count h"
  proof (cases "packet_kind h = data_packet")
    case True
    then have "unat (first_sequence h + ucast (message_count h)) = unat (first_sequence h) + header_count h"
      using assms(3) unat_packet_end by (simp add: header_count_def)
    then show ?thesis using True f(1) by (simp add: unat_minus_one_pos)
  next
    case False
    then show ?thesis using f(1) by (simp add: header_count_def unat_minus_one_pos)
  qed
  then have "\<not> ?last < pl_next p" using f by (simp add: word_less_nat_alt)
  then have "?last \<le> pl_high_water (note_beyond h p)" using assms(1,2) by (simp add: note_beyond_def note_gap_def Let_def)
  then show ?thesis using last by (simp add: word_le_nat_alt)
qed

lemma feed_step_complete:
  assumes ok: "feed_ok S n a f" and d: "valid_view packet sz" "datagram_agrees S packet sz"
    and f': "f' = fst (feed_ingest packet_bytes strategy packet sz f)" and live: "pl_state (mf_pipeline f') \<noteq> Feed_Faulted"
  shows "parse_ok packet sz \<and> hd_session (header (fst (parse_downstream_packet packet sz))) = mf_session f"
    "datagram_end packet sz \<le> max (unat (pl_next (mf_pipeline f'))) (unat (pl_high_water (mf_pipeline f')) + 1)"
    "pl_next (mf_pipeline f) \<le> pl_next (mf_pipeline f')" "pl_high_water (mf_pipeline f) \<le> pl_high_water (mf_pipeline f')"
    "pl_state (mf_pipeline f) \<noteq> Feed_Faulted" "mf_session f' = mf_session f"
proof -
  let ?r = "fst (parse_downstream_packet packet sz)" and ?p = "mf_pipeline f" let ?h = "header ?r"
  have s: "take 10 (mf_session f) = mf_session f" using ok by (simp add: feed_ok_def)
  show good: "parse_ok packet sz \<and> hd_session ?h = mf_session f"
    using live unfolding f' by (auto simp: feed_ingest_def Let_def s split: if_splits prod.splits)
  obtain w result evs where i: "MoldRecovery.ingest packet_bytes (mf_recovery f) packet sz = (w, result, evs)" using prod_cases3 by blast
  let ?b = "note_beyond ?h ?p" let ?q = "fold (feed_event strategy (mf_session f)) evs ?b"
  have eq: "f' = f\<lparr>mf_pipeline := (if fatal result then invalidate ?q else ?q), mf_recovery := w\<rparr>"
    using good i by (simp add: f' feed_ingest_def Let_def s)
  then have q: "mf_pipeline f' = ?q" "\<not> fatal result" "mf_recovery f' = w" "mf_session f' = mf_session f" using live by (auto split: if_splits)
  then show "mf_session f' = mf_session f" by simp
  show st: "pl_state ?p \<noteq> Feed_Faulted" using live q(1) feed_events_faulted note_beyond_faulted by metis
  have inv: "pipe_inv ?b" using ok note_beyond_inv by (auto simp: feed_ok_def)
  have hw: "pl_high_water ?b \<le> pl_high_water ?q" using events_high_water [OF inv] .
  then show "pl_high_water ?p \<le> pl_high_water (mf_pipeline f')" using q(1) note_beyond_sel(3) order_trans by metis
  have o: "rw_inv S (mf_recovery f)" "initialized (rw_tracker (mf_recovery f))" "tr_session (rw_tracker (mf_recovery f)) = hd_session ?h"
    "rw_next_sequence (mf_recovery f) = pl_next ?p" using ok st good by (auto simp: feed_ok_def)
  have nxt: "pl_next (mf_pipeline f') = rw_next_sequence w"
    using feed_ingest_ok [OF ok d, of packet_bytes strategy] live q(3) f' by (simp add: feed_ok_def)
  show "pl_next ?p \<le> pl_next (mf_pipeline f')"
    using ingest_initialized [OF o(1,2) d i] o(4) nxt by (simp add: delivers_def)
  obtain t dd where "inspect (rw_tracker (mf_recovery f)) ?h = (t, dd)" by fastforce
  then have insp: "inspect (rw_tracker (mf_recovery f)) ?h = (rw_tracker (mf_recovery f), dd)" using inspect_same [OF o(2)] by metis
  have fits: "unat (first_sequence ?h) + header_count ?h < 2 ^ 64"
  proof (rule ccontr)
    assume "\<not> ?thesis"
    then have "state dd = seq_overflow" using inspect_decision [OF insp o(3)] by (simp add: Let_def decision_def)
    then have "result = rec_sequence_overflow" using i insp good by (auto simp: MoldRecovery.ingest_def Let_def)
    then show False using q(2) by (simp add: fatal_def)
  qed
  show "datagram_end packet sz \<le> max (unat (pl_next (mf_pipeline f'))) (unat (pl_high_water (mf_pipeline f')) + 1)"
  proof (cases "pl_next ?p < first_sequence ?h")
    case True
    then show ?thesis using note_beyond_reaches [OF st True fits] hw q(1) by (simp add: datagram_end_def Let_def word_le_nat_alt)
  next
    case False
    then show ?thesis using ingest_reaches [OF o(1,2) _ d refl o(3) fits _ i] good o(4) nxt
      by (simp add: datagram_end_def Let_def not_less)
  qed
qed

lemma feed_run_snoc: "feed_run packet_bytes f (ds @ [(strategy, packet, sz)]) = fst (feed_ingest packet_bytes strategy packet sz (feed_run packet_bytes f ds))"
  by (induction packet_bytes f ds rule: feed_run.induct) simp_all

lemma feed_run_complete:
  assumes "feed_ok S n a f" "\<forall>(strategy, packet, sz)\<in>set ds. valid_view packet sz \<and> datagram_agrees S packet sz"
    "pl_state (mf_pipeline (feed_run packet_bytes f ds)) \<noteq> Feed_Faulted"
  shows "mf_session (feed_run packet_bytes f ds) = mf_session f \<and>
    (\<forall>(strategy, packet, sz)\<in>set ds. parse_ok packet sz \<and> hd_session (header (fst (parse_downstream_packet packet sz))) = mf_session f \<and>
      datagram_end packet sz \<le> max (unat (pl_next (mf_pipeline (feed_run packet_bytes f ds)))) (unat (pl_high_water (mf_pipeline (feed_run packet_bytes f ds))) + 1))"
  using assms(2,3)
proof (induction ds rule: rev_induct)
  case (snoc d ds)
  obtain strategy packet sz where d: "d = (strategy, packet, sz)" using prod_cases3 by blast
  let ?f = "feed_run packet_bytes f ds" and ?f' = "feed_run packet_bytes f (ds @ [d])"
  have ok: "feed_ok S n a ?f" using feed_run_ok [OF assms(1)] snoc.prems(1) by simp
  have v: "valid_view packet sz" "datagram_agrees S packet sz" using snoc.prems(1) d by auto
  have f': "?f' = fst (feed_ingest packet_bytes strategy packet sz ?f)" by (simp add: d feed_run_snoc)
  note step = feed_step_complete [OF ok v f' snoc.prems(2)]
  have m: "unat (pl_next (mf_pipeline ?f)) \<le> unat (pl_next (mf_pipeline ?f'))" "unat (pl_high_water (mf_pipeline ?f)) \<le> unat (pl_high_water (mf_pipeline ?f'))"
    using step(3,4) by (simp_all add: word_le_nat_alt)
  have "mf_session ?f = mf_session f \<and>
    (\<forall>(strategy, packet, sz)\<in>set ds. parse_ok packet sz \<and> hd_session (header (fst (parse_downstream_packet packet sz))) = mf_session f \<and>
      datagram_end packet sz \<le> max (unat (pl_next (mf_pipeline ?f))) (unat (pl_high_water (mf_pipeline ?f)) + 1))"
    using snoc.IH snoc.prems(1) step(5) by simp
  then show ?case using step(1,2,6) m by (fastforce simp: d)
qed simp

section \<open>A sample feed\<close>

text \<open>One datagram with the sample message, on the started sample pipeline.\<close>

definition sample_datagram :: bytes where
  "sample_datagram = encode_packet (replicate 10 65) 1 [sample_add]"

lemma sample_datagram_agrees: "valid_view (Some sample_datagram) 58" "datagram_agrees (\<lambda>_ _. sample_add) (Some sample_datagram) 58"
  by code_simp+

definition sample_window :: RecoveryWindow where
  "sample_window = fst (MoldRecovery.ingest 64 (RecoveryWindow_init 2 64) (Some (make_request_packet (replicate 10 65) 1 0)) 20)"

lemma sample_recovery:
  "snd (MoldRecovery.ingest 64 sample_window (Some sample_datagram) 58) = (rec_processed, [On_message 1 sample_add])"
  "datagram_end (Some sample_datagram) 58 = 2"
  "hd_session (header (fst (parse_downstream_packet (Some sample_datagram) 58))) = replicate 10 65" "parse_ok (Some sample_datagram) 58"
  "first_sequence (header (fst (parse_downstream_packet (Some sample_datagram) 58))) = 1"
  by code_simp+

abbreviation sample_datagrams :: "((strategy_call \<Rightarrow> reentry list) \<times> bytes option \<times> nat) list" where
  "sample_datagrams \<equiv> [(\<lambda>_. [], Some sample_datagram, 58)]"

lemma sample_feed_run:
  obtains p f where "sample_new = Inr p" "UftBookMoldFeed_new 2 64 (fst (pipeline_start True True p)) sample_session = Inr f"
    "pl_state (mf_pipeline (feed_run 64 f sample_datagrams)) = Feed_Live" "pl_next (mf_pipeline (feed_run 64 f sample_datagrams)) = 2"
proof -
  obtain p q c where p: "sample_new = Inr p" "pl_state (foldl pipeline_apply p sample_calls) = Feed_Live"
    "Pipeline.ingest (\<lambda>_. []) sample_session 1 (Some sample_add) 36 (foldl pipeline_apply p [Pl_start True True]) = (q, Ingest_Applied, Some c)"
    by (rule sample_live) blast
  let ?p = "fst (pipeline_start True True p)"
  have inv: "pipe_inv ?p" using pipeline_start_inv pipeline_new_inv [OF p(1)] by blast
  obtain p' where p': "sample_new = Inr p'" "pl_session p' = sample_session" "pl_next p' = 1" by (rule sample_pipeline)
  then have new: "pl_session ?p = sample_session" "pl_next ?p = 1"
    using p(1) by (auto simp: pipeline_start_def split: prod.splits)
  define f where "f = \<lparr>mf_pipeline = ?p, mf_session = sample_session, mf_recovery = sample_window\<rparr>"
  have f: "UftBookMoldFeed_new 2 64 ?p sample_session = Inr f"
    using new by (simp add: UftBookMoldFeed_new_def f_def kSessionBytes_def sample_window_def sample_session_def Let_def case_prod_unfold)
  have q: "pl_state q = Feed_Live" "Pipeline.ingest (\<lambda>_. []) sample_session 1 (Some sample_add) 36 ?p = (q, Ingest_Applied, Some c)"
    using p(2,3) by simp_all
  have len: "length sample_add = 36" by (simp add: sample_add_def)
  have "mf_pipeline (feed_run 64 f sample_datagrams) = q"
    using sample_recovery new q(2) len
    by (simp add: feed_ingest_def f_def Let_def case_prod_unfold note_beyond_def fatal_def sample_session_def)
  moreover have "pl_next q = 2"
    using ingest_next [OF inv q(2)] new(2) by (simp add: word_unat_eq_iff)
  ultimately show thesis using that [OF p(1) f] q(1) by simp
qed

section \<open>Properties\<close>

text \<open>
  C1. End to end, the order book is a function of the exchange's message stream alone. Let the pipeline
  be new and started and the feed constructed on it, and let datagrams of the channel arrive in any
  order, lost, repeated or overlapping. As long as the pipeline has not faulted, the pipeline and the
  recovery window expect the same message, every query of the book answers as exactly the live orders
  that the stream's messages from the first one up to the expected one give when handed to an ITCH
  adapter in order, and the printed volume is the volume of that adapter's unbroken printable matches.
\<close>

theorem feed_book_follows_stream:
  assumes "UftOrderBookPipeline_new session start_sequence locator max_orders max_matches minimum maximum tick = Inr p"
    "UftBookMoldFeed_new slots packet_bytes (fst (pipeline_start True True p)) session = Inr f"
    "\<forall>(strategy, packet, sz)\<in>set ds. valid_view packet sz \<and> datagram_agrees S packet sz"
    "f' = feed_run packet_bytes f ds" "pl_state (mf_pipeline f') \<noteq> Feed_Faulted"
  shows "let next = pl_next (mf_pipeline f'); a = after_stream (S session) (unat start_sequence) (unat next) (pl_adapter p) in
    start_sequence \<le> next \<and> rw_next_sequence (mf_recovery f') = next \<and> shows_live (pl_book (mf_pipeline f')) a \<and>
    unat (pl_net_volume (mf_pipeline f')) = printed_volume a"
proof -
  let ?p = "fst (pipeline_start True True p)"
  have n: "pl_next ?p = start_sequence" "pl_adapter ?p = pl_adapter p"
    using assms(1) by (auto simp: UftOrderBookPipeline_new_def pipeline_start_def Let_def split: sum.splits prod.splits if_splits)
  have inv: "pipe_inv ?p" using pipeline_start_inv pipeline_new_inv [OF assms(1)] by blast
  note new = feed_new_ok(1) [OF inv refl assms(2), of S] feed_new_ok(2) [OF inv refl assms(2)]
  have ok: "feed_ok S (unat start_sequence) (pl_adapter p) f'" using feed_run_ok [OF new(1) assms(3)] n assms(4) by simp
  have s: "mf_session f' = session" using feed_run_complete [OF new(1) assms(3)] assms(4,5) new(2) by simp
  have st: "same_state (pl_adapter (mf_pipeline f')) (after_stream (S session) (unat start_sequence) (unat (pl_next (mf_pipeline f'))) (pl_adapter p))"
    using ok assms(5) s by (simp add: feed_ok_def)
  have "in_step (pl_adapter (mf_pipeline f')) (mf_pipeline f')" using ok assms(5) by (simp add: feed_ok_def pipe_inv_def pipe_core_def)
  note shown = in_step_shows [OF this]
  show ?thesis unfolding Let_def
    using shown same_state_shows [OF st, of "pl_book (mf_pipeline f')"] ok assms(5) by (simp add: feed_ok_def word_le_nat_alt)
qed

theorem feed_book_follows_stream_witness:
  "\<exists>p f. sample_new = Inr p \<and> UftBookMoldFeed_new 2 64 (fst (pipeline_start True True p)) sample_session = Inr f \<and>
     shows_live (pl_book (mf_pipeline (feed_run 64 f sample_datagrams))) (after_stream (\<lambda>_. sample_add) 1 2 (pl_adapter p))"
proof -
  obtain p f where s: "sample_new = Inr p" "UftBookMoldFeed_new 2 64 (fst (pipeline_start True True p)) sample_session = Inr f"
    "pl_state (mf_pipeline (feed_run 64 f sample_datagrams)) = Feed_Live" "pl_next (mf_pipeline (feed_run 64 f sample_datagrams)) = 2"
    by (rule sample_feed_run)
  have "\<forall>(strategy, packet, sz)\<in>set sample_datagrams. valid_view packet sz \<and> datagram_agrees (\<lambda>_ _. sample_add) packet sz"
    using sample_datagram_agrees by simp
  from feed_book_follows_stream [OF s(1,2) this refl] show ?thesis using s by (simp add: Let_def)
qed

text \<open>
  C6. A live book is complete: when the pipeline is live, every datagram that the feed was ever given
  was well-formed and of its session, and every message it carried, and every message that a heartbeat
  or end of session implied, lies before the next expected sequence number, so it is in the book.
\<close>

theorem feed_live_complete:
  assumes "UftOrderBookPipeline_new session start_sequence locator max_orders max_matches minimum maximum tick = Inr p"
    "UftBookMoldFeed_new slots packet_bytes (fst (pipeline_start True True p)) session = Inr f"
    "\<forall>(strategy, packet, sz)\<in>set ds. valid_view packet sz \<and> datagram_agrees S packet sz"
    "f' = feed_run packet_bytes f ds" "pl_state (mf_pipeline f') = Feed_Live" "(strategy, packet, sz) \<in> set ds"
  shows "parse_ok packet sz \<and> hd_session (header (fst (parse_downstream_packet packet sz))) = session \<and>
    datagram_end packet sz \<le> unat (pl_next (mf_pipeline f'))"
proof -
  have inv: "pipe_inv (fst (pipeline_start True True p))" using pipeline_start_inv pipeline_new_inv [OF assms(1)] by blast
  note new = feed_new_ok(1) [OF inv refl assms(2), of S] feed_new_ok(2) [OF inv refl assms(2)]
  have "pipe_inv (mf_pipeline f')" using feed_run_ok [OF new(1) assms(3)] assms(4) by (simp add: feed_ok_def)
  then have "unat (pl_high_water (mf_pipeline f')) + 1 \<le> unat (pl_next (mf_pipeline f'))"
    using assms(5) by (simp add: pipe_inv_def pipe_core_def word_less_nat_alt)
  moreover have "pl_state (mf_pipeline (feed_run packet_bytes f ds)) \<noteq> Feed_Faulted" using assms(4,5) by simp
  note bspec [OF feed_run_complete [OF new(1) assms(3) this, THEN conjunct2] assms(6)]
  ultimately show ?thesis using assms(4) new(2) by simp
qed

theorem feed_live_complete_witness:
  "\<exists>p f. sample_new = Inr p \<and> UftBookMoldFeed_new 2 64 (fst (pipeline_start True True p)) sample_session = Inr f \<and>
     pl_state (mf_pipeline (feed_run 64 f sample_datagrams)) = Feed_Live \<and>
     datagram_end (Some sample_datagram) 58 \<le> unat (pl_next (mf_pipeline (feed_run 64 f sample_datagrams)))"
proof -
  obtain p f where s: "sample_new = Inr p" "UftBookMoldFeed_new 2 64 (fst (pipeline_start True True p)) sample_session = Inr f"
    "pl_state (mf_pipeline (feed_run 64 f sample_datagrams)) = Feed_Live" "pl_next (mf_pipeline (feed_run 64 f sample_datagrams)) = 2"
    by (rule sample_feed_run)
  have "\<forall>(strategy, packet, sz)\<in>set sample_datagrams. valid_view packet sz \<and> datagram_agrees (\<lambda>_ _. sample_add) packet sz"
    using sample_datagram_agrees by simp
  from feed_live_complete [OF s(1,2) this refl s(3), of "\<lambda>_. []" "Some sample_datagram" 58] show ?thesis using s by auto
qed

end
