(* ===== verification/Spec2Isabelle.thy ===== *)
theory Spec2Isabelle
  imports FixedHashTable MoldRecovery PriceTimeProps UftEngine PipelineThms DifferentialReplay Fingerprint ParserItch SpscRing ShmRing MoldFeed
begin

text \<open>
  \<^bold>\<open>Qtrader: from exchange datagrams to an order book.\<close>

  The program receives the NASDAQ ITCH 5.0 feed of one instrument as MoldUDP64 datagrams, restores
  the order of the messages, and keeps an order book that a strategy reads. The parts and the way
  from one to the next:

  \<^item> \<open>UftBookMoldFeed\<close> gets a datagram. It lets \<open>parse_downstream_packet\<close> check it, reports a gap to the
    pipeline, and hands the datagram to the \<open>RecoveryWindow\<close>.
  \<^item> The \<open>RecoveryWindow\<close> skips messages that were processed, buffers datagrams beyond a gap, asks for the
    missing messages, and releases the messages in order.
  \<^item> \<open>UftOrderBookPipeline\<close> takes the released messages one by one, by sequence number, and hands
    them to \<open>NasdaqItchUftAdapter\<close>.
  \<^item> The adapter keeps the live orders and the matches in two \<open>FixedHashTable\<close>s and publishes order
    details, transactions and book updates through \<open>UftBookMarketDataEngine\<close>.
  \<^item> The pipeline, which is the engine's book subscriber, applies the updates to a \<open>DensePriceOrderBook\<close> and
    to a tape of matches, checks that adapter and book agree, and calls the strategy.

  Beside this path there are an adapter to WonderTrader's structures (\<open>PsxWtsAdapter\<close>), a census of the
  orders of all instruments (\<open>OrderLifecycle\<close>), a map-based reference book (\<open>PriceTimeOrderBook\<close>), and the two
  rings of the Level 2 benchmark, \<open>SpscRing\<close> between threads and \<open>ShmRingProtocol\<close> between processes. The tools and the
  WonderTrader plug-in read historical files with \<open>scan_historical_file\<close> and drive the adapters with the records.

  \<^bold>\<open>Theories.\<close> Paths are relative to \<open>src/\<close>.

  \<^item> \<open>Prelude\<close>: widths, lemmas on lists, words and modular windows, the collections of rewrite rules.
  \<^item> \<open>LinearProbing\<close>: the probing invariant of an open addressing table and its back-shift deletion, shared
    by the two tables; \<open>FixedHashTable\<close> (\<open>include/qtrader/FixedHashTable.hpp\<close>) and \<open>OrderIndex\<close> (the index class of
    \<open>components/include/qtrader/DensePriceOrderBook.hpp\<close>) are implementations of a finite map. The interface of a table
    is a locale that the adapters and the pipeline use through its interpretation.
  \<^item> \<open>ItchWire\<close> (\<open>include/qtrader/NasdaqItch50.hpp\<close>): big-endian readers and message sizes. \<open>MoldUdp64\<close> (\<open>include/qtrader/MoldUdp64.hpp\<close>):
    the two-pass parser, the sequence tracker and request packets; the parser accepts exactly the encodings and reads
    nothing beyond the size. \<open>MoldRecovery\<close> (\<open>include/qtrader/MoldUdp64Recovery.hpp\<close>): exactly-once delivery in order,
    nothing deliverable is withheld, requests name missing messages.
  \<^item> \<open>DenseBook\<close>: the definitions of \<open>DensePriceOrderBook.hpp\<close>, one for each member function, on the arrays of
    nodes and levels, the bitmaps, the free list and the index. \<open>DenseBookInv\<close>: the invariant that relates
    them to a list of resting orders. \<open>DenseBookOps\<close>, \<open>DenseBookFeed\<close>, \<open>DenseBookMatch\<close>: every operation keeps it and
    acts as the specification on lists. \<open>DenseBookProps\<close>: the properties over
    arbitrary sequences of operations.
  \<^item> \<open>PriceTimeBook\<close>, \<open>PriceTimeInv\<close>, \<open>PriceTimeMatch\<close>, \<open>PriceTimeOps\<close>, \<open>PriceTimeProps\<close>
    (\<open>components/include/qtrader/PriceTimeOrderBook.hpp\<close>): the same for the reference book, its refinement of the same
    specification, and the agreement of the two books.
  \<^item> \<open>UftTypes\<close>, \<open>UftEngine\<close> (\<open>include/qtrader/UftTypes.hpp\<close>, \<open>UftMarketDataEngine.hpp\<close>, \<open>UftBookMarketDataEngine.hpp\<close>): registration,
    subscription, delivery to exactly those who asked. A strategy's \<open>on_init\<close> is a tree of subscriptions and look-ups.
  \<^item> \<open>UftAdapter\<close>, \<open>UftAdapterProps\<close>, \<open>UftAdapterThms\<close> (\<open>include/qtrader/NasdaqItchUftAdapter.hpp\<close>): every message type with its
    errors and counters, for any engine; each message changes the two maps by at most one book step, and that
    step is what is published.
  \<^item> \<open>Pipeline\<close>, \<open>PipelineSync\<close>, \<open>PipelineProps\<close>, \<open>PipelineThms\<close> (\<open>include/qtrader/UftOrderBookPipeline.hpp\<close>): the whole ingest with
    faults, gaps and recovery; the simulation between adapter and book; the strategy is a function from what it is
    called with to the calls it makes back.
  \<^item> \<open>MoldFeed\<close> (\<open>include/qtrader/UftBookMoldFeed.hpp\<close>): the composition, and the two end-to-end properties: the book
    is a function of the exchange's stream, and a live book misses nothing that any datagram revealed.
  \<^item> \<open>WtsAdapter\<close> (\<open>include/qtrader/NasdaqItchWtsAdapter.hpp\<close>) and \<open>OrderLifecycle\<close> (\<open>include/qtrader/NasdaqItchOrderLifecycle.hpp\<close>): both
    handlers in full, their agreement on the live orders, and the event accounting. \<open>AdapterMirror\<close>: the UFT
    adapter and the WonderTrader adapter emit the same events on a feed that obeys the specification;
    \<open>DifferentialReplay\<close> (\<open>tools/NasdaqItchUftDifferentialReplay.cpp\<close>): the tool that compares them finds nothing. \<open>Fingerprint\<close>
    (\<open>include/qtrader/WtsEventFingerprint.hpp\<close>): a change of one word of an event changes the digest.
  \<^item> \<open>HistoricalFile\<close> (\<open>include/qtrader/NasdaqItchFile.hpp\<close>): the buffered reader over any behaviour of \<open>read\<close> refines the
    framing of the bytes. \<open>Loopback\<close> (\<open>tools/NasdaqMoldUdpLoopback.cpp\<close>): packing a file into datagrams and
    receiving them loses nothing, for records that fit into a UDP datagram. \<open>Inspect\<close>, \<open>WtsReplay\<close> (\<open>tools/NasdaqItchInspect.cpp\<close>,
    \<open>NasdaqItchWtsReplay.cpp\<close>): what the exit statuses and the fault counters of the census mean. \<open>ParserItch\<close> (\<open>integration/wondertrader/ParserITCH/ParserITCH.cpp\<close>): what the plug-in hands to its listener, and
    its control operations interleaved with the worker thread.
  \<^item> \<open>SpscRing\<close>, \<open>ShmRing\<close> (\<open>components/include/qtrader/SpscRing.hpp\<close>, \<open>ShmRingProtocol.hpp\<close>): the operations, and step relations in
    which the two threads interleave access by access; the properties hold for every interleaving.

  \<^bold>\<open>Modelling.\<close> Structures are records, enumerations are datatypes, 64, 32 and 16 bit integers are words
  with wrap-around; \<open>int64_t\<close> prices are integers: the pipeline's bounds keep the differences of prices in range, while a book with
  a minimum near \<open>INT64_MIN\<close>, where the subtraction could overflow, is outside the model. The sizes of \<open>FixedHashTable\<close> are natural
  numbers, so the overflow of a byte count of gigantic tables is outside it too. A pointer and a size are an
  optional byte list and a number, and reading beyond the size is excluded by theorem. Exceptions of
  constructors are the left summand of a sum. Callbacks that cannot reach the state are the list of calls made. Loops are
  recursive functions with termination proofs; the loops that read a file are partial functions, proved to return for every reader that
  reads the file to its end after finitely many interruptions; the matching loops, the walk along a level and the spinning push, which
  the types do not bound, are partial functions; the first two are proved to return on every state with the invariant, the last one
  as soon as the other thread has made room. The interleaving relations treat the
  release and acquire accesses as sequentially consistent; the last store of the plug-in's worker is one step with its end. The
  flow control in the relation of the shared memory ring is that of \<open>src/Level2Pipeline.cpp\<close>. The shared memory theorem assumes that the number of published
  items plus the capacity stays below \<open>2 ^ 64\<close>.

  \<^bold>\<open>Findings.\<close> A buffered datagram that others overtake keeps its slot for ever; without flow control the shared
  memory ring accepts torn items; the WonderTrader adapter emits a bust for a trade whose emission it refused.

  \<^bold>\<open>Not modelled.\<close> The rest of \<open>Level2Pipeline.cpp\<close>, the benchmarks, the smoke tests and \<open>UftOrderBookReplay.cpp\<close>, which are clocks,
  sockets, threads, memory mapping and printing around the modelled parts; in the modelled tools the parsing of arguments,
  clocks and printing; third-party headers; the padding members of the structures. IEEE arithmetic is not modelled: the
  division of a price by 10000, its reversal and the comparison of a price with zero are arguments of the definitions that use them.
\<close>

end
